(* ===== verification/Prelude.thy ===== *)
theory Prelude
  imports Main "HOL-Library.Multiset" "HOL-Library.Char_ord" "HOL-Library.List_Lexorder" "HOL-Library.Sublist"
begin

text \<open>
  The vocabulary every component shares: results that carry an error, the string and array
  operations of JavaScript the sources call, and JavaScript's stable sort by a comparator.

  A \<open>string\<close> is a list of 8-bit characters. ASCII characters stand for themselves and a
  character from 128 on stands for one byte of a UTF-8 encoding, so that the length of a string
  is the byte length of the buffer the code writes.
\<close>

named_theorems res_simps "unfolding of results that carry an error"
named_theorems str_simps "the string operations"

section \<open>Results\<close>

text \<open>A call that may throw is a value of \<open>'e + 'a\<close>: \<open>Inl e\<close> is the error thrown.\<close>

primrec rbind :: "'e + 'a \<Rightarrow> ('a \<Rightarrow> 'e + 'b) \<Rightarrow> 'e + 'b" where
  "rbind (Inl e) f = Inl e"
| "rbind (Inr x) f = f x"

definition guard :: "bool \<Rightarrow> 'e \<Rightarrow> 'e + unit" where
  "guard c e = (if c then Inr () else Inl e)"

primrec is_ok :: "'e + 'a \<Rightarrow> bool" where
  "is_ok (Inl e) = False"
| "is_ok (Inr x) = True"

primrec map_res :: "('a \<Rightarrow> 'e + 'b) \<Rightarrow> 'a list \<Rightarrow> 'e + 'b list" where
  "map_res f [] = Inr []"
| "map_res f (x # xs) = rbind (f x) (\<lambda>y. rbind (map_res f xs) (\<lambda>ys. Inr (y # ys)))"

primrec map_opt :: "('a \<Rightarrow> 'b option) \<Rightarrow> 'a list \<Rightarrow> 'b list option" where
  "map_opt f [] = Some []"
| "map_opt f (x # xs) =
     (case f x of None \<Rightarrow> None
      | Some y \<Rightarrow> (case map_opt f xs of None \<Rightarrow> None | Some ys \<Rightarrow> Some (y # ys)))"

lemma rbind_Inr [simp]: "rbind m f = Inr y \<longleftrightarrow> (\<exists>x. m = Inr x \<and> f x = Inr y)"
  by (cases m) auto

lemma rbind_Inl: "rbind m f = Inl e \<longleftrightarrow> m = Inl e \<or> (\<exists>x. m = Inr x \<and> f x = Inl e)"
  by (cases m) auto

lemma guard_Inr [simp]: "guard c e = Inr u \<longleftrightarrow> c"
  by (simp add: guard_def)

lemma guard_Inl [simp]: "guard c e = Inl e' \<longleftrightarrow> \<not> c \<and> e' = e"
  by (auto simp: guard_def)

lemma guard_True [simp]: "c \<Longrightarrow> guard c e = Inr ()"
  by (simp add: guard_def)

lemma is_ok_iff: "is_ok r \<longleftrightarrow> (\<exists>x. r = Inr x)"
  by (cases r) auto

lemma rbind_assoc: "rbind (rbind m f) g = rbind m (\<lambda>x. rbind (f x) g)"
  by (cases m) auto

lemma rbind_guard: "rbind (guard c e) f = (if c then f () else Inl e)"
  by (simp add: guard_def)

lemma rbind_cong [fundef_cong]:
  "m = m' \<Longrightarrow> (\<And>x. m' = Inr x \<Longrightarrow> f x = f' x) \<Longrightarrow> rbind m f = rbind m' f'"
  by (cases m') auto

lemmas [res_simps] = rbind_assoc rbind_guard rbind_Inl

lemma map_res_Inr:
  "map_res f xs = Inr ys \<longleftrightarrow> list_all2 (\<lambda>x y. f x = Inr y) xs ys"
  by (induction xs arbitrary: ys) (auto simp: list_all2_Cons1)

lemma map_res_length: "map_res f xs = Inr ys \<Longrightarrow> length ys = length xs"
  by (simp add: map_res_Inr list_all2_lengthD)

lemma map_opt_Some:
  "map_opt f xs = Some ys \<longleftrightarrow> list_all2 (\<lambda>x y. f x = Some y) xs ys"
proof (induction xs arbitrary: ys)
  case Nil
  then show ?case by auto
next
  case (Cons a xs)
  show ?case
  proof (cases ys)
    case Nil
    then show ?thesis by (auto split: option.splits)
  next
    case (Cons y ys')
    then show ?thesis
      using Cons.IH [of ys'] by (auto split: option.splits)
  qed
qed

lemma map_opt_map: "(\<And>x. x \<in> set xs \<Longrightarrow> f x = Some (g x)) \<Longrightarrow> map_opt f xs = Some (map g xs)"
  by (induction xs) auto

section \<open>Strings\<close>

text \<open>\<open>s.split(c)\<close> for a one-character separator, \<open>xs.join(s)\<close>, \<open>startsWith\<close>, \<open>endsWith\<close>, \<open>includes\<close>.\<close>

fun split_on :: "char \<Rightarrow> string \<Rightarrow> string list" where
  "split_on c [] = [[]]"
| "split_on c (x # xs) =
     (if x = c then [] # split_on c xs
      else (case split_on c xs of [] \<Rightarrow> [[x]] | y # ys \<Rightarrow> (x # y) # ys))"

fun join_with :: "string \<Rightarrow> string list \<Rightarrow> string" where
  "join_with s [] = []"
| "join_with s [x] = x"
| "join_with s (x # y # ys) = x @ s @ join_with s (y # ys)"

definition starts_with :: "string \<Rightarrow> string \<Rightarrow> bool" where
  "starts_with p s \<longleftrightarrow> take (length p) s = p"

definition ends_with :: "string \<Rightarrow> string \<Rightarrow> bool" where
  "ends_with p s \<longleftrightarrow> starts_with (rev p) (rev s)"

definition has_char :: "char \<Rightarrow> string \<Rightarrow> bool" where
  "has_char c s \<longleftrightarrow> c \<in> set s"

lemma split_on_not_Nil [simp]: "split_on c s \<noteq> []"
  by (induction s) (auto split: list.splits)

lemma split_on_Cons_ex: "\<exists>y ys. split_on c s = y # ys"
  by (cases "split_on c s") auto

lemma join_split [simp]: "join_with [c] (split_on c s) = s"
proof (induction s)
  case Nil
  then show ?case by simp
next
  case (Cons x xs)
  obtain y ys where y: "split_on c xs = y # ys"
    using split_on_Cons_ex by blast
  with Cons show ?case by (cases ys) auto
qed

lemma split_on_no_sep: "c \<notin> set s \<Longrightarrow> split_on c s = [s]"
  by (induction s) auto

lemma split_on_append_sep:
  "c \<notin> set x \<Longrightarrow> split_on c (x @ c # s) = x # split_on c s"
  by (induction x) auto

lemma split_on_append: "split_on c (a @ c # b) = split_on c a @ split_on c b"
proof (induction a)
  case (Cons x a)
  obtain y ys where "split_on c a = y # ys" using split_on_Cons_ex by blast
  with Cons show ?case by auto
qed simp

lemma split_join:
  "xs \<noteq> [] \<Longrightarrow> \<forall>x \<in> set xs. c \<notin> set x \<Longrightarrow> split_on c (join_with [c] xs) = xs"
  by (induction "[c]" xs rule: join_with.induct) (auto simp: split_on_no_sep split_on_append_sep)

lemma split_on_no_char: "x \<in> set (split_on c s) \<Longrightarrow> c \<notin> set x"
proof (induction s arbitrary: x)
  case Nil
  then show ?case by simp
next
  case (Cons a s)
  obtain y ys where y: "split_on c s = y # ys"
    using split_on_Cons_ex by blast
  with Cons show ?case by (auto split: if_splits)
qed

lemma starts_with_prefix [str_simps]: "starts_with p s \<longleftrightarrow> prefix p s"
  by (auto simp: starts_with_def prefix_def) (metis append_take_drop_id)

lemma ends_with_suffix [str_simps]: "ends_with p s \<longleftrightarrow> suffix p s"
  by (simp add: ends_with_def starts_with_prefix suffix_to_prefix)

lemma has_char_in [str_simps]: "has_char c s \<longleftrightarrow> c \<in> set s"
  by (simp add: has_char_def)

text \<open>The characters of a regular expression class.\<close>

definition is_digit :: "char \<Rightarrow> bool" where
  "is_digit c \<longleftrightarrow> c \<in> set ''0123456789''"

definition is_hex_digit :: "char \<Rightarrow> bool" where
  "is_hex_digit c \<longleftrightarrow> c \<in> set ''0123456789abcdef''"

definition is_alpha :: "char \<Rightarrow> bool" where
  "is_alpha c \<longleftrightarrow> c \<in> set ''ABCDEFGHIJKLMNOPQRSTUVWXYZabcdefghijklmnopqrstuvwxyz''"

text \<open>\<open>toLowerCase\<close> on the ASCII letters, the only ones the sources compare with.\<close>

definition lower_char :: "char \<Rightarrow> char" where
  "lower_char c =
     (case map_of (zip ''ABCDEFGHIJKLMNOPQRSTUVWXYZ'' ''abcdefghijklmnopqrstuvwxyz'') c of
        None \<Rightarrow> c | Some d \<Rightarrow> d)"

definition to_lower :: "string \<Rightarrow> string" where
  "to_lower s = map lower_char s"

section \<open>Decimal numbers\<close>

definition digit_char :: "nat \<Rightarrow> char" where
  "digit_char d = ''0123456789'' ! d"

fun digit_val :: "char \<Rightarrow> nat" where
  "digit_val c = length (takeWhile (\<lambda>d. d \<noteq> c) ''0123456789'')"

fun show_nat :: "nat \<Rightarrow> string" where
  "show_nat n = (if n < 10 then [digit_char n] else show_nat (n div 10) @ [digit_char (n mod 10)])"

declare show_nat.simps [simp del]

definition show_int :: "int \<Rightarrow> string" where
  "show_int i = (if i < 0 then CHR ''-'' # show_nat (nat (- i)) else show_nat (nat i))"

definition read_nat :: "string \<Rightarrow> nat" where
  "read_nat s = foldl (\<lambda>n c. 10 * n + digit_val c) 0 s"

lemma less10_cases:
  "(d :: nat) < 10 \<Longrightarrow> d = 0 \<or> d = 1 \<or> d = 2 \<or> d = 3 \<or> d = 4 \<or> d = 5 \<or> d = 6 \<or> d = 7 \<or> d = 8 \<or> d = 9"
  by arith

lemma digit_char_props:
  assumes "d < 10"
  shows "is_digit (digit_char d)" "digit_val (digit_char d) = d"
    "digit_char d = CHR ''0'' \<longleftrightarrow> d = 0"
  using less10_cases [OF assms] by (auto simp: digit_char_def is_digit_def)

lemma show_nat_digits: "\<forall>c \<in> set (show_nat n). is_digit c"
proof (induction n rule: show_nat.induct)
  case (1 n)
  then show ?case
    by (cases "n < 10") (auto simp: show_nat.simps [of n] digit_char_props)
qed

lemma show_nat_not_Nil [simp]: "show_nat n \<noteq> []"
  by (subst show_nat.simps) simp

lemma read_show_nat [simp]: "read_nat (show_nat n) = n"
proof (induction n rule: show_nat.induct)
  case (1 n)
  show ?case
  proof (cases "n < 10")
    case True
    then show ?thesis
      by (simp add: show_nat.simps [of n] read_nat_def digit_char_props del: digit_val.simps)
  next
    case False
    then have "read_nat (show_nat (n div 10)) = n div 10"
      using 1 by simp
    with False show ?thesis
      by (simp add: show_nat.simps [of n] read_nat_def digit_char_props del: digit_val.simps)
  qed
qed

lemma hd_show_nat: "hd (show_nat n) = CHR ''0'' \<longleftrightarrow> n = 0"
proof (induction n rule: show_nat.induct)
  case (1 n)
  then show ?case
    by (cases "n < 10") (auto simp: show_nat.simps [of n] digit_char_props hd_append)
qed

lemma show_nat_inject [simp]: "show_nat m = show_nat n \<longleftrightarrow> m = n"
  by (metis read_show_nat)

section \<open>Stable sort by a comparator\<close>

text \<open>
  \<open>xs.sort(cmp)\<close> is a stable sort; the comparator returns a number whose sign decides. Any stable
  sort gives the same list, so the model sorts by insertion.
\<close>

fun insert_cmp :: "('a \<Rightarrow> 'a \<Rightarrow> int) \<Rightarrow> 'a \<Rightarrow> 'a list \<Rightarrow> 'a list" where
  "insert_cmp cmp x [] = [x]"
| "insert_cmp cmp x (y # ys) = (if cmp x y \<le> 0 then x # y # ys else y # insert_cmp cmp x ys)"

definition sort_cmp :: "('a \<Rightarrow> 'a \<Rightarrow> int) \<Rightarrow> 'a list \<Rightarrow> 'a list" where
  "sort_cmp cmp xs = foldr (insert_cmp cmp) xs []"

lemma set_sort_cmp_gen: "set (sort_cmp cmp xs) = set xs"
proof -
  have "set (insert_cmp cmp x ys) = insert x (set ys)" for x ys
    by (induction cmp x ys rule: insert_cmp.induct) auto
  then show ?thesis by (induction xs) (auto simp: sort_cmp_def)
qed

locale comparator =
  fixes cmp :: "'a \<Rightarrow> 'a \<Rightarrow> int"
  assumes cmp_sym: "cmp x y < 0 \<longleftrightarrow> 0 < cmp y x"
    and cmp_trans: "cmp x y \<le> 0 \<Longrightarrow> cmp y z \<le> 0 \<Longrightarrow> cmp x z \<le> 0"
begin

lemma cmp_total: "cmp x y \<le> 0 \<or> cmp y x \<le> 0"
  using cmp_sym [of x y] cmp_sym [of y x] by linarith

lemma cmp_refl: "cmp x x \<le> 0"
  using cmp_total by blast

lemma set_insert_cmp: "set (insert_cmp cmp x ys) = insert x (set ys)"
  by (induction ys) auto

lemma set_sort_cmp: "set (sort_cmp cmp xs) = set xs"
  by (induction xs) (auto simp: sort_cmp_def set_insert_cmp)

lemma mset_sort_cmp: "mset (sort_cmp cmp xs) = mset xs"
proof -
  have ins: "mset (insert_cmp cmp x ys) = add_mset x (mset ys)" for x ys
    by (induction ys) auto
  show ?thesis by (induction xs) (auto simp: sort_cmp_def ins)
qed

lemma sorted_insert_cmp:
  "sorted_wrt (\<lambda>a b. cmp a b \<le> 0) ys \<Longrightarrow> sorted_wrt (\<lambda>a b. cmp a b \<le> 0) (insert_cmp cmp x ys)"
proof (induction ys)
  case Nil
  then show ?case by simp
next
  case (Cons y ys)
  have "cmp x y \<le> 0 \<or> cmp y x \<le> 0" by (rule cmp_total)
  with Cons show ?case by (auto simp: set_insert_cmp intro: cmp_trans)
qed

lemma sorted_sort_cmp: "sorted_wrt (\<lambda>a b. cmp a b \<le> 0) (sort_cmp cmp xs)"
  by (induction xs) (auto simp: sort_cmp_def sorted_insert_cmp)

lemma distinct_sort_cmp: "distinct (sort_cmp cmp xs) = distinct xs"
  by (metis mset_eq_imp_distinct_iff mset_sort_cmp)

lemma length_sort_cmp: "length (sort_cmp cmp xs) = length xs"
  by (metis mset_sort_cmp size_mset)

lemmas sort_cmp_facts = set_sort_cmp sorted_sort_cmp distinct_sort_cmp length_sort_cmp

end

text \<open>\<open>left < right ? -1 : left > right ? 1 : 0\<close>, the comparator the sources write out.\<close>

definition compare_strings :: "string \<Rightarrow> string \<Rightarrow> int" where
  "compare_strings l r = (if l < r then -1 else if r < l then 1 else 0)"

interpretation strings: comparator compare_strings
  by unfold_locales (auto simp: compare_strings_def split: if_splits)

section \<open>Lists\<close>

text \<open>A list indexed from 1 that is overwritten at an index or extended by one, as the code does with \<open>latest[ordinal - 1] = record\<close>.\<close>

definition put_at :: "'a list \<Rightarrow> nat \<Rightarrow> 'a \<Rightarrow> 'a list" where
  "put_at xs i x = (if i < length xs then xs[i := x] else xs @ [x])"

definition get_at :: "'a list \<Rightarrow> nat \<Rightarrow> 'a option" where
  "get_at xs i = (if i < length xs then Some (xs ! i) else None)"

lemma length_put_at: "length (put_at xs i x) = (if i < length xs then length xs else Suc (length xs))"
  by (simp add: put_at_def)

lemma put_at_end [simp]: "put_at xs (length xs) x = xs @ [x]"
  by (simp add: put_at_def)

lemma get_at_put_at:
  "i \<le> length xs \<Longrightarrow> get_at (put_at xs i x) j = (if j = i then Some x else get_at xs j)"
  by (auto simp: get_at_def put_at_def nth_append)

lemma foldl_keeps: "P s \<Longrightarrow> (\<And>s x. P s \<Longrightarrow> P (f s x)) \<Longrightarrow> P (foldl f s xs)"
  by (induction xs arbitrary: s) auto

lemma sorted_strict_distinct: "sorted_wrt (<) (xs :: string list) \<Longrightarrow> distinct xs"
  by (induction xs) auto

text \<open>The loop that compares each element with the one before it.\<close>

fun strictly_ascending :: "string list \<Rightarrow> bool" where
  "strictly_ascending (x # y # ys) = (x < y \<and> strictly_ascending (y # ys))"
| "strictly_ascending _ = True"

lemma strictly_ascending_sorted: "strictly_ascending xs \<longleftrightarrow> sorted_wrt (<) xs"
proof (induction xs rule: strictly_ascending.induct)
  case (1 x y ys)
  then show ?case by (auto dest: less_trans)
qed auto

end
