(* ===== verification/Json.thy ===== *)
theory Json
  imports Prelude
begin

text \<open>
  The JavaScript values the sources validate and serialise, the canonical encoder
  (\<open>encodeJson\<close> and \<open>canonicalJson\<close> of \<open>src/src/encoding.ts\<close>), and \<open>JSON.parse\<close> of the
  JavaScript library, with the round trip between them.

  A value is a tree. \<open>JHole\<close> is a slot of a sparse array, \<open>JExotic\<close> a function, a symbol or a
  bigint, \<open>JInst\<close> an object that is not plain or has a property that is not an enumerable data
  property; \<open>JSON.parse\<close> never builds one of these. Cyclic values are not trees and are outside
  the model. A number is an integer, a finite number that is not an integer (kept as the text
  \<open>JSON.stringify\<close> gives for it), or not finite; integers are meant to stay within the range a
  double holds exactly.
\<close>

datatype jnum = JInt int | JFrac string | JNonFinite

datatype jsval =
    JNull
  | JUndef
  | JBool bool
  | JNum jnum
  | JStr string
  | JArr "jsval list"
  | JObj "(string \<times> jsval) list"
  | JHole
  | JExotic
  | JInst "(string \<times> jsval) list"

lemma size_snd_obj [termination_simp]:
  "p \<in> set ps \<Longrightarrow> size (snd p) < Suc (size_list (size_prod (\<lambda>_. 0) size) ps)"
  by (induction ps) auto

lemma map_opt_cong [fundef_cong]:
  "xs = ys \<Longrightarrow> (\<And>x. x \<in> set ys \<Longrightarrow> f x = g x) \<Longrightarrow> map_opt f xs = map_opt g ys"
  by (induction xs arbitrary: ys) (auto cong: option.case_cong)

section \<open>Reading a value\<close>

text \<open>\<open>record.key\<close>, which is \<open>undefined\<close> where there is no such property.\<close>

definition props :: "jsval \<Rightarrow> (string \<times> jsval) list" where
  "props v = (case v of JObj ps \<Rightarrow> ps | JInst ps \<Rightarrow> ps | _ \<Rightarrow> [])"

definition fld :: "jsval \<Rightarrow> string \<Rightarrow> jsval" where
  "fld v k = (case map_of (props v) k of None \<Rightarrow> JUndef | Some w \<Rightarrow> w)"

definition str_of :: "jsval \<Rightarrow> string" where
  "str_of v = (case v of JStr s \<Rightarrow> s | _ \<Rightarrow> [])"

definition opt_str_of :: "jsval \<Rightarrow> string option" where
  "opt_str_of v = (case v of JStr s \<Rightarrow> Some s | _ \<Rightarrow> None)"

definition int_of :: "jsval \<Rightarrow> int" where
  "int_of v = (case v of JNum (JInt i) \<Rightarrow> i | _ \<Rightarrow> 0)"

definition arr_of :: "jsval \<Rightarrow> jsval list" where
  "arr_of v = (case v of JArr xs \<Rightarrow> xs | _ \<Rightarrow> [])"

definition is_string :: "jsval \<Rightarrow> bool" where
  "is_string v = (case v of JStr _ \<Rightarrow> True | _ \<Rightarrow> False)"

definition is_array :: "jsval \<Rightarrow> bool" where
  "is_array v = (case v of JArr _ \<Rightarrow> True | _ \<Rightarrow> False)"

definition jstrs :: "string list \<Rightarrow> jsval" where
  "jstrs xs = JArr (map JStr xs)"

definition jopt :: "string option \<Rightarrow> jsval" where
  "jopt x = (case x of None \<Rightarrow> JNull | Some s \<Rightarrow> JStr s)"

text \<open>\<open>const { [key]: ignored, ...content } = record\<close>.\<close>

definition without :: "string \<Rightarrow> jsval \<Rightarrow> jsval" where
  "without k v = JObj (filter (\<lambda>p. fst p \<noteq> k) (props v))"

lemma fld_JObj_Cons [simp]: "fld (JObj ((k, v) # ps)) k' = (if k' = k then v else fld (JObj ps) k')"
  by (simp add: fld_def props_def)

lemma fld_JObj_Nil [simp]: "fld (JObj []) k = JUndef"
  by (simp add: fld_def props_def)

lemma str_of_JStr [simp]: "str_of (JStr s) = s"
  by (simp add: str_of_def)

lemma int_of_JNum [simp]: "int_of (JNum (JInt i)) = i"
  by (simp add: int_of_def)

lemma arr_of_JArr [simp]: "arr_of (JArr xs) = xs"
  by (simp add: arr_of_def)

lemma opt_str_of_jopt [simp]: "opt_str_of (jopt x) = x"
  by (cases x) (auto simp: jopt_def opt_str_of_def)

lemma opt_str_of_simps [simp]: "opt_str_of (JStr s) = Some s" "opt_str_of JNull = None" "opt_str_of JUndef = None"
  by (simp_all add: opt_str_of_def)

lemma is_string_simps [simp]: "is_string (JStr s)" "\<not> is_string JNull" "\<not> is_string JUndef"
  by (simp_all add: is_string_def)

lemma is_string_ex: "is_string v \<longleftrightarrow> (\<exists>s. v = JStr s)"
  by (cases v) (auto simp: is_string_def)

section \<open>The canonical encoder\<close>

abbreviation (input) DQ :: char where "DQ \<equiv> CHR 0x22"
abbreviation (input) BSL :: char where "BSL \<equiv> CHR 0x5C"

definition hex_char :: "nat \<Rightarrow> char" where
  "hex_char d = ''0123456789abcdef'' ! d"

text \<open>\<open>JSON.stringify\<close> of a string.\<close>

definition escape_char :: "char \<Rightarrow> string" where
  "escape_char c =
     (if c = DQ then [BSL, DQ]
      else if c = BSL then [BSL, BSL]
      else if c = CHR 0x08 then [BSL, CHR ''b'']
      else if c = CHR 0x09 then [BSL, CHR ''t'']
      else if c = CHR 0x0A then [BSL, CHR ''n'']
      else if c = CHR 0x0C then [BSL, CHR ''f'']
      else if c = CHR 0x0D then [BSL, CHR ''r'']
      else if (of_char c :: nat) < 32 then
        [BSL, CHR ''u'', CHR ''0'', CHR ''0'', hex_char (of_char c div 16), hex_char (of_char c mod 16)]
      else [c])"

definition quote :: "string \<Rightarrow> string" where
  "quote s = DQ # concat (map escape_char s) @ [DQ]"

definition encode_num :: "jnum \<Rightarrow> string option" where
  "encode_num n = (case n of JInt i \<Rightarrow> Some (show_int i) | JFrac t \<Rightarrow> Some t | JNonFinite \<Rightarrow> None)"

definition encode_prop :: "string \<times> string \<Rightarrow> string" where
  "encode_prop p = quote (fst p) @ '':'' @ snd p"

text \<open>\<open>None\<close> is the \<open>TypeError\<close> the encoder throws for anything that is not a JSON value.\<close>

fun encodeJson :: "jsval \<Rightarrow> string option" where
  "encodeJson JNull = Some ''null''"
| "encodeJson (JBool b) = Some (if b then ''true'' else ''false'')"
| "encodeJson (JStr s) = Some (quote s)"
| "encodeJson (JNum n) = encode_num n"
| "encodeJson (JArr xs) =
     (case map_opt encodeJson xs of None \<Rightarrow> None
      | Some items \<Rightarrow> Some (''['' @ join_with '','' items @ '']''))"
| "encodeJson (JObj ps) =
     (case map_opt (\<lambda>p. map_option (Pair (fst p)) (encodeJson (snd p))) ps of None \<Rightarrow> None
      | Some qs \<Rightarrow> Some (''{'' @ join_with '','' (map encode_prop (sort_key fst qs)) @ ''}''))"
| "encodeJson _ = None"

definition canonicalJson :: "jsval \<Rightarrow> string option" where
  "canonicalJson v = encodeJson v"

section \<open>The library's parser\<close>

definition is_ws :: "char \<Rightarrow> bool" where
  "is_ws c \<longleftrightarrow> c = CHR 0x20 \<or> c = CHR 0x09 \<or> c = CHR 0x0A \<or> c = CHR 0x0D"

fun skip_ws :: "string \<Rightarrow> string" where
  "skip_ws [] = []"
| "skip_ws (c # cs) = (if is_ws c then skip_ws cs else c # cs)"

definition hex_val :: "char \<Rightarrow> nat option" where
  "hex_val c =
     (if c \<in> set ''0123456789abcdef'' then Some (length (takeWhile (\<lambda>d. d \<noteq> c) ''0123456789abcdef''))
      else if c \<in> set ''ABCDEF'' then Some (10 + length (takeWhile (\<lambda>d. d \<noteq> c) ''ABCDEF''))
      else None)"

text \<open>The UTF-8 bytes of a code unit written as an escape.\<close>

definition utf8_unit :: "nat \<Rightarrow> string" where
  "utf8_unit n =
     (if n < 128 then [char_of n]
      else if n < 2048 then [char_of (192 + n div 64), char_of (128 + n mod 64)]
      else [char_of (224 + n div 4096), char_of (128 + (n div 64) mod 64), char_of (128 + n mod 64)])"

definition simple_escape :: "char \<Rightarrow> char option" where
  "simple_escape e =
     map_of [(DQ, DQ), (BSL, BSL), (CHR ''/'', CHR ''/''), (CHR ''b'', CHR 0x08), (CHR ''f'', CHR 0x0C),
             (CHR ''n'', CHR 0x0A), (CHR ''r'', CHR 0x0D), (CHR ''t'', CHR 0x09)] e"

definition prepend :: "string \<Rightarrow> (string \<times> string) option \<Rightarrow> (string \<times> string) option" where
  "prepend p r = (case r of None \<Rightarrow> None | Some (s, t) \<Rightarrow> Some (p @ s, t))"

definition hex4 :: "char \<Rightarrow> char \<Rightarrow> char \<Rightarrow> char \<Rightarrow> nat option" where
  "hex4 a b c d =
     (case (hex_val a, hex_val b, hex_val c, hex_val d) of
        (Some w, Some x, Some y, Some z) \<Rightarrow> Some (4096 * w + 256 * x + 16 * y + z)
      | _ \<Rightarrow> None)"

text \<open>The text of a string literal after its opening quote.\<close>

fun parse_str :: "string \<Rightarrow> (string \<times> string) option" where
  "parse_str [] = None"
| "parse_str (c # cs) =
     (if c = DQ then Some ([], cs)
      else if c = BSL then
        (case cs of
           [] \<Rightarrow> None
         | e # r \<Rightarrow>
             if e = CHR ''u'' then
               (case r of
                  h1 # h2 # h3 # h4 # r' \<Rightarrow>
                    (case hex4 h1 h2 h3 h4 of None \<Rightarrow> None | Some n \<Rightarrow> prepend (utf8_unit n) (parse_str r'))
                | _ \<Rightarrow> None)
             else (case simple_escape e of None \<Rightarrow> None | Some d \<Rightarrow> prepend [d] (parse_str r)))
      else if (of_char c :: nat) < 32 then None
      else prepend [c] (parse_str cs))"

definition is_num_char :: "char \<Rightarrow> bool" where
  "is_num_char c \<longleftrightarrow> c \<in> set ''0123456789+-.eE''"

definition valid_int :: "string \<Rightarrow> bool" where
  "valid_int ds \<longleftrightarrow> ds \<noteq> [] \<and> list_all is_digit ds \<and> (hd ds \<noteq> CHR ''0'' \<or> length ds = 1)"

definition valid_exp :: "string \<Rightarrow> bool" where
  "valid_exp t \<longleftrightarrow>
     (case t of
        [] \<Rightarrow> True
      | e # r \<Rightarrow> (e = CHR ''e'' \<or> e = CHR ''E'') \<and>
          (let ds = (case r of s # r' \<Rightarrow> if s = CHR ''+'' \<or> s = CHR ''-'' then r' else r | [] \<Rightarrow> [])
           in ds \<noteq> [] \<and> list_all is_digit ds))"

definition valid_frac :: "string \<Rightarrow> bool" where
  "valid_frac t \<longleftrightarrow>
     (case t of
        c # r \<Rightarrow> if c = CHR ''.'' then takeWhile is_digit r \<noteq> [] \<and> valid_exp (dropWhile is_digit r)
                 else valid_exp t
      | [] \<Rightarrow> False)"

definition num_of_token :: "string \<Rightarrow> jnum option" where
  "num_of_token t =
     (let u = (case t of c # r \<Rightarrow> if c = CHR ''-'' then r else t | [] \<Rightarrow> []);
          ds = takeWhile is_digit u; r = dropWhile is_digit u
      in if \<not> valid_int ds then None
         else if r = [] then Some (JInt (if u = t then int (read_nat ds) else - int (read_nat ds)))
         else if valid_frac r then Some (JFrac t) else None)"

definition parse_lit :: "string \<Rightarrow> (jsval \<times> string) option" where
  "parse_lit s =
     (if starts_with ''null'' s then Some (JNull, drop 4 s)
      else if starts_with ''true'' s then Some (JBool True, drop 4 s)
      else if starts_with ''false'' s then Some (JBool False, drop 5 s)
      else None)"

definition parse_num :: "string \<Rightarrow> (jsval \<times> string) option" where
  "parse_num s =
     (case num_of_token (takeWhile is_num_char s) of None \<Rightarrow> None
      | Some n \<Rightarrow> Some (JNum n, dropWhile is_num_char s))"

text \<open>A repeated key keeps the place of its first occurrence and takes the last value.\<close>

fun set_prop :: "string \<Rightarrow> jsval \<Rightarrow> (string \<times> jsval) list \<Rightarrow> (string \<times> jsval) list" where
  "set_prop k v [] = [(k, v)]"
| "set_prop k v (p # ps) = (if fst p = k then (k, v) # ps else p # set_prop k v ps)"

definition obj_of_members :: "(string \<times> jsval) list \<Rightarrow> jsval" where
  "obj_of_members ms = JObj (foldl (\<lambda>ps m. set_prop (fst m) (snd m) ps) [] ms)"

fun parse_val :: "nat \<Rightarrow> string \<Rightarrow> (jsval \<times> string) option"
  and parse_elems :: "nat \<Rightarrow> string \<Rightarrow> (jsval list \<times> string) option"
  and parse_members :: "nat \<Rightarrow> string \<Rightarrow> ((string \<times> jsval) list \<times> string) option" where
  "parse_val 0 s = None"
| "parse_val (Suc n) s =
     (case skip_ws s of
        [] \<Rightarrow> None
      | c # r \<Rightarrow>
          if c = CHR ''{'' then
            (case skip_ws r of
               [] \<Rightarrow> None
             | d # r' \<Rightarrow>
                 if d = CHR ''}'' then Some (JObj [], r')
                 else (case parse_members n (d # r') of None \<Rightarrow> None
                       | Some (ms, t) \<Rightarrow> Some (obj_of_members ms, t)))
          else if c = CHR ''['' then
            (case skip_ws r of
               [] \<Rightarrow> None
             | d # r' \<Rightarrow>
                 if d = CHR '']'' then Some (JArr [], r')
                 else (case parse_elems n (d # r') of None \<Rightarrow> None
                       | Some (vs, t) \<Rightarrow> Some (JArr vs, t)))
          else if c = DQ then (case parse_str r of None \<Rightarrow> None | Some (u, t) \<Rightarrow> Some (JStr u, t))
          else if c = CHR ''-'' \<or> is_digit c then parse_num (c # r)
          else parse_lit (c # r))"
| "parse_elems 0 s = None"
| "parse_elems (Suc n) s =
     (case parse_val n s of
        None \<Rightarrow> None
      | Some (v, r) \<Rightarrow>
          (case skip_ws r of
             [] \<Rightarrow> None
           | c # r' \<Rightarrow>
               if c = CHR '','' then
                 (case parse_elems n r' of None \<Rightarrow> None | Some (vs, t) \<Rightarrow> Some (v # vs, t))
               else if c = CHR '']'' then Some ([v], r')
               else None))"
| "parse_members 0 s = None"
| "parse_members (Suc n) s =
     (case skip_ws s of
        [] \<Rightarrow> None
      | c # r \<Rightarrow>
          if c \<noteq> DQ then None
          else (case parse_str r of
             None \<Rightarrow> None
           | Some (k, r1) \<Rightarrow>
               (case skip_ws r1 of
                  [] \<Rightarrow> None
                | d # r2 \<Rightarrow>
                    if d \<noteq> CHR '':'' then None
                    else (case parse_val n r2 of
                       None \<Rightarrow> None
                     | Some (v, r3) \<Rightarrow>
                         (case skip_ws r3 of
                            [] \<Rightarrow> None
                          | e # r4 \<Rightarrow>
                              if e = CHR '','' then
                                (case parse_members n r4 of None \<Rightarrow> None
                                 | Some (ms, t) \<Rightarrow> Some ((k, v) # ms, t))
                              else if e = CHR ''}'' then Some ([(k, v)], r4)
                              else None)))))"

text \<open>\<open>JSON.parse\<close>; \<open>None\<close> is the \<open>SyntaxError\<close>. Every nested value costs at most two units of
  fuel per character, so twice the length is enough (\<open>parse_fuel_enough\<close>).\<close>

definition json_parse :: "string \<Rightarrow> jsval option" where
  "json_parse s =
     (case parse_val (2 * length s + 2) s of
        None \<Rightarrow> None
      | Some (v, r) \<Rightarrow> if skip_ws r = [] then Some v else None)"

section \<open>JSON values and their normal form\<close>

fun json_ok :: "jsval \<Rightarrow> bool" where
  "json_ok JNull = True"
| "json_ok (JBool b) = True"
| "json_ok (JStr s) = True"
| "json_ok (JNum n) = (case n of JInt i \<Rightarrow> True | JFrac t \<Rightarrow> num_of_token t = Some (JFrac t) \<and> list_all is_num_char t | JNonFinite \<Rightarrow> False)"
| "json_ok (JArr xs) = list_all json_ok xs"
| "json_ok (JObj ps) = (distinct (map fst ps) \<and> list_all (\<lambda>p. json_ok (snd p)) ps)"
| "json_ok _ = False"

text \<open>The value with the keys of every object in order.\<close>

fun normalise :: "jsval \<Rightarrow> jsval" where
  "normalise (JArr xs) = JArr (map normalise xs)"
| "normalise (JObj ps) = JObj (sort_key fst (map (\<lambda>p. (fst p, normalise (snd p))) ps))"
| "normalise v = v"

text \<open>The text of a value with its keys in the order they have.\<close>

fun plain_text :: "jsval \<Rightarrow> string" where
  "plain_text JNull = ''null''"
| "plain_text (JBool b) = (if b then ''true'' else ''false'')"
| "plain_text (JStr s) = quote s"
| "plain_text (JNum n) = (case n of JInt i \<Rightarrow> show_int i | JFrac t \<Rightarrow> t | JNonFinite \<Rightarrow> [])"
| "plain_text (JArr xs) = ''['' @ join_with '','' (map plain_text xs) @ '']''"
| "plain_text (JObj ps) =
     ''{'' @ join_with '','' (map (\<lambda>p. encode_prop (fst p, plain_text (snd p))) ps) @ ''}''"
| "plain_text _ = []"

section \<open>The parser reads what the encoder writes\<close>

lemma hex_char_val:
  assumes "d < 16" shows "hex_val (hex_char d) = Some d"
proof -
  have "d = 0 \<or> d = 1 \<or> d = 2 \<or> d = 3 \<or> d = 4 \<or> d = 5 \<or> d = 6 \<or> d = 7 \<or> d = 8 \<or> d = 9 \<or>
    d = 10 \<or> d = 11 \<or> d = 12 \<or> d = 13 \<or> d = 14 \<or> d = 15"
    using assms by arith
  then show ?thesis by (auto simp: hex_char_def hex_val_def)
qed

lemma prepend_Some [simp]: "prepend p (Some (s, t)) = Some (p @ s, t)"
  by (simp add: prepend_def)

lemma parse_escape_char: "parse_str (escape_char c @ r) = prepend [c] (parse_str r)"
proof -
  consider "c = DQ" | "c = BSL" | "c = CHR 0x08" | "c = CHR 0x09" | "c = CHR 0x0A" | "c = CHR 0x0C"
    | "c = CHR 0x0D"
    | "c \<notin> {DQ, BSL, CHR 0x08, CHR 0x09, CHR 0x0A, CHR 0x0C, CHR 0x0D}" "(of_char c :: nat) < 32"
    | "c \<notin> {DQ, BSL, CHR 0x08, CHR 0x09, CHR 0x0A, CHR 0x0C, CHR 0x0D}" "\<not> (of_char c :: nat) < 32"
    by blast
  then show ?thesis
  proof cases
    case 8
    let ?n = "of_char c :: nat"
    have e: "escape_char c = [BSL, CHR ''u'', CHR ''0'', CHR ''0'', hex_char (?n div 16), hex_char (?n mod 16)]"
      using 8 by (simp add: escape_char_def)
    have "?n div 16 < 16" using 8 by simp
    then have "hex4 (CHR ''0'') (CHR ''0'') (hex_char (?n div 16)) (hex_char (?n mod 16)) = Some ?n"
      by (simp add: hex4_def hex_char_val) (simp add: hex_val_def)
    moreover have "utf8_unit ?n = [c]" using 8 by (simp add: utf8_unit_def)
    ultimately show ?thesis by (simp add: e)
  qed (auto simp: escape_char_def simple_escape_def)
qed

lemma parse_quote_body: "parse_str (concat (map escape_char s) @ DQ # r) = Some (s, r)"
  by (induction s) (simp_all add: parse_escape_char)

lemma read_nat_digits: "valid_int (show_nat n)"
proof -
  have "n \<noteq> 0 \<or> length (show_nat n) = 1" by (cases "n = 0") (simp_all add: show_nat.simps [of 0])
  then show ?thesis
    using show_nat_digits [of n] by (auto simp: valid_int_def list_all_iff hd_show_nat)
qed

lemma digit_num_char: "is_digit c \<Longrightarrow> is_num_char c"
  by (auto simp: is_digit_def is_num_char_def)

lemma num_of_show_int: "num_of_token (show_int i) = Some (JInt i)"
proof -
  have tw: "takeWhile is_digit (show_nat n) = show_nat n" "dropWhile is_digit (show_nat n) = []" for n
    using show_nat_digits [of n] by (simp_all add: takeWhile_eq_all_conv)
  have hd: "hd (show_nat n) \<noteq> CHR ''-''" for n
  proof -
    have "is_digit (hd (show_nat n))" using show_nat_digits [of n] by simp
    then show ?thesis by (auto simp: is_digit_def)
  qed
  show ?thesis
  proof (cases "i < 0")
    case True
    then show ?thesis
      by (simp add: show_int_def num_of_token_def tw read_nat_digits)
  next
    case False
    obtain c cs where c: "show_nat (nat i) = c # cs" by (cases "show_nat (nat i)") auto
    then have "c \<noteq> CHR ''-''" using hd [of "nat i"] by simp
    with c have "(case show_nat (nat i) of c # r \<Rightarrow> if c = CHR ''-'' then r else show_nat (nat i) | [] \<Rightarrow> []) = show_nat (nat i)"
      by simp
    with False show ?thesis
      by (simp add: show_int_def num_of_token_def tw read_nat_digits)
  qed
qed

lemma show_int_num_chars: "\<forall>c \<in> set (show_int i). is_num_char c"
proof -
  have "\<forall>c \<in> set (show_nat n). is_num_char c" for n
    using show_nat_digits [of n] digit_num_char by blast
  then show ?thesis by (auto simp: show_int_def is_num_char_def)
qed

text \<open>What follows a value in a document is not part of a number.\<close>

definition ends_value :: "string \<Rightarrow> bool" where
  "ends_value r \<longleftrightarrow> (case r of [] \<Rightarrow> True | c # _ \<Rightarrow> \<not> is_num_char c)"

lemma takeWhile_ends:
  "\<forall>c \<in> set t. is_num_char c \<Longrightarrow> ends_value r \<Longrightarrow> takeWhile is_num_char (t @ r) = t"
  "\<forall>c \<in> set t. is_num_char c \<Longrightarrow> ends_value r \<Longrightarrow> dropWhile is_num_char (t @ r) = r"
  by (induction t; auto simp: ends_value_def split: list.splits)+

section \<open>Encoding is printing the normal form\<close>

lemma sort_key_map_fst:
  assumes "\<And>x. fst (f x) = fst x"
  shows "sort_key fst (map f ps) = map f (sort_key fst ps)"
proof -
  have "insort_key fst (f x) (map f ys) = map f (insort_key fst x ys)" for x ys
    by (induction ys) (auto simp: assms)
  then show ?thesis by (induction ps) auto
qed

lemma map_fst_sort_key: "map fst (sort_key fst ps) = sort (map fst ps)"
proof -
  have "map fst (insort_key fst x ys) = insort (fst x) (map fst ys)" for x :: "'a \<times> 'b" and ys
    by (induction ys) auto
  then show ?thesis by (induction ps) auto
qed

lemma encode_plain_text: "json_ok v \<Longrightarrow> encodeJson v = Some (plain_text (normalise v))"
proof (induction v rule: encodeJson.induct)
  case (4 n)
  then show ?case by (cases n) (auto simp: encode_num_def)
next
  case (5 xs)
  then have "map_opt encodeJson xs = Some (map (\<lambda>v. plain_text (normalise v)) xs)"
    by (intro map_opt_map) (auto simp: list_all_iff)
  then show ?case by (simp add: comp_def)
next
  case (6 ps)
  let ?g = "\<lambda>p. (fst p, plain_text (normalise (snd p)))"
  have "map_opt (\<lambda>p. map_option (Pair (fst p)) (encodeJson (snd p))) ps = Some (map ?g ps)"
    using 6 by (intro map_opt_map) (auto simp: list_all_iff)
  then show ?case by (simp add: sort_key_map_fst comp_def)
qed auto

lemma json_ok_normalise: "json_ok v \<Longrightarrow> json_ok (normalise v)"
proof (induction v rule: json_ok.induct)
  case (6 ps)
  then show ?case
    by (simp add: sort_key_map_fst map_fst_sort_key comp_def list_all_iff)
qed (auto simp: list_all_iff)

lemma normalise_idem: "normalise (normalise v) = normalise v"
proof (induction v rule: normalise.induct)
  case (2 ps)
  have "sorted (map fst (sort_key fst ps))" by (simp add: map_fst_sort_key)
  with 2 show ?case by (simp add: sort_key_map_fst comp_def sort_key_id_if_sorted)
qed auto

section \<open>The round trip\<close>

lemma num_of_token_head:
  assumes "num_of_token t = Some n"
  obtains c cs where "t = c # cs" "c = CHR ''-'' \<or> is_digit c"
proof (cases t)
  case Nil
  then show ?thesis using assms by (simp add: num_of_token_def valid_int_def)
next
  case (Cons c cs)
  have "c = CHR ''-'' \<or> is_digit c"
  proof (rule ccontr)
    assume "\<not> ?thesis"
    then have "\<not> is_digit c" "c \<noteq> CHR ''-''" by auto
    then show False
      using assms Cons by (simp add: num_of_token_def valid_int_def)
  qed
  with Cons that show ?thesis by blast
qed

lemma show_int_head:
  obtains c cs where "show_int i = c # cs" "c = CHR ''-'' \<or> is_digit c"
  using num_of_token_head [OF num_of_show_int] by blast

lemma num_head_plain:
  "c = CHR ''-'' \<or> is_digit c \<Longrightarrow> \<not> is_ws c \<and> c \<noteq> CHR '']'' \<and> c \<noteq> CHR ''}'' \<and> c \<noteq> CHR ''{'' \<and> c \<noteq> CHR ''['' \<and> c \<noteq> DQ"
  by (auto simp: is_ws_def is_digit_def)

lemma json_num_text:
  assumes "json_ok (JNum m)"
  obtains c cs where "plain_text (JNum m) = c # cs" "c = CHR ''-'' \<or> is_digit c"
    "num_of_token (c # cs) = Some m" "\<forall>d \<in> set (c # cs). is_num_char d"
proof (cases m)
  case (JInt i)
  then show ?thesis
    using show_int_head [of i] that num_of_show_int [of i] show_int_num_chars [of i]
    by (metis jnum.case(1) plain_text.simps(4))
next
  case (JFrac t)
  then have "num_of_token t = Some m" "\<forall>d \<in> set t. is_num_char d"
    using assms by (auto simp: list_all_iff)
  then show ?thesis
    using num_of_token_head [of t m] that JFrac by (metis jnum.case(2) plain_text.simps(4))
next
  case JNonFinite
  then show ?thesis using assms by simp
qed

lemma plain_text_head:
  assumes "json_ok v"
  shows "\<exists>c cs. plain_text v = c # cs \<and> \<not> is_ws c \<and> c \<noteq> CHR '']'' \<and> c \<noteq> CHR ''}''"
proof (cases v)
  case (JNum m)
  then show ?thesis
    using assms json_num_text [of m] num_head_plain by metis
qed (use assms in \<open>auto simp: is_ws_def quote_def\<close>)

definition parses :: "jsval \<Rightarrow> bool" where
  "parses v \<longleftrightarrow> (\<forall>n r. ends_value r \<longrightarrow> 2 * length (plain_text v) \<le> n \<longrightarrow>
     parse_val n (plain_text v @ r) = Some (v, r))"

lemma parsesD:
  "parses v \<Longrightarrow> ends_value r \<Longrightarrow> 2 * length (plain_text v) \<le> n \<Longrightarrow> parse_val n (plain_text v @ r) = Some (v, r)"
  by (simp add: parses_def)

lemma ends_value_delim [simp]: "ends_value (CHR '','' # r)" "ends_value (CHR '']'' # r)" "ends_value (CHR ''}'' # r)"
  by (simp_all add: ends_value_def is_num_char_def)

lemma is_ws_delim [simp]:
  "\<not> is_ws (CHR '','')" "\<not> is_ws (CHR '']'')" "\<not> is_ws (CHR ''}'')" "\<not> is_ws (CHR '':'')" "\<not> is_ws DQ"
  "\<not> is_ws (CHR ''{'')" "\<not> is_ws (CHR ''['')"
  by (simp_all add: is_ws_def)

lemma parse_elems_plain:
  assumes "\<forall>v \<in> set xs. parses v" "xs \<noteq> []"
    "2 * length (join_with '','' (map plain_text xs)) + 1 \<le> n"
  shows "parse_elems n (join_with '','' (map plain_text xs) @ CHR '']'' # r) = Some (xs, r)"
  using assms
proof (induction xs arbitrary: n)
  case Nil
  then show ?case by simp
next
  case (Cons x xs)
  obtain m where n: "n = Suc m" using Cons.prems(3) by (cases n) auto
  show ?case
  proof (cases xs)
    case Nil
    with Cons.prems n show ?thesis
      using parsesD [of x "CHR '']'' # r" m] by simp
  next
    case (Cons y ys)
    then have len: "2 * length (plain_text x) + 2 * length (join_with '','' (map plain_text xs)) + 2 \<le> m"
      using Cons.prems(3) n by simp
    let ?rest = "join_with '','' (map plain_text xs) @ CHR '']'' # r"
    have "parse_val m (plain_text x @ CHR '','' # ?rest) = Some (x, CHR '','' # ?rest)"
      using Cons.prems(1) len by (intro parsesD) auto
    moreover have "parse_elems m ?rest = Some (xs, r)"
      using Cons.IH [of m] Cons.prems(1) len Cons by simp
    ultimately show ?thesis using n Cons by simp
  qed
qed

lemma parse_members_plain:
  assumes "\<forall>p \<in> set ps. parses (snd p)" "ps \<noteq> []"
    "2 * length (join_with '','' (map (\<lambda>p. encode_prop (fst p, plain_text (snd p))) ps)) + 1 \<le> n"
  shows "parse_members n (join_with '','' (map (\<lambda>p. encode_prop (fst p, plain_text (snd p))) ps) @ CHR ''}'' # r)
    = Some (ps, r)"
  using assms
proof (induction ps arbitrary: n)
  case Nil
  then show ?case by simp
next
  case (Cons p ps)
  let ?enc = "\<lambda>p. encode_prop (fst p, plain_text (snd p))"
  obtain m where n: "n = Suc m" using Cons.prems(3) by (cases n) auto
  have enc: "?enc p @ t = DQ # concat (map escape_char (fst p)) @ DQ # CHR '':'' # plain_text (snd p) @ t" for t
    by (simp add: encode_prop_def quote_def)
  show ?case
  proof (cases ps)
    case Nil
    then have "2 * length (plain_text (snd p)) \<le> m"
      using Cons.prems(3) n by (simp add: encode_prop_def)
    then have "parse_val m (plain_text (snd p) @ CHR ''}'' # r) = Some (snd p, CHR ''}'' # r)"
      using Cons.prems(1) by (intro parsesD) auto
    with Nil n show ?thesis by (simp add: enc parse_quote_body)
  next
    case (Cons q qs)
    then have len: "2 * length (plain_text (snd p)) + 2 * length (join_with '','' (map ?enc ps)) + 2 \<le> m"
      using Cons.prems(3) n by (simp add: encode_prop_def)
    let ?rest = "join_with '','' (map ?enc ps) @ CHR ''}'' # r"
    have "parse_val m (plain_text (snd p) @ CHR '','' # ?rest) = Some (snd p, CHR '','' # ?rest)"
      using Cons.prems(1) len by (intro parsesD) auto
    moreover have "parse_members m ?rest = Some (ps, r)"
      using Cons.IH [of m] Cons.prems(1) len Cons by simp
    ultimately show ?thesis using n Cons by (simp add: enc parse_quote_body)
  qed
qed

lemma set_prop_fresh: "k \<notin> fst ` set ps \<Longrightarrow> set_prop k v ps = ps @ [(k, v)]"
  by (induction ps) auto

lemma obj_of_members_distinct: "distinct (map fst ms) \<Longrightarrow> obj_of_members ms = JObj ms"
proof -
  have "distinct (map fst (acc @ ms)) \<Longrightarrow> foldl (\<lambda>ps m. set_prop (fst m) (snd m) ps) acc ms = acc @ ms" for acc
    by (induction ms arbitrary: acc) (auto simp: set_prop_fresh)
  from this [of "[]"] show "distinct (map fst ms) \<Longrightarrow> ?thesis"
    by (simp add: obj_of_members_def)
qed

lemma json_ok_parses: "json_ok v \<Longrightarrow> parses v"
proof (induction v rule: json_ok.induct)
  case 1
  show ?case by (auto simp: parses_def is_ws_def is_digit_def parse_lit_def starts_with_def numeral_eq_Suc le_Suc_eq dest!: Suc_le_D)
next
  case (2 b)
  show ?case by (cases b) (auto simp: parses_def is_ws_def is_digit_def parse_lit_def starts_with_def numeral_eq_Suc dest!: Suc_le_D)
next
  case (3 s)
  show ?case by (auto simp: parses_def quote_def parse_quote_body dest!: Suc_le_D)
next
  case (4 m)
  then obtain c cs where c: "plain_text (JNum m) = c # cs" "c = CHR ''-'' \<or> is_digit c"
    "num_of_token (c # cs) = Some m" "\<forall>d \<in> set (c # cs). is_num_char d"
    using json_num_text by blast
  show ?case
    unfolding parses_def
  proof (intro allI impI)
    fix n r assume r: "ends_value r" and n: "2 * length (plain_text (JNum m)) \<le> n"
    then obtain k where k: "n = Suc k" using c(1) by (cases n) auto
    have "parse_num ((c # cs) @ r) = Some (JNum m, r)"
      using takeWhile_ends [OF c(4) r] c(3) by (simp add: parse_num_def)
    then show "parse_val n (plain_text (JNum m) @ r) = Some (JNum m, r)"
      using c(2) num_head_plain [OF c(2)] k unfolding c(1) by simp
  qed
next
  case (5 xs)
  then have ok: "\<forall>x \<in> set xs. parses x" "\<forall>x \<in> set xs. json_ok x" by (auto simp: list_all_iff)
  show ?case
    unfolding parses_def
  proof (intro allI impI)
    fix n r assume r: "ends_value r" and n: "2 * length (plain_text (JArr xs)) \<le> n"
    then obtain k where k: "n = Suc k" by (cases n) auto
    show "parse_val n (plain_text (JArr xs) @ r) = Some (JArr xs, r)"
    proof (cases xs)
      case Nil
      then show ?thesis using k by (simp add: is_ws_def)
    next
      case (Cons x ys)
      then obtain c cs where c: "plain_text x = c # cs" "\<not> is_ws c" "c \<noteq> CHR '']''"
        using plain_text_head ok(2) by force
      let ?b = "join_with '','' (map plain_text xs)"
      obtain ds where b: "?b = c # ds" using Cons c by (cases ys) auto
      have "parse_elems k (?b @ CHR '']'' # r) = Some (xs, r)"
        using parse_elems_plain [OF ok(1)] Cons n k by simp
      then show ?thesis using k c b by (simp add: is_ws_def)
    qed
  qed
next
  case (6 ps)
  then have ok: "\<forall>p \<in> set ps. parses (snd p)" by (auto simp: list_all_iff)
  show ?case
    unfolding parses_def
  proof (intro allI impI)
    fix n r assume r: "ends_value r" and n: "2 * length (plain_text (JObj ps)) \<le> n"
    then obtain k where k: "n = Suc k" by (cases n) auto
    show "parse_val n (plain_text (JObj ps) @ r) = Some (JObj ps, r)"
    proof (cases ps)
      case Nil
      then show ?thesis using k by (simp add: is_ws_def)
    next
      case (Cons p qs)
      let ?b = "join_with '','' (map (\<lambda>p. encode_prop (fst p, plain_text (snd p))) ps)"
      obtain ds where b: "?b = DQ # ds" using Cons by (cases qs) (auto simp: encode_prop_def quote_def)
      have "parse_members k (?b @ CHR ''}'' # r) = Some (ps, r)"
        using parse_members_plain [OF ok] Cons n k by simp
      then show ?thesis using k b 6 by (simp add: is_ws_def obj_of_members_distinct)
    qed
  qed
qed auto

theorem json_parse_plain: "json_ok v \<Longrightarrow> json_parse (plain_text v) = Some v"
  using json_ok_parses [of v] parsesD [of v "[]" "2 * length (plain_text v) + 2"]
  by (simp add: json_parse_def ends_value_def)

theorem json_parse_canonicalJson:
  assumes "json_ok v"
  shows "\<exists>s. canonicalJson v = Some s \<and> json_parse s = Some (normalise v)"
  using assms by (simp add: canonicalJson_def encode_plain_text json_parse_plain json_ok_normalise)

section \<open>The parser consumes its input, and fuel is enough\<close>

text \<open>What is left after a parse is shorter than the text parsed.\<close>

definition shorter :: "string \<Rightarrow> ('a \<times> string) option \<Rightarrow> bool" where
  "shorter s r \<longleftrightarrow> (case r of None \<Rightarrow> True | Some (x, t) \<Rightarrow> length t < length s)"

lemma shorter_None [simp]: "shorter s None"
  by (simp add: shorter_def)

lemma shorter_Some [simp]: "shorter s (Some (x, t)) \<longleftrightarrow> length t < length s"
  by (simp add: shorter_def)

lemma shorterD: "shorter s r \<Longrightarrow> r = Some (x, t) \<Longrightarrow> length t < length s"
  by simp

lemma shorter_mono: "shorter s' r \<Longrightarrow> length s' \<le> length s \<Longrightarrow> shorter s r"
  by (auto simp: shorter_def split: option.splits)

lemma shorter_prepend: "shorter s (prepend p r) \<longleftrightarrow> shorter s r"
  by (auto simp: shorter_def prepend_def split: option.splits)

lemma shorter_parse_str: "shorter s (parse_str s)"
proof (induction s rule: parse_str.induct)
  case 1
  then show ?case by simp
next
  case (2 c cs)
  consider "c = DQ" | "c = BSL" "cs = []" | e r where "c = BSL" "cs = e # r" "e \<noteq> CHR ''u''"
    | r where "c = BSL" "cs = CHR ''u'' # r" | "c \<noteq> DQ" "c \<noteq> BSL"
    by (cases cs) auto
  then show ?case
  proof cases
    case 3
    then have "shorter r (parse_str r)" if "simple_escape e = Some d" for d
      using 2(2) that by simp
    then show ?thesis
      using 3 by (auto simp: shorter_prepend split: option.split elim!: shorter_mono)
  next
    case 4
    show ?thesis
    proof (cases "\<exists>h1 h2 h3 h4 r' n. r = h1 # h2 # h3 # h4 # r' \<and> hex4 h1 h2 h3 h4 = Some n")
      case True
      then obtain h1 h2 h3 h4 r' n where r: "r = h1 # h2 # h3 # h4 # r'" "hex4 h1 h2 h3 h4 = Some n"
        by blast
      then have "shorter r' (parse_str r')" using 2(1) 4 by simp
      then have "shorter (c # cs) (parse_str r')" by (rule shorter_mono) (simp add: 4 r)
      then show ?thesis using 4 r by (simp add: shorter_prepend)
    next
      case False
      then have "parse_str (c # cs) = None"
        using 4 by (auto split: list.split option.split)
      then show ?thesis by simp
    qed
  next
    case 5
    then have "shorter cs (parse_str cs)" if "\<not> (of_char c :: nat) < 32" using 2(3) that by simp
    then show ?thesis using 5 by (auto simp: shorter_prepend elim!: shorter_mono)
  qed simp_all
qed

lemma length_skip_ws: "length (skip_ws s) \<le> length s"
  by (induction s) auto

lemma skip_ws_Cons: "skip_ws s = c # r \<Longrightarrow> length r < length s"
  using length_skip_ws [of s] by simp

lemma shorter_parse_num: "shorter s (parse_num s)"
proof (cases "parse_num s")
  case (Some p)
  then have t: "snd p = dropWhile is_num_char s" "takeWhile is_num_char s \<noteq> []"
    by (auto simp: parse_num_def num_of_token_def valid_int_def split: option.splits)
  have "length s = length (takeWhile is_num_char s) + length (dropWhile is_num_char s)"
    by (metis length_append takeWhile_dropWhile_id)
  with t Some show ?thesis by (cases p) simp
qed simp

lemma shorter_parse_lit: "s \<noteq> [] \<Longrightarrow> shorter s (parse_lit s)"
  by (simp add: parse_lit_def)


lemma shorter_case:
  "shorter s' m \<Longrightarrow> length s' \<le> length s \<Longrightarrow> (\<And>x t. m = Some (x, t) \<Longrightarrow> length t < length s' \<Longrightarrow> shorter s (f x t))
    \<Longrightarrow> shorter s (case m of None \<Rightarrow> None | Some (x, t) \<Rightarrow> f x t)"
  by (auto split: option.split)

lemma shorter_skip:
  "(\<And>c r. skip_ws s' = c # r \<Longrightarrow> length r < length s' \<Longrightarrow> shorter s (f c r))
    \<Longrightarrow> shorter s (case skip_ws s' of [] \<Rightarrow> None | c # r \<Rightarrow> f c r)"
  using skip_ws_Cons [of s'] by (cases "skip_ws s'") auto

lemma shorter_if: "(b \<Longrightarrow> shorter s x) \<Longrightarrow> (\<not> b \<Longrightarrow> shorter s y) \<Longrightarrow> shorter s (if b then x else y)"
  by simp

lemmas shorter_intros = shorter_skip shorter_if shorter_case [OF shorter_parse_str]

lemma parse_shortens:
  "shorter s (parse_val n s)" "shorter s (parse_elems n s)" "shorter s (parse_members n s)"
proof (induction n arbitrary: s)
  case (Suc n)
  have elems: "shorter s' (parse_elems n s')" and mems: "shorter s' (parse_members n s')"
    and vals: "shorter s' (parse_val n s')" for s'
    using Suc by auto
  { case 1
    show ?case
      unfolding parse_val.simps
      by (intro shorter_intros shorter_case [OF elems] shorter_case [OF mems] shorter_mono [OF shorter_parse_num]
          shorter_mono [OF shorter_parse_lit]) auto
  next
    case 2
    show ?case
      unfolding parse_elems.simps
      by (intro shorter_intros shorter_case [OF elems] shorter_case [OF vals]) auto
  next
    case 3
    show ?case
      unfolding parse_members.simps
      by (intro shorter_intros shorter_case [OF mems] shorter_case [OF vals]) auto }
qed simp_all

text \<open>Fuel beyond twice the length of the text does not change the result.\<close>

lemma parse_fuel_enough:
  "2 * length s + 1 \<le> n \<Longrightarrow> 2 * length s + 1 \<le> m \<Longrightarrow> parse_val n s = parse_val m s"
  "2 * length s + 2 \<le> n \<Longrightarrow> 2 * length s + 2 \<le> m \<Longrightarrow> parse_elems n s = parse_elems m s"
  "2 * length s + 2 \<le> n \<Longrightarrow> 2 * length s + 2 \<le> m \<Longrightarrow> parse_members n s = parse_members m s"
proof (induction n arbitrary: s m)
  case (Suc n)
  { case 1
    then obtain k where m: "m = Suc k" by (cases m) auto
    have IH: "parse_elems n (d # r') = parse_elems k (d # r')" "parse_members n (d # r') = parse_members k (d # r')"
      if "skip_ws s = c # r" "skip_ws r = d # r'" for c r d r'
    proof -
      have "length (d # r') < length s" using skip_ws_Cons [OF that(1)] length_skip_ws [of r] that(2) by simp
      then show "parse_elems n (d # r') = parse_elems k (d # r')" "parse_members n (d # r') = parse_members k (d # r')"
        using Suc.IH(2,3) [of "d # r'" k] 1 m by auto
    qed
    show ?case
      unfolding m parse_val.simps by (auto simp: IH split: list.split)
  next
    case 2
    then obtain k where m: "m = Suc k" by (cases m) auto
    have v: "parse_val n s = parse_val k s" using Suc.IH(1) [of s k] 2 m by simp
    have IH: "parse_elems n r' = parse_elems k r'"
      if "parse_val k s = Some (v, r)" "skip_ws r = c # r'" for v r c r'
    proof -
      have "length r' + 2 \<le> length s"
        using shorterD [OF parse_shortens(1) that(1)] skip_ws_Cons [OF that(2)] by simp
      then show ?thesis using Suc.IH(2) [of r' k] 2 m by simp
    qed
    show ?case
      unfolding m parse_elems.simps v by (auto simp: IH split: list.split option.split)
  next
    case 3
    then obtain k where m: "m = Suc k" by (cases m) auto
    have v: "parse_val n r2 = parse_val k r2"
      if "skip_ws s = c # r" "parse_str r = Some (u, r1)" "skip_ws r1 = d # r2" for c r u r1 d r2
    proof -
      have "length r2 < length s"
        using skip_ws_Cons [OF that(1)] shorterD [OF shorter_parse_str that(2)] skip_ws_Cons [OF that(3)] by simp
      then show ?thesis using Suc.IH(1) [of r2 k] 3 m by simp
    qed
    have IH: "parse_members n r4 = parse_members k r4"
      if "skip_ws s = c # r" "parse_str r = Some (u, r1)" "skip_ws r1 = d # r2"
        "parse_val k r2 = Some (w, r3)" "skip_ws r3 = e # r4" for c r u r1 d r2 w r3 e r4
    proof -
      have "length r4 + 2 \<le> length s"
        using skip_ws_Cons [OF that(1)] shorterD [OF shorter_parse_str that(2)] skip_ws_Cons [OF that(3)]
          shorterD [OF parse_shortens(1) that(4)] skip_ws_Cons [OF that(5)] by simp
      then show ?thesis using Suc.IH(3) [of r4 k] 3 m by simp
    qed
    show ?case
      unfolding m parse_members.simps by (auto simp: v IH split: list.split option.split) }
qed simp_all

section \<open>What the parser returns; the encoder determines the value\<close>

text \<open>Whatever \<open>JSON.parse\<close> returns is a JSON value: the encoder never rejects it.\<close>

definition yields :: "('a \<Rightarrow> bool) \<Rightarrow> ('a \<times> string) option \<Rightarrow> bool" where
  "yields P r \<longleftrightarrow> (case r of None \<Rightarrow> True | Some (x, t) \<Rightarrow> P x)"

lemma yields_simps [simp]: "yields P None" "yields P (Some (x, t)) \<longleftrightarrow> P x"
  by (simp_all add: yields_def)

lemma yields_case:
  "yields Q m \<Longrightarrow> (\<And>x t. m = Some (x, t) \<Longrightarrow> Q x \<Longrightarrow> yields P (f x t))
    \<Longrightarrow> yields P (case m of None \<Rightarrow> None | Some (x, t) \<Rightarrow> f x t)"
  by (auto split: option.split)

lemma yields_any: "yields (\<lambda>_. True) m"
  by (auto simp: yields_def split: option.split)

lemma yields_list: "(\<And>c r. s = c # r \<Longrightarrow> yields P (f c r)) \<Longrightarrow> yields P (case s of [] \<Rightarrow> None | c # r \<Rightarrow> f c r)"
  by (cases s) auto

lemma yields_if: "(b \<Longrightarrow> yields P x) \<Longrightarrow> (\<not> b \<Longrightarrow> yields P y) \<Longrightarrow> yields P (if b then x else y)"
  by simp

lemma map_fst_set_prop:
  "map fst (set_prop k v ps) = (if k \<in> fst ` set ps then map fst ps else map fst ps @ [k])"
  by (induction ps) auto

lemma snd_set_prop: "p \<in> set (set_prop k v ps) \<Longrightarrow> p = (k, v) \<or> p \<in> set ps"
  by (induction ps) (auto split: if_splits)

lemma json_ok_members:
  assumes "list_all (\<lambda>p. json_ok (snd p)) ms"
  shows "json_ok (obj_of_members ms)"
proof -
  have "distinct (map fst acc) \<Longrightarrow> list_all (\<lambda>p. json_ok (snd p)) acc \<Longrightarrow>
    json_ok (JObj (foldl (\<lambda>ps m. set_prop (fst m) (snd m) ps) acc ms))" for acc
    using assms
  proof (induction ms arbitrary: acc)
    case (Cons m ms)
    have "distinct (map fst (set_prop (fst m) (snd m) acc))"
      using Cons.prems(1) by (auto simp: map_fst_set_prop)
    moreover have "list_all (\<lambda>p. json_ok (snd p)) (set_prop (fst m) (snd m) acc)"
      using Cons.prems snd_set_prop [of _ "fst m" "snd m" acc] by (fastforce simp: list_all_iff)
    ultimately show ?case using Cons by simp
  qed auto
  then show ?thesis by (simp add: obj_of_members_def)
qed

lemma json_ok_parse_num: "yields json_ok (parse_num s)"
  using set_takeWhileD [of _ is_num_char s]
  by (auto simp: parse_num_def num_of_token_def Let_def list_all_iff split: option.split if_splits)

lemma json_ok_parse_lit: "yields json_ok (parse_lit s)"
  by (simp add: parse_lit_def)

lemma parse_yields_json:
  "yields json_ok (parse_val n s)" "yields (list_all json_ok) (parse_elems n s)"
  "yields (list_all (\<lambda>p. json_ok (snd p))) (parse_members n s)"
proof (induction n arbitrary: s)
  case (Suc n)
  note intros = yields_list yields_if yields_case [OF Suc(1)] yields_case [OF Suc(2)] yields_case [OF Suc(3)]
    yields_case [OF yields_any [of "parse_str r" for r]] json_ok_parse_num json_ok_parse_lit
  { case 1
    show ?case unfolding parse_val.simps by (intro intros) (auto intro: json_ok_members)
  next
    case 2
    show ?case unfolding parse_elems.simps by (intro intros) auto
  next
    case 3
    show ?case unfolding parse_members.simps by (intro intros) auto }
qed simp_all

theorem json_ok_parse: "json_parse s = Some v \<Longrightarrow> json_ok v"
  using parse_yields_json(1) [of "2 * length s + 2" s]
  by (auto simp: json_parse_def yields_def split: option.splits if_splits)

theorem canonicalJson_inject:
  assumes "json_ok v" "json_ok w"
  shows "canonicalJson v = canonicalJson w \<longleftrightarrow> normalise v = normalise w"
proof
  assume "canonicalJson v = canonicalJson w"
  then have "plain_text (normalise v) = plain_text (normalise w)"
    using assms by (simp add: canonicalJson_def encode_plain_text)
  then show "normalise v = normalise w"
    using json_parse_plain assms json_ok_normalise by (metis option.inject)
qed (simp add: canonicalJson_def encode_plain_text assms)

lemma canonicalJson_normalise: "json_ok v \<Longrightarrow> canonicalJson (normalise v) = canonicalJson v"
  by (simp add: canonicalJson_def encode_plain_text json_ok_normalise normalise_idem)

lemma canonicalJson_None: "canonicalJson v = None \<Longrightarrow> \<not> json_ok v"
  using encode_plain_text by (auto simp: canonicalJson_def)

lemma map_of_sort_key: "distinct (map fst ps) \<Longrightarrow> map_of (sort_key fst ps) k = map_of ps k"
proof (cases "map_of ps k")
  case None
  then have "k \<notin> fst ` set (sort_key fst ps)" by (simp add: map_of_eq_None_iff)
  with None show ?thesis by (metis map_of_eq_None_iff)
next
  case (Some v)
  assume "distinct (map fst ps)"
  then have "distinct (map fst (sort_key fst ps))" by (simp add: map_fst_sort_key)
  with Some show ?thesis by (simp add: map_of_SomeD map_of_is_SomeI)
qed

lemma fld_normalise: "json_ok v \<Longrightarrow> fld (normalise v) k = normalise (fld v k)"
proof (cases v)
  case (JObj ps)
  assume "json_ok v"
  then have d: "distinct (map fst ps)" using JObj by simp
  have "map_of (map (\<lambda>p. (fst p, normalise (snd p))) ps) k = map_option normalise (map_of ps k)"
    by (induction ps) auto
  with d show ?thesis
    by (auto simp: JObj fld_def props_def map_of_sort_key comp_def split: option.splits)
qed (auto simp: fld_def props_def)

end
