(* ===== verification/Model.thy ===== *)
theory Model
  imports Json
begin

text \<open>
  The data of \<open>src/src/model.ts\<close>: enumerations as datatypes, interfaces as records, with the JSON
  object each record is written as (\<open>json_of_...\<close>) and the typed view of a parsed object
  (\<open>..._of\<close>). A property that may be \<open>null\<close> is an option; a property that may also be absent is
  an option of an option. A manifest identifier is a string.
\<close>

type_synonym manifest_id = string

datatype root_state = Active | Uninitialized | Broken

datatype result_code =
    RC_ok | RC_noop | RC_busy | RC_idle_timeout | RC_operation_cancelled | RC_operation_timeout
  | RC_capture_failed | RC_restore_failed_safe | RC_partial_restore | RC_recovery_required
  | RC_history_paused | RC_refill_skipped | RC_refill_failed

datatype action = Undo | Redo | Tree

datatype journal_phase =
    PREPARING | PREPARED | SESSION_MOVED | APPLYING | FILES_VERIFIED | CURSOR_COMMITTED
  | COMMITTED | ABORTING | ABORTED | RECOVERY_REQUIRED

datatype mutation_state =
    INTENT | SOURCE_QUARANTINED | SOURCE_VERIFIED | TARGET_INSTALLED | TARGET_VERIFIED | CLEANED

datatype mutation_kind = Write | Delete | Symlink

datatype leaf_kind = File | Directory | SymlinkLeaf

section \<open>The names the enumerations have in JSON\<close>

primrec action_name :: "action \<Rightarrow> string" where
  "action_name Undo = ''undo''" | "action_name Redo = ''redo''" | "action_name Tree = ''tree''"

primrec phase_name :: "journal_phase \<Rightarrow> string" where
  "phase_name PREPARING = ''PREPARING''"
| "phase_name PREPARED = ''PREPARED''"
| "phase_name SESSION_MOVED = ''SESSION_MOVED''"
| "phase_name APPLYING = ''APPLYING''"
| "phase_name FILES_VERIFIED = ''FILES_VERIFIED''"
| "phase_name CURSOR_COMMITTED = ''CURSOR_COMMITTED''"
| "phase_name COMMITTED = ''COMMITTED''"
| "phase_name ABORTING = ''ABORTING''"
| "phase_name ABORTED = ''ABORTED''"
| "phase_name RECOVERY_REQUIRED = ''RECOVERY_REQUIRED''"

primrec state_name :: "mutation_state \<Rightarrow> string" where
  "state_name INTENT = ''INTENT''"
| "state_name SOURCE_QUARANTINED = ''SOURCE_QUARANTINED''"
| "state_name SOURCE_VERIFIED = ''SOURCE_VERIFIED''"
| "state_name TARGET_INSTALLED = ''TARGET_INSTALLED''"
| "state_name TARGET_VERIFIED = ''TARGET_VERIFIED''"
| "state_name CLEANED = ''CLEANED''"

primrec kind_name :: "mutation_kind \<Rightarrow> string" where
  "kind_name Write = ''write''" | "kind_name Delete = ''delete''" | "kind_name Symlink = ''symlink''"

definition all_actions :: "action list" where
  "all_actions = [Undo, Redo, Tree]"

definition all_phases :: "journal_phase list" where
  "all_phases = [PREPARING, PREPARED, SESSION_MOVED, APPLYING, FILES_VERIFIED, CURSOR_COMMITTED,
     COMMITTED, ABORTING, ABORTED, RECOVERY_REQUIRED]"

definition all_states :: "mutation_state list" where
  "all_states = [INTENT, SOURCE_QUARANTINED, SOURCE_VERIFIED, TARGET_INSTALLED, TARGET_VERIFIED, CLEANED]"

definition all_kinds :: "mutation_kind list" where
  "all_kinds = [Write, Delete, Symlink]"

definition named :: "('a \<Rightarrow> string) \<Rightarrow> 'a list \<Rightarrow> jsval \<Rightarrow> 'a option" where
  "named name xs v = (case v of JStr s \<Rightarrow> find (\<lambda>x. name x = s) xs | _ \<Rightarrow> None)"

definition the_named :: "('a \<Rightarrow> string) \<Rightarrow> 'a list \<Rightarrow> jsval \<Rightarrow> 'a" where
  "the_named name xs v = (case named name xs v of Some x \<Rightarrow> x | None \<Rightarrow> hd xs)"

lemma named_action [simp]: "named action_name all_actions (JStr (action_name a)) = Some a"
  by (cases a) (simp_all add: named_def all_actions_def)

lemma named_phase [simp]: "named phase_name all_phases (JStr (phase_name p)) = Some p"
  by (cases p) (simp_all add: named_def all_phases_def)

lemma named_state [simp]: "named state_name all_states (JStr (state_name m)) = Some m"
  by (cases m) (simp_all add: named_def all_states_def)

lemma named_kind [simp]: "named kind_name all_kinds (JStr (kind_name k)) = Some k"
  by (cases k) (simp_all add: named_def all_kinds_def)

lemma named_Some: "named name xs v = Some x \<Longrightarrow> v = JStr (name x)"
  by (auto simp: named_def find_Some_iff split: jsval.splits)

section \<open>The order of the mutation states\<close>

text \<open>\<open>stateOrder.indexOf(state)\<close> of \<open>src/src/mutation-journal.ts\<close>.\<close>

primrec state_index :: "mutation_state \<Rightarrow> nat" where
  "state_index INTENT = 0"
| "state_index SOURCE_QUARANTINED = 1"
| "state_index SOURCE_VERIFIED = 2"
| "state_index TARGET_INSTALLED = 3"
| "state_index TARGET_VERIFIED = 4"
| "state_index CLEANED = 5"

lemma state_index_inject [simp]: "state_index m = state_index n \<longleftrightarrow> m = n"
  by (cases m; cases n) auto

instantiation mutation_state :: linorder
begin

definition less_eq_mutation_state :: "mutation_state \<Rightarrow> mutation_state \<Rightarrow> bool" where
  "m \<le> n \<longleftrightarrow> state_index m \<le> state_index n"

definition less_mutation_state :: "mutation_state \<Rightarrow> mutation_state \<Rightarrow> bool" where
  "m < n \<longleftrightarrow> state_index m < state_index n"

instance
  by standard (auto simp: less_eq_mutation_state_def less_mutation_state_def)

end

section \<open>Records\<close>

record session_file_identity =
  si_path :: string
  si_headerChecksum :: string

record snapshot_root =
  sr_relativeRoot :: string
  sr_parentRoot :: "string option"
  sr_state :: root_state
  sr_sourceIdentity :: string
  sr_privateRepositoryId :: string
  sr_gitlinkOid :: "string option option"
  sr_treeId :: "string option"
  sr_coverage :: string
  sr_ignorePolicy :: string
  sr_ignoredPresentPaths :: "string list"
  sr_ignoreClosure :: string
  sr_objectClosure :: string

record snapshot_manifest =
  sm_schemaVersion :: int
  sm_manifestId :: manifest_id
  sm_workspaceIdentity :: string
  sm_topologyFingerprint :: string
  sm_coverage :: string
  sm_roots :: "snapshot_root list"
  sm_createdAt :: string

record checkpoint_record =
  cp_checkpointId :: string
  cp_runId :: string
  cp_sessionIdentity :: session_file_identity
  cp_startEntryId :: string
  cp_userEntryId :: string
  cp_endLeafId :: string
  cp_rawPrompt :: string
  cp_beforeManifestId :: manifest_id
  cp_afterManifestId :: manifest_id
  cp_changedPaths :: "string list"
  cp_checksum :: string

record cursor_state =
  cu_opId :: string
  cu_action :: action
  cu_sessionIdentity :: session_file_identity
  cu_fromLogicalLeaf :: "string option"
  cu_toLogicalLeaf :: "string option"
  cu_targetManifestId :: manifest_id
  cu_rollbackManifestId :: manifest_id
  cu_undoHead :: "string option"
  cu_redoStack :: "string list"
  cu_descriptorChecksum :: string
  cu_checksum :: string

record operation_descriptor =
  od_opId :: string
  od_sessionIdentity :: session_file_identity
  od_workspaceIdentity :: string
  od_action :: action
  od_fromLogicalLeaf :: "string option"
  od_toLogicalLeaf :: "string option"
  od_targetManifestId :: manifest_id
  od_rollbackManifestId :: manifest_id
  od_coverage :: string
  od_scopePaths :: "string list"
  od_planDigest :: string
  od_checksum :: string

record journal_state =
  js_opId :: string
  js_phase :: journal_phase
  js_revision :: int
  js_descriptorChecksum :: string
  js_observedLogicalLeaf :: "string option option"
  js_checksum :: string

record mutation_record =
  mr_opId :: string
  mr_ordinal :: nat
  mr_state :: mutation_state
  mr_kind :: mutation_kind
  mr_path :: string
  mr_sourceArtifact :: string
  mr_targetArtifact :: "string option"
  mr_sourceFingerprint :: string
  mr_targetFingerprint :: string
  mr_previousChecksum :: "string option"
  mr_checksum :: string

record restore_path =
  rp_relativePath :: string
  rp_kind :: leaf_kind
  rp_mode :: nat
  rp_blobId :: "string option"
  rp_size :: nat
  rp_rootHash :: string
  rp_linkText :: "string option"

section \<open>The objects the records are written as\<close>

definition jint :: "int \<Rightarrow> jsval" where
  "jint i = JNum (JInt i)"

definition json_of_identity :: "session_file_identity \<Rightarrow> jsval" where
  "json_of_identity i = JObj [(''path'', JStr (si_path i)), (''headerChecksum'', JStr (si_headerChecksum i))]"

definition cursor_content :: "cursor_state \<Rightarrow> (string \<times> jsval) list" where
  "cursor_content c =
     [(''schemaVersion'', jint 1),
      (''opId'', JStr (cu_opId c)),
      (''action'', JStr (action_name (cu_action c))),
      (''sessionIdentity'', json_of_identity (cu_sessionIdentity c)),
      (''fromLogicalLeaf'', jopt (cu_fromLogicalLeaf c)),
      (''toLogicalLeaf'', jopt (cu_toLogicalLeaf c)),
      (''targetManifestId'', JStr (cu_targetManifestId c)),
      (''rollbackManifestId'', JStr (cu_rollbackManifestId c)),
      (''undoHead'', jopt (cu_undoHead c)),
      (''redoStack'', jstrs (cu_redoStack c)),
      (''descriptorChecksum'', JStr (cu_descriptorChecksum c))]"

definition json_of_cursor :: "cursor_state \<Rightarrow> jsval" where
  "json_of_cursor c = JObj (cursor_content c @ [(''checksum'', JStr (cu_checksum c))])"

definition descriptor_content :: "operation_descriptor \<Rightarrow> (string \<times> jsval) list" where
  "descriptor_content d =
     [(''schemaVersion'', jint 1),
      (''opId'', JStr (od_opId d)),
      (''sessionIdentity'', json_of_identity (od_sessionIdentity d)),
      (''workspaceIdentity'', JStr (od_workspaceIdentity d)),
      (''action'', JStr (action_name (od_action d))),
      (''fromLogicalLeaf'', jopt (od_fromLogicalLeaf d)),
      (''toLogicalLeaf'', jopt (od_toLogicalLeaf d)),
      (''targetManifestId'', JStr (od_targetManifestId d)),
      (''rollbackManifestId'', JStr (od_rollbackManifestId d)),
      (''coverage'', JStr (od_coverage d)),
      (''scopePaths'', jstrs (od_scopePaths d)),
      (''planDigest'', JStr (od_planDigest d))]"

definition json_of_descriptor :: "operation_descriptor \<Rightarrow> jsval" where
  "json_of_descriptor d = JObj (descriptor_content d @ [(''checksum'', JStr (od_checksum d))])"

definition journal_state_content :: "journal_state \<Rightarrow> (string \<times> jsval) list" where
  "journal_state_content s =
     [(''schemaVersion'', jint 1),
      (''opId'', JStr (js_opId s)),
      (''phase'', JStr (phase_name (js_phase s))),
      (''revision'', jint (js_revision s)),
      (''descriptorChecksum'', JStr (js_descriptorChecksum s))] @
     (case js_observedLogicalLeaf s of None \<Rightarrow> [] | Some l \<Rightarrow> [(''observedLogicalLeaf'', jopt l)])"

definition json_of_journal_state :: "journal_state \<Rightarrow> jsval" where
  "json_of_journal_state s = JObj (journal_state_content s @ [(''checksum'', JStr (js_checksum s))])"

definition mutation_content :: "mutation_record \<Rightarrow> (string \<times> jsval) list" where
  "mutation_content r =
     [(''schemaVersion'', jint 1),
      (''opId'', JStr (mr_opId r)),
      (''ordinal'', jint (int (mr_ordinal r))),
      (''state'', JStr (state_name (mr_state r))),
      (''kind'', JStr (kind_name (mr_kind r))),
      (''path'', JStr (mr_path r)),
      (''sourceArtifact'', JStr (mr_sourceArtifact r)),
      (''targetArtifact'', jopt (mr_targetArtifact r)),
      (''sourceFingerprint'', JStr (mr_sourceFingerprint r)),
      (''targetFingerprint'', JStr (mr_targetFingerprint r)),
      (''previousChecksum'', jopt (mr_previousChecksum r))]"

definition json_of_mutation :: "mutation_record \<Rightarrow> jsval" where
  "json_of_mutation r = JObj (mutation_content r @ [(''checksum'', JStr (mr_checksum r))])"

definition checkpoint_content :: "checkpoint_record \<Rightarrow> (string \<times> jsval) list" where
  "checkpoint_content c =
     [(''schemaVersion'', jint 1),
      (''checkpointId'', JStr (cp_checkpointId c)),
      (''runId'', JStr (cp_runId c)),
      (''sessionIdentity'', json_of_identity (cp_sessionIdentity c)),
      (''startEntryId'', JStr (cp_startEntryId c)),
      (''userEntryId'', JStr (cp_userEntryId c)),
      (''endLeafId'', JStr (cp_endLeafId c)),
      (''rawPrompt'', JStr (cp_rawPrompt c)),
      (''beforeManifestId'', JStr (cp_beforeManifestId c)),
      (''afterManifestId'', JStr (cp_afterManifestId c)),
      (''changedPaths'', jstrs (cp_changedPaths c))]"

definition json_of_checkpoint :: "checkpoint_record \<Rightarrow> jsval" where
  "json_of_checkpoint c = JObj (checkpoint_content c @ [(''checksum'', JStr (cp_checksum c))])"

section \<open>The typed view of a validated object\<close>

definition identity_of :: "jsval \<Rightarrow> session_file_identity" where
  "identity_of v = \<lparr>si_path = str_of (fld v ''path''), si_headerChecksum = str_of (fld v ''headerChecksum'')\<rparr>"

definition cursor_of :: "jsval \<Rightarrow> cursor_state" where
  "cursor_of v =
     \<lparr>cu_opId = str_of (fld v ''opId''),
      cu_action = the_named action_name all_actions (fld v ''action''),
      cu_sessionIdentity = identity_of (fld v ''sessionIdentity''),
      cu_fromLogicalLeaf = opt_str_of (fld v ''fromLogicalLeaf''),
      cu_toLogicalLeaf = opt_str_of (fld v ''toLogicalLeaf''),
      cu_targetManifestId = str_of (fld v ''targetManifestId''),
      cu_rollbackManifestId = str_of (fld v ''rollbackManifestId''),
      cu_undoHead = opt_str_of (fld v ''undoHead''),
      cu_redoStack = map str_of (arr_of (fld v ''redoStack'')),
      cu_descriptorChecksum = str_of (fld v ''descriptorChecksum''),
      cu_checksum = str_of (fld v ''checksum'')\<rparr>"

definition descriptor_of :: "jsval \<Rightarrow> operation_descriptor" where
  "descriptor_of v =
     \<lparr>od_opId = str_of (fld v ''opId''),
      od_sessionIdentity = identity_of (fld v ''sessionIdentity''),
      od_workspaceIdentity = str_of (fld v ''workspaceIdentity''),
      od_action = the_named action_name all_actions (fld v ''action''),
      od_fromLogicalLeaf = opt_str_of (fld v ''fromLogicalLeaf''),
      od_toLogicalLeaf = opt_str_of (fld v ''toLogicalLeaf''),
      od_targetManifestId = str_of (fld v ''targetManifestId''),
      od_rollbackManifestId = str_of (fld v ''rollbackManifestId''),
      od_coverage = str_of (fld v ''coverage''),
      od_scopePaths = map str_of (arr_of (fld v ''scopePaths'')),
      od_planDigest = str_of (fld v ''planDigest''),
      od_checksum = str_of (fld v ''checksum'')\<rparr>"

definition journal_state_of :: "jsval \<Rightarrow> journal_state" where
  "journal_state_of v =
     \<lparr>js_opId = str_of (fld v ''opId''),
      js_phase = the_named phase_name all_phases (fld v ''phase''),
      js_revision = int_of (fld v ''revision''),
      js_descriptorChecksum = str_of (fld v ''descriptorChecksum''),
      js_observedLogicalLeaf =
        (if fld v ''observedLogicalLeaf'' = JUndef then None else Some (opt_str_of (fld v ''observedLogicalLeaf''))),
      js_checksum = str_of (fld v ''checksum'')\<rparr>"

definition mutation_of :: "jsval \<Rightarrow> mutation_record" where
  "mutation_of v =
     \<lparr>mr_opId = str_of (fld v ''opId''),
      mr_ordinal = nat (int_of (fld v ''ordinal'')),
      mr_state = the_named state_name all_states (fld v ''state''),
      mr_kind = the_named kind_name all_kinds (fld v ''kind''),
      mr_path = str_of (fld v ''path''),
      mr_sourceArtifact = str_of (fld v ''sourceArtifact''),
      mr_targetArtifact = opt_str_of (fld v ''targetArtifact''),
      mr_sourceFingerprint = str_of (fld v ''sourceFingerprint''),
      mr_targetFingerprint = str_of (fld v ''targetFingerprint''),
      mr_previousChecksum = opt_str_of (fld v ''previousChecksum''),
      mr_checksum = str_of (fld v ''checksum'')\<rparr>"

definition checkpoint_of :: "jsval \<Rightarrow> checkpoint_record" where
  "checkpoint_of v =
     \<lparr>cp_checkpointId = str_of (fld v ''checkpointId''),
      cp_runId = str_of (fld v ''runId''),
      cp_sessionIdentity = identity_of (fld v ''sessionIdentity''),
      cp_startEntryId = str_of (fld v ''startEntryId''),
      cp_userEntryId = str_of (fld v ''userEntryId''),
      cp_endLeafId = str_of (fld v ''endLeafId''),
      cp_rawPrompt = str_of (fld v ''rawPrompt''),
      cp_beforeManifestId = str_of (fld v ''beforeManifestId''),
      cp_afterManifestId = str_of (fld v ''afterManifestId''),
      cp_changedPaths = map str_of (arr_of (fld v ''changedPaths'')),
      cp_checksum = str_of (fld v ''checksum'')\<rparr>"

lemma map_str_of_jstrs [simp]: "map str_of (arr_of (jstrs xs)) = xs"
  by (induction xs) (auto simp: jstrs_def)

lemma int_of_jint [simp]: "int_of (jint i) = i"
  by (simp add: jint_def)

lemma jopt_not_undef [simp]: "jopt x \<noteq> JUndef"
  by (cases x) (auto simp: jopt_def)

lemma identity_of_json [simp]: "identity_of (json_of_identity i) = i"
  by (simp add: identity_of_def json_of_identity_def)

lemma cursor_of_json [simp]: "cursor_of (json_of_cursor c) = c"
  by (simp add: cursor_of_def json_of_cursor_def cursor_content_def the_named_def)

lemma descriptor_of_json [simp]: "descriptor_of (json_of_descriptor d) = d"
  by (simp add: descriptor_of_def json_of_descriptor_def descriptor_content_def the_named_def)

lemma journal_state_of_json [simp]: "journal_state_of (json_of_journal_state s) = s"
  by (simp add: journal_state_of_def json_of_journal_state_def journal_state_content_def the_named_def
      split: option.split)

lemma mutation_of_json [simp]: "mutation_of (json_of_mutation r) = r"
  by (simp add: mutation_of_def json_of_mutation_def mutation_content_def the_named_def)

lemma checkpoint_of_json [simp]: "checkpoint_of (json_of_checkpoint c) = c"
  by (simp add: checkpoint_of_def json_of_checkpoint_def checkpoint_content_def)

section \<open>The objects are JSON values\<close>

lemma json_ok_jopt [simp]: "json_ok (jopt x)"
  by (cases x) (auto simp: jopt_def)

lemma json_ok_jstrs [simp]: "json_ok (jstrs xs)"
  by (simp add: jstrs_def list_all_iff)

lemma json_ok_jint [simp]: "json_ok (jint i)"
  by (simp add: jint_def)

lemma json_ok_identity [simp]: "json_ok (json_of_identity i)"
  by (simp add: json_of_identity_def)

lemma json_ok_cursor [simp]: "json_ok (json_of_cursor c)"
  by (simp add: json_of_cursor_def cursor_content_def)

lemma json_ok_descriptor [simp]: "json_ok (json_of_descriptor d)"
  by (simp add: json_of_descriptor_def descriptor_content_def)

lemma json_ok_journal_state [simp]: "json_ok (json_of_journal_state s)"
  by (simp add: json_of_journal_state_def journal_state_content_def split: option.split)

lemma json_ok_mutation [simp]: "json_ok (json_of_mutation r)"
  by (simp add: json_of_mutation_def mutation_content_def)

lemma json_ok_checkpoint [simp]: "json_ok (json_of_checkpoint c)"
  by (simp add: json_of_checkpoint_def checkpoint_content_def)

end
