(* ===== verification/Encoding.thy ===== *)
theory Encoding
  imports Model
begin

text \<open>
  \<open>src/src/encoding.ts\<close>: checksums over canonical JSON and the validators that decide whether a
  persisted value is a manifest, a cursor, an operation descriptor, a journal state or a mutation
  record. A validator returns \<open>Inl\<close> of the code of the \<open>ModelValidationError\<close> it throws, and makes
  its checks in the order of the source.

  \<open>createHash("sha256")\<close> is outside the repository. It is the first argument \<open>H\<close> of every
  definition that computes a checksum; what the code relies on (64 lower case hexadecimal digits)
  is the locale \<open>digest\<close>.
\<close>

type_synonym hash = "string \<Rightarrow> string"

datatype validation_error =
    Unsupported_schema | Invalid_manifest | Invalid_cursor | Invalid_descriptor
  | Invalid_journal_state | Invalid_mutation_record | Invalid_root_path | Noncanonical_roots
  | Invalid_manifest_id | Invalid_operation_id | Checksum_mismatch
  | Type_error \<comment> \<open>the \<open>TypeError\<close> of \<open>canonicalJson\<close>, where no validator catches it\<close>

section \<open>Checks on strings\<close>

definition is_checksum :: "string \<Rightarrow> bool" where
  "is_checksum s \<longleftrightarrow> length s = 64 \<and> list_all is_hex_digit s"

definition drive_prefix :: "string \<Rightarrow> bool" where
  "drive_prefix s = (case s of a # b # _ \<Rightarrow> is_alpha a \<and> b = CHR '':'' | _ \<Rightarrow> False)"

definition isCanonicalRoot :: "string \<Rightarrow> bool" where
  "isCanonicalRoot s =
     (if s = ''.'' then True
      else if s = [] \<or> starts_with ''/'' s \<or> ends_with ''/'' s \<or> has_char BSL s \<or> has_char (CHR 0x00) s \<or> drive_prefix s
      then False
      else list_all (\<lambda>part. part \<noteq> [] \<and> part \<noteq> ''.'' \<and> part \<noteq> ''..'') (split_on (CHR ''/'') s))"

definition isStrictRootAncestor :: "string \<Rightarrow> string \<Rightarrow> bool" where
  "isStrictRootAncestor p r = (if p = ''.'' then r \<noteq> ''.'' else starts_with (p @ ''/'') r)"

definition has_git_component :: "string \<Rightarrow> bool" where
  "has_git_component s = list_ex (\<lambda>c. to_lower c = ''.git'') (split_on (CHR ''/'') s)"

definition workspaceParent :: "string \<Rightarrow> string" where
  "workspaceParent p =
     (if has_char (CHR ''/'') p then rev (tl (dropWhile (\<lambda>c. c \<noteq> CHR ''/'') (rev p))) else [])"

section \<open>Checksums\<close>

definition checksum_json :: "hash \<Rightarrow> jsval \<Rightarrow> string option" where
  "checksum_json H v = map_option H (canonicalJson v)"

definition checksumWithout :: "hash \<Rightarrow> jsval \<Rightarrow> string \<Rightarrow> validation_error \<Rightarrow> validation_error + string" where
  "checksumWithout H r k code =
     (case checksum_json H (without k r) of None \<Rightarrow> Inl code | Some c \<Rightarrow> Inr c)"

definition ignoredPresentClosure :: "hash \<Rightarrow> jsval \<Rightarrow> string option" where
  "ignoredPresentClosure H r =
     checksum_json H (JObj
       [(''coverage'', fld r ''coverage''),
        (''ignorePolicy'', fld r ''ignorePolicy''),
        (''ignoredPresentPaths'', fld r ''ignoredPresentPaths'')])"

definition nullish :: "jsval \<Rightarrow> jsval" where
  "nullish v = (if v = JUndef then JNull else v)"

definition topologyFingerprint :: "hash \<Rightarrow> jsval \<Rightarrow> jsval list \<Rightarrow> string option" where
  "topologyFingerprint H ws roots =
     checksum_json H (JObj
       [(''workspaceIdentity'', ws),
        (''roots'', JArr (map (\<lambda>r. JObj
           [(''relativeRoot'', fld r ''relativeRoot''),
            (''parentRoot'', fld r ''parentRoot''),
            (''state'', fld r ''state''),
            (''sourceIdentity'', fld r ''sourceIdentity''),
            (''privateRepositoryId'', fld r ''privateRepositoryId''),
            (''gitlinkOid'', nullish (fld r ''gitlinkOid''))]) roots))])"

section \<open>Checks on values\<close>

definition assertRecord :: "jsval \<Rightarrow> validation_error \<Rightarrow> validation_error + unit" where
  "assertRecord v code = guard (case v of JObj _ \<Rightarrow> True | _ \<Rightarrow> False) code"

definition assertSchemaVersion :: "jsval \<Rightarrow> validation_error + unit" where
  "assertSchemaVersion r = guard (fld r ''schemaVersion'' = jint 1) Unsupported_schema"

definition assertNonEmptyString :: "jsval \<Rightarrow> validation_error \<Rightarrow> validation_error + unit" where
  "assertNonEmptyString v code = guard (is_string v \<and> str_of v \<noteq> []) code"

definition assertNullableString :: "jsval \<Rightarrow> validation_error \<Rightarrow> validation_error + unit" where
  "assertNullableString v code = guard (v = JNull \<or> is_string v \<and> str_of v \<noteq> []) code"

definition assertChecksum :: "jsval \<Rightarrow> validation_error \<Rightarrow> validation_error + unit" where
  "assertChecksum v code = guard (is_string v \<and> is_checksum (str_of v)) code"

definition assertManifestId :: "jsval \<Rightarrow> validation_error + unit" where
  "assertManifestId v = assertChecksum v Invalid_manifest_id"

definition assertOperationId :: "jsval \<Rightarrow> validation_error + unit" where
  "assertOperationId v =
     rbind (assertNonEmptyString v Invalid_operation_id) (\<lambda>_.
       guard (\<not> (str_of v = ''.'' \<or> str_of v = ''..'' \<or> has_char (CHR ''/'') (str_of v) \<or>
                 has_char BSL (str_of v) \<or> has_char (CHR 0x00) (str_of v)))
         Invalid_operation_id)"

definition assertCanonicalRoot :: "jsval \<Rightarrow> validation_error + unit" where
  "assertCanonicalRoot v = guard (is_string v \<and> isCanonicalRoot (str_of v)) Invalid_root_path"

definition assertCoverage :: "jsval \<Rightarrow> bool \<Rightarrow> validation_error + unit" where
  "assertCoverage v allowNone =
     guard (v = JStr ''complete'' \<or> (allowNone \<and> v = JStr ''none'') \<or>
            (is_string v \<and> starts_with ''paths:'' (str_of v) \<and> is_checksum (drop 6 (str_of v))))
       Invalid_manifest"

definition assertSessionFileIdentity :: "jsval \<Rightarrow> validation_error \<Rightarrow> validation_error + unit" where
  "assertSessionFileIdentity v code =
     rbind (assertRecord v code) (\<lambda>_.
     rbind (guard (is_string (fld v ''path'') \<and> str_of (fld v ''path'') \<noteq> [] \<and>
                   \<not> has_char (CHR 0x00) (str_of (fld v ''path''))) code) (\<lambda>_.
     assertChecksum (fld v ''headerChecksum'') code))"

definition isDenseStringArray :: "jsval \<Rightarrow> bool" where
  "isDenseStringArray v \<longleftrightarrow> is_array v \<and> list_all (\<lambda>x. is_string x \<and> str_of x \<noteq> []) (arr_of v)"

definition assertWorkspacePath :: "jsval \<Rightarrow> validation_error + unit" where
  "assertWorkspacePath v =
     guard (is_string v \<and> str_of v \<noteq> ''.'' \<and> isCanonicalRoot (str_of v) \<and> \<not> has_git_component (str_of v))
       Invalid_mutation_record"

fun scan_scope_paths :: "string option \<Rightarrow> jsval list \<Rightarrow> validation_error + unit" where
  "scan_scope_paths prev [] = Inr ()"
| "scan_scope_paths prev (p # ps) =
     rbind (guard (is_string p \<and> isCanonicalRoot (str_of p)) Invalid_descriptor) (\<lambda>_.
     rbind (guard (\<not> (\<exists>q \<in> set_option prev. str_of p \<le> q)) Invalid_descriptor) (\<lambda>_.
     scan_scope_paths (Some (str_of p)) ps))"

definition assertScopePaths :: "hash \<Rightarrow> jsval \<Rightarrow> jsval \<Rightarrow> validation_error + unit" where
  "assertScopePaths H v coverage =
     rbind (guard (is_array v) Invalid_descriptor) (\<lambda>_.
     rbind (scan_scope_paths None (arr_of v)) (\<lambda>_.
     if is_string coverage \<and> starts_with ''paths:'' (str_of coverage)
     then (case checksum_json H v of None \<Rightarrow> Inl Type_error
           | Some c \<Rightarrow> guard (str_of coverage = ''paths:'' @ c) Invalid_descriptor)
     else Inr ()))"

section \<open>The validators of persisted records\<close>

definition assertCursorFields :: "jsval \<Rightarrow> validation_error + unit" where
  "assertCursorFields r =
     rbind (assertOperationId (fld r ''opId'')) (\<lambda>_.
     rbind (guard (named action_name all_actions (fld r ''action'') \<noteq> None) Invalid_cursor) (\<lambda>_.
     rbind (assertSessionFileIdentity (fld r ''sessionIdentity'') Invalid_cursor) (\<lambda>_.
     rbind (assertNullableString (fld r ''fromLogicalLeaf'') Invalid_cursor) (\<lambda>_.
     rbind (assertNullableString (fld r ''toLogicalLeaf'') Invalid_cursor) (\<lambda>_.
     rbind (assertManifestId (fld r ''targetManifestId'')) (\<lambda>_.
     rbind (assertManifestId (fld r ''rollbackManifestId'')) (\<lambda>_.
     rbind (assertNullableString (fld r ''undoHead'') Invalid_cursor) (\<lambda>_.
     rbind (guard (isDenseStringArray (fld r ''redoStack'')) Invalid_cursor) (\<lambda>_.
     rbind (assertChecksum (fld r ''descriptorChecksum'') Invalid_cursor) (\<lambda>_.
     assertChecksum (fld r ''checksum'') Checksum_mismatch))))))))))"

definition assert_own_checksum :: "hash \<Rightarrow> jsval \<Rightarrow> validation_error \<Rightarrow> validation_error + unit" where
  "assert_own_checksum H r code =
     rbind (checksumWithout H r ''checksum'' code) (\<lambda>c.
       guard (fld r ''checksum'' = JStr c) Checksum_mismatch)"

definition assertCursor :: "hash \<Rightarrow> jsval \<Rightarrow> validation_error + jsval" where
  "assertCursor H v =
     rbind (assertRecord v Invalid_cursor) (\<lambda>_.
     rbind (assertSchemaVersion v) (\<lambda>_.
     rbind (assertCursorFields v) (\<lambda>_.
     rbind (assert_own_checksum H v Invalid_cursor) (\<lambda>_.
     Inr v))))"

definition assertOperationDescriptor :: "hash \<Rightarrow> jsval \<Rightarrow> validation_error + jsval" where
  "assertOperationDescriptor H r =
     rbind (assertRecord r Invalid_descriptor) (\<lambda>_.
     rbind (assertSchemaVersion r) (\<lambda>_.
     rbind (assertOperationId (fld r ''opId'')) (\<lambda>_.
     rbind (assertSessionFileIdentity (fld r ''sessionIdentity'') Invalid_descriptor) (\<lambda>_.
     rbind (assertNonEmptyString (fld r ''workspaceIdentity'') Invalid_descriptor) (\<lambda>_.
     rbind (guard (named action_name all_actions (fld r ''action'') \<noteq> None) Invalid_descriptor) (\<lambda>_.
     rbind (assertNullableString (fld r ''fromLogicalLeaf'') Invalid_descriptor) (\<lambda>_.
     rbind (assertNullableString (fld r ''toLogicalLeaf'') Invalid_descriptor) (\<lambda>_.
     rbind (assertManifestId (fld r ''targetManifestId'')) (\<lambda>_.
     rbind (assertManifestId (fld r ''rollbackManifestId'')) (\<lambda>_.
     rbind (assertCoverage (fld r ''coverage'') False) (\<lambda>_.
     rbind (assertScopePaths H (fld r ''scopePaths'') (fld r ''coverage'')) (\<lambda>_.
     rbind (assertChecksum (fld r ''planDigest'') Invalid_descriptor) (\<lambda>_.
     rbind (assertChecksum (fld r ''checksum'') Checksum_mismatch) (\<lambda>_.
     rbind (assert_own_checksum H r Invalid_descriptor) (\<lambda>_.
     Inr r)))))))))))))))"

definition is_positive_integer :: "jsval \<Rightarrow> bool" where
  "is_positive_integer v = (case v of JNum (JInt i) \<Rightarrow> 1 \<le> i | _ \<Rightarrow> False)"

definition isJournalPhase :: "jsval \<Rightarrow> bool" where
  "isJournalPhase v \<longleftrightarrow> named phase_name all_phases v \<noteq> None"

definition isMutationState :: "jsval \<Rightarrow> bool" where
  "isMutationState v \<longleftrightarrow> named state_name all_states v \<noteq> None"

definition assertJournalState :: "hash \<Rightarrow> jsval \<Rightarrow> validation_error + jsval" where
  "assertJournalState H r =
     rbind (assertRecord r Invalid_journal_state) (\<lambda>_.
     rbind (assertSchemaVersion r) (\<lambda>_.
     rbind (assertOperationId (fld r ''opId'')) (\<lambda>_.
     rbind (guard (isJournalPhase (fld r ''phase'')) Invalid_journal_state) (\<lambda>_.
     rbind (guard (is_positive_integer (fld r ''revision'')) Invalid_journal_state) (\<lambda>_.
     rbind (assertChecksum (fld r ''descriptorChecksum'') Invalid_journal_state) (\<lambda>_.
     rbind (if fld r ''observedLogicalLeaf'' \<noteq> JUndef
            then assertNullableString (fld r ''observedLogicalLeaf'') Invalid_journal_state else Inr ()) (\<lambda>_.
     rbind (assertChecksum (fld r ''checksum'') Checksum_mismatch) (\<lambda>_.
     rbind (assert_own_checksum H r Invalid_journal_state) (\<lambda>_.
     Inr r)))))))))"

definition assertMutationRecord :: "hash \<Rightarrow> jsval \<Rightarrow> validation_error + jsval" where
  "assertMutationRecord H r =
     rbind (assertRecord r Invalid_mutation_record) (\<lambda>_.
     rbind (assertSchemaVersion r) (\<lambda>_.
     rbind (assertOperationId (fld r ''opId'')) (\<lambda>_.
     rbind (guard (is_positive_integer (fld r ''ordinal'')) Invalid_mutation_record) (\<lambda>_.
     rbind (guard (isMutationState (fld r ''state'')) Invalid_mutation_record) (\<lambda>_.
     rbind (guard (named kind_name all_kinds (fld r ''kind'') \<noteq> None) Invalid_mutation_record) (\<lambda>_.
     rbind (guard (\<not> (fld r ''kind'' = JStr ''write'' \<and> fld r ''targetArtifact'' = JNull)) Invalid_mutation_record) (\<lambda>_.
     rbind (assertWorkspacePath (fld r ''path'')) (\<lambda>_.
     rbind (assertWorkspacePath (fld r ''sourceArtifact'')) (\<lambda>_.
     rbind (if fld r ''targetArtifact'' \<noteq> JNull then assertWorkspacePath (fld r ''targetArtifact'') else Inr ()) (\<lambda>_.
     let parent = workspaceParent (str_of (fld r ''path'')) in
     rbind (guard (workspaceParent (str_of (fld r ''sourceArtifact'')) = parent) Invalid_mutation_record) (\<lambda>_.
     rbind (guard (fld r ''targetArtifact'' = JNull \<or>
                   workspaceParent (str_of (fld r ''targetArtifact'')) = parent) Invalid_mutation_record) (\<lambda>_.
     rbind (assertChecksum (fld r ''sourceFingerprint'') Invalid_mutation_record) (\<lambda>_.
     rbind (assertChecksum (fld r ''targetFingerprint'') Invalid_mutation_record) (\<lambda>_.
     rbind (if fld r ''previousChecksum'' \<noteq> JNull
            then assertChecksum (fld r ''previousChecksum'') Invalid_mutation_record else Inr ()) (\<lambda>_.
     rbind (assertChecksum (fld r ''checksum'') Checksum_mismatch) (\<lambda>_.
     rbind (assert_own_checksum H r Invalid_mutation_record) (\<lambda>_.
     Inr r)))))))))))))))))"

section \<open>The manifest validator\<close>

definition assertManifestFields :: "jsval \<Rightarrow> validation_error + unit" where
  "assertManifestFields r =
     rbind (assertNonEmptyString (fld r ''workspaceIdentity'') Invalid_manifest) (\<lambda>_.
     rbind (assertChecksum (fld r ''topologyFingerprint'') Invalid_manifest) (\<lambda>_.
     rbind (assertCoverage (fld r ''coverage'') False) (\<lambda>_.
     assertNonEmptyString (fld r ''createdAt'') Invalid_manifest)))"

text \<open>\<open>path.split("/").slice(0, -1)\<close> and its joined prefixes.\<close>

definition proper_prefixes :: "string \<Rightarrow> string list" where
  "proper_prefixes p =
     (let parts = butlast (split_on (CHR ''/'') p)
      in map (\<lambda>i. join_with ''/'' (take (Suc i) parts)) [0 ..< length parts])"

fun scan_ignored_paths :: "string list \<Rightarrow> string option \<Rightarrow> jsval list \<Rightarrow> validation_error + unit" where
  "scan_ignored_paths seen prev [] = Inr ()"
| "scan_ignored_paths seen prev (p # ps) =
     rbind (guard (p \<noteq> JHole) Invalid_manifest) (\<lambda>_.
     rbind (guard (is_string p \<and> str_of p \<noteq> ''.'' \<and> isCanonicalRoot (str_of p) \<and>
                   \<not> has_git_component (str_of p)) Invalid_manifest) (\<lambda>_.
     rbind (guard (\<not> (\<exists>q \<in> set_option prev. str_of p \<le> q)) Invalid_manifest) (\<lambda>_.
     rbind (guard (\<not> list_ex (\<lambda>a. a \<in> set seen) (proper_prefixes (str_of p))) Invalid_manifest) (\<lambda>_.
     scan_ignored_paths (str_of p # seen) (Some (str_of p)) ps))))"

definition assertIgnoredPresentPaths :: "jsval \<Rightarrow> validation_error + unit" where
  "assertIgnoredPresentPaths v =
     rbind (guard (is_array v) Invalid_manifest) (\<lambda>_. scan_ignored_paths [] None (arr_of v))"

text \<open>The body of the loop over the roots; it returns \<open>relativeRoot\<close>.\<close>

definition assertRoot :: "hash \<Rightarrow> string option \<Rightarrow> jsval \<Rightarrow> validation_error + string" where
  "assertRoot H prev r =
     rbind (assertRecord r Invalid_manifest) (\<lambda>_.
     rbind (assertCanonicalRoot (fld r ''relativeRoot'')) (\<lambda>_.
     let relativeRoot = str_of (fld r ''relativeRoot'') in
     rbind (guard (\<not> (\<exists>q \<in> set_option prev. relativeRoot \<le> q)) Noncanonical_roots) (\<lambda>_.
     rbind (if fld r ''parentRoot'' \<noteq> JNull then assertCanonicalRoot (fld r ''parentRoot'') else Inr ()) (\<lambda>_.
     rbind (guard (fld r ''state'' \<in> {JStr ''active'', JStr ''uninitialized'', JStr ''broken''}) Invalid_manifest) (\<lambda>_.
     rbind (assertNonEmptyString (fld r ''sourceIdentity'') Invalid_manifest) (\<lambda>_.
     rbind (assertChecksum (fld r ''privateRepositoryId'') Invalid_manifest) (\<lambda>_.
     rbind (guard (str_of (fld r ''privateRepositoryId'') = H (str_of (fld r ''sourceIdentity''))) Invalid_manifest) (\<lambda>_.
     rbind (if fld r ''treeId'' \<noteq> JNull then assertNonEmptyString (fld r ''treeId'') Invalid_manifest else Inr ()) (\<lambda>_.
     rbind (guard (\<not> (if fld r ''state'' = JStr ''active'' then fld r ''treeId'' = JNull else fld r ''treeId'' \<noteq> JNull))
              Invalid_manifest) (\<lambda>_.
     rbind (if fld r ''gitlinkOid'' \<noteq> JUndef then assertNonEmptyString (fld r ''gitlinkOid'') Invalid_manifest else Inr ()) (\<lambda>_.
     rbind (assertCoverage (fld r ''coverage'') True) (\<lambda>_.
     rbind (assertNonEmptyString (fld r ''ignorePolicy'') Invalid_manifest) (\<lambda>_.
     rbind (assertIgnoredPresentPaths (fld r ''ignoredPresentPaths'')) (\<lambda>_.
     rbind (guard (\<not> ((fld r ''coverage'' = JStr ''none'' \<or> fld r ''state'' \<noteq> JStr ''active'') \<and>
                       arr_of (fld r ''ignoredPresentPaths'') \<noteq> [])) Invalid_manifest) (\<lambda>_.
     rbind (assertChecksum (fld r ''ignoreClosure'') Invalid_manifest) (\<lambda>_.
     rbind (case ignoredPresentClosure H r of None \<Rightarrow> Inl Type_error
            | Some c \<Rightarrow> guard (str_of (fld r ''ignoreClosure'') = c) Invalid_manifest) (\<lambda>_.
     rbind (assertChecksum (fld r ''objectClosure'') Invalid_manifest) (\<lambda>_.
     Inr relativeRoot))))))))))))))))))"

fun scan_roots :: "hash \<Rightarrow> string option \<Rightarrow> jsval list \<Rightarrow> validation_error + unit" where
  "scan_roots H prev [] = Inr ()"
| "scan_roots H prev (r # rs) =
     rbind (assertRoot H prev r) (\<lambda>rel. scan_roots H (Some rel) rs)"

definition compare_nearest :: "string \<Rightarrow> string \<Rightarrow> int" where
  "compare_nearest l r =
     (if length r \<noteq> length l then int (length r) - int (length l) else compare_strings l r)"

definition nearestParent :: "string list \<Rightarrow> string \<Rightarrow> string option" where
  "nearestParent rootPaths r =
     (case sort_cmp compare_nearest (filter (\<lambda>c. isStrictRootAncestor c r) rootPaths) of
        [] \<Rightarrow> None | p # _ \<Rightarrow> Some p)"

definition conflicts_with_descendant :: "string list \<Rightarrow> string \<Rightarrow> string \<Rightarrow> bool" where
  "conflicts_with_descendant rootPaths relativeRoot path =
     (let workspacePath = (if relativeRoot = ''.'' then path else relativeRoot @ ''/'' @ path)
      in list_ex (\<lambda>d. workspacePath = d \<or> starts_with (d @ ''/'') workspacePath \<or> starts_with (workspacePath @ ''/'') d)
           (filter (\<lambda>c. isStrictRootAncestor relativeRoot c) rootPaths))"

definition assertRoots :: "hash \<Rightarrow> jsval \<Rightarrow> validation_error + unit" where
  "assertRoots H v =
     rbind (guard (is_array v \<and> arr_of v \<noteq> []) Invalid_manifest) (\<lambda>_.
     rbind (scan_roots H None (arr_of v)) (\<lambda>_.
     let roots = arr_of v; rootPaths = remdups (map (\<lambda>r. str_of (fld r ''relativeRoot'')) roots) in
     rbind (guard (length rootPaths = length roots) Noncanonical_roots) (\<lambda>_.
     rbind (guard (''.'' \<in> set rootPaths) Invalid_manifest) (\<lambda>_.
     rbind (guard (list_all (\<lambda>r. opt_str_of (fld r ''parentRoot'') =
                     nearestParent rootPaths (str_of (fld r ''relativeRoot''))) roots) Invalid_manifest) (\<lambda>_.
     guard (list_all (\<lambda>r. list_all (\<lambda>p. \<not> conflicts_with_descendant rootPaths (str_of (fld r ''relativeRoot'')) (str_of p))
              (arr_of (fld r ''ignoredPresentPaths''))) roots) Invalid_manifest)))))"

definition assertManifest :: "hash \<Rightarrow> jsval \<Rightarrow> validation_error + jsval" where
  "assertManifest H v =
     rbind (assertRecord v Invalid_manifest) (\<lambda>_.
     rbind (assertSchemaVersion v) (\<lambda>_.
     rbind (assertManifestFields v) (\<lambda>_.
     rbind (assertRoots H (fld v ''roots'')) (\<lambda>_.
     rbind (case topologyFingerprint H (fld v ''workspaceIdentity'') (arr_of (fld v ''roots'')) of
              None \<Rightarrow> Inl Type_error
            | Some c \<Rightarrow> guard (str_of (fld v ''topologyFingerprint'') = c) Checksum_mismatch) (\<lambda>_.
     rbind (guard (\<not> (fld v ''coverage'' = JStr ''complete'' \<and>
                      list_ex (\<lambda>r. fld r ''coverage'' \<noteq> JStr ''complete'') (arr_of (fld v ''roots'')))) Invalid_manifest) (\<lambda>_.
     rbind (assertManifestId (fld v ''manifestId'')) (\<lambda>_.
     rbind (checksumWithout H v ''manifestId'' Invalid_manifest) (\<lambda>c.
     rbind (guard (fld v ''manifestId'' = JStr c) Checksum_mismatch) (\<lambda>_.
     Inr v)))))))))"

text \<open>Two manifests describe the same workspace content (identifier and creation time aside).\<close>

definition sameStrings :: "string list \<Rightarrow> string list \<Rightarrow> bool" where
  "sameStrings l r \<longleftrightarrow> length l = length r \<and> list_all (\<lambda>i. l ! i = r ! i) [0 ..< length l]"

definition nullish_opt :: "string option option \<Rightarrow> string option" where
  "nullish_opt x = (case x of None \<Rightarrow> None | Some y \<Rightarrow> y)"

definition same_root :: "snapshot_root \<Rightarrow> snapshot_root \<Rightarrow> bool" where
  "same_root a b \<longleftrightarrow>
     sr_relativeRoot a = sr_relativeRoot b \<and>
     sr_parentRoot a = sr_parentRoot b \<and>
     sr_state a = sr_state b \<and>
     sr_sourceIdentity a = sr_sourceIdentity b \<and>
     sr_privateRepositoryId a = sr_privateRepositoryId b \<and>
     nullish_opt (sr_gitlinkOid a) = nullish_opt (sr_gitlinkOid b) \<and>
     sr_treeId a = sr_treeId b \<and>
     sr_coverage a = sr_coverage b \<and>
     sr_ignorePolicy a = sr_ignorePolicy b \<and>
     sr_ignoreClosure a = sr_ignoreClosure b \<and>
     sr_objectClosure a = sr_objectClosure b \<and>
     sameStrings (sr_ignoredPresentPaths a) (sr_ignoredPresentPaths b)"

definition sameWorkspaceSnapshot :: "snapshot_manifest \<Rightarrow> snapshot_manifest \<Rightarrow> bool" where
  "sameWorkspaceSnapshot l r =
     (if sm_schemaVersion l \<noteq> sm_schemaVersion r \<or>
         sm_workspaceIdentity l \<noteq> sm_workspaceIdentity r \<or>
         sm_topologyFingerprint l \<noteq> sm_topologyFingerprint r \<or>
         sm_coverage l \<noteq> sm_coverage r \<or>
         length (sm_roots l) \<noteq> length (sm_roots r)
      then False
      else list_all (\<lambda>i. i < length (sm_roots r) \<and> same_root (sm_roots l ! i) (sm_roots r ! i))
             [0 ..< length (sm_roots l)])"

text \<open>What the sources rely on for SHA-256 in hexadecimal.\<close>

locale digest =
  fixes H :: hash
  assumes hex64: "is_checksum (H s)"
begin

lemma checksum_json_hex: "checksum_json H v = Some c \<Longrightarrow> is_checksum c"
  using hex64 by (auto simp: checksum_json_def)

lemma checksumWithout_hex: "checksumWithout H r k code = Inr c \<Longrightarrow> is_checksum c"
  using checksum_json_hex by (auto simp: checksumWithout_def split: option.splits)

end

lemma checksum_json_ok: "json_ok v \<Longrightarrow> \<exists>c. checksum_json H v = Some c"
  using json_parse_canonicalJson by (fastforce simp: checksum_json_def)

section \<open>Well-formed records\<close>

definition op_id_ok :: "string \<Rightarrow> bool" where
  "op_id_ok s \<longleftrightarrow> s \<noteq> [] \<and> s \<noteq> ''.'' \<and> s \<noteq> ''..'' \<and> \<not> has_char (CHR ''/'') s \<and> \<not> has_char BSL s \<and> \<not> has_char (CHR 0x00) s"

definition workspace_path_ok :: "string \<Rightarrow> bool" where
  "workspace_path_ok s \<longleftrightarrow> s \<noteq> ''.'' \<and> isCanonicalRoot s \<and> \<not> has_git_component s"

definition identity_ok :: "session_file_identity \<Rightarrow> bool" where
  "identity_ok i \<longleftrightarrow> si_path i \<noteq> [] \<and> \<not> has_char (CHR 0x00) (si_path i) \<and> is_checksum (si_headerChecksum i)"

definition leaf_ok :: "string option \<Rightarrow> bool" where
  "leaf_ok l \<longleftrightarrow> l \<noteq> Some []"

definition mutation_fields_ok :: "mutation_record \<Rightarrow> bool" where
  "mutation_fields_ok r \<longleftrightarrow>
     op_id_ok (mr_opId r) \<and> 1 \<le> mr_ordinal r \<and>
     (mr_kind r = Write \<longrightarrow> mr_targetArtifact r \<noteq> None) \<and>
     workspace_path_ok (mr_path r) \<and> workspace_path_ok (mr_sourceArtifact r) \<and>
     workspaceParent (mr_sourceArtifact r) = workspaceParent (mr_path r) \<and>
     (\<forall>t \<in> set_option (mr_targetArtifact r).
        workspace_path_ok t \<and> workspaceParent t = workspaceParent (mr_path r)) \<and>
     is_checksum (mr_sourceFingerprint r) \<and> is_checksum (mr_targetFingerprint r) \<and>
     (\<forall>p \<in> set_option (mr_previousChecksum r). is_checksum p) \<and>
     is_checksum (mr_checksum r)"

definition cursor_fields_ok :: "cursor_state \<Rightarrow> bool" where
  "cursor_fields_ok c \<longleftrightarrow>
     op_id_ok (cu_opId c) \<and> identity_ok (cu_sessionIdentity c) \<and>
     leaf_ok (cu_fromLogicalLeaf c) \<and> leaf_ok (cu_toLogicalLeaf c) \<and>
     is_checksum (cu_targetManifestId c) \<and> is_checksum (cu_rollbackManifestId c) \<and>
     leaf_ok (cu_undoHead c) \<and> list_all (\<lambda>x. x \<noteq> []) (cu_redoStack c) \<and>
     is_checksum (cu_descriptorChecksum c) \<and> is_checksum (cu_checksum c)"

definition coverage_ok :: "string \<Rightarrow> bool \<Rightarrow> bool" where
  "coverage_ok s allowNone \<longleftrightarrow> s = ''complete'' \<or> (allowNone \<and> s = ''none'') \<or>
     (starts_with ''paths:'' s \<and> is_checksum (drop 6 s))"

definition descriptor_fields_ok :: "hash \<Rightarrow> operation_descriptor \<Rightarrow> bool" where
  "descriptor_fields_ok H d \<longleftrightarrow>
     op_id_ok (od_opId d) \<and> identity_ok (od_sessionIdentity d) \<and> od_workspaceIdentity d \<noteq> [] \<and>
     leaf_ok (od_fromLogicalLeaf d) \<and> leaf_ok (od_toLogicalLeaf d) \<and>
     is_checksum (od_targetManifestId d) \<and> is_checksum (od_rollbackManifestId d) \<and>
     coverage_ok (od_coverage d) False \<and>
     list_all isCanonicalRoot (od_scopePaths d) \<and> strictly_ascending (od_scopePaths d) \<and>
     (starts_with ''paths:'' (od_coverage d) \<longrightarrow>
        Some (drop 6 (od_coverage d)) = checksum_json H (jstrs (od_scopePaths d))) \<and>
     is_checksum (od_planDigest d) \<and> is_checksum (od_checksum d)"

definition journal_state_fields_ok :: "journal_state \<Rightarrow> bool" where
  "journal_state_fields_ok s \<longleftrightarrow>
     op_id_ok (js_opId s) \<and> 1 \<le> js_revision s \<and> is_checksum (js_descriptorChecksum s) \<and>
     js_observedLogicalLeaf s \<noteq> Some (Some []) \<and> is_checksum (js_checksum s)"

lemma is_array_jstrs [simp]: "is_array (jstrs xs)"
  by (simp add: jstrs_def is_array_def)

lemma arr_of_jstrs [simp]: "arr_of (jstrs xs) = map JStr xs"
  by (simp add: jstrs_def)

lemma jopt_JNull [simp]: "jopt x = JNull \<longleftrightarrow> x = None"
  by (cases x) (auto simp: jopt_def)

lemma is_string_jopt [simp]: "is_string (jopt x) \<longleftrightarrow> x \<noteq> None"
  by (cases x) (auto simp: jopt_def)

lemma str_of_jopt_Some [simp]: "x = Some s \<Longrightarrow> str_of (jopt x) = s"
  by (simp add: jopt_def)

named_theorems assert_simps "unfolding of the validators"

lemmas [assert_simps] = assertRecord_def assertSchemaVersion_def assertNonEmptyString_def
  assertNullableString_def assertChecksum_def assertManifestId_def assertOperationId_def
  assertCanonicalRoot_def assertCoverage_def assertSessionFileIdentity_def assertWorkspacePath_def
  assertScopePaths_def assert_own_checksum_def checksumWithout_def isJournalPhase_def isMutationState_def
  is_positive_integer_def isDenseStringArray_def

lemma assertOperationId_Inr [simp]: "assertOperationId (JStr s) = Inr () \<longleftrightarrow> op_id_ok s"
  by (auto simp: assert_simps op_id_ok_def)

lemma assertNullable_jopt [simp]: "assertNullableString (jopt x) code = Inr () \<longleftrightarrow> leaf_ok x"
  by (cases x) (auto simp: assert_simps leaf_ok_def jopt_def)

lemma assertIdentity_json [simp]:
  "assertSessionFileIdentity (json_of_identity i) code = Inr () \<longleftrightarrow> identity_ok i"
  by (auto simp: assert_simps json_of_identity_def identity_ok_def)

lemma assertWorkspacePath_JStr [simp]: "assertWorkspacePath (JStr s) = Inr () \<longleftrightarrow> workspace_path_ok s"
  by (auto simp: assertWorkspacePath_def workspace_path_ok_def)

lemma assertWorkspacePath_jopt:
  "x \<noteq> None \<Longrightarrow> assertWorkspacePath (jopt x) = Inr () \<longleftrightarrow> (\<forall>t \<in> set_option x. workspace_path_ok t)"
  by (cases x) (auto simp: jopt_def)

lemma assertChecksum_JStr [simp]: "assertChecksum (JStr s) code = Inr () \<longleftrightarrow> is_checksum s"
  by (simp add: assertChecksum_def)

lemma assertChecksum_jopt:
  "x \<noteq> None \<Longrightarrow> assertChecksum (jopt x) code = Inr () \<longleftrightarrow> (\<forall>t \<in> set_option x. is_checksum t)"
  by (cases x) (auto simp: jopt_def)

lemma assertCoverage_JStr [simp]: "assertCoverage (JStr s) b = Inr () \<longleftrightarrow> coverage_ok s b"
  by (auto simp: assertCoverage_def coverage_ok_def)

lemma scan_scope_paths_strs:
  "scan_scope_paths prev (map JStr ps) = Inr () \<longleftrightarrow>
   list_all isCanonicalRoot ps \<and> strictly_ascending (case prev of None \<Rightarrow> ps | Some q \<Rightarrow> q # ps)"
proof (induction ps arbitrary: prev)
  case Nil
  then show ?case by (cases prev) auto
next
  case (Cons p ps)
  show ?case
    using Cons.IH [of "Some p"] by (cases prev) (auto simp: not_le)
qed

lemma without_sealed:
  "\<forall>p \<in> set ps. fst p \<noteq> k \<Longrightarrow> without k (JObj (ps @ [(k, v)])) = JObj ps"
  by (simp add: without_def props_def filter_id_conv)

lemma fld_sealed: "\<forall>p \<in> set ps. fst p \<noteq> k \<Longrightarrow> fld (JObj (ps @ [(k, v)])) k = v"
  by (induction ps) auto

lemma own_checksum_sealed:
  assumes "\<forall>p \<in> set ps. fst p \<noteq> ''checksum''"
  shows "assert_own_checksum H (JObj (ps @ [(''checksum'', JStr c)])) code = Inr () \<longleftrightarrow>
    checksum_json H (JObj ps) = Some c"
  using assms
  by (auto simp: assert_own_checksum_def checksumWithout_def without_sealed fld_sealed split: option.split)

theorem mutation_record_valid_iff:
  "assertMutationRecord H (json_of_mutation r) = Inr v \<longleftrightarrow>
   v = json_of_mutation r \<and> mutation_fields_ok r \<and>
   checksum_json H (JObj (mutation_content r)) = Some (mr_checksum r)"
proof -
  have own: "assert_own_checksum H (json_of_mutation r) code = Inr () \<longleftrightarrow>
    checksum_json H (JObj (mutation_content r)) = Some (mr_checksum r)" for code
    unfolding json_of_mutation_def by (rule own_checksum_sealed) (simp add: mutation_content_def)
  have f: "fld (json_of_mutation r) ''schemaVersion'' = jint 1"
    "fld (json_of_mutation r) ''opId'' = JStr (mr_opId r)"
    "fld (json_of_mutation r) ''ordinal'' = jint (int (mr_ordinal r))"
    "fld (json_of_mutation r) ''state'' = JStr (state_name (mr_state r))"
    "fld (json_of_mutation r) ''kind'' = JStr (kind_name (mr_kind r))"
    "fld (json_of_mutation r) ''path'' = JStr (mr_path r)"
    "fld (json_of_mutation r) ''sourceArtifact'' = JStr (mr_sourceArtifact r)"
    "fld (json_of_mutation r) ''targetArtifact'' = jopt (mr_targetArtifact r)"
    "fld (json_of_mutation r) ''sourceFingerprint'' = JStr (mr_sourceFingerprint r)"
    "fld (json_of_mutation r) ''targetFingerprint'' = JStr (mr_targetFingerprint r)"
    "fld (json_of_mutation r) ''previousChecksum'' = jopt (mr_previousChecksum r)"
    "fld (json_of_mutation r) ''checksum'' = JStr (mr_checksum r)"
    "assertRecord (json_of_mutation r) Invalid_mutation_record = Inr ()"
    by (simp_all add: json_of_mutation_def mutation_content_def assertRecord_def)
  have kind: "kind_name (mr_kind r) = ''write'' \<longleftrightarrow> mr_kind r = Write" by (cases "mr_kind r") auto
  show ?thesis
    unfolding assertMutationRecord_def f Let_def
    by (cases "mr_targetArtifact r"; cases "mr_previousChecksum r")
      (auto simp: own assertSchemaVersion_def f is_positive_integer_def isMutationState_def
        mutation_fields_ok_def jint_def kind assertWorkspacePath_jopt assertChecksum_jopt)
qed

theorem cursor_valid_iff:
  "assertCursor H (json_of_cursor c) = Inr v \<longleftrightarrow>
   v = json_of_cursor c \<and> cursor_fields_ok c \<and>
   checksum_json H (JObj (cursor_content c)) = Some (cu_checksum c)"
proof -
  have own: "assert_own_checksum H (json_of_cursor c) code = Inr () \<longleftrightarrow>
    checksum_json H (JObj (cursor_content c)) = Some (cu_checksum c)" for code
    unfolding json_of_cursor_def by (rule own_checksum_sealed) (simp add: cursor_content_def)
  have f: "fld (json_of_cursor c) ''schemaVersion'' = jint 1"
    "fld (json_of_cursor c) ''opId'' = JStr (cu_opId c)"
    "fld (json_of_cursor c) ''action'' = JStr (action_name (cu_action c))"
    "fld (json_of_cursor c) ''sessionIdentity'' = json_of_identity (cu_sessionIdentity c)"
    "fld (json_of_cursor c) ''fromLogicalLeaf'' = jopt (cu_fromLogicalLeaf c)"
    "fld (json_of_cursor c) ''toLogicalLeaf'' = jopt (cu_toLogicalLeaf c)"
    "fld (json_of_cursor c) ''targetManifestId'' = JStr (cu_targetManifestId c)"
    "fld (json_of_cursor c) ''rollbackManifestId'' = JStr (cu_rollbackManifestId c)"
    "fld (json_of_cursor c) ''undoHead'' = jopt (cu_undoHead c)"
    "fld (json_of_cursor c) ''redoStack'' = jstrs (cu_redoStack c)"
    "fld (json_of_cursor c) ''descriptorChecksum'' = JStr (cu_descriptorChecksum c)"
    "fld (json_of_cursor c) ''checksum'' = JStr (cu_checksum c)"
    "assertRecord (json_of_cursor c) Invalid_cursor = Inr ()"
    by (simp_all add: json_of_cursor_def cursor_content_def assertRecord_def)
  have dense: "isDenseStringArray (jstrs xs) \<longleftrightarrow> list_all (\<lambda>x. x \<noteq> []) xs" for xs
    by (simp add: isDenseStringArray_def list_all_iff)
  show ?thesis
    unfolding assertCursor_def assertCursorFields_def f
    by (auto simp: own assertSchemaVersion_def f cursor_fields_ok_def assertManifestId_def dense)
qed

theorem descriptor_valid_iff:
  "assertOperationDescriptor H (json_of_descriptor d) = Inr v \<longleftrightarrow>
   v = json_of_descriptor d \<and> descriptor_fields_ok H d \<and>
   checksum_json H (JObj (descriptor_content d)) = Some (od_checksum d)"
proof -
  have own: "assert_own_checksum H (json_of_descriptor d) code = Inr () \<longleftrightarrow>
    checksum_json H (JObj (descriptor_content d)) = Some (od_checksum d)" for code
    unfolding json_of_descriptor_def by (rule own_checksum_sealed) (simp add: descriptor_content_def)
  have f: "fld (json_of_descriptor d) ''schemaVersion'' = jint 1"
    "fld (json_of_descriptor d) ''opId'' = JStr (od_opId d)"
    "fld (json_of_descriptor d) ''action'' = JStr (action_name (od_action d))"
    "fld (json_of_descriptor d) ''sessionIdentity'' = json_of_identity (od_sessionIdentity d)"
    "fld (json_of_descriptor d) ''workspaceIdentity'' = JStr (od_workspaceIdentity d)"
    "fld (json_of_descriptor d) ''fromLogicalLeaf'' = jopt (od_fromLogicalLeaf d)"
    "fld (json_of_descriptor d) ''toLogicalLeaf'' = jopt (od_toLogicalLeaf d)"
    "fld (json_of_descriptor d) ''targetManifestId'' = JStr (od_targetManifestId d)"
    "fld (json_of_descriptor d) ''rollbackManifestId'' = JStr (od_rollbackManifestId d)"
    "fld (json_of_descriptor d) ''coverage'' = JStr (od_coverage d)"
    "fld (json_of_descriptor d) ''scopePaths'' = jstrs (od_scopePaths d)"
    "fld (json_of_descriptor d) ''planDigest'' = JStr (od_planDigest d)"
    "fld (json_of_descriptor d) ''checksum'' = JStr (od_checksum d)"
    "assertRecord (json_of_descriptor d) Invalid_descriptor = Inr ()"
    by (simp_all add: json_of_descriptor_def descriptor_content_def assertRecord_def)
  have cov: "starts_with ''paths:'' s \<Longrightarrow> s = ''paths:'' @ x \<longleftrightarrow> drop 6 s = x" for s x
    by (auto simp: starts_with_prefix prefix_def)
  obtain k where k: "checksum_json H (jstrs (od_scopePaths d)) = Some k"
    using checksum_json_ok [OF json_ok_jstrs] by blast
  have scope: "assertScopePaths H (jstrs (od_scopePaths d)) (JStr (od_coverage d)) = Inr () \<longleftrightarrow>
    list_all isCanonicalRoot (od_scopePaths d) \<and> strictly_ascending (od_scopePaths d) \<and>
    (starts_with ''paths:'' (od_coverage d) \<longrightarrow> drop 6 (od_coverage d) = k)"
    using scan_scope_paths_strs [of None "od_scopePaths d"] cov [of "od_coverage d" k]
    by (auto simp: assertScopePaths_def k)
  show ?thesis
    unfolding assertOperationDescriptor_def f
    by (auto simp: own assertSchemaVersion_def f descriptor_fields_ok_def assertManifestId_def scope k
        assertNonEmptyString_def)
qed

theorem journal_state_valid_iff:
  "assertJournalState H (json_of_journal_state s) = Inr v \<longleftrightarrow>
   v = json_of_journal_state s \<and> journal_state_fields_ok s \<and>
   checksum_json H (JObj (journal_state_content s)) = Some (js_checksum s)"
proof -
  have own: "assert_own_checksum H (json_of_journal_state s) code = Inr () \<longleftrightarrow>
    checksum_json H (JObj (journal_state_content s)) = Some (js_checksum s)" for code
    unfolding json_of_journal_state_def
    by (rule own_checksum_sealed) (auto simp: journal_state_content_def split: option.split)
  have f: "fld (json_of_journal_state s) ''schemaVersion'' = jint 1"
    "fld (json_of_journal_state s) ''opId'' = JStr (js_opId s)"
    "fld (json_of_journal_state s) ''phase'' = JStr (phase_name (js_phase s))"
    "fld (json_of_journal_state s) ''revision'' = jint (js_revision s)"
    "fld (json_of_journal_state s) ''descriptorChecksum'' = JStr (js_descriptorChecksum s)"
    "fld (json_of_journal_state s) ''observedLogicalLeaf'' =
      (case js_observedLogicalLeaf s of None \<Rightarrow> JUndef | Some l \<Rightarrow> jopt l)"
    "fld (json_of_journal_state s) ''checksum'' = JStr (js_checksum s)"
    "assertRecord (json_of_journal_state s) Invalid_journal_state = Inr ()"
    by (simp_all add: json_of_journal_state_def journal_state_content_def assertRecord_def split: option.split)
  show ?thesis
    unfolding assertJournalState_def f
    by (cases "js_observedLogicalLeaf s")
      (auto simp: own assertSchemaVersion_def f journal_state_fields_ok_def isJournalPhase_def
        is_positive_integer_def jint_def leaf_ok_def)
qed

section \<open>Sealing a record\<close>

text \<open>\<open>{ ...content, checksum: checksum(canonicalJson(content)) }\<close>.\<close>

definition content_checksum :: "hash \<Rightarrow> (string \<times> jsval) list \<Rightarrow> string" where
  "content_checksum H ps = (case checksum_json H (JObj ps) of None \<Rightarrow> [] | Some c \<Rightarrow> c)"

lemma content_checksum_json: "json_ok (JObj ps) \<Longrightarrow> checksum_json H (JObj ps) = Some (content_checksum H ps)"
  using checksum_json_ok [of "JObj ps" H] by (auto simp: content_checksum_def)

lemma content_checksum_hex: "digest H \<Longrightarrow> json_ok (JObj ps) \<Longrightarrow> is_checksum (content_checksum H ps)"
  using digest.checksum_json_hex content_checksum_json by blast

lemma mutation_content_checksum [simp]: "mutation_content (r\<lparr>mr_checksum := c\<rparr>) = mutation_content r"
  by (simp add: mutation_content_def)

lemma json_ok_mutation_content [simp]: "json_ok (JObj (mutation_content r))"
  by (simp add: mutation_content_def)

lemma json_ok_journal_state_content [simp]: "json_ok (JObj (journal_state_content s))"
  by (simp add: journal_state_content_def split: option.split)

lemma json_ok_descriptor_content [simp]: "json_ok (JObj (descriptor_content d))"
  by (simp add: descriptor_content_def)

lemma json_ok_cursor_content [simp]: "json_ok (JObj (cursor_content c))"
  by (simp add: cursor_content_def)

lemma json_ok_checkpoint_content [simp]: "json_ok (JObj (checkpoint_content c))"
  by (simp add: checkpoint_content_def)

section \<open>What a validated value guarantees\<close>

lemma validators_return_argument:
  "assertCursor H v = Inr w \<Longrightarrow> w = v"
  "assertOperationDescriptor H v = Inr w \<Longrightarrow> w = v"
  "assertJournalState H v = Inr w \<Longrightarrow> w = v"
  "assertMutationRecord H v = Inr w \<Longrightarrow> w = v"
  "assertManifest H v = Inr w \<Longrightarrow> w = v"
  by (auto simp: assertCursor_def assertOperationDescriptor_def assertJournalState_def
      assertMutationRecord_def assertManifest_def Let_def)

lemma own_checksum_Inr:
  "assert_own_checksum H v code = Inr u \<Longrightarrow>
   \<exists>c. checksum_json H (without ''checksum'' v) = Some c \<and> fld v ''checksum'' = JStr c"
  by (auto simp: assert_own_checksum_def checksumWithout_def split: option.splits)

lemma assertOperationId_fld: "assertOperationId v = Inr u \<Longrightarrow> v = JStr (str_of v) \<and> op_id_ok (str_of v)"
  by (auto simp: assert_simps op_id_ok_def is_string_ex)

lemma assertChecksum_fld: "assertChecksum v code = Inr u \<Longrightarrow> v = JStr (str_of v) \<and> is_checksum (str_of v)"
  by (auto simp: assertChecksum_def is_string_ex)

lemma assertWorkspacePath_fld:
  "assertWorkspacePath v = Inr u \<Longrightarrow> v = JStr (str_of v) \<and> workspace_path_ok (str_of v)"
  by (auto simp: assertWorkspacePath_def workspace_path_ok_def is_string_ex)

lemma is_positive_integer_ex: "is_positive_integer v \<longleftrightarrow> (\<exists>i. v = JNum (JInt i) \<and> 1 \<le> i)"
  by (auto simp: is_positive_integer_def split: jsval.split jnum.split)

lemma named_kind_Write:
  "named kind_name all_kinds v \<noteq> None \<Longrightarrow> the_named kind_name all_kinds v = Write \<longleftrightarrow> v = JStr ''write''"
  using named_Some [of kind_name all_kinds v] by (auto simp: the_named_def named_def all_kinds_def)

lemma opt_str_of_JStr: "v = JStr (str_of v) \<Longrightarrow> opt_str_of v = Some (str_of v)"
  by (metis opt_str_of_simps(1))

lemma assertMutationRecord_fields:
  assumes "assertMutationRecord H v = Inr w"
  shows "mutation_fields_ok (mutation_of v)"
proof -
  let ?f = "fld v"
  from assms have a: "assertOperationId (?f ''opId'') = Inr ()" "is_positive_integer (?f ''ordinal'')"
    "named kind_name all_kinds (?f ''kind'') \<noteq> None"
    "\<not> (?f ''kind'' = JStr ''write'' \<and> ?f ''targetArtifact'' = JNull)"
    "assertWorkspacePath (?f ''path'') = Inr ()" "assertWorkspacePath (?f ''sourceArtifact'') = Inr ()"
    "?f ''targetArtifact'' \<noteq> JNull \<Longrightarrow> assertWorkspacePath (?f ''targetArtifact'') = Inr ()"
    "workspaceParent (str_of (?f ''sourceArtifact'')) = workspaceParent (str_of (?f ''path''))"
    "?f ''targetArtifact'' = JNull \<or> workspaceParent (str_of (?f ''targetArtifact'')) = workspaceParent (str_of (?f ''path''))"
    "assertChecksum (?f ''sourceFingerprint'') Invalid_mutation_record = Inr ()"
    "assertChecksum (?f ''targetFingerprint'') Invalid_mutation_record = Inr ()"
    "?f ''previousChecksum'' \<noteq> JNull \<Longrightarrow> assertChecksum (?f ''previousChecksum'') Invalid_mutation_record = Inr ()"
    "assertChecksum (?f ''checksum'') Checksum_mismatch = Inr ()"
    by (auto simp: assertMutationRecord_def Let_def split: if_splits)
  have target: "\<forall>t \<in> set_option (opt_str_of (?f ''targetArtifact'')).
      workspace_path_ok t \<and> workspaceParent t = workspaceParent (str_of (?f ''path''))"
    using a(7,9) opt_str_of_JStr assertWorkspacePath_fld [of "?f ''targetArtifact''"]
    by (cases "?f ''targetArtifact'' = JNull") auto
  have wtarget: "opt_str_of (?f ''targetArtifact'') \<noteq> None" if "?f ''targetArtifact'' \<noteq> JNull"
    using opt_str_of_JStr assertWorkspacePath_fld [OF a(7) [OF that]] by auto
  have prev: "\<forall>p \<in> set_option (opt_str_of (?f ''previousChecksum'')). is_checksum p"
    using a(12) opt_str_of_JStr assertChecksum_fld [of "?f ''previousChecksum''"]
    by (cases "?f ''previousChecksum'' = JNull") auto
  have ord: "1 \<le> nat (int_of (?f ''ordinal''))"
    using a(2) by (auto simp: is_positive_integer_ex)
  show ?thesis
    using a target wtarget prev ord named_kind_Write [OF a(3)]
      assertOperationId_fld [OF a(1)] assertWorkspacePath_fld [OF a(5)] assertWorkspacePath_fld [OF a(6)]
      assertChecksum_fld [OF a(10)] assertChecksum_fld [OF a(11)] assertChecksum_fld [OF a(13)]
    unfolding mutation_fields_ok_def mutation_of_def by simp
qed

section \<open>Tampering\<close>

text \<open>Two accepted values with the same checksum have the same content, or the texts of their
  contents are a collision of the hash.\<close>

theorem own_checksum_binds:
  assumes "assert_own_checksum H v code = Inr ()" "assert_own_checksum H w code' = Inr ()"
    and "fld v ''checksum'' = fld w ''checksum''"
    and "json_ok (without ''checksum'' v)" "json_ok (without ''checksum'' w)"
  shows "\<exists>s t. canonicalJson (without ''checksum'' v) = Some s \<and> canonicalJson (without ''checksum'' w) = Some t \<and>
    H s = H t \<and> (s = t \<longleftrightarrow> normalise (without ''checksum'' v) = normalise (without ''checksum'' w))"
proof -
  obtain s where s: "canonicalJson (without ''checksum'' v) = Some s" "fld v ''checksum'' = JStr (H s)"
    using own_checksum_Inr [OF assms(1)] by (auto simp: checksum_json_def)
  obtain t where t: "canonicalJson (without ''checksum'' w) = Some t" "fld w ''checksum'' = JStr (H t)"
    using own_checksum_Inr [OF assms(2)] by (auto simp: checksum_json_def)
  show ?thesis
    using s t assms(3) canonicalJson_inject [OF assms(4,5)] by simp
qed

section \<open>The roots of a manifest\<close>

interpretation nearest: comparator compare_nearest
proof
  show "compare_nearest x y < 0 \<longleftrightarrow> 0 < compare_nearest y x" for x y
    using strings.cmp_sym [of x y] by (simp add: compare_nearest_def)
  show "compare_nearest x y \<le> 0 \<Longrightarrow> compare_nearest y z \<le> 0 \<Longrightarrow> compare_nearest x z \<le> 0" for x y z
    using strings.cmp_trans [of x y z] by (simp add: compare_nearest_def split: if_splits)
qed

lemma nearestParent_None: "nearestParent rs r = None \<longleftrightarrow> \<not> (\<exists>c \<in> set rs. isStrictRootAncestor c r)"
proof -
  have "nearestParent rs r = None \<longleftrightarrow> set (sort_cmp compare_nearest (filter (\<lambda>c. isStrictRootAncestor c r) rs)) = {}"
    by (cases "sort_cmp compare_nearest (filter (\<lambda>c. isStrictRootAncestor c r) rs)")
      (simp_all add: nearestParent_def)
  then show ?thesis by (auto simp: nearest.set_sort_cmp)
qed

text \<open>The parent is an ancestor among the roots, and no longer ancestor is among them.\<close>

lemma nearestParent_Some:
  assumes "nearestParent rs r = Some p"
  shows "p \<in> set rs" "isStrictRootAncestor p r"
    "c \<in> set rs \<Longrightarrow> isStrictRootAncestor c r \<Longrightarrow> length c \<le> length p"
proof -
  let ?s = "sort_cmp compare_nearest (filter (\<lambda>c. isStrictRootAncestor c r) rs)"
  obtain qs where s: "?s = p # qs"
    using assms by (auto simp: nearestParent_def split: list.splits)
  have set: "set ?s = {c \<in> set rs. isStrictRootAncestor c r}"
    by (auto simp: nearest.set_sort_cmp)
  then show "p \<in> set rs" "isStrictRootAncestor p r" using s by auto
  have "sorted_wrt (\<lambda>a b. compare_nearest a b \<le> 0) (p # qs)"
    using nearest.sorted_sort_cmp s by metis
  then show "length c \<le> length p" if "c \<in> set rs" "isStrictRootAncestor c r"
  proof -
    have "c \<in> set (p # qs)" using that set s by auto
    then show ?thesis
      using \<open>sorted_wrt (\<lambda>a b. compare_nearest a b \<le> 0) (p # qs)\<close>
      by (auto simp: compare_nearest_def split: if_splits)
  qed
qed

lemma assertRoot_canonical:
  "assertRoot H prev r = Inr rel \<Longrightarrow>
   rel = str_of (fld r ''relativeRoot'') \<and> isCanonicalRoot rel \<and> (\<forall>q \<in> set_option prev. q < rel)"
  by (auto simp: assertRoot_def Let_def assertCanonicalRoot_def)

lemma scan_roots_sorted:
  assumes "scan_roots H prev rs = Inr ()"
  shows "sorted_wrt (<) ((case prev of None \<Rightarrow> [] | Some q \<Rightarrow> [q]) @ map (\<lambda>r. str_of (fld r ''relativeRoot'')) rs)"
    "\<forall>r \<in> set rs. isCanonicalRoot (str_of (fld r ''relativeRoot''))"
  using assms
proof (induction rs arbitrary: prev)
  case (Cons r rs)
  { case 1
    then obtain rel where rel: "assertRoot H prev r = Inr rel" "scan_roots H (Some rel) rs = Inr ()" by auto
    then have "sorted_wrt (<) (rel # map (\<lambda>r. str_of (fld r ''relativeRoot'')) rs)"
      using Cons.IH(1) [of "Some rel"] by simp
    then show ?case
      using assertRoot_canonical [OF rel(1)] by (cases prev) (auto intro: less_trans)
  next
    case 2
    then obtain rel where rel: "assertRoot H prev r = Inr rel" "scan_roots H (Some rel) rs = Inr ()" by auto
    then show ?case using Cons.IH(2) [of "Some rel"] assertRoot_canonical [OF rel(1)] by auto }
qed (auto split: option.split)

definition root_paths :: "jsval \<Rightarrow> string list" where
  "root_paths v = map (\<lambda>r. str_of (fld r ''relativeRoot'')) (arr_of (fld v ''roots''))"

lemma assertManifest_roots: "assertManifest H v = Inr w \<Longrightarrow> assertRoots H (fld v ''roots'') = Inr ()"
  by (auto simp: assertManifest_def)

theorem manifest_roots_sorted:
  assumes "assertManifest H v = Inr w"
  shows "sorted_wrt (<) (root_paths v) \<and> distinct (root_paths v) \<and> ''.'' \<in> set (root_paths v) \<and>
    list_all isCanonicalRoot (root_paths v)"
proof -
  have r: "scan_roots H None (arr_of (fld v ''roots'')) = Inr ()" "''.'' \<in> set (remdups (root_paths v))"
    using assertManifest_roots [OF assms] by (auto simp: assertRoots_def Let_def root_paths_def)
  then have s: "sorted_wrt (<) (root_paths v)"
    using scan_roots_sorted(1) [OF r(1)] by (simp add: root_paths_def)
  then show ?thesis
    using r scan_roots_sorted(2) [OF r(1)] sorted_strict_distinct [OF s]
    by (auto simp: root_paths_def list_all_iff)
qed

text \<open>The root directory has no parent; every other root has the nearest enclosing root as its parent.\<close>

theorem manifest_parents_nearest:
  assumes "assertManifest H v = Inr w" and "r \<in> set (arr_of (fld v ''roots''))"
  shows "case opt_str_of (fld r ''parentRoot'') of
      None \<Rightarrow> str_of (fld r ''relativeRoot'') = ''.''
    | Some p \<Rightarrow> p \<in> set (root_paths v) \<and> isStrictRootAncestor p (str_of (fld r ''relativeRoot'')) \<and>
        (\<forall>c \<in> set (root_paths v). isStrictRootAncestor c (str_of (fld r ''relativeRoot'')) \<longrightarrow> length c \<le> length p)"
proof -
  let ?rel = "str_of (fld r ''relativeRoot'')"
  have "remdups (root_paths v) = root_paths v" "''.'' \<in> set (root_paths v)"
    using manifest_roots_sorted [OF assms(1)] by (auto simp: distinct_remdups_id)
  moreover have "opt_str_of (fld r ''parentRoot'') = nearestParent (remdups (root_paths v)) ?rel"
    using assertManifest_roots [OF assms(1)] assms(2)
    by (auto simp: assertRoots_def Let_def root_paths_def list_all_iff)
  ultimately have n: "opt_str_of (fld r ''parentRoot'') = nearestParent (root_paths v) ?rel"
    and dot: "''.'' \<in> set (root_paths v)" by metis+
  show ?thesis
  proof (cases "nearestParent (root_paths v) ?rel")
    case None
    then have "\<not> isStrictRootAncestor ''.'' ?rel" using nearestParent_None dot by blast
    then show ?thesis using None n by (simp add: isStrictRootAncestor_def)
  next
    case (Some p)
    then show ?thesis
      using n nearestParent_Some(1,2) [OF Some] nearestParent_Some(3) [OF Some] by simp
  qed
qed

section \<open>Snapshot equality\<close>

lemma sameStrings_eq [simp]: "sameStrings l r \<longleftrightarrow> l = r"
  by (auto simp: sameStrings_def list_all_iff intro: nth_equalityI)

definition root_key where
  "root_key a = (sr_relativeRoot a, sr_parentRoot a, sr_state a, sr_sourceIdentity a, sr_privateRepositoryId a,
     nullish_opt (sr_gitlinkOid a), sr_treeId a, sr_coverage a, sr_ignorePolicy a, sr_ignoreClosure a,
     sr_objectClosure a, sr_ignoredPresentPaths a)"

definition snapshot_key where
  "snapshot_key m = (sm_schemaVersion m, sm_workspaceIdentity m, sm_topologyFingerprint m, sm_coverage m,
     map root_key (sm_roots m))"

text \<open>The comparison of two manifests is equality of everything but the identifier and the time.\<close>

theorem sameWorkspaceSnapshot_key: "sameWorkspaceSnapshot l r \<longleftrightarrow> snapshot_key l = snapshot_key r"
proof -
  have "same_root a b \<longleftrightarrow> root_key a = root_key b" for a b
    by (auto simp: same_root_def root_key_def)
  then have "map root_key xs = map root_key ys \<longleftrightarrow>
    length xs = length ys \<and> (\<forall>i < length xs. same_root (xs ! i) (ys ! i))" for xs ys
    by (auto simp: list_eq_iff_nth_eq)
  then show ?thesis
    by (auto simp: sameWorkspaceSnapshot_def snapshot_key_def list_all_iff)
qed

section \<open>Safe paths\<close>

text \<open>A canonical root splits into components that are names, so joining it to a directory stays inside.\<close>

lemma canonical_components:
  assumes "isCanonicalRoot s" "s \<noteq> ''.''"
  shows "\<forall>part \<in> set (split_on (CHR ''/'') s). part \<noteq> [] \<and> part \<noteq> ''.'' \<and> part \<noteq> ''..''"
  using assms by (auto simp: isCanonicalRoot_def list_all_iff split: if_splits)

end
