(* ===== verification/Sha256.thy ===== *)
theory Sha256
  imports Encoding "HOL-Library.Word"
begin

unbundle bit_operations_syntax

text \<open>
  \<open>checksum\<close> of \<open>src/src/encoding.ts\<close> is \<open>createHash("sha256")\<close> in hexadecimal. The other theories take
  the hash as a parameter and use only that it is 64 hexadecimal digits (locale \<open>digest\<close>); here it is
  SHA-256, on 32-bit words, and the locale is interpreted on it.
\<close>

section \<open>The compression function\<close>

type_synonym w32 = "32 word"

definition rotr :: "nat \<Rightarrow> w32 \<Rightarrow> w32" where
  "rotr n x = drop_bit n x OR push_bit (32 - n) x"

text \<open>
  The constants are the first 32 bits of the fractional parts of the cube roots of the first 64 primes,
  and of the square roots of the first 8. \<open>root_floor k n bits\<close> is the integer \<open>k\<close>-th root of \<open>n\<close>, found
  bit by bit.
\<close>

primrec root_bits :: "nat \<Rightarrow> nat \<Rightarrow> nat \<Rightarrow> nat \<Rightarrow> nat" where
  "root_bits k n 0 r = r"
| "root_bits k n (Suc b) r = root_bits k n b (if (r + 2 ^ b) ^ k \<le> n then r + 2 ^ b else r)"

definition root_floor :: "nat \<Rightarrow> nat \<Rightarrow> nat" where
  "root_floor k n = root_bits k n 40 0"

definition fractional_word :: "nat \<Rightarrow> nat \<Rightarrow> w32" where
  "fractional_word k p = of_nat (root_floor k (p * 2 ^ (32 * k)))"

definition first_primes :: "nat list" where
  "first_primes = filter (\<lambda>p. list_all (\<lambda>d. p \<le> d \<or> p mod d \<noteq> 0) [2, 3, 5, 7, 11, 13, 17]) [2..<312]"

definition round_constants :: "w32 list" where
  "round_constants = map (fractional_word 3) first_primes"

definition initial_state :: "w32 list" where
  "initial_state = map (fractional_word 2) (take 8 first_primes)"

lemma first_primes_length: "length first_primes = 64"
  by (simp add: first_primes_def upt_rec)

lemma root_bits_floor:
  assumes "r ^ k \<le> n" "n < (r + 2 ^ b) ^ k"
  shows "root_bits k n b r ^ k \<le> n \<and> n < Suc (root_bits k n b r) ^ k"
  using assms
proof (induction b arbitrary: r)
  case 0
  then show ?case by simp
next
  case (Suc b)
  show ?case
  proof (cases "(r + 2 ^ b) ^ k \<le> n")
    case True
    have "n < ((r + 2 ^ b) + 2 ^ b) ^ k" using Suc.prems(2) by (simp add: mult_2 add.assoc)
    from Suc.IH [OF True this] True show ?thesis by simp
  next
    case False
    then have "n < (r + 2 ^ b) ^ k" by simp
    from Suc.IH [OF Suc.prems(1) this] False show ?thesis by simp
  qed
qed

text \<open>The message schedule is kept newest word first: the next word uses those 2, 7, 15 and 16 back.\<close>

definition next_word :: "w32 list \<Rightarrow> w32" where
  "next_word ws =
     (let a = ws ! 14; b = ws ! 1;
          s0 = rotr 7 a XOR rotr 18 a XOR drop_bit 3 a;
          s1 = rotr 17 b XOR rotr 19 b XOR drop_bit 10 b
      in ws ! 15 + s0 + ws ! 6 + s1)"

definition schedule :: "w32 list \<Rightarrow> w32 list" where
  "schedule block = rev (((\<lambda>ws. next_word ws # ws) ^^ 48) (rev block))"

fun sha_round :: "w32 list \<Rightarrow> w32 \<times> w32 \<Rightarrow> w32 list" where
  "sha_round [a, b, c, d, e, f, g, h] (k, w) =
     (let s1 = rotr 6 e XOR rotr 11 e XOR rotr 25 e;
          ch = (e AND f) XOR (NOT e AND g);
          t1 = h + s1 + ch + k + w;
          s0 = rotr 2 a XOR rotr 13 a XOR rotr 22 a;
          maj = (a AND b) XOR (a AND c) XOR (b AND c)
      in [t1 + s0 + maj, a, b, c, d + t1, e, f, g])"
| "sha_round st kw = st"

definition compress :: "w32 list \<Rightarrow> w32 list \<Rightarrow> w32 list" where
  "compress st block = map2 (+) st (foldl sha_round st (zip round_constants (schedule block)))"

section \<open>Padding and output\<close>

fun word_bytes :: "nat \<Rightarrow> nat \<Rightarrow> nat list" where
  "word_bytes 0 n = []"
| "word_bytes (Suc k) n = word_bytes k (n div 256) @ [n mod 256]"

definition padded :: "nat list \<Rightarrow> nat list" where
  "padded bytes = bytes @ 128 # replicate ((119 - length bytes mod 64) mod 64) 0 @ word_bytes 8 (8 * length bytes)"

fun big_endian :: "nat list \<Rightarrow> w32 list" where
  "big_endian (a # b # c # d # rest) = of_nat (((a * 256 + b) * 256 + c) * 256 + d) # big_endian rest"
| "big_endian _ = []"

fun blocks :: "w32 list \<Rightarrow> w32 list list" where
  "blocks ws = (if length ws < 16 then [] else take 16 ws # blocks (drop 16 ws))"

declare blocks.simps [simp del]

definition sha256 :: "nat list \<Rightarrow> w32 list" where
  "sha256 bytes = foldl compress initial_state (blocks (big_endian (padded bytes)))"

definition hex_byte :: "nat \<Rightarrow> string" where
  "hex_byte n = [hex_char (n div 16), hex_char (n mod 16)]"

definition checksum :: hash where
  "checksum s = concat (map (\<lambda>w. concat (map hex_byte (word_bytes 4 (unat w)))) (sha256 (map of_char s)))"

section \<open>A digest is 64 hexadecimal digits\<close>

lemma sha_round_length: "length st = 8 \<Longrightarrow> length (sha_round st kw) = 8"
  by (induction st kw rule: sha_round.induct) (simp_all add: Let_def)

lemma compress_length: "length st = 8 \<Longrightarrow> length (compress st block) = 8"
  unfolding compress_def
  using foldl_keeps [of "\<lambda>s. length s = 8" st sha_round] sha_round_length by simp

lemma sha256_length: "length (sha256 bytes) = 8"
  unfolding sha256_def
  by (rule foldl_keeps [of "\<lambda>s. length s = 8"]) (simp_all add: initial_state_def first_primes_length compress_length)

lemma hex_char_digit: "d < 16 \<Longrightarrow> is_hex_digit (hex_char d)"
proof -
  assume "d < 16"
  then have "d \<in> set [0..<16]" by simp
  then show ?thesis by (auto simp: hex_char_def is_hex_digit_def is_digit_def upt_rec)
qed

lemma word_bytes_less: "b \<in> set (word_bytes k n) \<Longrightarrow> b < 256"
  by (induction k n rule: word_bytes.induct) auto

lemma word_bytes_length: "length (word_bytes k n) = k"
  by (induction k n rule: word_bytes.induct) auto

definition word_hex :: "w32 \<Rightarrow> string" where
  "word_hex w = concat (map hex_byte (word_bytes 4 (unat w)))"

lemma hex_byte_digits: "b < 256 \<Longrightarrow> list_all is_hex_digit (hex_byte b)"
  by (simp add: hex_byte_def hex_char_digit)

lemma word_hex_digits: "length (word_hex w) = 8" "list_all is_hex_digit (word_hex w)"
proof -
  show "length (word_hex w) = 8"
    by (simp add: word_hex_def length_concat hex_byte_def comp_def word_bytes_length sum_list_triv)
  show "list_all is_hex_digit (word_hex w)"
    using hex_byte_digits word_bytes_less unfolding word_hex_def list_all_iff by fastforce
qed

lemma checksum_words: "checksum s = concat (map word_hex (sha256 (map of_char s)))"
  by (simp add: checksum_def word_hex_def [abs_def])

lemma checksum_hex: "is_checksum (checksum s)"
proof -
  have "length (checksum s) = 64"
    by (simp add: checksum_words length_concat comp_def word_hex_digits(1) sum_list_triv sha256_length)
  moreover have "list_all is_hex_digit (checksum s)"
    using word_hex_digits(2) unfolding checksum_words list_all_iff by fastforce
  ultimately show ?thesis by (simp add: is_checksum_def)
qed

interpretation sha: digest checksum
  by unfold_locales (rule checksum_hex)

end
