(* ===== verification/MutationJournal.thy ===== *)
theory MutationJournal
  imports Encoding
begin

text \<open>
  \<open>src/src/mutation-journal.ts\<close>: the write-ahead log of one operation, a file of JSON lines chained
  by checksums, with the in-memory copy that is reused while the file's \<open>stat\<close> fingerprint has not
  changed.

  The disk holds the bytes of the file (\<open>None\<close> if there is none) and a stamp, which stands for the
  fingerprint (device, inode, mode, size, times): every change of the file gives it a stamp it never
  had before. \<open>enqueueMutation\<close> runs the operations of one journal one after the other, so an
  operation is one step. An operation returns its result, or the error thrown, with the journal and
  the disk it leaves.
\<close>

datatype journal_error =
    MJ_syntax | MJ_invalid validation_error | MJ_foreign_op | MJ_broken_chain | MJ_ordinal_gap
  | MJ_not_intent | MJ_payload_conflict | MJ_bad_transition | MJ_changed_while_reading
  | MJ_empty_batch | MJ_not_next_state | MJ_not_rollbackable | MJ_not_cleaned

record mutation_intent =
  mi_kind :: mutation_kind
  mi_path :: string
  mi_sourceArtifact :: string
  mi_targetArtifact :: "string option"
  mi_sourceFingerprint :: string
  mi_targetFingerprint :: string

record mutation_advance =
  ma_ordinal :: nat
  ma_states :: "mutation_state list"

record journal_records =
  jr_latest :: "mutation_record list"
  jr_tail :: "mutation_record option"
  jr_durableEnd :: nat
  jr_hasNonDurableTail :: bool
  jr_fileExisted :: bool

record mutation_journal =
  mj_opId :: string
  mj_cached :: "(journal_records \<times> nat) option"

record mutation_disk =
  md_bytes :: "string option"
  md_stamp :: nat

type_synonym 'a mj_result = "(journal_error + 'a) \<times> mutation_journal \<times> mutation_disk"

section \<open>Reading the file\<close>

definition isValidDurableTransition :: "mutation_state \<Rightarrow> mutation_state \<Rightarrow> bool" where
  "isValidDurableTransition prev nxt \<longleftrightarrow>
     state_index nxt = state_index prev + 1 \<or> (nxt = CLEANED \<and> prev \<noteq> CLEANED)"

definition immutablePayload :: "mutation_record \<Rightarrow> string option" where
  "immutablePayload r = canonicalJson (JObj
     [(''opId'', JStr (mr_opId r)),
      (''ordinal'', jint (int (mr_ordinal r))),
      (''kind'', JStr (kind_name (mr_kind r))),
      (''path'', JStr (mr_path r)),
      (''sourceArtifact'', JStr (mr_sourceArtifact r)),
      (''targetArtifact'', jopt (mr_targetArtifact r)),
      (''sourceFingerprint'', JStr (mr_sourceFingerprint r)),
      (''targetFingerprint'', JStr (mr_targetFingerprint r))])"

text \<open>\<open>latest[ordinal - 1]\<close>.\<close>

definition latest_at :: "mutation_record list \<Rightarrow> nat \<Rightarrow> mutation_record option" where
  "latest_at latest ordinal = (if ordinal = 0 then None else get_at latest (ordinal - 1))"

definition set_latest :: "mutation_record list \<Rightarrow> mutation_record \<Rightarrow> mutation_record list" where
  "set_latest latest r = put_at latest (mr_ordinal r - 1) r"

text \<open>The body of the loop over the durable lines.\<close>

definition read_record ::
  "string \<Rightarrow> mutation_record list \<Rightarrow> mutation_record option \<Rightarrow> mutation_record \<Rightarrow> journal_error + unit" where
  "read_record opId latest tail r =
     rbind (guard (mr_opId r = opId) MJ_foreign_op) (\<lambda>_.
     rbind (guard (mr_previousChecksum r = map_option mr_checksum tail) MJ_broken_chain) (\<lambda>_.
     case latest_at latest (mr_ordinal r) of
       None \<Rightarrow>
         rbind (guard (mr_ordinal r = length latest + 1) MJ_ordinal_gap) (\<lambda>_.
         guard (mr_state r = INTENT) MJ_not_intent)
     | Some previous \<Rightarrow>
         rbind (guard (immutablePayload previous = immutablePayload r) MJ_payload_conflict) (\<lambda>_.
         guard (isValidDurableTransition (mr_state previous) (mr_state r)) MJ_bad_transition)))"

definition parse_line :: "hash \<Rightarrow> string \<Rightarrow> journal_error + mutation_record" where
  "parse_line H line =
     (case json_parse line of
        None \<Rightarrow> Inl MJ_syntax
      | Some v \<Rightarrow> (case assertMutationRecord H v of Inl e \<Rightarrow> Inl (MJ_invalid e) | Inr w \<Rightarrow> Inr (mutation_of w)))"

fun read_lines ::
  "hash \<Rightarrow> string \<Rightarrow> mutation_record list \<Rightarrow> mutation_record option \<Rightarrow> string list \<Rightarrow>
   journal_error + mutation_record list \<times> mutation_record option" where
  "read_lines H opId latest tail [] = Inr (latest, tail)"
| "read_lines H opId latest tail (line # lines) =
     rbind (parse_line H line) (\<lambda>r.
     rbind (read_record opId latest tail r) (\<lambda>_.
     read_lines H opId (set_latest latest r) (Some r) lines))"

text \<open>The end of the last complete line: \<open>bytes.lastIndexOf(0x0a) + 1\<close>.\<close>

definition durable_end :: "string \<Rightarrow> nat" where
  "durable_end bytes = length bytes - length (takeWhile (\<lambda>c. c \<noteq> CHR 0x0A) (rev bytes))"

definition durable_lines :: "string \<Rightarrow> string list" where
  "durable_lines bytes =
     (let durable = take (durable_end bytes) bytes
      in if durable = [] then [] else split_on (CHR 0x0A) (butlast durable))"

definition parse_journal :: "hash \<Rightarrow> string \<Rightarrow> string \<Rightarrow> journal_error + journal_records" where
  "parse_journal H opId bytes =
     rbind (read_lines H opId [] None (durable_lines bytes)) (\<lambda>(latest, tail).
     Inr \<lparr>jr_latest = latest, jr_tail = tail, jr_durableEnd = durable_end bytes,
          jr_hasNonDurableTail = (durable_end bytes \<noteq> length bytes), jr_fileExisted = True\<rparr>)"

definition emptyJournalRecords :: journal_records where
  "emptyJournalRecords =
     \<lparr>jr_latest = [], jr_tail = None, jr_durableEnd = 0, jr_hasNonDurableTail = False, jr_fileExisted = False\<rparr>"

text \<open>\<open>readRecords\<close>, from the fingerprint before, the bytes read, and the fingerprint after.\<close>

definition readRecords ::
  "hash \<Rightarrow> mutation_journal \<Rightarrow> nat option \<Rightarrow> string option \<Rightarrow> nat option \<Rightarrow>
   (journal_error + journal_records) \<times> mutation_journal" where
  "readRecords H j before content after =
     (if before \<noteq> None \<and> map_option snd (mj_cached j) = before
      then (Inr (fst (the (mj_cached j))), j)
      else (case content of
        None \<Rightarrow> (Inr emptyJournalRecords, j\<lparr>mj_cached := None\<rparr>)
      | Some bytes \<Rightarrow>
          if before = None \<or> after = None \<or> before \<noteq> after then (Inl MJ_changed_while_reading, j)
          else (case parse_journal H (mj_opId j) bytes of
            Inl e \<Rightarrow> (Inl e, j)
          | Inr records \<Rightarrow> (Inr records, j\<lparr>mj_cached := Some (records, the after)\<rparr>))))"

definition journalFileFingerprint :: "mutation_disk \<Rightarrow> nat option" where
  "journalFileFingerprint d = (case md_bytes d of None \<Rightarrow> None | Some _ \<Rightarrow> Some (md_stamp d))"

text \<open>A read during which nobody writes.\<close>

definition current_records ::
  "hash \<Rightarrow> mutation_journal \<Rightarrow> mutation_disk \<Rightarrow> (journal_error + journal_records) \<times> mutation_journal" where
  "current_records H j d =
     readRecords H j (journalFileFingerprint d) (md_bytes d) (journalFileFingerprint d)"

section \<open>Appending\<close>

definition record_line :: "mutation_record \<Rightarrow> string" where
  "record_line r = (case canonicalJson (json_of_mutation r) of None \<Rightarrow> [] | Some t \<Rightarrow> t @ [CHR 0x0A])"

definition record_lines :: "mutation_record list \<Rightarrow> string" where
  "record_lines rs = concat (map record_line rs)"

definition kept_bytes :: "journal_records \<Rightarrow> mutation_disk \<Rightarrow> string" where
  "kept_bytes cur d =
     (let bytes = (case md_bytes d of None \<Rightarrow> [] | Some b \<Rightarrow> b)
      in if jr_hasNonDurableTail cur then take (jr_durableEnd cur) bytes else bytes)"

definition append_records ::
  "mutation_record list \<Rightarrow> journal_records \<Rightarrow> mutation_journal \<Rightarrow> mutation_disk \<Rightarrow> mutation_journal \<times> mutation_disk" where
  "append_records rs cur j d =
     (let lines = record_lines rs;
          d' = \<lparr>md_bytes = Some (kept_bytes cur d @ lines), md_stamp = Suc (md_stamp d)\<rparr>;
          records = \<lparr>jr_latest = foldl set_latest (jr_latest cur) rs,
                     jr_tail = (if rs = [] then jr_tail cur else Some (last rs)),
                     jr_durableEnd = jr_durableEnd cur + length lines,
                     jr_hasNonDurableTail = False,
                     jr_fileExisted = True\<rparr>
      in (j\<lparr>mj_cached := Some (records, md_stamp d')\<rparr>, d'))"

section \<open>The operations\<close>

text \<open>\<open>assertMutationRecord({ ...content, checksum: checksum(canonicalJson(content)) })\<close>.\<close>

definition seal_record :: "hash \<Rightarrow> mutation_record \<Rightarrow> journal_error + mutation_record" where
  "seal_record H r =
     (let r' = r\<lparr>mr_checksum := content_checksum H (mutation_content r)\<rparr>
      in case assertMutationRecord H (json_of_mutation r') of Inl e \<Rightarrow> Inl (MJ_invalid e) | Inr w \<Rightarrow> Inr r')"

definition intent_record :: "string \<Rightarrow> nat \<Rightarrow> mutation_record option \<Rightarrow> mutation_intent \<Rightarrow> mutation_record" where
  "intent_record opId ordinal tail i =
     \<lparr>mr_opId = opId, mr_ordinal = ordinal, mr_state = INTENT, mr_kind = mi_kind i, mr_path = mi_path i,
      mr_sourceArtifact = mi_sourceArtifact i, mr_targetArtifact = mi_targetArtifact i,
      mr_sourceFingerprint = mi_sourceFingerprint i, mr_targetFingerprint = mi_targetFingerprint i,
      mr_previousChecksum = map_option mr_checksum tail, mr_checksum = []\<rparr>"

fun make_intents ::
  "hash \<Rightarrow> string \<Rightarrow> nat \<Rightarrow> mutation_record option \<Rightarrow> mutation_intent list \<Rightarrow> journal_error + mutation_record list" where
  "make_intents H opId ordinal tail [] = Inr []"
| "make_intents H opId ordinal tail (i # is) =
     rbind (seal_record H (intent_record opId ordinal tail i)) (\<lambda>r.
     rbind (make_intents H opId (Suc ordinal) (Some r) is) (\<lambda>rs. Inr (r # rs)))"

definition next_record :: "mutation_record \<Rightarrow> mutation_state \<Rightarrow> mutation_record option \<Rightarrow> mutation_record" where
  "next_record previous st tail =
     previous\<lparr>mr_state := st, mr_previousChecksum := map_option mr_checksum tail, mr_checksum := []\<rparr>"

fun make_advances ::
  "hash \<Rightarrow> mutation_record list \<Rightarrow> mutation_record option \<Rightarrow> (nat \<times> mutation_state) list \<Rightarrow>
   journal_error + mutation_record list" where
  "make_advances H latest tail [] = Inr []"
| "make_advances H latest tail ((ordinal, st) # as) =
     (case latest_at latest ordinal of
        None \<Rightarrow> Inl MJ_not_next_state
      | Some previous \<Rightarrow>
          rbind (guard (state_index st = state_index (mr_state previous) + 1) MJ_not_next_state) (\<lambda>_.
          rbind (seal_record H (next_record previous st tail)) (\<lambda>r.
          rbind (make_advances H (put_at latest (ordinal - 1) r) (Some r) as) (\<lambda>rs. Inr (r # rs)))))"

text \<open>Read the current records, build a batch from them, append it.\<close>

definition append_batch ::
  "hash \<Rightarrow> (journal_records \<Rightarrow> journal_error + mutation_record list) \<Rightarrow> mutation_journal \<Rightarrow> mutation_disk \<Rightarrow>
   mutation_record list mj_result" where
  "append_batch H build j d =
     (case current_records H j d of
        (Inl e, j1) \<Rightarrow> (Inl e, j1, d)
      | (Inr cur, j1) \<Rightarrow>
          (case build cur of
             Inl e \<Rightarrow> (Inl e, j1, d)
           | Inr rs \<Rightarrow> (case append_records rs cur j1 d of (j2, d2) \<Rightarrow> (Inr rs, j2, d2))))"

definition beginMany :: "hash \<Rightarrow> mutation_intent list \<Rightarrow> mutation_journal \<Rightarrow> mutation_disk \<Rightarrow> mutation_record list mj_result" where
  "beginMany H intents j d =
     (if intents = [] then (Inl MJ_empty_batch, j, d)
      else append_batch H
        (\<lambda>cur. make_intents H (mj_opId j) (length (jr_latest cur) + 1) (jr_tail cur) intents) j d)"

definition flatten_advances :: "mutation_advance list \<Rightarrow> (nat \<times> mutation_state) list" where
  "flatten_advances advances = concat (map (\<lambda>a. map (Pair (ma_ordinal a)) (ma_states a)) advances)"

definition advanceBatch :: "hash \<Rightarrow> mutation_advance list \<Rightarrow> mutation_journal \<Rightarrow> mutation_disk \<Rightarrow> mutation_record list mj_result" where
  "advanceBatch H advances j d =
     (if advances = [] \<or> list_ex (\<lambda>a. ma_states a = []) advances then (Inl MJ_empty_batch, j, d)
      else append_batch H
        (\<lambda>cur. make_advances H (jr_latest cur) (jr_tail cur) (flatten_advances advances)) j d)"

definition advanceMany :: "hash \<Rightarrow> nat \<Rightarrow> mutation_state list \<Rightarrow> mutation_journal \<Rightarrow> mutation_disk \<Rightarrow> mutation_record list mj_result" where
  "advanceMany H ordinal states = advanceBatch H [\<lparr>ma_ordinal = ordinal, ma_states = states\<rparr>]"

definition advance :: "hash \<Rightarrow> nat \<Rightarrow> mutation_state \<Rightarrow> mutation_journal \<Rightarrow> mutation_disk \<Rightarrow> mutation_record list mj_result" where
  "advance H ordinal st = advanceMany H ordinal [st]"

definition begin_intent :: "hash \<Rightarrow> mutation_intent \<Rightarrow> mutation_journal \<Rightarrow> mutation_disk \<Rightarrow> mutation_record list mj_result" where
  "begin_intent H i = beginMany H [i]"

definition make_rollback_cleaned :: "hash \<Rightarrow> nat \<Rightarrow> journal_records \<Rightarrow> journal_error + mutation_record list" where
  "make_rollback_cleaned H ordinal cur =
     (case latest_at (jr_latest cur) ordinal of
        None \<Rightarrow> Inl MJ_not_rollbackable
      | Some previous \<Rightarrow>
          if mr_state previous = CLEANED then Inl MJ_not_rollbackable
          else rbind (seal_record H (next_record previous CLEANED (jr_tail cur))) (\<lambda>r. Inr [r]))"

definition markRollbackCleaned :: "hash \<Rightarrow> nat \<Rightarrow> mutation_journal \<Rightarrow> mutation_disk \<Rightarrow> mutation_record list mj_result" where
  "markRollbackCleaned H ordinal = append_batch H (make_rollback_cleaned H ordinal)"

definition load_records :: "hash \<Rightarrow> mutation_journal \<Rightarrow> mutation_disk \<Rightarrow> mutation_record list mj_result" where
  "load_records H j d =
     (case current_records H j d of
        (Inl e, j1) \<Rightarrow> (Inl e, j1, d)
      | (Inr cur, j1) \<Rightarrow> (Inr (jr_latest cur), j1, d))"

definition loadOrdinal :: "hash \<Rightarrow> nat \<Rightarrow> mutation_journal \<Rightarrow> mutation_disk \<Rightarrow> mutation_record option mj_result" where
  "loadOrdinal H ordinal j d =
     (if ordinal < 1 then (Inr None, j, d)
      else (case load_records H j d of
        (Inl e, j1, d1) \<Rightarrow> (Inl e, j1, d1)
      | (Inr latest, j1, d1) \<Rightarrow>
          (Inr (case latest_at latest ordinal of
                  None \<Rightarrow> None | Some r \<Rightarrow> if mr_ordinal r = ordinal then Some r else None), j1, d1)))"

definition artifacts_of :: "mutation_record \<Rightarrow> string list" where
  "artifacts_of r = mr_sourceArtifact r # (case mr_targetArtifact r of None \<Rightarrow> [] | Some t \<Rightarrow> [t])"

definition activeArtifacts :: "hash \<Rightarrow> mutation_journal \<Rightarrow> mutation_disk \<Rightarrow> string set mj_result" where
  "activeArtifacts H j d =
     (case load_records H j d of
        (Inl e, s) \<Rightarrow> (Inl e, s)
      | (Inr latest, s) \<Rightarrow>
          (Inr (set (concat (map artifacts_of (filter (\<lambda>r. mr_state r \<noteq> CLEANED) latest)))), s))"

definition assertCleaned :: "hash \<Rightarrow> mutation_journal \<Rightarrow> mutation_disk \<Rightarrow> unit mj_result" where
  "assertCleaned H j d =
     (case load_records H j d of
        (Inl e, s) \<Rightarrow> (Inl e, s)
      | (Inr latest, s) \<Rightarrow> (guard (\<not> list_ex (\<lambda>r. mr_state r \<noteq> CLEANED) latest) MJ_not_cleaned, s))"

section \<open>A line is read back as the record it was written from\<close>

lemma hex_char_no_newline: "d < 16 \<Longrightarrow> hex_char d \<noteq> CHR 0x0A"
  using hex_char_val [of d] by (auto simp: hex_val_def)

lemma escape_char_no_newline: "CHR 0x0A \<notin> set (escape_char c)"
proof (cases "(of_char c :: nat) < 32")
  case True
  then have "(of_char c :: nat) div 16 < 16" by simp
  then show ?thesis
    using hex_char_no_newline [of "of_char c div 16"] hex_char_no_newline [of "of_char c mod 16"]
    by (auto simp: escape_char_def)
qed (auto simp: escape_char_def)

lemma quote_no_newline: "CHR 0x0A \<notin> set (quote s)"
  by (auto simp: quote_def escape_char_no_newline)

lemma set_join_with: "set (join_with s xs) \<subseteq> set s \<union> \<Union> (set ` set xs)"
  by (induction s xs rule: join_with.induct) auto

lemma newline_not_num: "\<not> is_num_char (CHR 0x0A)"
  by (simp add: is_num_char_def)

lemma plain_text_no_newline: "json_ok v \<Longrightarrow> CHR 0x0A \<notin> set (plain_text v)"
proof (induction v rule: json_ok.induct)
  case (3 s)
  then show ?case by (simp add: quote_no_newline)
next
  case (4 n)
  then show ?case
    using show_int_num_chars newline_not_num by (cases n) (auto simp: list_all_iff)
next
  case (5 xs)
  then show ?case
    using set_join_with [of "'',''" "map plain_text xs"] by (fastforce simp: list_all_iff)
next
  case (6 ps)
  then show ?case
    using set_join_with [of "'',''" "map (\<lambda>p. encode_prop (fst p, plain_text (snd p))) ps"]
    by (fastforce simp: list_all_iff encode_prop_def quote_no_newline)
qed auto

lemma record_line_text:
  "record_line r = plain_text (normalise (json_of_mutation r)) @ [CHR 0x0A]"
  by (simp add: record_line_def canonicalJson_def encode_plain_text)

lemma normalise_without:
  assumes "json_ok (JObj ps)"
  shows "without k (normalise (JObj ps)) = normalise (without k (JObj ps))"
proof -
  have "map (\<lambda>p. (fst p, normalise (snd p))) (filter (\<lambda>p. fst p \<noteq> k) ps) =
    filter (\<lambda>p. fst p \<noteq> k) (map (\<lambda>p. (fst p, normalise (snd p))) ps)"
    by (induction ps) auto
  then show ?thesis by (simp add: without_def props_def filter_sort)
qed

lemma json_ok_without: "json_ok (JObj ps) \<Longrightarrow> json_ok (without k (JObj ps))"
  by (auto simp: without_def props_def list_all_iff distinct_map_filter)

lemma own_checksum_normalise:
  assumes "json_ok (JObj ps)" "fld (JObj ps) ''checksum'' = JStr c"
  shows "assert_own_checksum H (normalise (JObj ps)) code = assert_own_checksum H (JObj ps) code"
proof -
  have "fld (normalise (JObj ps)) ''checksum'' = JStr c"
    using fld_normalise [OF assms(1)] assms(2) by simp
  moreover have "checksum_json H (without ''checksum'' (normalise (JObj ps))) = checksum_json H (without ''checksum'' (JObj ps))"
    unfolding checksum_json_def normalise_without [OF assms(1)]
    using canonicalJson_normalise [OF json_ok_without [OF assms(1)]] by simp
  ultimately show ?thesis
    unfolding assert_own_checksum_def checksumWithout_def assms(2) by simp
qed

lemma mutation_fld_checksum: "fld (json_of_mutation r) ''checksum'' = JStr (mr_checksum r)"
  by (simp add: json_of_mutation_def mutation_content_def)

text \<open>Every property of a mutation record is a string, a number or null, which normalising keeps.\<close>

lemma fld_normal_mutation: "fld (normalise (json_of_mutation r)) k = fld (json_of_mutation r) k"
proof -
  have "normalise (jopt x) = jopt x" "normalise (jint i) = jint i" for x i
    by (auto simp: jopt_def jint_def split: option.split)
  then have "normalise (fld (json_of_mutation r) k) = fld (json_of_mutation r) k"
    by (simp add: json_of_mutation_def mutation_content_def)
  then show ?thesis by (simp add: fld_normalise)
qed

lemma mutation_of_normal [simp]: "mutation_of (normalise (json_of_mutation r)) = r"
  using mutation_of_json [of r] unfolding mutation_of_def fld_normal_mutation .

lemma assertMutationRecord_normal:
  assumes "assertMutationRecord H (json_of_mutation r) = Inr w"
  shows "assertMutationRecord H (normalise (json_of_mutation r)) = Inr (normalise (json_of_mutation r))"
proof -
  let ?v = "json_of_mutation r"
  obtain ps where ps: "?v = JObj ps" by (simp add: json_of_mutation_def)
  have "assertRecord (normalise ?v) code = assertRecord ?v code" for code
    by (simp add: ps assertRecord_def)
  moreover have "assertSchemaVersion (normalise ?v) = assertSchemaVersion ?v"
    by (simp add: assertSchemaVersion_def fld_normal_mutation)
  moreover have "assert_own_checksum H (normalise ?v) code = assert_own_checksum H ?v code" for code
    using own_checksum_normalise [of ps "mr_checksum r"] mutation_fld_checksum [of r] json_ok_mutation [of r]
    by (simp only: ps [symmetric])
  ultimately have e: "assertRecord (normalise ?v) code = assertRecord ?v code"
    "assertSchemaVersion (normalise ?v) = assertSchemaVersion ?v"
    "assert_own_checksum H (normalise ?v) code = assert_own_checksum H ?v code" for code
    by blast+
  have "assertMutationRecord H ?v = Inr ?v"
    using assms validators_return_argument(4) by blast
  then show ?thesis
    unfolding assertMutationRecord_def fld_normal_mutation Let_def e by (simp split: if_splits)
qed

theorem parse_record_line:
  assumes "assertMutationRecord H (json_of_mutation r) = Inr w"
  shows "parse_line H (butlast (record_line r)) = Inr r"
  using assertMutationRecord_normal [OF assms]
  by (simp add: parse_line_def record_line_text json_parse_plain json_ok_normalise)

section \<open>Complete lines\<close>

abbreviation (input) NL :: char where "NL \<equiv> CHR 0x0A"

lemma durable_end_no_newline: "NL \<notin> set b \<Longrightarrow> durable_end b = 0"
proof -
  assume "NL \<notin> set b"
  then have e: "takeWhile (\<lambda>c. c \<noteq> NL) (rev b) = rev b"
    by (subst takeWhile_eq_all_conv) (metis set_rev)
  show ?thesis unfolding durable_end_def e by simp
qed

lemma durable_end_append: "NL \<notin> set b \<Longrightarrow> durable_end (a @ NL # b) = length a + 1"
proof -
  assume "NL \<notin> set b"
  then have "takeWhile (\<lambda>c. c \<noteq> NL) (rev b @ NL # rev a) = rev b"
    by (subst takeWhile_append2) auto
  then show ?thesis by (simp add: durable_end_def)
qed

text \<open>The durable lines are all the pieces between newlines but the last.\<close>

lemma durable_lines_split: "durable_lines bs = butlast (split_on NL bs)"
proof (cases "NL \<in> set bs")
  case True
  then obtain a b where ab: "bs = a @ NL # b" "NL \<notin> set b"
    using split_list_last [of NL bs] by blast
  then show ?thesis
    by (simp add: durable_lines_def durable_end_append split_on_append split_on_no_sep)
next
  case False
  then show ?thesis
    by (simp add: durable_lines_def durable_end_no_newline split_on_no_sep)
qed

definition durable_part :: "string \<Rightarrow> string" where
  "durable_part bs = take (durable_end bs) bs"

lemma durable_part_cases: "durable_part bs = [] \<or> (\<exists>a. durable_part bs = a @ [NL])"
proof (cases "NL \<in> set bs")
  case True
  then obtain a b where "bs = a @ NL # b" "NL \<notin> set b"
    using split_list_last [of NL bs] by blast
  then show ?thesis by (simp add: durable_part_def durable_end_append)
next
  case False
  then show ?thesis by (simp add: durable_part_def durable_end_no_newline)
qed

lemma durable_lines_durable_part: "durable_lines (durable_part bs @ t) = durable_lines bs @ durable_lines t"
proof (cases "NL \<in> set bs")
  case True
  then obtain a b where ab: "bs = a @ NL # b" "NL \<notin> set b"
    using split_list_last [of NL bs] by blast
  then have "durable_part bs @ t = a @ NL # t" by (simp add: durable_part_def durable_end_append)
  then show ?thesis
    using ab by (simp add: durable_lines_split split_on_append butlast_append split_on_no_sep)
next
  case False
  then show ?thesis by (simp add: durable_part_def durable_end_no_newline durable_lines_split split_on_no_sep)
qed

lemma durable_end_durable_part: "durable_end (durable_part bs @ t) = durable_end bs + durable_end t"
proof (cases "NL \<in> set t")
  case True
  then obtain a b where ab: "t = a @ NL # b" "NL \<notin> set b"
    using split_list_last [of NL t] by blast
  have "length (durable_part bs) = durable_end bs"
    by (simp add: durable_part_def durable_end_def)
  then show ?thesis
    using ab durable_end_append [of b "durable_part bs @ a"] by (simp add: durable_end_append)
next
  case False
  show ?thesis
  proof (cases "NL \<in> set bs")
    case True
    then obtain a b where ab: "bs = a @ NL # b" "NL \<notin> set b"
      using split_list_last [of NL bs] by blast
    then have "durable_part bs @ t = a @ NL # t" by (simp add: durable_part_def durable_end_append)
    then show ?thesis using ab False by (simp add: durable_end_append durable_end_no_newline)
  next
    case nl: False
    then show ?thesis using False by (simp add: durable_part_def durable_end_no_newline)
  qed
qed

lemma durable_end_le: "durable_end bs \<le> length bs"
  by (simp add: durable_end_def)

section \<open>Replaying records\<close>

definition record_valid :: "hash \<Rightarrow> mutation_record \<Rightarrow> bool" where
  "record_valid H r \<longleftrightarrow> assertMutationRecord H (json_of_mutation r) = Inr (json_of_mutation r)"

fun replay ::
  "string \<Rightarrow> mutation_record list \<Rightarrow> mutation_record option \<Rightarrow> mutation_record list \<Rightarrow> journal_error + unit" where
  "replay opId latest tail [] = Inr ()"
| "replay opId latest tail (r # rs) =
     rbind (read_record opId latest tail r) (\<lambda>_. replay opId (set_latest latest r) (Some r) rs)"

definition last_record :: "mutation_record option \<Rightarrow> mutation_record list \<Rightarrow> mutation_record option" where
  "last_record tail rs = (if rs = [] then tail else Some (last rs))"

lemma last_record_simps [simp]: "last_record t [] = t" "last_record t (r # rs) = last_record (Some r) rs"
  by (auto simp: last_record_def)

lemma record_line_split: "record_line r = butlast (record_line r) @ [NL]"
  by (simp add: record_line_text)

lemma record_line_no_newline: "NL \<notin> set (butlast (record_line r))"
  by (simp add: record_line_text plain_text_no_newline json_ok_normalise)

lemma record_lines_simps [simp]: "record_lines [] = []" "record_lines (r # rs) = record_line r @ record_lines rs"
  by (simp_all add: record_lines_def)

lemma durable_lines_record: "durable_lines (record_line r @ t) = butlast (record_line r) # durable_lines t"
  by (subst record_line_split)
    (simp add: durable_lines_split split_on_append split_on_no_sep record_line_no_newline)

lemma durable_lines_records: "durable_lines (record_lines rs) = map (\<lambda>r. butlast (record_line r)) rs"
proof (induction rs)
  case Nil
  show ?case by (simp add: durable_lines_split)
next
  case (Cons r rs)
  then show ?case by (simp add: durable_lines_record)
qed

lemma durable_end_records: "durable_end (record_lines rs) = length (record_lines rs)"
proof (cases rs rule: rev_cases)
  case Nil
  then show ?thesis by (simp add: durable_end_def)
next
  case (snoc qs r)
  then have "record_lines rs = (record_lines qs @ butlast (record_line r)) @ NL # []"
    using record_line_split [of r] by (simp add: record_lines_def)
  then show ?thesis by (metis durable_end_append empty_iff empty_set length_append_singleton Suc_eq_plus1)
qed

text \<open>What is left of a batch after a crash while it was written: whole lines and a part of one.\<close>

lemma durable_lines_torn:
  "\<exists>m \<le> length rs. durable_lines (take k (record_lines rs)) = map (\<lambda>r. butlast (record_line r)) (take m rs)"
proof (induction rs arbitrary: k)
  case Nil
  then show ?case by (simp add: durable_lines_split)
next
  case (Cons r rs)
  show ?case
  proof (cases "k < length (record_line r)")
    case True
    then have "take k (record_lines (r # rs)) = take k (butlast (record_line r))"
      by (simp add: take_butlast)
    moreover have "NL \<notin> set (take k (butlast (record_line r)))"
      using record_line_no_newline in_set_takeD by metis
    ultimately have "durable_lines (take k (record_lines (r # rs))) = []"
      by (simp add: durable_lines_split split_on_no_sep)
    then show ?thesis by (intro exI [of _ 0]) simp
  next
    case False
    then have "take k (record_lines (r # rs)) = record_line r @ take (k - length (record_line r)) (record_lines rs)"
      by simp
    moreover obtain m where "m \<le> length rs"
      "durable_lines (take (k - length (record_line r)) (record_lines rs)) = map (\<lambda>r. butlast (record_line r)) (take m rs)"
      using Cons.IH by blast
    ultimately show ?thesis by (intro exI [of _ "Suc m"]) (simp add: durable_lines_record)
  qed
qed

lemma read_lines_append:
  "read_lines H opId latest tail (xs @ ys) =
   rbind (read_lines H opId latest tail xs) (\<lambda>(l, t). read_lines H opId l t ys)"
  by (induction xs arbitrary: latest tail) (simp_all add: rbind_assoc)

lemma read_lines_replay:
  assumes "\<forall>r \<in> set rs. record_valid H r" "replay opId latest tail rs = Inr ()"
  shows "read_lines H opId latest tail (map (\<lambda>r. butlast (record_line r)) rs) =
    Inr (foldl set_latest latest rs, last_record tail rs)"
  using assms
proof (induction rs arbitrary: latest tail)
  case (Cons r rs)
  then have "parse_line H (butlast (record_line r)) = Inr r"
    using parse_record_line by (auto simp: record_valid_def)
  with Cons show ?case by simp
qed simp

lemma replay_take: "replay opId latest tail rs = Inr () \<Longrightarrow> replay opId latest tail (take m rs) = Inr ()"
proof (induction rs arbitrary: latest tail m)
  case (Cons r rs)
  then show ?case by (cases m) auto
qed simp

section \<open>Appending is durable, and a torn append loses only its end\<close>

theorem append_parse:
  assumes "parse_journal H opId bytes = Inr cur"
    and "\<forall>r \<in> set rs. record_valid H r" "replay opId (jr_latest cur) (jr_tail cur) rs = Inr ()"
  shows "parse_journal H opId (durable_part bytes @ record_lines rs) = Inr
    \<lparr>jr_latest = foldl set_latest (jr_latest cur) rs, jr_tail = last_record (jr_tail cur) rs,
     jr_durableEnd = jr_durableEnd cur + length (record_lines rs), jr_hasNonDurableTail = False, jr_fileExisted = True\<rparr>"
proof -
  have r: "read_lines H opId [] None (durable_lines bytes) = Inr (jr_latest cur, jr_tail cur)"
    "jr_durableEnd cur = durable_end bytes"
    using assms(1) by (auto simp: parse_journal_def)
  have e: "durable_end (durable_part bytes @ record_lines rs) = durable_end bytes + length (record_lines rs)"
    by (simp add: durable_end_durable_part durable_end_records)
  moreover have "length (durable_part bytes @ record_lines rs) = durable_end bytes + length (record_lines rs)"
    by (simp add: durable_part_def durable_end_le)
  ultimately show ?thesis
    using r read_lines_replay [OF assms(2,3)]
    by (simp add: parse_journal_def durable_lines_durable_part durable_lines_records read_lines_append)
qed

theorem torn_append_parse:
  assumes "parse_journal H opId bytes = Inr cur"
    and "\<forall>r \<in> set rs. record_valid H r" "replay opId (jr_latest cur) (jr_tail cur) rs = Inr ()"
  shows "\<exists>m cur'. m \<le> length rs \<and> parse_journal H opId (durable_part bytes @ take k (record_lines rs)) = Inr cur' \<and>
    jr_latest cur' = foldl set_latest (jr_latest cur) (take m rs)"
proof -
  obtain m where m: "m \<le> length rs"
    "durable_lines (take k (record_lines rs)) = map (\<lambda>r. butlast (record_line r)) (take m rs)"
    using durable_lines_torn by blast
  have r: "read_lines H opId [] None (durable_lines bytes) = Inr (jr_latest cur, jr_tail cur)"
    using assms(1) by (auto simp: parse_journal_def)
  have "\<forall>r \<in> set (take m rs). record_valid H r" using assms(2) in_set_takeD by metis
  from read_lines_replay [OF this replay_take [OF assms(3)]] show ?thesis
    using r m by (auto simp: parse_journal_def durable_lines_durable_part read_lines_append)
qed

section \<open>What the operations append can be read back\<close>

definition log_ok :: "string \<Rightarrow> mutation_record list \<Rightarrow> bool" where
  "log_ok opId latest \<longleftrightarrow> (\<forall>i < length latest. mr_ordinal (latest ! i) = Suc i \<and> mr_opId (latest ! i) = opId)"

lemma log_ok_Nil [simp]: "log_ok opId []"
  by (simp add: log_ok_def)

lemma latest_at_Some: "latest_at latest n = Some r \<longleftrightarrow> 0 < n \<and> n \<le> length latest \<and> r = latest ! (n - 1)"
  by (auto simp: latest_at_def get_at_def)

lemma latest_at_None: "latest_at latest n = None \<longleftrightarrow> n = 0 \<or> length latest < n"
  by (auto simp: latest_at_def get_at_def)

lemma log_ok_at:
  assumes "log_ok opId latest" "latest_at latest n = Some r"
  shows "mr_ordinal r = n" "mr_opId r = opId"
  using assms by (auto simp: log_ok_def latest_at_Some)

lemma set_latest_next: "mr_ordinal r = length latest + 1 \<Longrightarrow> set_latest latest r = latest @ [r]"
  by (simp add: set_latest_def put_at_def)

lemma set_latest_at:
  "latest_at latest (mr_ordinal r) = Some p \<Longrightarrow> set_latest latest r = latest[mr_ordinal r - 1 := r]"
  by (auto simp: set_latest_def put_at_def latest_at_Some)

lemma log_ok_set_latest:
  assumes "log_ok opId latest" "read_record opId latest tail r = Inr ()"
  shows "log_ok opId (set_latest latest r)"
proof (cases "latest_at latest (mr_ordinal r)")
  case None
  then have "mr_ordinal r = length latest + 1" "mr_opId r = opId"
    using assms(2) by (auto simp: read_record_def res_simps split: if_splits)
  then show ?thesis
    using assms(1) by (auto simp: set_latest_next log_ok_def nth_append less_Suc_eq)
next
  case (Some p)
  then have "mr_opId r = opId"
    using assms(2) by (auto simp: read_record_def res_simps split: if_splits)
  then show ?thesis
    using assms(1) Some
    by (auto simp: set_latest_at [OF Some] log_ok_def nth_list_update latest_at_Some)
qed

lemma log_ok_replay:
  "log_ok opId latest \<Longrightarrow> replay opId latest tail rs = Inr () \<Longrightarrow> log_ok opId (foldl set_latest latest rs)"
proof (induction rs arbitrary: latest tail)
  case (Cons r rs)
  then show ?case using log_ok_set_latest [of opId latest tail r]
    by (cases "read_record opId latest tail r") auto
qed simp

lemma log_ok_read_lines:
  "log_ok opId latest \<Longrightarrow> read_lines H opId latest tail ls = Inr (l, t) \<Longrightarrow> log_ok opId l"
proof (induction ls arbitrary: latest tail)
  case (Cons x ls)
  from Cons.prems(2) obtain r where "parse_line H x = Inr r" "read_record opId latest tail r = Inr ()"
    "read_lines H opId (set_latest latest r) (Some r) ls = Inr (l, t)"
    by (cases "parse_line H x") (auto simp: res_simps)
  then show ?case using Cons.IH log_ok_set_latest [OF Cons.prems(1)] by blast
qed simp

lemma log_ok_parse: "parse_journal H opId bytes = Inr cur \<Longrightarrow> log_ok opId (jr_latest cur)"
  using log_ok_read_lines [of opId "[]" H None "durable_lines bytes"]
  by (auto simp: parse_journal_def res_simps)

lemma seal_record_Inr:
  assumes "seal_record H r = Inr s"
  shows "s = r\<lparr>mr_checksum := content_checksum H (mutation_content r)\<rparr>" "record_valid H s"
proof -
  let ?r = "r\<lparr>mr_checksum := content_checksum H (mutation_content r)\<rparr>"
  obtain w where w: "assertMutationRecord H (json_of_mutation ?r) = Inr w" and s: "s = ?r"
    using assms by (auto simp: seal_record_def Let_def split: sum.splits)
  then show "s = ?r" by simp
  show "record_valid H s"
    using validators_return_argument(4) [OF w] w s by (simp add: record_valid_def)
qed

lemma make_intents_replay:
  assumes "make_intents H opId (length latest + 1) tail is = Inr rs"
  shows "(\<forall>r \<in> set rs. record_valid H r) \<and> replay opId latest tail rs = Inr ()"
  using assms
proof (induction "is" arbitrary: latest tail rs)
  case (Cons i "is")
  from Cons.prems obtain r qs where
    r: "seal_record H (intent_record opId (length latest + 1) tail i) = Inr r" and
    qs: "make_intents H opId (Suc (length latest + 1)) (Some r) is = Inr qs" and rs: "rs = r # qs"
    by (cases "seal_record H (intent_record opId (length latest + 1) tail i)") (auto simp: res_simps)
  note s = seal_record_Inr [OF r]
  have "read_record opId latest tail r = Inr ()"
    by (simp add: s(1) intent_record_def read_record_def res_simps latest_at_def get_at_def)
  moreover have l: "set_latest latest r = latest @ [r]"
    by (rule set_latest_next) (simp add: s(1) intent_record_def)
  moreover have "(\<forall>r \<in> set qs. record_valid H r) \<and> replay opId (latest @ [r]) (Some r) qs = Inr ()"
    using Cons.IH [of "latest @ [r]" "Some r" qs] qs by simp
  ultimately show ?case using rs s(2) by simp
qed simp

lemma immutablePayload_next [simp]:
  "immutablePayload (next_record p st t\<lparr>mr_checksum := c\<rparr>) = immutablePayload p"
  by (simp add: immutablePayload_def next_record_def)

lemma read_record_next:
  assumes "log_ok opId latest" "latest_at latest n = Some p"
    "isValidDurableTransition (mr_state p) st"
  shows "read_record opId latest tail (next_record p st tail\<lparr>mr_checksum := c\<rparr>) = Inr ()"
proof -
  have "latest_at latest (mr_ordinal p) = Some p" using log_ok_at [OF assms(1,2)] assms(2) by simp
  moreover have "immutablePayload p = immutablePayload (next_record p st tail\<lparr>mr_checksum := c\<rparr>)" by simp
  ultimately show ?thesis
    using log_ok_at [OF assms(1,2)] assms(3)
    unfolding read_record_def by (simp add: next_record_def res_simps)
qed

lemma make_advances_replay:
  assumes "make_advances H latest tail as = Inr rs" "log_ok opId latest"
  shows "(\<forall>r \<in> set rs. record_valid H r) \<and> replay opId latest tail rs = Inr ()"
  using assms
proof (induction as arbitrary: latest tail rs)
  case (Cons a as)
  obtain n st where a: "a = (n, st)" by (cases a)
  from Cons.prems(1) obtain p r qs where
    p: "latest_at latest n = Some p" "state_index st = state_index (mr_state p) + 1" and
    r: "seal_record H (next_record p st tail) = Inr r" and
    qs: "make_advances H (put_at latest (n - 1) r) (Some r) as = Inr qs" and rs: "rs = r # qs"
    unfolding a
    by (cases "latest_at latest n"; cases "seal_record H (next_record (the (latest_at latest n)) st tail)")
      (auto simp: res_simps split: if_splits)
  note s = seal_record_Inr [OF r]
  have rr: "read_record opId latest tail r = Inr ()"
    unfolding s(1) by (rule read_record_next [OF Cons.prems(2) p(1)]) (simp add: isValidDurableTransition_def p(2))
  have "mr_ordinal r = n" using log_ok_at(1) [OF Cons.prems(2) p(1)] by (simp add: s(1) next_record_def)
  then have l: "put_at latest (n - 1) r = set_latest latest r" by (simp add: set_latest_def)
  have "(\<forall>r \<in> set qs. record_valid H r) \<and> replay opId (set_latest latest r) (Some r) qs = Inr ()"
    using Cons.IH [of "set_latest latest r" "Some r" qs] qs l log_ok_set_latest [OF Cons.prems(2) rr] by simp
  then show ?case using rs s(2) rr by simp
qed simp

lemma make_rollback_replay:
  assumes "make_rollback_cleaned H n cur = Inr rs" "log_ok opId (jr_latest cur)"
  shows "(\<forall>r \<in> set rs. record_valid H r) \<and> replay opId (jr_latest cur) (jr_tail cur) rs = Inr ()"
proof -
  from assms(1) obtain p r where
    p: "latest_at (jr_latest cur) n = Some p" "mr_state p \<noteq> CLEANED" and
    r: "seal_record H (next_record p CLEANED (jr_tail cur)) = Inr r" and rs: "rs = [r]"
    by (cases "latest_at (jr_latest cur) n";
        cases "seal_record H (next_record (the (latest_at (jr_latest cur) n)) CLEANED (jr_tail cur))")
      (auto simp: make_rollback_cleaned_def res_simps split: if_splits)
  note s = seal_record_Inr [OF r]
  have "read_record opId (jr_latest cur) (jr_tail cur) r = Inr ()"
    unfolding s(1) by (rule read_record_next [OF assms(2) p(1)]) (simp add: isValidDurableTransition_def p(2))
  then show ?thesis using rs s(2) by simp
qed

section \<open>The cached records are those of the file\<close>

definition journal_view :: "hash \<Rightarrow> string \<Rightarrow> mutation_disk \<Rightarrow> journal_error + journal_records" where
  "journal_view H opId d =
     (case md_bytes d of None \<Rightarrow> Inr emptyJournalRecords | Some bytes \<Rightarrow> parse_journal H opId bytes)"

definition coherent :: "hash \<Rightarrow> mutation_journal \<Rightarrow> mutation_disk \<Rightarrow> bool" where
  "coherent H j d \<longleftrightarrow>
     (case mj_cached j of
        None \<Rightarrow> True
      | Some (records, stamp) \<Rightarrow>
          stamp \<le> md_stamp d \<and>
          (stamp = md_stamp d \<longrightarrow> md_bytes d \<noteq> None \<longrightarrow> journal_view H (mj_opId j) d = Inr records))"

lemma coherent_fresh [simp]: "mj_cached j = None \<Longrightarrow> coherent H j d"
  by (simp add: coherent_def)

lemma coherent_later: "coherent H j d \<Longrightarrow> md_stamp d < md_stamp d' \<Longrightarrow> coherent H j d'"
  by (auto simp: coherent_def split: option.splits)

lemma current_records_view:
  assumes "coherent H j d"
  shows "fst (current_records H j d) = journal_view H (mj_opId j) d"
    and "coherent H (snd (current_records H j d)) d"
    and "mj_opId (snd (current_records H j d)) = mj_opId j"
  using assms
  by (auto simp: current_records_def readRecords_def journal_view_def journalFileFingerprint_def coherent_def
      split: option.splits sum.splits)

lemma kept_bytes_view:
  assumes "journal_view H opId d = Inr cur"
  shows "kept_bytes cur d = durable_part (case md_bytes d of None \<Rightarrow> [] | Some b \<Rightarrow> b)"
proof (cases "md_bytes d")
  case None
  then show ?thesis
    using assms by (auto simp: journal_view_def kept_bytes_def emptyJournalRecords_def durable_part_def)
next
  case (Some b)
  then have "jr_durableEnd cur = durable_end b" "jr_hasNonDurableTail cur = (durable_end b \<noteq> length b)"
    using assms by (auto simp: journal_view_def parse_journal_def res_simps split: sum.splits)
  then show ?thesis using Some by (auto simp: kept_bytes_def durable_part_def)
qed

lemma parse_journal_Nil: "parse_journal H opId [] = Inr (emptyJournalRecords\<lparr>jr_fileExisted := True\<rparr>)"
  by (simp add: parse_journal_def emptyJournalRecords_def durable_lines_split durable_end_def)

lemma view_parse:
  assumes "journal_view H opId d = Inr cur"
  obtains cur' where "parse_journal H opId (case md_bytes d of None \<Rightarrow> [] | Some b \<Rightarrow> b) = Inr cur'"
    "jr_latest cur' = jr_latest cur" "jr_tail cur' = jr_tail cur" "jr_durableEnd cur' = jr_durableEnd cur"
  using assms
  by (cases "md_bytes d") (auto simp: journal_view_def parse_journal_Nil)

lemma log_ok_view: "journal_view H opId d = Inr cur \<Longrightarrow> log_ok opId (jr_latest cur)"
  by (metis view_parse log_ok_parse)

section \<open>Batches\<close>

definition batch_ok ::
  "hash \<Rightarrow> string \<Rightarrow> (journal_records \<Rightarrow> journal_error + mutation_record list) \<Rightarrow> bool" where
  "batch_ok H opId build \<longleftrightarrow> (\<forall>cur rs. log_ok opId (jr_latest cur) \<longrightarrow> build cur = Inr rs \<longrightarrow>
     (\<forall>r \<in> set rs. record_valid H r) \<and> replay opId (jr_latest cur) (jr_tail cur) rs = Inr ())"

lemma batch_okD:
  assumes "batch_ok H opId build" "build cur = Inr rs" "log_ok opId (jr_latest cur)"
  shows "\<forall>r \<in> set rs. record_valid H r" "replay opId (jr_latest cur) (jr_tail cur) rs = Inr ()"
  using assms unfolding batch_ok_def by blast+

lemma batch_ok_begin:
  "batch_ok H opId (\<lambda>cur. make_intents H opId (length (jr_latest cur) + 1) (jr_tail cur) intents)"
  unfolding batch_ok_def using make_intents_replay by blast

lemma batch_ok_advance:
  "batch_ok H opId (\<lambda>cur. make_advances H (jr_latest cur) (jr_tail cur) as)"
  unfolding batch_ok_def using make_advances_replay by blast

lemma batch_ok_clean: "batch_ok H opId (make_rollback_cleaned H n)"
  unfolding batch_ok_def using make_rollback_replay by blast

lemma append_batch_cases:
  assumes "coherent H j d"
  obtains
    (failed) e where "fst (append_batch H build j d) = Inl e"
      "snd (append_batch H build j d) = (snd (current_records H j d), d)"
  | (written) cur rs where "journal_view H (mj_opId j) d = Inr cur" "build cur = Inr rs"
      "append_batch H build j d = (Inr rs, append_records rs cur (snd (current_records H j d)) d)"
proof -
  have f: "fst (current_records H j d) = journal_view H (mj_opId j) d"
    by (rule current_records_view [OF assms])
  obtain x j1 where c: "current_records H j d = (x, j1)" by fastforce
  show thesis
  proof (cases x)
    case (Inl e)
    then show thesis using failed [of e] c by (simp add: append_batch_def)
  next
    case (Inr cur)
    show thesis
    proof (cases "build cur")
      case (Inl e)
      then show thesis using failed [of e] c Inr by (simp add: append_batch_def)
    next
      case b: (Inr rs)
      have e: "current_records H j d = (Inr cur, j1)" using c Inr by simp
      have v: "journal_view H (mj_opId j) d = Inr cur" using f by (simp add: e)
      have "append_batch H build j d = (Inr rs, append_records rs cur (snd (current_records H j d)) d)"
        by (simp add: append_batch_def e b split: prod.split)
      then show thesis by (rule written [OF v b])
    qed
  qed
qed

lemma append_records_view:
  assumes "coherent H j d" "journal_view H (mj_opId j) d = Inr cur" "build cur = Inr rs"
    "batch_ok H (mj_opId j) build" "append_records rs cur j1 d = (j', d')" "mj_opId j1 = mj_opId j"
  shows "mj_opId j' = mj_opId j" "coherent H j' d'" "md_stamp d < md_stamp d'"
    "\<exists>cur'. journal_view H (mj_opId j) d' = Inr cur' \<and> jr_latest cur' = foldl set_latest (jr_latest cur) rs \<and>
      \<not> jr_hasNonDurableTail cur' \<and> mj_cached j' = Some (cur', md_stamp d')"
proof -
  let ?b = "case md_bytes d of None \<Rightarrow> [] | Some b \<Rightarrow> b"
  let ?new = "\<lparr>jr_latest = foldl set_latest (jr_latest cur) rs, jr_tail = last_record (jr_tail cur) rs,
     jr_durableEnd = jr_durableEnd cur + length (record_lines rs), jr_hasNonDurableTail = False, jr_fileExisted = True\<rparr>"
  obtain c' where c': "parse_journal H (mj_opId j) ?b = Inr c'" "jr_latest c' = jr_latest cur"
    "jr_tail c' = jr_tail cur" "jr_durableEnd c' = jr_durableEnd cur"
    using view_parse [OF assms(2)] .
  note ok = batch_okD [OF assms(4,3) log_ok_view [OF assms(2)]]
  have p: "parse_journal H (mj_opId j) (durable_part ?b @ record_lines rs) = Inr ?new"
    using append_parse [OF c'(1) ok(1)] ok(2) c' by simp
  have e: "j' = j1\<lparr>mj_cached := Some (?new, Suc (md_stamp d))\<rparr>"
    "d' = \<lparr>md_bytes = Some (durable_part ?b @ record_lines rs), md_stamp = Suc (md_stamp d)\<rparr>"
    using assms(5) kept_bytes_view [OF assms(2)]
    by (auto simp: append_records_def Let_def last_record_def)
  have v: "journal_view H (mj_opId j) d' = Inr ?new" by (simp add: journal_view_def e p)
  show "mj_opId j' = mj_opId j" "md_stamp d < md_stamp d'" by (simp_all add: e assms(6))
  show "coherent H j' d'" using v by (simp add: coherent_def e assms(6) journal_view_def)
  show "\<exists>cur'. journal_view H (mj_opId j) d' = Inr cur' \<and> jr_latest cur' = foldl set_latest (jr_latest cur) rs \<and>
      \<not> jr_hasNonDurableTail cur' \<and> mj_cached j' = Some (cur', md_stamp d')"
    using v by (intro exI [of _ ?new]) (simp add: e)
qed

section \<open>Histories of the log: operations, torn writes, restarts\<close>

datatype wal_op = Begin "mutation_intent list" | Advance "mutation_advance list" | RollbackCleaned nat

definition wal_run :: "hash \<Rightarrow> wal_op \<Rightarrow> mutation_journal \<Rightarrow> mutation_disk \<Rightarrow> mutation_record list mj_result" where
  "wal_run H op j d =
     (case op of
        Begin intents \<Rightarrow> beginMany H intents j d
      | Advance advances \<Rightarrow> advanceBatch H advances j d
      | RollbackCleaned n \<Rightarrow> markRollbackCleaned H n j d)"

text \<open>A state is the journal object of the running process and the disk. A write is torn after any
  number of its bytes; the process then goes on, or another one starts with nothing cached.\<close>

inductive wal_step :: "hash \<Rightarrow> mutation_journal \<times> mutation_disk \<Rightarrow> mutation_journal \<times> mutation_disk \<Rightarrow> bool" for H where
  operation: "wal_run H op j d = (res, j', d') \<Longrightarrow> wal_step H (j, d) (j', d')"
| load: "load_records H j d = (res, j', d') \<Longrightarrow> wal_step H (j, d) (j', d')"
| torn: "wal_run H op j d = (Inr rs, j', d') \<Longrightarrow> current_records H j d = (Inr cur, j1) \<Longrightarrow>
    wal_step H (j, d) (j1, \<lparr>md_bytes = Some (kept_bytes cur d @ take k (record_lines rs)), md_stamp = Suc (md_stamp d)\<rparr>)"
| restart: "wal_step H (j, d) (j\<lparr>mj_cached := None\<rparr>, d)"

inductive_cases wal_stepE: "wal_step H (j, d) s"

definition log_le :: "mutation_record list \<Rightarrow> mutation_record list \<Rightarrow> bool" where
  "log_le l l' \<longleftrightarrow> length l \<le> length l' \<and>
     (\<forall>i < length l. mr_state (l ! i) \<le> mr_state (l' ! i) \<and> immutablePayload (l ! i) = immutablePayload (l' ! i))"

lemma log_le_refl [simp]: "log_le l l"
  by (simp add: log_le_def)

lemma log_le_trans: "log_le a b \<Longrightarrow> log_le b c \<Longrightarrow> log_le a c"
  unfolding log_le_def by (metis order_trans le_trans less_le_trans)

lemma durable_transition_le: "isValidDurableTransition s t \<Longrightarrow> s < t"
  by (cases s; cases t) (auto simp: isValidDurableTransition_def less_mutation_state_def)

lemma log_le_set_latest:
  assumes "read_record opId latest tail r = Inr ()"
  shows "log_le latest (set_latest latest r)"
proof (cases "latest_at latest (mr_ordinal r)")
  case None
  then have "mr_ordinal r = length latest + 1"
    using assms by (auto simp: read_record_def res_simps split: if_splits)
  then show ?thesis by (simp add: set_latest_next log_le_def nth_append)
next
  case (Some p)
  then have "immutablePayload p = immutablePayload r" "mr_state p < mr_state r"
    using assms durable_transition_le by (auto simp: read_record_def res_simps split: if_splits)
  then show ?thesis
    using Some by (auto simp: set_latest_at [OF Some] log_le_def nth_list_update latest_at_Some)
qed

lemma log_le_replay: "replay opId latest tail rs = Inr () \<Longrightarrow> log_le latest (foldl set_latest latest rs)"
proof (induction rs arbitrary: latest tail)
  case (Cons r rs)
  then have "read_record opId latest tail r = Inr ()"
    by (cases "read_record opId latest tail r") auto
  then show ?case using Cons log_le_set_latest log_le_trans by fastforce
qed simp

text \<open>An operation fails without effect, or appends a batch that fits the log.\<close>

lemma wal_run_cases:
  assumes "coherent H j d"
  obtains
    (failed) e j1 where "wal_run H op j d = (Inl e, j1, d)" "coherent H j1 d" "mj_opId j1 = mj_opId j"
  | (written) build cur rs where "journal_view H (mj_opId j) d = Inr cur" "build cur = Inr rs"
      "batch_ok H (mj_opId j) build"
      "wal_run H op j d = (Inr rs, append_records rs cur (snd (current_records H j d)) d)"
proof -
  have b: thesis if "batch_ok H (mj_opId j) build" "wal_run H op j d = append_batch H build j d" for build
  proof (cases rule: append_batch_cases [OF assms, of build])
    case (1 e)
    then have "wal_run H op j d = (Inl e, snd (current_records H j d), d)"
      unfolding that(2) by (metis prod.collapse)
    then show thesis using failed current_records_view [OF assms] by blast
  next
    case (2 cur rs)
    then show thesis using written that by metis
  qed
  show thesis
  proof (cases op)
    case (Begin intents)
    show thesis
    proof (cases "intents = []")
      case True
      then show thesis using failed assms Begin by (auto simp: wal_run_def beginMany_def)
    next
      case False
      show thesis by (rule b [OF batch_ok_begin]) (simp add: wal_run_def Begin beginMany_def False)
    qed
  next
    case (Advance advances)
    show thesis
    proof (cases "advances = [] \<or> list_ex (\<lambda>a. ma_states a = []) advances")
      case True
      then show thesis using failed assms Advance by (auto simp: wal_run_def advanceBatch_def)
    next
      case False
      show thesis by (rule b [OF batch_ok_advance]) (simp only: wal_run_def Advance wal_op.case advanceBatch_def False if_False)
    qed
  next
    case (RollbackCleaned n)
    show thesis by (rule b [OF batch_ok_clean]) (simp add: wal_run_def RollbackCleaned markRollbackCleaned_def)
  qed
qed

definition wal_ok :: "hash \<Rightarrow> string \<Rightarrow> mutation_journal \<times> mutation_disk \<Rightarrow> mutation_record list \<Rightarrow> bool" where
  "wal_ok H opId s latest \<longleftrightarrow>
     mj_opId (fst s) = opId \<and> coherent H (fst s) (snd s) \<and>
     (\<exists>cur. journal_view H opId (snd s) = Inr cur \<and> jr_latest cur = latest)"

lemma torn_append_view:
  assumes "journal_view H opId d = Inr cur" "build cur = Inr rs" "batch_ok H opId build"
    and d': "d' = \<lparr>md_bytes = Some (kept_bytes cur d @ take k (record_lines rs)), md_stamp = n\<rparr>"
  shows "\<exists>m cur'. m \<le> length rs \<and> journal_view H opId d' = Inr cur' \<and>
    jr_latest cur' = foldl set_latest (jr_latest cur) (take m rs) \<and> log_le (jr_latest cur) (jr_latest cur')"
proof -
  obtain c' where c': "parse_journal H opId (case md_bytes d of None \<Rightarrow> [] | Some b \<Rightarrow> b) = Inr c'"
    "jr_latest c' = jr_latest cur" "jr_tail c' = jr_tail cur"
    using view_parse [OF assms(1)] by metis
  note ok = batch_okD [OF assms(3,2) log_ok_view [OF assms(1)]]
  have r: "replay opId (jr_latest c') (jr_tail c') rs = Inr ()" using ok(2) c' by simp
  obtain m cur' where m: "m \<le> length rs" "journal_view H opId d' = Inr cur'"
    "jr_latest cur' = foldl set_latest (jr_latest cur) (take m rs)"
    using torn_append_parse [OF c'(1) ok(1) r, of k] kept_bytes_view [OF assms(1)] c'
    by (auto simp: d' journal_view_def)
  moreover have "log_le (jr_latest cur) (jr_latest cur')"
    unfolding m(3) by (rule log_le_replay [OF replay_take [OF ok(2)]])
  ultimately show ?thesis by blast
qed

lemma wal_step_ok:
  assumes "wal_step H s s'" "wal_ok H opId s latest"
  shows "\<exists>latest'. wal_ok H opId s' latest' \<and> log_le latest latest'"
  using assms
proof (cases rule: wal_step.cases)
  case (operation op j d res j' d')
  have c: "coherent H j d" "mj_opId j = opId" using assms(2) operation by (auto simp: wal_ok_def)
  show ?thesis
  proof (cases rule: wal_run_cases [OF c(1), of op])
    case (1 e j1)
    then show ?thesis using operation assms(2) by (intro exI [of _ latest]) (simp add: wal_ok_def)
  next
    case (2 build cur rs)
    have a: "append_records rs cur (snd (current_records H j d)) d = (j', d')" using 2(4) operation by simp
    note v = append_records_view [OF c(1) 2(1-3) a current_records_view(3) [OF c(1)]]
    have "log_le (jr_latest cur) (foldl set_latest (jr_latest cur) rs)"
      using log_le_replay batch_okD(2) [OF 2(3,2) log_ok_view [OF 2(1)]] by blast
    moreover have "latest = jr_latest cur" using assms(2) 2(1) operation c by (auto simp: wal_ok_def)
    ultimately show ?thesis
      using v operation c
      by (intro exI [of _ "foldl set_latest (jr_latest cur) rs"]) (auto simp: wal_ok_def)
  qed
next
  case (load j d res j' d')
  have c: "coherent H j d" "mj_opId j = opId" using assms(2) load by (auto simp: wal_ok_def)
  have "d' = d" "j' = snd (current_records H j d)"
    using load by (auto simp: load_records_def split: prod.splits sum.splits)
  then show ?thesis
    using load assms(2) current_records_view [OF c(1)]
    by (intro exI [of _ latest]) (simp add: wal_ok_def)
next
  case (torn op j d rs j' d' cur j1 k)
  have c: "coherent H j d" "mj_opId j = opId" using assms(2) torn by (auto simp: wal_ok_def)
  have j1: "j1 = snd (current_records H j d)" "journal_view H opId d = Inr cur"
    using torn current_records_view(1) [OF c(1)] c by auto
  show ?thesis
  proof (cases rule: wal_run_cases [OF c(1), of op])
    case (1 e j1)
    then show ?thesis using torn by simp
  next
    case (2 build cur' rs')
    have "Inr cur' = (Inr cur :: journal_error + journal_records)" using 2(1) j1(2) c(2) by simp
    moreover have "(Inr rs' :: journal_error + mutation_record list) = Inr rs"
      using 2(4) torn(3) by (metis Pair_inject)
    ultimately have e: "cur' = cur" "rs' = rs" by simp_all
    define d2 where "d2 = \<lparr>md_bytes = Some (kept_bytes cur d @ take k (record_lines rs)), md_stamp = Suc (md_stamp d)\<rparr>"
    have "coherent H j1 d2" "mj_opId j1 = opId"
      using coherent_later [OF current_records_view(2) [OF c(1)], of d2] current_records_view(3) [OF c(1)] c
      by (simp_all add: d2_def j1)
    moreover obtain m cur2 where "journal_view H opId d2 = Inr cur2" "log_le (jr_latest cur) (jr_latest cur2)"
      using torn_append_view [OF j1(2), of build rs d2 k "Suc (md_stamp d)"] 2(2,3) c(2) d2_def by (auto simp: e)
    moreover have "latest = jr_latest cur" using assms(2) j1(2) unfolding torn(1) wal_ok_def by simp
    moreover have "s' = (j1, d2)" unfolding torn(2) d2_def ..
    ultimately show ?thesis
      by (intro exI [of _ "jr_latest cur2"]) (simp add: wal_ok_def)
  qed
next
  case (restart j d)
  then show ?thesis using assms(2) by (intro exI [of _ latest]) (simp add: wal_ok_def)
qed

section \<open>The contract of a durable log\<close>

text \<open>What the restoring side of the program relies on: whatever happens between two reads, the log
  stays readable and only grows.\<close>

locale durable_log =
  fixes step :: "'s \<Rightarrow> 's \<Rightarrow> bool"
    and reads :: "'s \<Rightarrow> 'l \<Rightarrow> bool"
    and below :: "'l \<Rightarrow> 'l \<Rightarrow> bool"
  assumes grows: "step s t \<Longrightarrow> reads s l \<Longrightarrow> \<exists>l'. reads t l' \<and> below l l'"
    and below_refl: "below l l"
    and below_trans: "below a b \<Longrightarrow> below b c \<Longrightarrow> below a c"
begin

lemma history_grows: "step\<^sup>*\<^sup>* s t \<Longrightarrow> reads s l \<Longrightarrow> \<exists>l'. reads t l' \<and> below l l'"
proof (induction rule: rtranclp_induct)
  case base
  then show ?case using below_refl by blast
next
  case (step y z)
  then show ?case using grows below_trans by blast
qed

lemma history_keeps:
  assumes "step\<^sup>*\<^sup>* s t" "reads s l" "\<And>l'. below l l' \<Longrightarrow> P l'"
  shows "\<exists>l'. reads t l' \<and> P l'"
  using history_grows [OF assms(1,2)] assms(3) by blast

end

interpretation wal: durable_log "wal_step H" "wal_ok H opId" log_le for H opId
  by unfold_locales (auto intro: wal_step_ok log_le_trans)

definition new_journal :: "string \<Rightarrow> mutation_journal" where
  "new_journal opId = \<lparr>mj_opId = opId, mj_cached = None\<rparr>"

definition empty_disk :: mutation_disk where
  "empty_disk = \<lparr>md_bytes = None, md_stamp = 0\<rparr>"

lemma wal_ok_new: "wal_ok H opId (new_journal opId, empty_disk) []"
  by (simp add: wal_ok_def new_journal_def empty_disk_def journal_view_def emptyJournalRecords_def)

section \<open>Properties\<close>

text \<open>C8 (wal_history): Whatever operations, torn writes and restarts happen, from the moment the log is created the file
  can be read, and between any two moments no mutation is lost, goes back to an earlier state, or
  changes its path, kind, artifacts or fingerprints.\<close>

theorem wal_history:
  assumes "(wal_step H)\<^sup>*\<^sup>* (new_journal opId, empty_disk) (j, d)" "(wal_step H)\<^sup>*\<^sup>* (j, d) (j', d')"
  shows "\<exists>cur cur'. journal_view H opId d = Inr cur \<and> journal_view H opId d' = Inr cur' \<and>
    log_le (jr_latest cur) (jr_latest cur')"
proof -
  obtain l where "wal_ok H opId (j, d) l" using wal.history_grows [OF assms(1) wal_ok_new] by blast
  moreover obtain l' where "wal_ok H opId (j', d') l'" "log_le l l'"
    using wal.history_grows [OF assms(2) calculation] by blast
  ultimately show ?thesis by (auto simp: wal_ok_def)
qed

text \<open>C16 (wal_cache): In every state the log can reach, reading through the cache gives exactly what reading and checking
  the whole file again would give.\<close>

theorem wal_cache:
  assumes "(wal_step H)\<^sup>*\<^sup>* (new_journal opId, empty_disk) (j, d)"
  shows "fst (current_records H j d) = fst (current_records H (j\<lparr>mj_cached := None\<rparr>) d)"
proof -
  have "coherent H j d" using wal.history_grows [OF assms wal_ok_new] by (auto simp: wal_ok_def)
  then show ?thesis by (simp add: current_records_view(1))
qed


text \<open>C5 (wal_torn): When the write of a batch is cut off after any number of bytes, the file still reads, as the old
  records updated by an initial part of the batch.\<close>

theorem wal_torn:
  assumes "(wal_step H)\<^sup>*\<^sup>* (new_journal opId, empty_disk) (j, d)" "wal_run H op j d = (Inr rs, j', d')"
    and "journal_view H opId d = Inr cur"
  shows "\<exists>m cur'. m \<le> length rs \<and>
    journal_view H opId (d\<lparr>md_bytes := Some (kept_bytes cur d @ take k (record_lines rs))\<rparr>) = Inr cur' \<and>
    jr_latest cur' = foldl set_latest (jr_latest cur) (take m rs)"
proof -
  have c: "coherent H j d" "mj_opId j = opId"
    using wal.history_grows [OF assms(1) wal_ok_new] by (auto simp: wal_ok_def)
  show ?thesis
  proof (cases rule: wal_run_cases [OF c(1), of op])
    case (1 e j1)
    then show ?thesis using assms(2) by simp
  next
    case (2 build cur' rs')
    then have e: "cur' = cur" "rs' = rs" using assms(2,3) c(2) by simp_all
    show ?thesis
      using torn_append_view [OF assms(3), of build rs _ k "md_stamp d", OF _ _ refl] 2(2,3) c(2)
      by (auto simp: e journal_view_def)
  qed
qed

section \<open>The log of one mutation\<close>

definition zero_digest :: hash where
  "zero_digest s = replicate 64 (CHR ''0'')"

definition demo_intent :: mutation_intent where
  "demo_intent = \<lparr>mi_kind = Write, mi_path = ''a/b'', mi_sourceArtifact = ''a/s'', mi_targetArtifact = Some ''a/t'',
     mi_sourceFingerprint = replicate 64 (CHR ''1''), mi_targetFingerprint = replicate 64 (CHR ''2'')\<rparr>"

lemma demo_begin: "(case wal_run zero_digest (Begin [demo_intent]) (new_journal ''op'') empty_disk of
    (Inl _, _) \<Rightarrow> 0 | (Inr rs, _) \<Rightarrow> length rs) = 1"
  by code_simp

lemma demo_begins:
  obtains r j d where "wal_run zero_digest (Begin [demo_intent]) (new_journal ''op'') empty_disk = (Inr [r], j, d)"
  using demo_begin
  by (cases "wal_run zero_digest (Begin [demo_intent]) (new_journal ''op'') empty_disk" rule: prod_cases3)
    (auto simp: length_Suc_conv split: sum.splits)

lemma demo_step:
  assumes "wal_run zero_digest (Begin [demo_intent]) (new_journal ''op'') empty_disk = (Inr [r], j, d)"
  shows "(wal_step zero_digest)\<^sup>*\<^sup>* (new_journal ''op'', empty_disk) (j, d)"
  using wal_step.operation [OF assms] by blast

lemma wal_history_witness: "\<exists>r j d. wal_run zero_digest (Begin [demo_intent]) (new_journal ''op'') empty_disk = (Inr [r], j, d) \<and>
  (\<exists>cur cur'. journal_view zero_digest ''op'' d = Inr cur \<and> journal_view zero_digest ''op'' d = Inr cur' \<and>
    log_le (jr_latest cur) (jr_latest cur'))"
proof -
  obtain r j d where "wal_run zero_digest (Begin [demo_intent]) (new_journal ''op'') empty_disk = (Inr [r], j, d)"
    using demo_begins .
  then show ?thesis using wal_history [OF demo_step rtranclp.rtrancl_refl] by blast
qed

lemma wal_cache_witness: "\<exists>r j d. wal_run zero_digest (Begin [demo_intent]) (new_journal ''op'') empty_disk = (Inr [r], j, d) \<and>
  fst (current_records zero_digest j d) = fst (current_records zero_digest (j\<lparr>mj_cached := None\<rparr>) d)"
proof -
  obtain r j d where "wal_run zero_digest (Begin [demo_intent]) (new_journal ''op'') empty_disk = (Inr [r], j, d)"
    using demo_begins .
  then show ?thesis using wal_cache [OF demo_step] by blast
qed


lemma wal_torn_witness: "\<exists>r m cur'. m \<le> length [r] \<and>
  journal_view zero_digest ''op'' (empty_disk\<lparr>md_bytes :=
    Some (kept_bytes emptyJournalRecords empty_disk @ take 100 (record_lines [r]))\<rparr>) = Inr cur' \<and>
  jr_latest cur' = foldl set_latest (jr_latest emptyJournalRecords) (take m [r])"
proof -
  obtain r j d where w: "wal_run zero_digest (Begin [demo_intent]) (new_journal ''op'') empty_disk = (Inr [r], j, d)"
    using demo_begins .
  have "journal_view zero_digest ''op'' empty_disk = Inr emptyJournalRecords"
    by (simp add: journal_view_def empty_disk_def)
  then show ?thesis using wal_torn [OF rtranclp.rtrancl_refl w] by blast
qed

end
