(* ===== verification/AtomicFs.thy ===== *)
theory AtomicFs
  imports Json "HOL-Library.AList"
begin

text \<open>
  \<open>src/src/atomic-fs.ts\<close>: publishing a file by writing a temporary beside it and renaming it over the
  name (\<open>writeBytesAtomic\<close>) or linking it to the name (\<open>writeContentAddressed\<close>).

  A directory is a list of named entries. A file has its mode and bytes; a symbolic link has what
  following it gives, if anything. Every system call can fail: \<open>ft\<close> says with which error code, so
  the theorems hold for every way the calls can fail. A write also returns the directories it goes
  through, which are what a crash can leave; \<open>torn\<close> is how much of the temporary is written first.
  The name of the temporary, with its random part, is the parameter \<open>tmp\<close>.
\<close>

type_synonym errno = string

datatype dir_entry = EFile nat string | ESymlink "(nat \<times> string) option" | EDirectory nat

type_synonym directory = "(string \<times> dir_entry) list"

datatype fs_step =
    Mkdir | StatTarget | OpenTemp | WriteTemp | WriteRest | ChmodTemp | SyncTemp | CloseTemp
  | RenameTemp | LinkTemp | OpenDirectory | SyncDirectory | RemoveTemp | ReadTarget | OpenTarget | SyncTarget

type_synonym faults = "fs_step \<Rightarrow> errno option"

text \<open>The result, the directory left, and the directories passed through.\<close>

type_synonym fs_run = "(errno + unit) \<times> directory \<times> directory list"

section \<open>Single calls\<close>

definition readFile :: "directory \<Rightarrow> string \<Rightarrow> errno + string" where
  "readFile d name =
     (case map_of d name of
        None \<Rightarrow> Inl ''ENOENT''
      | Some (EFile m bytes) \<Rightarrow> Inr bytes
      | Some (ESymlink None) \<Rightarrow> Inl ''ENOENT''
      | Some (ESymlink (Some (m, bytes))) \<Rightarrow> Inr bytes
      | Some (EDirectory m) \<Rightarrow> Inl ''EISDIR'')"

definition stat_mode :: "directory \<Rightarrow> string \<Rightarrow> errno + nat" where
  "stat_mode d name =
     (case map_of d name of
        None \<Rightarrow> Inl ''ENOENT''
      | Some (EFile m bytes) \<Rightarrow> Inr m
      | Some (ESymlink None) \<Rightarrow> Inl ''ENOENT''
      | Some (ESymlink (Some (m, bytes))) \<Rightarrow> Inr m
      | Some (EDirectory m) \<Rightarrow> Inr m)"

definition targetMode :: "faults \<Rightarrow> directory \<Rightarrow> string \<Rightarrow> int option \<Rightarrow> errno + nat" where
  "targetMode ft d name mode =
     (case mode of
        Some m \<Rightarrow> if m < 0 \<or> 4095 < m then Inl ''invalid_mode'' else Inr (nat m)
      | None \<Rightarrow>
          (case (case ft StatTarget of Some e \<Rightarrow> Inl e | None \<Rightarrow> stat_mode d name) of
             Inr m \<Rightarrow> Inr (m mod 4096)
           | Inl e \<Rightarrow> if e = ''ENOENT'' then Inr 384 else Inl e))"

definition isToleratedDirFsyncError :: "errno \<Rightarrow> bool" where
  "isToleratedDirFsyncError e \<longleftrightarrow> e \<in> set [''EPERM'', ''EINVAL'', ''ENOTSUP'', ''EOPNOTSUPP'', ''ENOSYS'']"

definition fsyncDirectory :: "bool \<Rightarrow> faults \<Rightarrow> errno + unit" where
  "fsyncDirectory win32 ft =
     (if win32 then Inr ()
      else (case ft OpenDirectory of
        Some e \<Rightarrow> Inl e
      | None \<Rightarrow> (case ft SyncDirectory of
          None \<Rightarrow> Inr ()
        | Some e \<Rightarrow> if isToleratedDirFsyncError e then Inr () else Inl e)))"

definition fsyncFile :: "faults \<Rightarrow> errno + unit" where
  "fsyncFile ft =
     (case ft OpenTarget of Some e \<Rightarrow> Inl e | None \<Rightarrow> (case ft SyncTarget of Some e \<Rightarrow> Inl e | None \<Rightarrow> Inr ()))"

section \<open>Sequences of calls\<close>

text \<open>Calls are made in order until one fails.\<close>

fun run_steps :: "faults \<Rightarrow> (fs_step \<times> (directory \<Rightarrow> errno + directory)) list \<Rightarrow> directory \<Rightarrow> fs_run" where
  "run_steps ft [] d = (Inr (), d, [])"
| "run_steps ft ((s, f) # steps) d =
     (case ft s of
        Some e \<Rightarrow> (Inl e, d, [])
      | None \<Rightarrow> (case f d of
          Inl e \<Rightarrow> (Inl e, d, [])
        | Inr d' \<Rightarrow> (case run_steps ft steps d' of (r, d'', ds) \<Rightarrow> (r, d'', d' # ds))))"

text \<open>\<open>rm(temporary, { force: true }).catch(() => {})\<close>.\<close>

definition rm_quiet :: "faults \<Rightarrow> string \<Rightarrow> directory \<Rightarrow> directory" where
  "rm_quiet ft tmp d = (case ft RemoveTemp of Some e \<Rightarrow> d | None \<Rightarrow> AList.delete tmp d)"

definition open_exclusive :: "string \<Rightarrow> nat \<Rightarrow> directory \<Rightarrow> errno + directory" where
  "open_exclusive tmp mode d =
     (if map_of d tmp = None then Inr (AList.update tmp (EFile mode []) d) else Inl ''EEXIST'')"

definition writeTemporary :: "faults \<Rightarrow> string \<Rightarrow> nat \<Rightarrow> string \<Rightarrow> nat \<Rightarrow> directory \<Rightarrow> fs_run" where
  "writeTemporary ft tmp torn bytes mode d =
     (case run_steps ft
        [(OpenTemp, open_exclusive tmp mode),
         (WriteTemp, \<lambda>d. Inr (AList.update tmp (EFile mode (take torn bytes)) d)),
         (WriteRest, \<lambda>d. Inr (AList.update tmp (EFile mode bytes) d)),
         (ChmodTemp, Inr), (SyncTemp, Inr), (CloseTemp, Inr)] d of
        (Inr u, d', ds) \<Rightarrow> (Inr u, d', ds)
      | (Inl e, d', ds) \<Rightarrow> (Inl e, rm_quiet ft tmp d', ds @ [rm_quiet ft tmp d']))"

text \<open>\<open>rename\<close> replaces what has the name, unless it is a directory.\<close>

definition rename_over :: "string \<Rightarrow> string \<Rightarrow> directory \<Rightarrow> errno + directory" where
  "rename_over tmp name d =
     (case map_of d tmp of
        None \<Rightarrow> Inl ''ENOENT''
      | Some e \<Rightarrow>
          (case map_of d name of
             Some (EDirectory m) \<Rightarrow> Inl ''EISDIR''
           | _ \<Rightarrow> Inr (AList.update name e (AList.delete tmp d))))"

definition link_new :: "string \<Rightarrow> string \<Rightarrow> directory \<Rightarrow> errno + directory" where
  "link_new tmp name d =
     (case map_of d tmp of
        None \<Rightarrow> Inl ''ENOENT''
      | Some e \<Rightarrow> if map_of d name = None then Inr (AList.update name e d) else Inl ''EEXIST'')"

definition writeBytesAtomic ::
  "bool \<Rightarrow> faults \<Rightarrow> string \<Rightarrow> nat \<Rightarrow> string \<Rightarrow> string \<Rightarrow> int option \<Rightarrow> directory \<Rightarrow> fs_run" where
  "writeBytesAtomic win32 ft tmp torn name bytes mode d =
     (case ft Mkdir of
        Some e \<Rightarrow> (Inl e, d, [])
      | None \<Rightarrow> (case targetMode ft d name mode of
          Inl e \<Rightarrow> (Inl e, d, [])
        | Inr m \<Rightarrow> (case writeTemporary ft tmp torn bytes m d of
            (Inl e, d1, ds) \<Rightarrow> (Inl e, d1, ds)
          | (Inr _, d1, ds) \<Rightarrow>
              (case run_steps ft [(RenameTemp, rename_over tmp name)] d1 of
                 (Inl e, d2, ds2) \<Rightarrow> (Inl e, rm_quiet ft tmp d2, ds @ ds2 @ [rm_quiet ft tmp d2])
               | (Inr _, d2, ds2) \<Rightarrow> (fsyncDirectory win32 ft, d2, ds @ ds2)))))"

text \<open>\<open>writeJsonAtomic\<close>, from the text of the value.\<close>

definition writeJsonAtomic ::
  "bool \<Rightarrow> faults \<Rightarrow> string \<Rightarrow> nat \<Rightarrow> string \<Rightarrow> jsval \<Rightarrow> directory \<Rightarrow> fs_run" where
  "writeJsonAtomic win32 ft tmp torn name v d =
     (case canonicalJson v of
        None \<Rightarrow> (Inl ''TypeError'', d, [])
      | Some text \<Rightarrow> writeBytesAtomic win32 ft tmp torn name text None d)"

definition read_target :: "faults \<Rightarrow> directory \<Rightarrow> string \<Rightarrow> errno + string" where
  "read_target ft d name = (case ft ReadTarget of Some e \<Rightarrow> Inl e | None \<Rightarrow> readFile d name)"

definition writeContentAddressed ::
  "bool \<Rightarrow> faults \<Rightarrow> string \<Rightarrow> nat \<Rightarrow> string \<Rightarrow> string \<Rightarrow> int option \<Rightarrow> directory \<Rightarrow> fs_run" where
  "writeContentAddressed win32 ft tmp torn name bytes mode d =
     (case read_target ft d name of
        Inr existing \<Rightarrow> (if existing = bytes then (Inr (), d, []) else (Inl ''content_mismatch'', d, []))
      | Inl e \<Rightarrow>
          if e \<noteq> ''ENOENT'' then (Inl e, d, [])
          else (case ft Mkdir of
            Some e \<Rightarrow> (Inl e, d, [])
          | None \<Rightarrow> (case targetMode ft d name mode of
              Inl e \<Rightarrow> (Inl e, d, [])
            | Inr m \<Rightarrow> (case writeTemporary ft tmp torn bytes m d of
                (Inl e, d1, ds) \<Rightarrow> (Inl e, d1, ds)
              | (Inr _, d1, ds) \<Rightarrow>
                  (case run_steps ft [(LinkTemp, link_new tmp name)] d1 of
                     (Inr _, d2, ds2) \<Rightarrow>
                       (fsyncDirectory win32 ft, rm_quiet ft tmp d2, ds @ ds2 @ [rm_quiet ft tmp d2])
                   | (Inl e, d2, ds2) \<Rightarrow>
                       ((if e \<noteq> ''EEXIST'' then Inl e
                         else (case read_target ft d2 name of
                             Inl e2 \<Rightarrow> Inl e2
                           | Inr published \<Rightarrow> guard (published = bytes) ''content_mismatch'')),
                        rm_quiet ft tmp d2, ds @ ds2 @ [rm_quiet ft tmp d2]))))))"

definition writeBytesExclusive ::
  "bool \<Rightarrow> faults \<Rightarrow> nat \<Rightarrow> string \<Rightarrow> string \<Rightarrow> nat \<Rightarrow> bool \<Rightarrow> bool \<Rightarrow> directory \<Rightarrow> fs_run" where
  "writeBytesExclusive win32 ft torn name bytes mode syncDirectory syncFile d =
     (case run_steps ft
        ([(OpenTarget, open_exclusive name mode),
          (WriteTemp, \<lambda>d. Inr (AList.update name (EFile mode (take torn bytes)) d)),
          (WriteRest, \<lambda>d. Inr (AList.update name (EFile mode bytes) d)),
          (ChmodTemp, Inr)] @ (if syncFile then [(SyncTarget, Inr)] else [])) d of
        (Inl e, d', ds) \<Rightarrow> (Inl e, d', ds)
      | (Inr _, d', ds) \<Rightarrow> ((if syncDirectory then fsyncDirectory win32 ft else Inr ()), d', ds))"

section \<open>What a write leaves\<close>

lemmas alist_maps [simp] = update_conv' delete_conv'

lemma run_steps_inv:
  assumes "run_steps ft steps d = (r, d', ds)" "P d"
    and "\<And>s f x y. (s, f) \<in> set steps \<Longrightarrow> P x \<Longrightarrow> f x = Inr y \<Longrightarrow> P y"
  shows "P d' \<and> (\<forall>x \<in> set ds. P x)"
  using assms
proof (induction ft steps d arbitrary: r d' ds rule: run_steps.induct)
  case (2 ft s f steps d)
  show ?case
  proof (cases "ft s")
    case None
    show ?thesis
    proof (cases "f d")
      case (Inl e)
      then show ?thesis using 2(2,3) None by auto
    next
      case (Inr y)
      obtain r2 d2 ds2 where q: "run_steps ft steps y = (r2, d2, ds2)" by (metis prod_cases3)
      have "P y" using 2(3) 2(4) [of s f d y] Inr by simp
      then have "P d2 \<and> (\<forall>x \<in> set ds2. P x)"
        by (intro 2(1) [OF None Inr q]) (auto intro: 2(4))
      then show ?thesis using 2(2) None Inr q \<open>P y\<close> by auto
    qed
  qed (use 2(2,3) in auto)
qed auto

text \<open>Only the entry \<open>n\<close> may have changed.\<close>

definition same_but :: "string set \<Rightarrow> directory \<Rightarrow> directory \<Rightarrow> bool" where
  "same_but N d x \<longleftrightarrow> (\<forall>n. n \<notin> N \<longrightarrow> map_of x n = map_of d n)"

lemma same_but_refl [simp]: "same_but N d d"
  by (simp add: same_but_def)

lemma same_but_delete: "same_but N d x \<Longrightarrow> t \<in> N \<Longrightarrow> same_but N d (AList.delete t x)"
  by (auto simp: same_but_def)

lemma same_but_update: "same_but N d x \<Longrightarrow> t \<in> N \<Longrightarrow> same_but N d (AList.update t e x)"
  by (auto simp: same_but_def)

lemma same_but_rm_quiet: "same_but N d x \<Longrightarrow> t \<in> N \<Longrightarrow> same_but N d (rm_quiet ft t x)"
  by (auto simp: rm_quiet_def same_but_delete split: option.split)

lemma writeTemporary_frame:
  assumes "writeTemporary ft tmp torn bytes mode d = (r, d', ds)"
  shows "same_but {tmp} d d'" "\<forall>x \<in> set ds. same_but {tmp} d x"
proof -
  let ?steps = "[(OpenTemp, open_exclusive tmp mode),
         (WriteTemp, \<lambda>d. Inr (AList.update tmp (EFile mode (take torn bytes)) d)),
         (WriteRest, \<lambda>d. Inr (AList.update tmp (EFile mode bytes) d)),
         (ChmodTemp, Inr), (SyncTemp, Inr), (CloseTemp, Inr)]"
  obtain r1 d1 ds1 where q: "run_steps ft ?steps d = (r1, d1, ds1)" by (metis prod_cases3)
  have "same_but {tmp} d d1 \<and> (\<forall>x \<in> set ds1. same_but {tmp} d x)"
    by (rule run_steps_inv [OF q])
      (auto simp: open_exclusive_def same_but_update split: if_splits)
  then show "same_but {tmp} d d'" "\<forall>x \<in> set ds. same_but {tmp} d x"
    using assms unfolding writeTemporary_def q
    by (auto simp: same_but_rm_quiet split: sum.splits)
qed

lemma writeTemporary_done:
  assumes "writeTemporary ft tmp torn bytes mode d = (Inr u, d', ds)"
  shows "map_of d' tmp = Some (EFile mode bytes)" "map_of d tmp = None"
  using assms
  by (auto simp: writeTemporary_def open_exclusive_def split: option.splits if_splits sum.splits)

lemma writeTemporary_failed:
  assumes "writeTemporary ft tmp torn bytes mode d = (Inl e, d', ds)" "ft RemoveTemp = None"
  shows "map_of d' tmp = None"
  using assms by (auto simp: writeTemporary_def rm_quiet_def split: sum.splits prod.splits)

section \<open>Publishing by rename\<close>

text \<open>At every moment the name has its old entry or a file with exactly the new bytes.\<close>

definition old_or_new :: "string \<Rightarrow> string \<Rightarrow> string \<Rightarrow> directory \<Rightarrow> directory \<Rightarrow> bool" where
  "old_or_new tmp name bytes d x \<longleftrightarrow>
     same_but {tmp, name} d x \<and> (map_of x name = map_of d name \<or> (\<exists>m. map_of x name = Some (EFile m bytes)))"

lemma same_but_old: "same_but {tmp} d x \<Longrightarrow> tmp \<noteq> name \<Longrightarrow> old_or_new tmp name bytes d x"
  by (auto simp: same_but_def old_or_new_def)

lemma old_or_new_rm_quiet:
  "old_or_new tmp name bytes d x \<Longrightarrow> tmp \<noteq> name \<Longrightarrow> old_or_new tmp name bytes d (rm_quiet ft tmp x)"
  by (auto simp: same_but_def old_or_new_def rm_quiet_def split: option.split)

lemma rename_over_new:
  assumes "same_but {tmp} d x" "map_of x tmp = Some (EFile m bytes)" "rename_over tmp name x = Inr y" "tmp \<noteq> name"
  shows "old_or_new tmp name bytes d y" "map_of y name = Some (EFile m bytes)" "map_of y tmp = None"
  using assms
  by (auto simp: rename_over_def old_or_new_def same_but_def split: option.splits dir_entry.splits)

lemma writeBytesAtomic_cases:
  assumes "writeBytesAtomic win32 ft tmp torn name bytes mode d = (r, d', ds)" "tmp \<noteq> name"
  shows "(\<forall>x \<in> set (d' # ds). old_or_new tmp name bytes d x) \<and>
    (is_ok r \<longrightarrow> (\<exists>m. map_of d' name = Some (EFile m bytes)) \<and> map_of d' tmp = None \<and> map_of d tmp = None)"
proof (cases "ft Mkdir = None \<and> is_ok (targetMode ft d name mode)")
  case False
  then show ?thesis
    using assms same_but_old [OF same_but_refl assms(2)]
    by (auto simp: writeBytesAtomic_def is_ok_iff split: option.splits sum.splits)
next
  case True
  then obtain m where m: "ft Mkdir = None" "targetMode ft d name mode = Inr m" by (auto simp: is_ok_iff)
  obtain r1 d1 ds1 where t: "writeTemporary ft tmp torn bytes m d = (r1, d1, ds1)" by (metis prod_cases3)
  have f: "\<forall>x \<in> set (d1 # ds1). old_or_new tmp name bytes d x"
    using writeTemporary_frame [OF t] same_but_old assms(2) by auto
  show ?thesis
  proof (cases r1)
    case (Inl e)
    then have "r = Inl e" "d' = d1" "ds = ds1" using assms(1) m t by (simp_all add: writeBytesAtomic_def)
    then show ?thesis using f by simp
  next
    case (Inr u)
    have d1: "map_of d1 tmp = Some (EFile m bytes)" "map_of d tmp = None"
      using writeTemporary_done t Inr by auto
    have s1: "same_but {tmp} d d1" by (rule writeTemporary_frame [OF t])
    show ?thesis
    proof (cases "ft RenameTemp = None \<and> is_ok (rename_over tmp name d1)")
      case False
      then have "r \<noteq> Inr ()" "d' = rm_quiet ft tmp d1" "set ds = set ds1 \<union> {d'}"
        using assms(1) m t Inr
        by (auto simp: writeBytesAtomic_def is_ok_iff split: option.splits sum.splits)
      then show ?thesis
        using f old_or_new_rm_quiet [OF _ assms(2), of bytes d d1 ft] by (auto simp: is_ok_iff)
    next
      case True
      then obtain y where y: "ft RenameTemp = None" "rename_over tmp name d1 = Inr y"
        by (auto simp: is_ok_iff)
      then have "d' = y" "ds = ds1 @ [y]"
        using assms(1) m t Inr by (auto simp: writeBytesAtomic_def)
      then show ?thesis
        using f d1(2) rename_over_new [OF s1 d1(1) y(2) assms(2)] by auto
    qed
  qed
qed

section \<open>Publishing by link\<close>

text \<open>At every moment the name has its old entry, or it had none and now is a file with the bytes.\<close>

definition kept_or_new :: "string \<Rightarrow> string \<Rightarrow> string \<Rightarrow> directory \<Rightarrow> directory \<Rightarrow> bool" where
  "kept_or_new tmp name bytes d x \<longleftrightarrow>
     same_but {tmp, name} d x \<and>
     (map_of x name = map_of d name \<or> map_of d name = None \<and> (\<exists>m. map_of x name = Some (EFile m bytes)))"

lemma same_but_kept: "same_but {tmp} d x \<Longrightarrow> tmp \<noteq> name \<Longrightarrow> kept_or_new tmp name bytes d x"
  by (auto simp: same_but_def kept_or_new_def)

lemma kept_or_new_rm_quiet:
  "kept_or_new tmp name bytes d x \<Longrightarrow> tmp \<noteq> name \<Longrightarrow> kept_or_new tmp name bytes d (rm_quiet ft tmp x)"
  by (auto simp: same_but_def kept_or_new_def rm_quiet_def split: option.split)

lemma readFile_rm_quiet: "tmp \<noteq> name \<Longrightarrow> readFile (rm_quiet ft tmp x) name = readFile x name"
  by (auto simp: readFile_def rm_quiet_def split: option.split)

lemma link_new_Inr:
  assumes "same_but {tmp} d x" "map_of x tmp = Some (EFile m bytes)" "link_new tmp name x = Inr y" "tmp \<noteq> name"
  shows "kept_or_new tmp name bytes d y" "readFile y name = Inr bytes"
  using assms
  by (auto simp: link_new_def kept_or_new_def same_but_def readFile_def split: option.splits if_splits)

lemma read_target_Inr: "read_target ft d name = Inr bytes \<Longrightarrow> readFile d name = Inr bytes"
  by (auto simp: read_target_def split: option.splits)

lemma writeContentAddressed_cases:
  assumes "writeContentAddressed win32 ft tmp torn name bytes mode d = (r, d', ds)" "tmp \<noteq> name"
  shows "(\<forall>x \<in> set (d' # ds). kept_or_new tmp name bytes d x) \<and> (is_ok r \<longrightarrow> readFile d' name = Inr bytes)"
proof (cases "read_target ft d name = Inl ''ENOENT'' \<and> ft Mkdir = None \<and> is_ok (targetMode ft d name mode)")
  case False
  then have "d' = d" "ds = []" "is_ok r \<longrightarrow> read_target ft d name = Inr bytes"
    using assms
    by (auto simp: writeContentAddressed_def is_ok_iff split: option.splits sum.splits if_splits)
  then show ?thesis
    using same_but_kept [OF same_but_refl assms(2)] read_target_Inr [of ft d name bytes] by simp
next
  case True
  then obtain m where m: "read_target ft d name = Inl ''ENOENT''" "ft Mkdir = None" "targetMode ft d name mode = Inr m"
    by (auto simp: is_ok_iff)
  obtain r1 d1 ds1 where t: "writeTemporary ft tmp torn bytes m d = (r1, d1, ds1)" by (metis prod_cases3)
  have f: "\<forall>x \<in> set (d1 # ds1). kept_or_new tmp name bytes d x"
    using writeTemporary_frame [OF t] same_but_kept assms(2) by auto
  show ?thesis
  proof (cases r1)
    case (Inl e)
    then have "r = Inl e" "d' = d1" "ds = ds1" using assms(1) m t by (simp_all add: writeContentAddressed_def)
    then show ?thesis using f by simp
  next
    case (Inr u)
    have d1: "map_of d1 tmp = Some (EFile m bytes)" using writeTemporary_done t Inr by auto
    have s1: "same_but {tmp} d d1" by (rule writeTemporary_frame [OF t])
    show ?thesis
    proof (cases "ft LinkTemp = None \<and> is_ok (link_new tmp name d1)")
      case False
      then have r: "d' = rm_quiet ft tmp d1" "set ds = set ds1 \<union> {d'}"
        "is_ok r \<longrightarrow> read_target ft d1 name = Inr bytes"
        using assms(1) m t Inr
        by (auto simp: writeContentAddressed_def is_ok_iff split: option.splits sum.splits if_splits)
      have "is_ok r \<longrightarrow> readFile d' name = Inr bytes"
        using r(3) read_target_Inr [of ft d1 name bytes] readFile_rm_quiet [OF assms(2), of ft d1] r(1) by simp
      then show ?thesis
        using f kept_or_new_rm_quiet [OF _ assms(2), of bytes d d1 ft] r(1,2) by auto
    next
      case True
      then obtain y where y: "ft LinkTemp = None" "link_new tmp name d1 = Inr y"
        by (auto simp: is_ok_iff)
      then have "d' = rm_quiet ft tmp y" "ds = ds1 @ [y, rm_quiet ft tmp y]"
        using assms(1) m t Inr by (auto simp: writeContentAddressed_def)
      then show ?thesis
        using f link_new_Inr [OF s1 d1 y(2) assms(2)] readFile_rm_quiet [OF assms(2), of ft y]
          kept_or_new_rm_quiet [OF _ assms(2), of bytes d y ft] by auto
    qed
  qed
qed

section \<open>The contract of a publisher\<close>

text \<open>What the journal relies on when it publishes a file: every directory on the way is acceptable, the
  other names are untouched, and when the call returns the name reads as the bytes.\<close>

locale publisher =
  fixes publish :: "faults \<Rightarrow> string \<Rightarrow> nat \<Rightarrow> string \<Rightarrow> string \<Rightarrow> directory \<Rightarrow> fs_run"
    and between :: "string \<Rightarrow> string \<Rightarrow> string \<Rightarrow> directory \<Rightarrow> directory \<Rightarrow> bool"
  assumes passes: "publish ft tmp torn name bytes d = (r, d', ds) \<Longrightarrow> tmp \<noteq> name \<Longrightarrow>
      x \<in> set (d' # ds) \<Longrightarrow> between tmp name bytes d x"
    and published: "publish ft tmp torn name bytes d = (Inr u, d', ds) \<Longrightarrow> tmp \<noteq> name \<Longrightarrow>
      readFile d' name = Inr bytes"
    and between_others: "between tmp name bytes d x \<Longrightarrow> n \<noteq> tmp \<Longrightarrow> n \<noteq> name \<Longrightarrow> map_of x n = map_of d n"
    and between_reads: "between tmp name bytes d x \<Longrightarrow> readFile x name \<in> {readFile d name, Inr bytes}"
begin

lemma others_unchanged:
  assumes "publish ft tmp torn name bytes d = (r, d', ds)" "tmp \<noteq> name" "n \<noteq> tmp" "n \<noteq> name"
  shows "readFile d' n = readFile d n"
  using between_others [OF passes [OF assms(1,2), of d'] assms(3,4)] by (simp add: readFile_def)

lemma reads_old_or_new:
  assumes "publish ft tmp torn name bytes d = (r, d', ds)" "tmp \<noteq> name" "x \<in> set (d' # ds)"
  shows "readFile x name \<in> {readFile d name, Inr bytes}"
  using between_reads [OF passes [OF assms]] .

lemma publish_again:
  assumes "publish ft tmp torn name bytes d = (Inr u, d', ds)" "tmp \<noteq> name"
    and "publish ft2 tmp2 torn2 name bytes d' = (r, d2, ds2)" "tmp2 \<noteq> name" "x \<in> set (d2 # ds2)"
  shows "readFile x name = Inr bytes"
  using reads_old_or_new [OF assms(3-5)] published [OF assms(1,2)] by simp

end

interpretation atomic: publisher "\<lambda>ft tmp torn name bytes d. writeBytesAtomic win32 ft tmp torn name bytes mode d" old_or_new
  for win32 mode
proof unfold_locales
  fix ft tmp torn name bytes d r d' ds x
  assume "writeBytesAtomic win32 ft tmp torn name bytes mode d = (r, d', ds)" "tmp \<noteq> name" "x \<in> set (d' # ds)"
  then show "old_or_new tmp name bytes d x" using writeBytesAtomic_cases by blast
next
  fix ft tmp torn name bytes d u d' ds
  assume "writeBytesAtomic win32 ft tmp torn name bytes mode d = (Inr u, d', ds)" "tmp \<noteq> name"
  then show "readFile d' name = Inr bytes"
    using writeBytesAtomic_cases [of win32 ft tmp torn name bytes mode d "Inr u" d' ds]
    by (auto simp: readFile_def)
qed (auto simp: old_or_new_def same_but_def readFile_def)

interpretation addressed: publisher
  "\<lambda>ft tmp torn name bytes d. writeContentAddressed win32 ft tmp torn name bytes mode d" kept_or_new
  for win32 mode
proof unfold_locales
  fix ft tmp torn name bytes d r d' ds x
  assume "writeContentAddressed win32 ft tmp torn name bytes mode d = (r, d', ds)" "tmp \<noteq> name" "x \<in> set (d' # ds)"
  then show "kept_or_new tmp name bytes d x" using writeContentAddressed_cases by blast
next
  fix ft tmp torn name bytes d u d' ds
  assume "writeContentAddressed win32 ft tmp torn name bytes mode d = (Inr u, d', ds)" "tmp \<noteq> name"
  then show "readFile d' name = Inr bytes"
    using writeContentAddressed_cases [of win32 ft tmp torn name bytes mode d "Inr u" d' ds] by simp
qed (auto simp: kept_or_new_def same_but_def readFile_def)

section \<open>Properties\<close>



text \<open>A content-addressed write never replaces an entry: if the name had one, it keeps it at every
  moment, and the call succeeds only if it reads as the same bytes; if it had none, it appears at
  once with all its bytes.\<close>

theorem addressed_crash:
  assumes "writeContentAddressed win32 ft tmp torn name bytes mode d = (r, d', ds)" "tmp \<noteq> name"
  shows "(\<forall>x \<in> set (d' # ds). map_of x name = map_of d name \<or>
      map_of d name = None \<and> readFile x name = Inr bytes) \<and>
    (r = Inr () \<longrightarrow> readFile d' name = Inr bytes)"
proof -
  have "kept_or_new tmp name bytes d x" if "x \<in> set (d' # ds)" for x
    using addressed.passes [OF assms that] .
  moreover have "r = Inr () \<longrightarrow> readFile d' name = Inr bytes"
    using addressed.published [OF _ assms(2)] assms(1) by blast
  moreover have "readFile x name = Inr bytes" if "map_of x name = Some (EFile m bytes)" for x m
    using that by (simp add: readFile_def)
  ultimately show ?thesis unfolding kept_or_new_def by blast
qed

lemma addressed_crash_witness:
  "\<exists>d' ds. writeContentAddressed False (\<lambda>_. None) ''t'' 1 ''f'' ''new'' None [(''g'', EFile 384 ''old'')] = (Inr (), d', ds) \<and>
     length ds = 8 \<and> readFile d' ''f'' = Inr ''new''"
proof -
  obtain d' ds where e: "writeContentAddressed False (\<lambda>_. None) ''t'' 1 ''f'' ''new'' None [(''g'', EFile 384 ''old'')] = (Inr (), d', ds)"
    and "length ds = 8"
    by (simp add: writeContentAddressed_def read_target_def readFile_def targetMode_def stat_mode_def
        writeTemporary_def open_exclusive_def link_new_def rm_quiet_def fsyncDirectory_def)
  then show ?thesis using addressed_crash [OF e] by simp
qed

end
