(* ===== verification/Journal.thy ===== *)
theory Journal
  imports MutationJournal AtomicFs
begin

text \<open>
  \<open>src/src/journal.ts\<close>: the transaction of one operation, a directory with the descriptor, the restore
  plan and the state of the operation, and the decision what recovery does with it.

  The transactions directory is \<open>None\<close> while it does not exist. An operation directory without
  entries is the same as none, which no operation tells apart. An operation returns its result,
  the store it leaves and the stores it goes through, which are what a crash can leave. A pending
  journal keeps the JSON values that were read, since the code encodes them again; \<open>descriptor_of\<close>
  and \<open>journal_state_of\<close> are their typed views.
\<close>

section \<open>The store\<close>

datatype tx_entry = TxDir directory | TxLink directory | TxOther

type_synonym store = "(string \<times> tx_entry) list option"

datatype store_error =
    JS_fs errno | JS_syntax | JS_invalid validation_error | JS_type | JS_plan_mismatch | JS_state_mismatch
  | JS_dir_mismatch | JS_bad_op_id | JS_empty_group | JS_bad_transition journal_phase journal_phase
  | JS_not_cursor_committed | JS_settled_differently | JS_mutations journal_error | JS_not_durable

record pending_journal =
  pj_descriptor :: jsval
  pj_plan :: jsval
  pj_state :: jsval

datatype marker_inspection = MarkerAbsent | MarkerMatch bool | MarkerConflict

datatype recovery_action = Rollback | RollForward | Lock | Discard

record recovery_decision =
  rd_action :: recovery_action
  rd_reason :: string

text \<open>How the calls of a write go: the platform, the random part of the name of the temporary, how much
  is written first, and the faults by the name of the file written.\<close>

record fs_env =
  fe_win32 :: bool
  fe_suffix :: string
  fe_torn :: nat
  fe_faults :: "string \<Rightarrow> faults"

type_synonym store_run = "(store_error + unit) \<times> store \<times> store list"

definition temp_name :: "fs_env \<Rightarrow> string \<Rightarrow> string" where
  "temp_name env name = ''.'' @ name @ ''.'' @ fe_suffix env @ ''.tmp''"

definition operationDirectory_ok :: "string \<Rightarrow> bool" where
  "operationDirectory_ok opId =
     (case opId of
        [] \<Rightarrow> False
      | c # cs \<Rightarrow> (is_alpha c \<or> is_digit c) \<and>
          list_all (\<lambda>c. is_alpha c \<or> is_digit c \<or> c = CHR ''.'' \<or> c = CHR ''_'' \<or> c = CHR ''-'') cs)"

definition tx_entry_of :: "store \<Rightarrow> string \<Rightarrow> tx_entry option" where
  "tx_entry_of store name = (case store of None \<Rightarrow> None | Some es \<Rightarrow> map_of es name)"

definition tx_dir :: "store \<Rightarrow> string \<Rightarrow> errno + directory" where
  "tx_dir store opId =
     (case tx_entry_of store opId of
        None \<Rightarrow> Inr []
      | Some (TxDir d) \<Rightarrow> Inr d
      | Some (TxLink d) \<Rightarrow> Inr d
      | Some TxOther \<Rightarrow> Inl ''ENOTDIR'')"

definition tx_put :: "store \<Rightarrow> string \<Rightarrow> directory \<Rightarrow> store" where
  "tx_put store opId d =
     (if tx_entry_of store opId = None \<and> d = [] then store
      else Some (AList.update opId
        (case tx_entry_of store opId of Some (TxLink _) \<Rightarrow> TxLink d | _ \<Rightarrow> TxDir d)
        (case store of None \<Rightarrow> [] | Some es \<Rightarrow> es)))"

definition tx_read :: "store \<Rightarrow> string \<Rightarrow> string \<Rightarrow> errno + string" where
  "tx_read store opId name = rbind (tx_dir store opId) (\<lambda>d. readFile d name)"

definition tx_write ::
  "(faults \<Rightarrow> string \<Rightarrow> nat \<Rightarrow> string \<Rightarrow> string \<Rightarrow> directory \<Rightarrow> fs_run) \<Rightarrow> fs_env \<Rightarrow> string \<Rightarrow> string \<Rightarrow> jsval \<Rightarrow>
   store \<Rightarrow> store_run" where
  "tx_write publish env opId name v store =
     (case canonicalJson v of
        None \<Rightarrow> (Inl JS_type, store, [])
      | Some text \<Rightarrow>
          (case tx_dir store opId of
             Inl e \<Rightarrow> (Inl (JS_fs e), store, [])
           | Inr d \<Rightarrow>
               (case publish (fe_faults env name) (temp_name env name) (fe_torn env) name text d of
                  (r, d', ds) \<Rightarrow>
                    (case r of Inl e \<Rightarrow> Inl (JS_fs e) | Inr u \<Rightarrow> Inr u,
                     tx_put store opId d', map (tx_put store opId) ds))))"

definition write_addressed :: "fs_env \<Rightarrow> string \<Rightarrow> string \<Rightarrow> jsval \<Rightarrow> store \<Rightarrow> store_run" where
  "write_addressed env =
     tx_write (\<lambda>ft tmp torn name text d. writeContentAddressed (fe_win32 env) ft tmp torn name text None d) env"

definition write_atomic :: "fs_env \<Rightarrow> string \<Rightarrow> string \<Rightarrow> jsval \<Rightarrow> store \<Rightarrow> store_run" where
  "write_atomic env =
     tx_write (\<lambda>ft tmp torn name text d. writeBytesAtomic (fe_win32 env) ft tmp torn name text None d) env"

text \<open>\<open>await a; await b\<close>.\<close>

definition and_then :: "store_run \<Rightarrow> (store \<Rightarrow> store_run) \<Rightarrow> store_run" where
  "and_then m f =
     (case m of
        (Inl e, s, ss) \<Rightarrow> (Inl e, s, ss)
      | (Inr _, s, ss) \<Rightarrow> (case f s of (r, s', ss') \<Rightarrow> (r, s', ss @ ss')))"

section \<open>Phases\<close>

definition phase_order :: "journal_phase list" where
  "phase_order = [PREPARED, SESSION_MOVED, APPLYING, FILES_VERIFIED, CURSOR_COMMITTED, COMMITTED]"

fun index_of :: "'a \<Rightarrow> 'a list \<Rightarrow> int" where
  "index_of x [] = -1"
| "index_of x (y # ys) = (if x = y then 0 else let i = index_of x ys in if i = -1 then -1 else i + 1)"

definition canTransition :: "journal_phase \<Rightarrow> journal_phase \<Rightarrow> bool" where
  "canTransition current nxt =
     (if current = nxt \<or> current = COMMITTED \<or> current = ABORTED then False
      else if nxt = RECOVERY_REQUIRED then True
      else if nxt = ABORTING then current \<noteq> ABORTING
      else if nxt = ABORTED then current = ABORTING
      else index_of nxt phase_order = index_of current phase_order + 1)"

definition makeState ::
  "hash \<Rightarrow> operation_descriptor \<Rightarrow> journal_phase \<Rightarrow> int \<Rightarrow> string option option \<Rightarrow> journal_state" where
  "makeState H d phase revision observed =
     (let s = \<lparr>js_opId = od_opId d, js_phase = phase, js_revision = revision,
               js_descriptorChecksum = od_checksum d, js_observedLogicalLeaf = observed, js_checksum = []\<rparr>
      in s\<lparr>js_checksum := content_checksum H (journal_state_content s)\<rparr>)"

section \<open>Reading a transaction\<close>

definition is_record :: "jsval \<Rightarrow> bool" where
  "is_record v = (case v of JObj _ \<Rightarrow> True | JInst _ \<Rightarrow> True | _ \<Rightarrow> False)"

definition isPlanForDescriptor :: "jsval \<Rightarrow> jsval \<Rightarrow> bool" where
  "isPlanForDescriptor plan d \<longleftrightarrow> is_record plan \<and> fld plan ''planDigest'' = fld d ''planDigest''"

definition parse_text :: "string \<Rightarrow> store_error + jsval" where
  "parse_text text = (case json_parse text of None \<Rightarrow> Inl JS_syntax | Some v \<Rightarrow> Inr v)"

definition validated :: "validation_error + jsval \<Rightarrow> store_error + jsval" where
  "validated r = (case r of Inl e \<Rightarrow> Inl (JS_invalid e) | Inr v \<Rightarrow> Inr v)"

definition read_text :: "store \<Rightarrow> string \<Rightarrow> string \<Rightarrow> store_error + string" where
  "read_text store opId name = (case tx_read store opId name of Inl e \<Rightarrow> Inl (JS_fs e) | Inr t \<Rightarrow> Inr t)"

definition load :: "hash \<Rightarrow> store \<Rightarrow> string \<Rightarrow> store_error + pending_journal" where
  "load H store opId =
     rbind (guard (operationDirectory_ok opId) JS_bad_op_id) (\<lambda>_.
     rbind (read_text store opId ''descriptor.json'') (\<lambda>descriptorBytes.
     rbind (read_text store opId ''restore-plan.json'') (\<lambda>planBytes.
     rbind (read_text store opId ''state.json'') (\<lambda>stateBytes.
     rbind (parse_text descriptorBytes) (\<lambda>d0.
     rbind (validated (assertOperationDescriptor H d0)) (\<lambda>d.
     rbind (guard (fld d ''opId'' = JStr opId) JS_dir_mismatch) (\<lambda>_.
     rbind (parse_text planBytes) (\<lambda>plan.
     rbind (guard (isPlanForDescriptor plan d) JS_plan_mismatch) (\<lambda>_.
     rbind (parse_text stateBytes) (\<lambda>s0.
     rbind (validated (assertJournalState H s0)) (\<lambda>s.
     rbind (guard (fld s ''opId'' = fld d ''opId'' \<and> fld s ''descriptorChecksum'' = fld d ''checksum'')
             JS_state_mismatch) (\<lambda>_.
     Inr \<lparr>pj_descriptor = d, pj_plan = plan, pj_state = s\<rparr>))))))))))))"

definition pj_phase :: "pending_journal \<Rightarrow> journal_phase" where
  "pj_phase p = js_phase (journal_state_of (pj_state p))"

definition pj_revision :: "pending_journal \<Rightarrow> int" where
  "pj_revision p = js_revision (journal_state_of (pj_state p))"

definition pj_observed :: "pending_journal \<Rightarrow> string option option" where
  "pj_observed p = js_observedLogicalLeaf (journal_state_of (pj_state p))"

definition terminal :: "journal_phase \<Rightarrow> bool" where
  "terminal p \<longleftrightarrow> p = COMMITTED \<or> p = ABORTED"

text \<open>\<open>new MutationJournal(...).load()\<close>.\<close>

definition load_mutations :: "hash \<Rightarrow> store \<Rightarrow> string \<Rightarrow> store_error + mutation_record list" where
  "load_mutations H store opId =
     rbind (guard (operationDirectory_ok opId) JS_bad_op_id) (\<lambda>_.
     case tx_read store opId ''mutations.jsonl'' of
       Inl e \<Rightarrow> if e = ''ENOENT'' then Inr [] else Inl (JS_fs e)
     | Inr bytes \<Rightarrow>
         (case load_records H (new_journal opId) \<lparr>md_bytes = Some bytes, md_stamp = 0\<rparr> of
            (Inl e, _) \<Rightarrow> Inl (JS_mutations e)
          | (Inr rs, _) \<Rightarrow> Inr rs))"

definition assertCleaned_of :: "hash \<Rightarrow> store \<Rightarrow> string \<Rightarrow> store_error + unit" where
  "assertCleaned_of H store opId =
     rbind (load_mutations H store opId) (\<lambda>rs.
     guard (\<not> list_ex (\<lambda>r. mr_state r \<noteq> CLEANED) rs) (JS_mutations MJ_not_cleaned))"

section \<open>Operations\<close>

definition prepare :: "hash \<Rightarrow> fs_env \<Rightarrow> jsval \<Rightarrow> jsval \<Rightarrow> store \<Rightarrow> store_run" where
  "prepare H env d plan store =
     (case rbind (validated (assertOperationDescriptor H d)) (\<lambda>_.
           rbind (guard (isPlanForDescriptor plan d) JS_plan_mismatch) (\<lambda>_.
           guard (operationDirectory_ok (str_of (fld d ''opId''))) JS_bad_op_id)) of
        Inl e \<Rightarrow> (Inl e, store, [])
      | Inr _ \<Rightarrow>
          (let opId = str_of (fld d ''opId'') in
           and_then (write_addressed env opId ''descriptor.json'' d store) (\<lambda>s1.
           and_then (write_addressed env opId ''restore-plan.json'' plan s1) (\<lambda>s2.
           case tx_read s2 opId ''state.json'' of
             Inl e \<Rightarrow>
               if e \<noteq> ''ENOENT'' then (Inl (JS_fs e), s2, [])
               else write_atomic env opId ''state.json''
                      (json_of_journal_state (makeState H (descriptor_of d) PREPARED 1 None)) s2
           | Inr text \<Rightarrow>
               (rbind (parse_text text) (\<lambda>s0.
                rbind (validated (assertJournalState H s0)) (\<lambda>s.
                guard (fld s ''opId'' = fld d ''opId'' \<and> fld s ''descriptorChecksum'' = fld d ''checksum'')
                  JS_state_mismatch)), s2, [])))))"

fun fold_transitions ::
  "journal_phase \<Rightarrow> string option option \<Rightarrow> (journal_phase \<times> string option option) list \<Rightarrow>
   store_error + journal_phase \<times> string option option" where
  "fold_transitions phase observed [] = Inr (phase, observed)"
| "fold_transitions phase observed ((nxt, obs) # ts) =
     rbind (guard (canTransition phase nxt) (JS_bad_transition phase nxt)) (\<lambda>_.
     fold_transitions nxt (if obs \<noteq> None then obs else observed) ts)"

definition setPhases :: "hash \<Rightarrow> fs_env \<Rightarrow> string \<Rightarrow> (journal_phase \<times> string option option) list \<Rightarrow> store \<Rightarrow> store_run" where
  "setPhases H env opId ts store =
     (if ts = [] then (Inl JS_empty_group, store, [])
      else (case rbind (load H store opId) (\<lambda>p.
                 rbind (fold_transitions (pj_phase p) (pj_observed p) ts) (\<lambda>(phase, observed).
                 Inr (makeState H (descriptor_of (pj_descriptor p)) phase (pj_revision p + int (length ts)) observed))) of
        Inl e \<Rightarrow> (Inl e, store, [])
      | Inr s \<Rightarrow> write_atomic env opId ''state.json'' (json_of_journal_state s) store))"

definition setPhase :: "hash \<Rightarrow> fs_env \<Rightarrow> string \<Rightarrow> journal_phase \<Rightarrow> string option option \<Rightarrow> store \<Rightarrow> store_run" where
  "setPhase H env opId phase observed = setPhases H env opId [(phase, observed)]"

fun load_entries ::
  "hash \<Rightarrow> store \<Rightarrow> (string \<times> tx_entry) list \<Rightarrow> store_error + pending_journal list" where
  "load_entries H store [] = Inr []"
| "load_entries H store ((name, e) # es) =
     (case e of
        TxDir d \<Rightarrow>
          (case map_of d ''state.json'' of
             None \<Rightarrow> load_entries H store es
           | Some (EFile m bytes) \<Rightarrow>
               rbind (load H store name) (\<lambda>p.
               rbind (load_entries H store es) (\<lambda>ps.
               Inr (if \<not> terminal (pj_phase p) then p # ps else ps)))
           | Some _ \<Rightarrow> Inl JS_state_mismatch)
      | _ \<Rightarrow> load_entries H store es)"

definition loadPending :: "hash \<Rightarrow> (string \<Rightarrow> string \<Rightarrow> int) \<Rightarrow> store \<Rightarrow> store_error + pending_journal list" where
  "loadPending H localeCompare store =
     (case store of
        None \<Rightarrow> Inr []
      | Some es \<Rightarrow> load_entries H store (sort_cmp (\<lambda>l r. localeCompare (fst l) (fst r)) es))"

definition assertLogicalCommitReady :: "hash \<Rightarrow> string \<Rightarrow> bool \<Rightarrow> store \<Rightarrow> store_error + unit" where
  "assertLogicalCommitReady H opId allowPendingMutations store =
     rbind (if allowPendingMutations then Inr () else assertCleaned_of H store opId) (\<lambda>_.
     rbind (load H store opId) (\<lambda>p.
     guard (pj_phase p = CURSOR_COMMITTED) JS_not_cursor_committed))"

definition markCommitted :: "hash \<Rightarrow> fs_env \<Rightarrow> string \<Rightarrow> store \<Rightarrow> store_run" where
  "markCommitted H env opId store =
     (case assertCleaned_of H store opId of
        Inl e \<Rightarrow> (Inl e, store, [])
      | Inr _ \<Rightarrow> setPhase H env opId COMMITTED None store)"

definition settleRecovery :: "hash \<Rightarrow> fs_env \<Rightarrow> string \<Rightarrow> journal_phase \<Rightarrow> store \<Rightarrow> store_run" where
  "settleRecovery H env opId phase store =
     (case rbind (assertCleaned_of H store opId) (\<lambda>_. load H store opId) of
        Inl e \<Rightarrow> (Inl e, store, [])
      | Inr p \<Rightarrow>
          if pj_phase p = phase then (Inr (), store, [])
          else if terminal (pj_phase p) then (Inl JS_settled_differently, store, [])
          else write_atomic env opId ''state.json''
            (json_of_journal_state
              (makeState H (descriptor_of (pj_descriptor p)) phase (pj_revision p + 1) (pj_observed p))) store)"

definition removeIfSettled :: "hash \<Rightarrow> string \<Rightarrow> store \<Rightarrow> store_run" where
  "removeIfSettled H opId store =
     (case load H store opId of
        Inl e \<Rightarrow> (Inl e, store, [])
      | Inr p \<Rightarrow>
          if \<not> terminal (pj_phase p) then (Inr (), store, [])
          else (let s = map_option (AList.delete opId) store in (Inr (), s, [s])))"

section \<open>Cursor markers in the session file\<close>

definition matchesDescriptor :: "cursor_state \<Rightarrow> operation_descriptor \<Rightarrow> bool" where
  "matchesDescriptor c d \<longleftrightarrow>
     cu_descriptorChecksum c = od_checksum d \<and> cu_action c = od_action d \<and>
     cu_targetManifestId c = od_targetManifestId d \<and> cu_rollbackManifestId c = od_rollbackManifestId d \<and>
     si_path (cu_sessionIdentity c) = si_path (od_sessionIdentity d) \<and>
     si_headerChecksum (cu_sessionIdentity c) = si_headerChecksum (od_sessionIdentity d)"

definition isCursorEntry :: "jsval \<Rightarrow> bool" where
  "isCursorEntry v \<longleftrightarrow> is_record v \<and> fld v ''type'' = JStr ''custom'' \<and> fld v ''customType'' = JStr ''pi-undo:cursor''"

definition raw_op_id :: "jsval \<Rightarrow> string option" where
  "raw_op_id v = (if is_record v \<and> is_string (fld v ''opId'') then Some (str_of (fld v ''opId'')) else None)"

definition blank :: "string \<Rightarrow> bool" where
  "blank line \<longleftrightarrow> list_all (\<lambda>c. c \<in> set [CHR '' '', CHR 0x09, CHR 0x0A, CHR 0x0B, CHR 0x0C, CHR 0x0D]) line"

text \<open>What one line of the session file says about the operation.\<close>

datatype marker = NoMarker | BadMarker | Marker string

definition read_marker :: "hash \<Rightarrow> operation_descriptor \<Rightarrow> string option \<Rightarrow> string \<Rightarrow> marker" where
  "read_marker H d expected line =
     (if blank line then NoMarker
      else (case json_parse line of
        None \<Rightarrow> NoMarker
      | Some entry \<Rightarrow>
          if \<not> isCursorEntry entry then NoMarker
          else (case assertCursor H (fld entry ''data'') of
            Inl e \<Rightarrow> if raw_op_id (fld entry ''data'') = Some (od_opId d) then BadMarker else NoMarker
          | Inr v \<Rightarrow>
              (let c = cursor_of v in
               if cu_opId c \<noteq> od_opId d then NoMarker
               else if \<not> matchesDescriptor c d \<or> cu_fromLogicalLeaf c \<noteq> od_fromLogicalLeaf d \<or>
                       cu_toLogicalLeaf c \<noteq> expected then BadMarker
               else (case canonicalJson v of None \<Rightarrow> BadMarker | Some text \<Rightarrow> Marker text)))))"

text \<open>\<open>matched\<close> and \<open>needsTrailingNewline\<close> through the lines; the file's last line is the last of the list.\<close>

fun scan_markers ::
  "hash \<Rightarrow> operation_descriptor \<Rightarrow> string option \<Rightarrow> bool \<Rightarrow> string option \<Rightarrow> bool \<Rightarrow> string list \<Rightarrow> marker_inspection" where
  "scan_markers H d expected newline matched needs [] =
     (case matched of None \<Rightarrow> MarkerAbsent | Some _ \<Rightarrow> MarkerMatch needs)"
| "scan_markers H d expected newline matched needs (line # lines) =
     (case read_marker H d expected line of
        NoMarker \<Rightarrow> scan_markers H d expected newline matched needs lines
      | BadMarker \<Rightarrow> MarkerConflict
      | Marker text \<Rightarrow>
          if matched \<noteq> None \<and> matched \<noteq> Some text then MarkerConflict
          else scan_markers H d expected newline (Some text) (lines = [] \<and> \<not> newline) lines)"

definition inspectCursorMarkers ::
  "hash \<Rightarrow> errno + string \<Rightarrow> jsval \<Rightarrow> string option \<Rightarrow> store_error + marker_inspection" where
  "inspectCursorMarkers H file d expected =
     rbind (validated (assertOperationDescriptor H d)) (\<lambda>_.
     case file of
       Inl e \<Rightarrow> if e = ''ENOENT'' then Inr MarkerAbsent else Inl (JS_fs e)
     | Inr content \<Rightarrow>
         Inr (scan_markers H (descriptor_of d) expected (ends_with [CHR 0x0A] content) None False
               (split_on (CHR 0x0A) content)))"

definition decideRecovery :: "marker_inspection \<Rightarrow> recovery_decision" where
  "decideRecovery i =
     (case i of
        MarkerMatch _ \<Rightarrow> \<lparr>rd_action = RollForward, rd_reason = ''durable_cursor''\<rparr>
      | MarkerAbsent \<Rightarrow> \<lparr>rd_action = Rollback, rd_reason = ''cursor_absent''\<rparr>
      | MarkerConflict \<Rightarrow> \<lparr>rd_action = Lock, rd_reason = ''cursor_conflict''\<rparr>)"

text \<open>The result, and the session file after it. The faults are those of appending and of the two syncs.\<close>

definition finalizeCursorMarker ::
  "hash \<Rightarrow> bool \<Rightarrow> errno option \<Rightarrow> faults \<Rightarrow> jsval \<Rightarrow> bool \<Rightarrow> string option \<Rightarrow> string \<Rightarrow> (store_error + unit) \<times> string" where
  "finalizeCursorMarker H win32 appendFault ft d needsTrailingNewline expected content =
     (if needsTrailingNewline \<and> appendFault \<noteq> None then (Inl (JS_fs (the appendFault)), content)
      else (let content' = (if needsTrailingNewline then content @ [CHR 0x0A] else content) in
        (case rbind (fsyncFile ft) (\<lambda>_. fsyncDirectory win32 ft) of
           Inl e \<Rightarrow> Inl (JS_fs e)
         | Inr _ \<Rightarrow>
             rbind (inspectCursorMarkers H (Inr content') d expected) (\<lambda>v.
             guard (v = MarkerMatch False) JS_not_durable),
         content')))"

section \<open>Transactions that did nothing\<close>

definition isEmptyArray :: "jsval \<Rightarrow> bool" where
  "isEmptyArray v \<longleftrightarrow> v = JArr []"

definition isInertRestorePlan :: "hash \<Rightarrow> jsval \<Rightarrow> jsval \<Rightarrow> bool" where
  "isInertRestorePlan H v d =
     (if \<not> is_record v then False
      else if canonicalJson (jstrs (sort_cmp compare_strings (map fst (props v)))) \<noteq>
              canonicalJson (jstrs (sort_cmp compare_strings
                [''boundaryRoots'', ''currentManifestId'', ''deletePaths'', ''planDigest'', ''scopePaths'',
                 ''targetManifestId'', ''writePaths''])) then False
      else if fld v ''currentManifestId'' \<noteq> fld d ''rollbackManifestId'' \<or>
              fld v ''targetManifestId'' \<noteq> fld d ''targetManifestId'' \<or>
              \<not> isEmptyArray (fld v ''boundaryRoots'') \<or> \<not> isEmptyArray (fld v ''deletePaths'') \<or>
              \<not> isEmptyArray (fld v ''writePaths'') \<or> \<not> isEmptyArray (fld v ''scopePaths'') \<or>
              \<not> is_string (fld v ''planDigest'') \<or> \<not> is_checksum (str_of (fld v ''planDigest'')) then False
      else (case checksum_json H (JObj
          [(''currentManifestId'', fld v ''currentManifestId''),
           (''targetManifestId'', fld v ''targetManifestId''),
           (''boundaryRoots'', fld v ''boundaryRoots''),
           (''deletePaths'', fld v ''deletePaths''),
           (''writePaths'', fld v ''writePaths''),
           (''scopePaths'', fld v ''scopePaths'')]) of
        None \<Rightarrow> False
      | Some c \<Rightarrow> fld v ''planDigest'' = JStr c))"

definition hasOnlyControlFiles :: "store \<Rightarrow> string \<Rightarrow> bool" where
  "hasOnlyControlFiles store opId =
     (let expected = [''descriptor.json'', ''restore-plan.json'', ''state.json''] in
      case tx_entry_of store opId of
        Some (TxDir d) \<Rightarrow>
          length d = length expected \<and>
          list_all (\<lambda>name. case map_of d name of Some (EFile m bytes) \<Rightarrow> True | _ \<Rightarrow> False) expected
      | _ \<Rightarrow> False)"

definition pending_json :: "pending_journal \<Rightarrow> jsval" where
  "pending_json p =
     JObj [(''descriptor'', pj_descriptor p), (''plan'', pj_plan p), (''state'', pj_state p)]"

definition samePendingJournal :: "pending_journal \<Rightarrow> pending_journal \<Rightarrow> bool" where
  "samePendingJournal l r =
     (case canonicalJson (pending_json l) of
        None \<Rightarrow> False
      | Some a \<Rightarrow> (case canonicalJson (pending_json r) of None \<Rightarrow> False | Some b \<Rightarrow> a = b))"

text \<open>The store may change between the reads: each read has its own.\<close>

definition isInertForeignPrepared ::
  "hash \<Rightarrow> pending_journal \<Rightarrow> store \<Rightarrow> store \<Rightarrow> store \<Rightarrow> store \<Rightarrow> bool" where
  "isInertForeignPrepared H pending s1 s2 s3 s4 =
     (let opId = str_of (fld (pj_descriptor pending) ''opId'') in
      if pj_phase pending \<noteq> PREPARED \<or> arr_of (fld (pj_descriptor pending) ''scopePaths'') \<noteq> [] \<or>
         \<not> isInertRestorePlan H (pj_plan pending) (pj_descriptor pending) then False
      else (case load H s1 opId of
        Inl e \<Rightarrow> False
      | Inr current \<Rightarrow>
          if \<not> samePendingJournal current pending \<or>
             \<not> isInertRestorePlan H (pj_plan current) (pj_descriptor current) then False
          else if \<not> hasOnlyControlFiles s2 opId then False
          else (case load H s3 opId of
            Inl e \<Rightarrow> False
          | Inr verified \<Rightarrow> samePendingJournal verified current \<and> hasOnlyControlFiles s4 opId)))"

text \<open>\<open>chains\<close> maps a path to the fingerprint its chain starts from and the one it has reached.\<close>

fun fold_chains ::
  "(string \<times> string \<times> string) list \<Rightarrow> mutation_record list \<Rightarrow> (string \<times> string \<times> string) list option" where
  "fold_chains chs [] = Some chs"
| "fold_chains chs (r # rs) =
     (if mr_state r \<noteq> CLEANED then None
      else (case map_of chs (mr_path r) of
        None \<Rightarrow> fold_chains (AList.update (mr_path r) (mr_sourceFingerprint r, mr_targetFingerprint r) chs) rs
      | Some (source, target) \<Rightarrow>
          if mr_sourceFingerprint r \<noteq> target then None
          else fold_chains (AList.update (mr_path r) (source, mr_targetFingerprint r) chs) rs))"

definition fingerprintChainsFoldToIdentity :: "mutation_record list \<Rightarrow> bool" where
  "fingerprintChainsFoldToIdentity rs =
     (case fold_chains [] rs of
        None \<Rightarrow> False
      | Some chs \<Rightarrow> list_all (\<lambda>(path, source, target). target = source) chs)"

text \<open>\<open>hasDurablePack\<close> is the parameter \<open>packed\<close>.\<close>

definition isFullyCompensated ::
  "hash \<Rightarrow> (store \<Rightarrow> string \<Rightarrow> store_error + bool) \<Rightarrow> pending_journal \<Rightarrow>
   store \<Rightarrow> store \<Rightarrow> store \<Rightarrow> store \<Rightarrow> store \<Rightarrow> bool" where
  "isFullyCompensated H packed pending s1 s2 s3 s4 s5 =
     (let opId = str_of (fld (pj_descriptor pending) ''opId'') in
      case rbind (load H s1 opId) (\<lambda>current.
        if \<not> samePendingJournal current pending then Inr False
        else rbind (load_mutations H s2 opId) (\<lambda>records.
          rbind (if records = [] then rbind (packed s3 opId) (\<lambda>b. Inr (\<not> b))
                 else Inr (fingerprintChainsFoldToIdentity records)) (\<lambda>compensated.
          if \<not> compensated then Inr False
          else rbind (load H s4 opId) (\<lambda>verified.
            if \<not> samePendingJournal verified current then Inr False
            else rbind (load_mutations H s5 opId) (\<lambda>reloaded.
              Inr (length reloaded = length records \<and> fingerprintChainsFoldToIdentity reloaded)))))) of
        Inl e \<Rightarrow> False
      | Inr b \<Rightarrow> b)"

section \<open>A validated object is read back as it was\<close>

text \<open>Every check and every field of a value is the same for the value with its keys in order.\<close>

definition jval :: "jsval \<Rightarrow> bool" where
  "jval v \<longleftrightarrow> json_ok v \<or> v = JUndef"

lemma jval_ok [simp]: "json_ok v \<Longrightarrow> jval v"
  by (simp add: jval_def)

lemma jval_fld [simp]: "json_ok v \<Longrightarrow> jval (fld v k)"
proof (cases v)
  case (JObj ps)
  assume "json_ok v"
  then show ?thesis
    using JObj by (auto simp: jval_def fld_def props_def list_all_iff split: option.splits dest!: map_of_SomeD)
qed (auto simp: jval_def fld_def props_def)

lemma fld_normalise_jval: "jval v \<Longrightarrow> fld (normalise v) k = normalise (fld v k)"
  by (auto simp: jval_def fld_normalise) (simp add: fld_def props_def)

lemma normalise_eq [simp]:
  "normalise v = JNull \<longleftrightarrow> v = JNull" "normalise v = JUndef \<longleftrightarrow> v = JUndef"
  "normalise v = JStr s \<longleftrightarrow> v = JStr s" "normalise v = jint i \<longleftrightarrow> v = jint i" "normalise v = JArr [] \<longleftrightarrow> v = JArr []"
  by (cases v; simp add: jint_def)+

lemma normalise_tests [simp]:
  "is_string (normalise v) = is_string v" "str_of (normalise v) = str_of v" "opt_str_of (normalise v) = opt_str_of v"
  "int_of (normalise v) = int_of v" "is_array (normalise v) = is_array v"
  "arr_of (normalise v) = map normalise (arr_of v)" "is_record (normalise v) = is_record v"
  "is_positive_integer (normalise v) = is_positive_integer v" "named f xs (normalise v) = named f xs v"
  "the_named f xs (normalise v) = the_named f xs v"
  by (cases v; simp add: is_string_def str_of_def opt_str_of_def int_of_def is_array_def arr_of_def is_record_def
      is_positive_integer_def named_def the_named_def)+

lemma checksum_json_normalise: "json_ok v \<Longrightarrow> checksum_json H (normalise v) = checksum_json H v"
  by (simp add: checksum_json_def canonicalJson_normalise)

lemma scan_scope_paths_normalise: "scan_scope_paths p (map normalise xs) = scan_scope_paths p xs"
proof (induction xs arbitrary: p)
  case (Cons x xs)
  then show ?case by (cases x) (simp_all add: is_string_def str_of_def)
qed simp

lemma assertRecord_normalise: "assertRecord (normalise v) c = assertRecord v c"
  by (cases v) (simp_all add: assertRecord_def)

lemma assertSessionFileIdentity_normalise:
  "jval v \<Longrightarrow> assertSessionFileIdentity (normalise v) c = assertSessionFileIdentity v c"
  by (simp add: assertSessionFileIdentity_def fld_normalise_jval assertRecord_normalise assertChecksum_def)

lemma assertScopePaths_normalise:
  "jval v \<Longrightarrow> assertScopePaths H (normalise v) (normalise c) = assertScopePaths H v c"
proof -
  assume v: "jval v"
  show ?thesis
  proof (cases "v = JUndef")
    case True
    then show ?thesis by (simp add: assertScopePaths_def is_array_def guard_def)
  next
    case False
    then have "json_ok v" using v by (simp add: jval_def)
    then show ?thesis by (simp add: assertScopePaths_def scan_scope_paths_normalise checksum_json_normalise cong: option.case_cong)
  qed
qed

lemma own_checksum_normal:
  assumes "json_ok v"
  shows "assert_own_checksum H (normalise v) c = assert_own_checksum H v c"
proof -
  have "without k (normalise v) = normalise (without k v)" "json_ok (without k v)" for k
    using assms normalise_without json_ok_without
    by (cases v; simp add: without_def props_def; fail)+
  then show ?thesis
    using assms by (simp add: assert_own_checksum_def checksumWithout_def checksum_json_normalise fld_normalise)
qed

lemmas assert_normalise =
  assertRecord_normalise assertSessionFileIdentity_normalise assertScopePaths_normalise own_checksum_normal
  fld_normalise assertSchemaVersion_def assertOperationId_def assertNonEmptyString_def assertNullableString_def
  assertManifestId_def assertChecksum_def assertCoverage_def

lemma assertOperationDescriptor_normal:
  assumes "json_ok v" "assertOperationDescriptor H v = Inr v"
  shows "assertOperationDescriptor H (normalise v) = Inr (normalise v)"
  using assms unfolding assertOperationDescriptor_def by (simp add: assert_normalise)

lemma assertJournalState_normal:
  assumes "json_ok v" "assertJournalState H v = Inr v"
  shows "assertJournalState H (normalise v) = Inr (normalise v)"
  using assms unfolding assertJournalState_def isJournalPhase_def by (simp add: assert_normalise split: if_splits)

lemma isDenseStringArray_normal: "isDenseStringArray (normalise v) = isDenseStringArray v"
  by (simp add: isDenseStringArray_def list_all_iff)

lemma assertCursor_normal:
  assumes "json_ok v" "assertCursor H v = Inr v"
  shows "assertCursor H (normalise v) = Inr (normalise v)"
  using assms unfolding assertCursor_def assertCursorFields_def
  by (simp add: assert_normalise isDenseStringArray_normal)

lemma identity_of_normalise: "jval v \<Longrightarrow> identity_of (normalise v) = identity_of v"
  by (simp add: identity_of_def fld_normalise_jval)

lemma views_normalise:
  assumes "json_ok v"
  shows "descriptor_of (normalise v) = descriptor_of v" "journal_state_of (normalise v) = journal_state_of v"
    "cursor_of (normalise v) = cursor_of v"
  using assms
  by (simp_all add: descriptor_of_def journal_state_of_def cursor_of_def fld_normalise identity_of_normalise comp_def)

lemma isPlanForDescriptor_normalise:
  assumes "json_ok p" "json_ok d" "is_string (fld d ''planDigest'')"
  shows "isPlanForDescriptor (normalise p) (normalise d) = isPlanForDescriptor p d"
proof -
  obtain s where "fld d ''planDigest'' = JStr s" using assms(3) by (auto simp: is_string_ex)
  then show ?thesis using assms(1,2) by (simp add: isPlanForDescriptor_def fld_normalise)
qed

lemma canonicalJson_parsed:
  assumes "canonicalJson v = Some text" "json_ok v"
  shows "json_parse text = Some (normalise v)"
  using json_parse_canonicalJson [OF assms(2)] assms(1) by auto

section \<open>Writing one file of a transaction\<close>

lemma temp_name_fresh: "temp_name env name \<noteq> name"
proof
  assume "temp_name env name = name"
  then have "length (temp_name env name) = length name" by simp
  then show False by (simp add: temp_name_def)
qed

lemma temp_name_hidden: "temp_name env name \<noteq> n" if "hd n \<noteq> CHR ''.''"
  using that by (auto simp: temp_name_def)

lemma tx_dir_put: "tx_dir store opId = Inr d0 \<Longrightarrow> tx_dir (tx_put store opId d) opId = Inr d"
  by (auto simp: tx_dir_def tx_put_def tx_entry_of_def split: option.splits tx_entry.splits if_splits)

lemma tx_entry_put_other: "other \<noteq> opId \<Longrightarrow> tx_entry_of (tx_put store opId d) other = tx_entry_of store other"
  by (auto simp: tx_put_def tx_entry_of_def split: option.splits tx_entry.splits)

lemma tx_read_dir: "tx_dir store opId = Inr d \<Longrightarrow> tx_read store opId n = readFile d n"
  by (simp add: tx_read_def)

context publisher begin

lemma tx_write_cases:
  assumes "tx_write publish env opId name v store = (r, s', ss)" "x \<in> set (s' # ss)"
  shows "(tx_read x opId name = tx_read store opId name \<or> canonicalJson v \<noteq> None \<and> tx_read x opId name = Inr (the (canonicalJson v))) \<and>
    (\<forall>n. n \<noteq> name \<longrightarrow> hd n \<noteq> CHR ''.'' \<longrightarrow> tx_read x opId n = tx_read store opId n) \<and>
    (\<forall>other. other \<noteq> opId \<longrightarrow> tx_entry_of x other = tx_entry_of store other)"
proof (cases "canonicalJson v")
  case None
  then show ?thesis using assms by (simp add: tx_write_def)
next
  case (Some txt0)
  show ?thesis
  proof (cases "tx_dir store opId")
    case (Inl e)
    then show ?thesis using assms Some by (simp add: tx_write_def)
  next
    case (Inr d)
    obtain r1 d' ds where p: "publish (fe_faults env name) (temp_name env name) (fe_torn env) name txt0 d = (r1, d', ds)"
      by (metis prod_cases3)
    then have "s' = tx_put store opId d'" "ss = map (tx_put store opId) ds"
      using assms(1) Some Inr by (auto simp: tx_write_def)
    then obtain y where y: "y \<in> set (d' # ds)" "x = tx_put store opId y" using assms(2) by auto
    have b: "between (temp_name env name) name txt0 d y" by (rule passes [OF p temp_name_fresh y(1)])
    have x: "tx_read x opId n = readFile y n" "tx_read store opId n = readFile d n" for n
      using tx_read_dir [OF tx_dir_put [OF Inr]] tx_read_dir [OF Inr] y(2) by auto
    have "readFile y n = readFile d n" if "n \<noteq> name" "hd n \<noteq> CHR ''.''" for n
      using between_others [OF b _ that(1)] temp_name_hidden [OF that(2), of env name] by (simp add: readFile_def)
    then show ?thesis
      using between_reads [OF b] tx_entry_put_other Some unfolding x y(2) [symmetric] by (auto simp: y(2))
  qed
qed

lemma tx_write_done:
  assumes "tx_write publish env opId name v store = (Inr u, s', ss)"
  shows "canonicalJson v \<noteq> None" "tx_read s' opId name = Inr (the (canonicalJson v))"
proof -
  obtain txt0 d where c: "canonicalJson v = Some txt0" "tx_dir store opId = Inr d"
    using assms by (auto simp: tx_write_def split: option.splits sum.splits)
  obtain r1 d' ds where p: "publish (fe_faults env name) (temp_name env name) (fe_torn env) name txt0 d = (r1, d', ds)"
    by (metis prod_cases3)
  then have "r1 = Inr ()" "s' = tx_put store opId d'"
    using assms c by (auto simp: tx_write_def split: sum.splits)
  then show "canonicalJson v \<noteq> None" "tx_read s' opId name = Inr (the (canonicalJson v))"
    using published [OF _ temp_name_fresh] p c tx_read_dir [OF tx_dir_put [OF c(2)]] by auto
qed

end

lemmas write_addressed_cases = addressed.tx_write_cases [where ?win32.0 = "fe_win32 env" and mode = None and env = env for env, folded write_addressed_def]
lemmas write_addressed_done = addressed.tx_write_done [where ?win32.0 = "fe_win32 env" and mode = None and env = env for env, folded write_addressed_def]
lemmas write_atomic_cases = atomic.tx_write_cases [where ?win32.0 = "fe_win32 env" and mode = None and env = env for env, folded write_atomic_def]
lemmas write_atomic_done = atomic.tx_write_done [where ?win32.0 = "fe_win32 env" and mode = None and env = env for env, folded write_atomic_def]

section \<open>The three files and what they load as\<close>

definition control_names :: "string list" where
  "control_names = [''descriptor.json'', ''restore-plan.json'', ''state.json'']"

text \<open>A transaction is loaded from its three files alone.\<close>

lemma load_cong:
  assumes "\<And>n. n \<in> set control_names \<Longrightarrow> tx_read s opId n = tx_read s' opId n"
  shows "load H s opId = load H s' opId"
  using assms by (simp add: load_def read_text_def control_names_def)

lemma read_text_Inr: "read_text store opId n = Inr t \<longleftrightarrow> tx_read store opId n = Inr t"
  by (auto simp: read_text_def split: sum.splits)

lemma parse_text_Inr: "parse_text t = Inr v \<longleftrightarrow> json_parse t = Some v"
  by (auto simp: parse_text_def split: option.splits)

lemma validated_Inr: "validated r = Inr v \<longleftrightarrow> r = Inr v"
  by (auto simp: validated_def split: sum.splits)

lemma loadE:
  assumes "load H store opId = Inr p"
  obtains dt pt st d0 s0 where
    "tx_read store opId ''descriptor.json'' = Inr dt" "json_parse dt = Some (pj_descriptor p)"
    "tx_read store opId ''restore-plan.json'' = Inr pt" "json_parse pt = Some (pj_plan p)"
    "tx_read store opId ''state.json'' = Inr st" "json_parse st = Some (pj_state p)"
    "assertOperationDescriptor H (pj_descriptor p) = Inr (pj_descriptor p)"
    "assertJournalState H (pj_state p) = Inr (pj_state p)"
    "fld (pj_descriptor p) ''opId'' = JStr opId" "fld (pj_state p) ''opId'' = JStr opId"
    "fld (pj_state p) ''descriptorChecksum'' = fld (pj_descriptor p) ''checksum''"
    "isPlanForDescriptor (pj_plan p) (pj_descriptor p)" "operationDirectory_ok opId"
  using assms
  apply (clarsimp simp: load_def read_text_Inr parse_text_Inr validated_Inr)
  apply (frule validators_return_argument(2))
  apply (frule validators_return_argument(3))
  apply simp
  done

lemma loadI:
  assumes "operationDirectory_ok opId"
    "tx_read store opId ''descriptor.json'' = Inr dt" "json_parse dt = Some d"
    "tx_read store opId ''restore-plan.json'' = Inr pt" "json_parse pt = Some plan"
    "tx_read store opId ''state.json'' = Inr st" "json_parse st = Some s"
    "assertOperationDescriptor H d = Inr d" "assertJournalState H s = Inr s"
    "fld d ''opId'' = JStr opId" "fld s ''opId'' = JStr opId" "fld s ''descriptorChecksum'' = fld d ''checksum''"
    "isPlanForDescriptor plan d"
  shows "load H store opId = Inr \<lparr>pj_descriptor = d, pj_plan = plan, pj_state = s\<rparr>"
  using assms by (simp add: load_def read_text_def parse_text_def validated_def)

section \<open>Writing the state\<close>

lemma descriptor_raw:
  assumes "assertOperationDescriptor H v = Inr w"
  shows "fld v ''opId'' = JStr (od_opId (descriptor_of v))" "op_id_ok (od_opId (descriptor_of v))"
    "fld v ''checksum'' = JStr (od_checksum (descriptor_of v))" "is_checksum (od_checksum (descriptor_of v))"
    "is_string (fld v ''planDigest'')"
  using assms
  by (auto simp: assertOperationDescriptor_def descriptor_of_def assertOperationId_def assertNonEmptyString_def
      assertChecksum_def is_string_ex op_id_ok_def)

lemma makeState_fields [simp]:
  "js_opId (makeState H d ph rv obs) = od_opId d" "js_phase (makeState H d ph rv obs) = ph"
  "js_revision (makeState H d ph rv obs) = rv" "js_descriptorChecksum (makeState H d ph rv obs) = od_checksum d"
  "js_observedLogicalLeaf (makeState H d ph rv obs) = obs"
  by (simp_all add: makeState_def Let_def)

lemma makeState_valid:
  assumes "digest H" "op_id_ok (od_opId d)" "is_checksum (od_checksum d)" "1 \<le> rv" "obs \<noteq> Some (Some [])"
  shows "assertJournalState H (json_of_journal_state (makeState H d ph rv obs)) =
    Inr (json_of_journal_state (makeState H d ph rv obs))"
proof -
  let ?s = "makeState H d ph rv obs"
  have c: "js_checksum ?s = content_checksum H (journal_state_content ?s)"
    by (simp add: makeState_def Let_def journal_state_content_def)
  have ok: "json_ok (JObj (journal_state_content ?s))"
    using json_ok_journal_state [of ?s] by (simp add: json_of_journal_state_def)
  have "is_checksum (js_checksum ?s)" unfolding c by (rule content_checksum_hex [OF assms(1) ok])
  then have "journal_state_fields_ok ?s"
    using assms by (simp add: journal_state_fields_ok_def)
  then show ?thesis
    using content_checksum_json [OF ok] by (simp add: journal_state_valid_iff c)
qed

lemma state_fields:
  "fld (normalise (json_of_journal_state s)) ''opId'' = JStr (js_opId s)"
  "fld (normalise (json_of_journal_state s)) ''descriptorChecksum'' = JStr (js_descriptorChecksum s)"
  by (simp_all add: fld_normalise) (simp_all add: json_of_journal_state_def journal_state_content_def)

definition with_state :: "pending_journal \<Rightarrow> journal_state \<Rightarrow> pending_journal" where
  "with_state p s = p\<lparr>pj_state := normalise (json_of_journal_state s)\<rparr>"

lemma with_state_simps [simp]:
  "pj_descriptor (with_state p s) = pj_descriptor p" "pj_plan (with_state p s) = pj_plan p"
  "pj_phase (with_state p s) = js_phase s" "pj_revision (with_state p s) = js_revision s"
  "pj_observed (with_state p s) = js_observedLogicalLeaf s"
  by (simp_all add: with_state_def pj_phase_def pj_revision_def pj_observed_def views_normalise)

lemma canonicalJson_state: "\<exists>t. canonicalJson (json_of_journal_state s) = Some t \<and>
    json_parse t = Some (normalise (json_of_journal_state s))"
  by (rule json_parse_canonicalJson) simp

lemma write_state:
  assumes p: "load H store opId = Inr p" and H: "digest H"
    and s: "s = makeState H (descriptor_of (pj_descriptor p)) ph rv obs" "1 \<le> rv" "obs \<noteq> Some (Some [])"
    and w: "write_atomic env opId ''state.json'' (json_of_journal_state s) store = (r, s', ss)"
  shows "x \<in> set (s' # ss) \<Longrightarrow> load H x opId = Inr p \<or> load H x opId = Inr (with_state p s)"
    and "r = Inr () \<Longrightarrow> load H s' opId = Inr (with_state p s)"
proof -
  let ?v = "json_of_journal_state s"
  obtain t where t: "canonicalJson ?v = Some t" "json_parse t = Some (normalise ?v)"
    using canonicalJson_state by blast
  note d = loadE [OF p]
  have new: "load H x opId = Inr (with_state p s)"
    if "tx_read x opId ''state.json'' = Inr t"
      "\<And>n. n \<noteq> ''state.json'' \<Longrightarrow> hd n \<noteq> CHR ''.'' \<Longrightarrow> tx_read x opId n = tx_read store opId n" for x
  proof (rule d)
    fix dt pt st
    assume a: "tx_read store opId ''descriptor.json'' = Inr dt" "json_parse dt = Some (pj_descriptor p)"
      "tx_read store opId ''restore-plan.json'' = Inr pt" "json_parse pt = Some (pj_plan p)"
      "assertOperationDescriptor H (pj_descriptor p) = Inr (pj_descriptor p)"
      "fld (pj_descriptor p) ''opId'' = JStr opId" "isPlanForDescriptor (pj_plan p) (pj_descriptor p)"
      "operationDirectory_ok opId"
    note f = descriptor_raw [OF a(5)]
    have "assertJournalState H ?v = Inr ?v"
      unfolding s(1) by (rule makeState_valid [OF H f(2,4) s(2,3)])
    then have "assertJournalState H (normalise ?v) = Inr (normalise ?v)"
      by (intro assertJournalState_normal) simp_all
    then have "load H x opId = Inr \<lparr>pj_descriptor = pj_descriptor p, pj_plan = pj_plan p, pj_state = normalise ?v\<rparr>"
      using a that f s(1) t(2) by (intro loadI) (simp_all add: state_fields)
    then show ?thesis by (simp add: with_state_def)
  qed
  show "load H x opId = Inr p \<or> load H x opId = Inr (with_state p s)" if x: "x \<in> set (s' # ss)"
  proof -
    have o: "tx_read x opId n = tx_read store opId n" if "n \<noteq> ''state.json''" "hd n \<noteq> CHR ''.''" for n
      using write_atomic_cases [OF w x] that by blast
    have "tx_read x opId ''state.json'' = tx_read store opId ''state.json'' \<or> tx_read x opId ''state.json'' = Inr t"
      using write_atomic_cases [OF w x] t(1) by simp
    then show ?thesis
    proof
      assume "tx_read x opId ''state.json'' = tx_read store opId ''state.json''"
      then have "load H x opId = load H store opId"
        using o by (intro load_cong) (auto simp: control_names_def)
      then show ?thesis using p by simp
    next
      assume "tx_read x opId ''state.json'' = Inr t"
      then show ?thesis using new o by blast
    qed
  qed
  show "load H s' opId = Inr (with_state p s)" if "r = Inr ()"
  proof (rule new)
    show "tx_read s' opId ''state.json'' = Inr t"
      using write_atomic_done(2) w that t(1) by fastforce
    show "tx_read s' opId n = tx_read store opId n" if "n \<noteq> ''state.json''" "hd n \<noteq> CHR ''.''" for n
      using write_atomic_cases [OF w, of s'] that by simp
  qed
qed

section \<open>The operations on a loaded transaction\<close>

lemma revision_positive: "load H store opId = Inr p \<Longrightarrow> 1 \<le> pj_revision p"
  by (erule loadE)
    (auto simp: assertJournalState_def is_positive_integer_def pj_revision_def journal_state_of_def
      split: jsval.splits jnum.splits)

lemma observed_ok: "load H store opId = Inr p \<Longrightarrow> pj_observed p \<noteq> Some (Some [])"
  by (erule loadE)
    (auto simp: assertJournalState_def assertNullableString_def pj_observed_def journal_state_of_def opt_str_of_def
      is_string_ex split: jsval.splits if_splits)

text \<open>A path of legal phase changes, with the leaf observed last.\<close>

fun phase_path :: "journal_phase \<Rightarrow> journal_phase list \<Rightarrow> bool" where
  "phase_path p [] \<longleftrightarrow> True"
| "phase_path p (q # qs) \<longleftrightarrow> canTransition p q \<and> phase_path q qs"

definition last_observed :: "string option option \<Rightarrow> (journal_phase \<times> string option option) list \<Rightarrow> string option option" where
  "last_observed observed ts = foldl (\<lambda>o1 t. if snd t \<noteq> None then snd t else o1) observed ts"

lemma fold_transitions_Inr:
  "fold_transitions phase observed ts = Inr (ph, ob) \<longleftrightarrow>
   phase_path phase (map fst ts) \<and> ph = last (phase # map fst ts) \<and> ob = last_observed observed ts"
proof (induction ts arbitrary: phase observed)
  case Nil
  then show ?case by (auto simp: last_observed_def)
next
  case (Cons t ts)
  obtain nxt obs where t: "t = (nxt, obs)" by (cases t)
  show ?case by (auto simp: t Cons.IH last_observed_def)
qed

lemma last_observed_ok:
  "observed \<noteq> Some (Some []) \<Longrightarrow> \<forall>t \<in> set ts. snd t \<noteq> Some (Some []) \<Longrightarrow> last_observed observed ts \<noteq> Some (Some [])"
  unfolding last_observed_def by (induction ts arbitrary: observed) auto

definition state_after :: "hash \<Rightarrow> pending_journal \<Rightarrow> (journal_phase \<times> string option option) list \<Rightarrow> journal_state" where
  "state_after H p ts = makeState H (descriptor_of (pj_descriptor p)) (last (pj_phase p # map fst ts))
     (pj_revision p + int (length ts)) (last_observed (pj_observed p) ts)"

lemma setPhases_legal:
  assumes "load H store opId = Inr p"
  shows "setPhases H env opId ts store =
    (if ts = [] then (Inl JS_empty_group, store, [])
     else if phase_path (pj_phase p) (map fst ts)
     then write_atomic env opId ''state.json'' (json_of_journal_state (state_after H p ts)) store
     else (fst (setPhases H env opId ts store), store, []))"
proof (cases "fold_transitions (pj_phase p) (pj_observed p) ts")
  case (Inl e)
  then have "\<not> phase_path (pj_phase p) (map fst ts)"
    using fold_transitions_Inr [of "pj_phase p" "pj_observed p" ts "last (pj_phase p # map fst ts)" "last_observed (pj_observed p) ts"]
    by auto
  then show ?thesis using assms Inl by (simp add: setPhases_def)
next
  case (Inr x)
  obtain ph ob where x: "x = (ph, ob)" by (cases x)
  then show ?thesis
    using assms Inr fold_transitions_Inr [of "pj_phase p" "pj_observed p" ts ph ob]
    by (auto simp: setPhases_def state_after_def)
qed

lemma setPhases_illegal: "load H store opId = Inr p \<Longrightarrow> \<not> phase_path (pj_phase p) (map fst ts) \<Longrightarrow>
  setPhases H env opId ts store = (r, s', ss) \<Longrightarrow> s' = store \<and> ss = [] \<and> r \<noteq> Inr ()"
proof -
  assume a: "load H store opId = Inr p" "\<not> phase_path (pj_phase p) (map fst ts)"
    "setPhases H env opId ts store = (r, s', ss)"
  then obtain e where "fold_transitions (pj_phase p) (pj_observed p) ts = Inl e"
    using fold_transitions_Inr by (metis obj_sumE surj_pair)
  then show ?thesis using a(1,3) by (auto simp: setPhases_def split: if_splits)
qed

section \<open>Preparing\<close>

lemma op_name_hidden [simp]: "hd ''descriptor.json'' \<noteq> CHR ''.''" "hd ''restore-plan.json'' \<noteq> CHR ''.''"
  "hd ''state.json'' \<noteq> CHR ''.''" "hd ''mutations.jsonl'' \<noteq> CHR ''.''"
  by simp_all

lemma and_then_Inr: "and_then m f = (Inr u, s', ss) \<longleftrightarrow>
    (\<exists>s ss1 ss2. m = (Inr (), s, ss1) \<and> f s = (Inr u, s', ss2) \<and> ss = ss1 @ ss2)"
  by (auto simp: and_then_def split: prod.splits sum.splits)

lemma prepare_load:
  assumes "prepare H env d plan store = (Inr (), s', ss)" "digest H" "json_ok d" "json_ok plan"
    and op: "opId = str_of (fld d ''opId'')" and fresh: "tx_read store opId ''state.json'' = Inl ''ENOENT''"
  shows "load H s' opId = Inr (with_state \<lparr>pj_descriptor = normalise d, pj_plan = normalise plan, pj_state = JNull\<rparr>
    (makeState H (descriptor_of d) PREPARED 1 None))"
proof -
  have v: "assertOperationDescriptor H d = Inr d" "isPlanForDescriptor plan d" "operationDirectory_ok opId"
    using assms(1) validators_return_argument(2)
    by (auto simp: prepare_def validated_Inr op split: sum.splits)
  obtain s1 s2 ss1 ss2 ss3 where
    w1: "write_addressed env opId ''descriptor.json'' d store = (Inr (), s1, ss1)" and
    w2: "write_addressed env opId ''restore-plan.json'' plan s1 = (Inr (), s2, ss2)" and
    w3: "(case tx_read s2 opId ''state.json'' of
             Inl e \<Rightarrow>
               if e \<noteq> ''ENOENT'' then (Inl (JS_fs e), s2, [])
               else write_atomic env opId ''state.json''
                      (json_of_journal_state (makeState H (descriptor_of d) PREPARED 1 None)) s2
           | Inr t \<Rightarrow>
               (rbind (parse_text t) (\<lambda>s0.
                rbind (validated (assertJournalState H s0)) (\<lambda>s.
                guard (fld s ''opId'' = fld d ''opId'' \<and> fld s ''descriptorChecksum'' = fld d ''checksum'')
                  JS_state_mismatch)), s2, [])) = (Inr (), s', ss3)"
    using assms(1) v unfolding prepare_def op
    by (auto simp: validated_def and_then_Inr Let_def)
  note c1 = write_addressed_cases [OF w1, of s1, simplified]
  note c2 = write_addressed_cases [OF w2, of s2, simplified]
  let ?st = "makeState H (descriptor_of d) PREPARED 1 None"
  have "tx_read s2 opId ''state.json'' = Inl ''ENOENT''"
    using c1 c2 fresh by auto
  then have w: "write_atomic env opId ''state.json'' (json_of_journal_state ?st) s2 = (Inr (), s', ss3)"
    using w3 by simp
  note c3 = write_atomic_cases [OF w, of s', simplified]
  obtain dt where dt: "canonicalJson d = Some dt" "tx_read s1 opId ''descriptor.json'' = Inr dt"
    using write_addressed_done [OF w1] by auto
  obtain pt where pt: "canonicalJson plan = Some pt" "tx_read s2 opId ''restore-plan.json'' = Inr pt"
    using write_addressed_done [OF w2] by auto
  obtain t where t: "canonicalJson (json_of_journal_state ?st) = Some t" "tx_read s' opId ''state.json'' = Inr t"
    "json_parse t = Some (normalise (json_of_journal_state ?st))"
    using write_atomic_done [OF w] canonicalJson_state [of ?st] by auto
  note f = descriptor_raw [OF v(1)]
  have s: "assertJournalState H (normalise (json_of_journal_state ?st)) = Inr (normalise (json_of_journal_state ?st))"
    using makeState_valid [OF assms(2) f(2,4)] by (intro assertJournalState_normal) simp_all
  have "load H s' opId = Inr \<lparr>pj_descriptor = normalise d, pj_plan = normalise plan,
      pj_state = normalise (json_of_journal_state ?st)\<rparr>"
  proof (rule loadI)
    show "tx_read s' opId ''descriptor.json'' = Inr dt" "tx_read s' opId ''restore-plan.json'' = Inr pt"
      using dt pt c2 c3 by auto
    show "json_parse dt = Some (normalise d)" "json_parse pt = Some (normalise plan)"
      using canonicalJson_parsed dt pt assms(3,4) by auto
    show "assertOperationDescriptor H (normalise d) = Inr (normalise d)"
      by (rule assertOperationDescriptor_normal [OF assms(3) v(1)])
    show "isPlanForDescriptor (normalise plan) (normalise d)"
      using isPlanForDescriptor_normalise [OF assms(4,3) f(5)] v(2) by simp
    show "fld (normalise d) ''opId'' = JStr opId"
      "fld (normalise (json_of_journal_state ?st)) ''opId'' = JStr opId"
      "fld (normalise (json_of_journal_state ?st)) ''descriptorChecksum'' = fld (normalise d) ''checksum''"
      using f op assms(3) by (simp_all add: state_fields fld_normalise)
  qed (use v t s in simp_all)
  then show ?thesis by (simp add: with_state_def)
qed

section \<open>Cursor markers\<close>

text \<open>The markers of the operation among the lines of a session file.\<close>

definition markers :: "hash \<Rightarrow> operation_descriptor \<Rightarrow> string option \<Rightarrow> string list \<Rightarrow> marker list" where
  "markers H d expected lines = filter (\<lambda>m. m \<noteq> NoMarker) (map (read_marker H d expected) lines)"

lemma markers_simps [simp]:
  "markers H d expected [] = []"
  "markers H d expected (l # ls) =
    (if read_marker H d expected l = NoMarker then markers H d expected ls
     else read_marker H d expected l # markers H d expected ls)"
  by (simp_all add: markers_def)

lemma scan_markers_absent:
  "scan_markers H d expected newline matched needs lines = MarkerAbsent \<longleftrightarrow>
   matched = None \<and> markers H d expected lines = []"
  by (induction H d expected newline matched needs lines rule: scan_markers.induct)
    (auto split: option.splits marker.splits)

lemma scan_markers_match:
  "(\<exists>n. scan_markers H d expected newline matched needs lines = MarkerMatch n) \<longleftrightarrow>
   (\<exists>t. (matched \<noteq> None \<or> markers H d expected lines \<noteq> []) \<and> (matched = None \<or> matched = Some t) \<and>
      set (markers H d expected lines) \<subseteq> {Marker t})"
proof (induction H d expected newline matched needs lines rule: scan_markers.induct)
  case (1 H d expected newline matched needs)
  then show ?case by (auto split: option.splits)
next
  case (2 H d expected newline matched needs line lines)
  show ?case
  proof (cases "read_marker H d expected line")
    case NoMarker
    then show ?thesis using 2(1) by simp
  next
    case BadMarker
    then show ?thesis by simp
  next
    case (Marker t)
    show ?thesis
    proof (cases "matched \<noteq> None \<and> matched \<noteq> Some t")
      case True
      then show ?thesis using Marker by auto
    next
      case False
      then show ?thesis using 2(2) [OF Marker False] Marker by auto
    qed
  qed
qed

lemma scan_markers_needs:
  "newline \<Longrightarrow> scan_markers H d expected newline matched False lines \<noteq> MarkerMatch True"
  by (induction H d expected newline matched False lines rule: scan_markers.induct)
    (auto split: option.splits marker.splits)

text \<open>A marker that needs a newline is the last line.\<close>

lemma scan_markers_needs_last:
  "scan_markers H d expected newline matched needs lines = MarkerMatch True \<Longrightarrow>
   needs \<and> markers H d expected lines = [] \<or> \<not> newline \<and> (\<exists>t. read_marker H d expected (last lines) = Marker t) \<and> lines \<noteq> []"
proof (induction H d expected newline matched needs lines rule: scan_markers.induct)
  case (1 H d expected newline matched needs)
  then show ?case by (auto split: option.splits)
next
  case (2 H d expected newline matched needs line lines)
  show ?case
  proof (cases "read_marker H d expected line")
    case NoMarker
    then show ?thesis using 2 by auto
  next
    case BadMarker
    then show ?thesis using 2 by simp
  next
    case (Marker t)
    have f: "\<not> (matched \<noteq> None \<and> matched \<noteq> Some t)" using 2(3) Marker by (auto split: if_splits)
    then have "scan_markers H d expected newline (Some t) (lines = [] \<and> \<not> newline) lines = MarkerMatch True"
      using 2(3) Marker by (auto split: if_splits)
    from 2(2) [OF Marker f this] show ?thesis using Marker by auto
  qed
qed

lemma blank_no_marker: "read_marker H d expected [] = NoMarker"
  by (simp add: read_marker_def blank_def)

lemma split_on_end: "split_on NL (s @ [NL]) = split_on NL s @ [[]]"
  by (simp add: split_on_append)

lemma ends_with_newline: "ends_with [NL] (s @ [NL])"
  by (simp add: ends_with_def starts_with_def)

section \<open>Compensated chains\<close>

text \<open>What a mutation does to the fingerprints of the paths, if its source is there.\<close>

definition replay_mutation :: "(string \<Rightarrow> string) \<Rightarrow> mutation_record \<Rightarrow> (string \<Rightarrow> string) option" where
  "replay_mutation fs r =
     (if fs (mr_path r) = mr_sourceFingerprint r then Some (fs(mr_path r := mr_targetFingerprint r)) else None)"

fun replay_mutations :: "(string \<Rightarrow> string) \<Rightarrow> mutation_record list \<Rightarrow> (string \<Rightarrow> string) option" where
  "replay_mutations fs [] = Some fs"
| "replay_mutations fs (r # rs) =
     (case replay_mutation fs r of None \<Rightarrow> None | Some fs' \<Rightarrow> replay_mutations fs' rs)"

text \<open>The chains describe how the current fingerprints came from the first ones.\<close>

definition chains_fit :: "(string \<times> string \<times> string) list \<Rightarrow> (string \<Rightarrow> string) \<Rightarrow> (string \<Rightarrow> string) \<Rightarrow> bool" where
  "chains_fit chs fs0 fs \<longleftrightarrow>
     (\<forall>p. (map_of chs p = None \<longrightarrow> fs p = fs0 p) \<and> (\<forall>s t. map_of chs p = Some (s, t) \<longrightarrow> fs0 p = s \<and> fs p = t))"

lemma chains_fit_update:
  assumes "chains_fit chs fs0 fs" "map_of chs p = Some (s, t)"
  shows "fs p = t" "chains_fit (AList.update p (s, t') chs) fs0 (fs(p := t'))"
  using assms unfolding chains_fit_def by auto

lemma chains_fit_insert:
  assumes "chains_fit chs fs0 fs" "map_of chs p = None"
  shows "fs p = fs0 p" "chains_fit (AList.update p (fs p, t') chs) fs0 (fs(p := t'))"
  using assms unfolding chains_fit_def by auto

lemma fold_chains_keeps:
  "fold_chains chs rs = Some chs' \<Longrightarrow> map_of chs p = Some (s, t) \<Longrightarrow> \<exists>t'. map_of chs' p = Some (s, t')"
proof (induction chs rs arbitrary: t rule: fold_chains.induct)
  case (2 chs r rs)
  show ?case
  proof (cases "map_of chs (mr_path r)")
    case None
    then have "p \<noteq> mr_path r" using 2(4) by auto
    then show ?thesis using 2(1) [OF _ None, of t] 2(3,4) None by (auto split: if_splits)
  next
    case (Some st)
    obtain s0 t0 where st: "st = (s0, t0)" by (cases st)
    show ?thesis
      using 2(2) [OF _ Some [unfolded st] refl, of "if p = mr_path r then mr_targetFingerprint r else t"] 2(3,4) Some st
      by (cases "p = mr_path r") (auto split: if_splits)
  qed
qed auto

text \<open>If the first fingerprints are the sources of the chains, replaying the records ends at their targets.\<close>

lemma fold_chains_replay:
  assumes "fold_chains chs rs = Some chs'" "chains_fit chs fs0 fs"
    and "\<forall>p s t. map_of chs' p = Some (s, t) \<longrightarrow> fs0 p = s"
  shows "\<exists>fs'. replay_mutations fs rs = Some fs' \<and> chains_fit chs' fs0 fs'"
  using assms
proof (induction chs rs arbitrary: fs rule: fold_chains.induct)
  case (1 chs)
  then show ?case by auto
next
  case (2 chs r rs)
  have c: "mr_state r = CLEANED" using 2(3) by (auto split: if_splits)
  show ?case
  proof (cases "map_of chs (mr_path r)")
    case None
    let ?chs = "AList.update (mr_path r) (mr_sourceFingerprint r, mr_targetFingerprint r) chs"
    have f: "fold_chains ?chs rs = Some chs'" using 2(3) c None by simp
    obtain t' where "map_of chs' (mr_path r) = Some (mr_sourceFingerprint r, t')"
      using fold_chains_keeps [OF f, of "mr_path r" "mr_sourceFingerprint r"] by auto
    then have "fs0 (mr_path r) = mr_sourceFingerprint r" using 2(5) by blast
    then have s: "fs (mr_path r) = mr_sourceFingerprint r" using chains_fit_insert(1) [OF 2(4) None] by simp
    have "chains_fit ?chs fs0 (fs(mr_path r := mr_targetFingerprint r))"
      using chains_fit_insert(2) [OF 2(4) None] s by simp
    from 2(1) [OF _ None f this 2(5)] show ?thesis
      using s c by (simp add: replay_mutation_def fun_upd_def)
  next
    case (Some st)
    obtain s t where st: "st = (s, t)" by (cases st)
    have e: "mr_sourceFingerprint r = t" using 2(3) c Some st by (auto split: if_splits)
    then have f: "fold_chains (AList.update (mr_path r) (s, mr_targetFingerprint r) chs) rs = Some chs'"
      using 2(3) c Some st by simp
    have fit: "chains_fit (AList.update (mr_path r) (s, mr_targetFingerprint r) chs) fs0
        (fs(mr_path r := mr_targetFingerprint r))" and "fs (mr_path r) = t"
      using chains_fit_update [OF 2(4) Some [unfolded st]] by auto
    with 2(2) [OF _ Some [unfolded st] refl _ f fit 2(5)] c e
    show ?thesis by (simp add: replay_mutation_def fun_upd_def)
  qed
qed

text \<open>If the records can be replayed, the chains fit.\<close>

lemma replay_fold_chains:
  assumes "replay_mutations fs rs = Some fs'" "chains_fit chs fs0 fs" "\<forall>r \<in> set rs. mr_state r = CLEANED"
  shows "\<exists>chs'. fold_chains chs rs = Some chs' \<and> chains_fit chs' fs0 fs' \<and>
    set (map fst chs') = set (map fst chs) \<union> mr_path ` set rs"
  using assms
proof (induction chs rs arbitrary: fs rule: fold_chains.induct)
  case (1 chs)
  then show ?case by simp
next
  case (2 chs r rs)
  have c: "mr_state r = CLEANED" using 2(5) by simp
  have s: "fs (mr_path r) = mr_sourceFingerprint r"
    "replay_mutations (fs(mr_path r := mr_targetFingerprint r)) rs = Some fs'"
    using 2(3) by (auto simp: replay_mutation_def split: if_splits)
  show ?case
  proof (cases "map_of chs (mr_path r)")
    case None
    have "chains_fit (AList.update (mr_path r) (mr_sourceFingerprint r, mr_targetFingerprint r) chs) fs0
        (fs(mr_path r := mr_targetFingerprint r))"
      using chains_fit_insert(2) [OF 2(4) None] s by simp
    from 2(1) [OF _ None s(2) this] 2(5) show ?thesis
      using c None by (auto simp: dom_update)
  next
    case (Some st)
    obtain s0 t where st: "st = (s0, t)" by (cases st)
    have fit: "chains_fit (AList.update (mr_path r) (s0, mr_targetFingerprint r) chs) fs0
        (fs(mr_path r := mr_targetFingerprint r))" and "fs (mr_path r) = t"
      using chains_fit_update [OF 2(4) Some [unfolded st]] by auto
    then have e: "mr_sourceFingerprint r = t" using s by simp
    from 2(2) [OF _ Some [unfolded st] refl _ s(2) fit] 2(5) c e Some st show ?thesis
      by (auto simp: dom_update)
  qed
qed

section \<open>Properties\<close>


text \<open>C14 (set_phases): Changing the phase of a transaction is atomic and legal: at every moment, in spite of faults and
  crashes, the transaction loads either as before or with the last phase requested and a revision
  raised by the number of steps, the latter only if every step is allowed, and always if the call
  succeeds; the other transactions are not touched.\<close>

theorem set_phases:
  assumes "setPhases H env opId ts store = (r, s', ss)" "load H store opId = Inr p" "digest H"
    and "\<forall>t \<in> set ts. snd t \<noteq> Some (Some [])"
  shows "\<exists>p'. pj_descriptor p' = pj_descriptor p \<and> pj_plan p' = pj_plan p \<and>
      pj_phase p' = last (pj_phase p # map fst ts) \<and> pj_revision p' = pj_revision p + int (length ts) \<and>
    (\<forall>x \<in> set (s' # ss).
      (load H x opId = Inr p \<or> phase_path (pj_phase p) (map fst ts) \<and> load H x opId = Inr p') \<and>
      (\<forall>other. other \<noteq> opId \<longrightarrow> tx_entry_of x other = tx_entry_of store other)) \<and>
    (r = Inr () \<longrightarrow> phase_path (pj_phase p) (map fst ts) \<and> load H s' opId = Inr p')"
proof -
  let ?s = "state_after H p ts"
  have s: "1 \<le> pj_revision p + int (length ts)" "last_observed (pj_observed p) ts \<noteq> Some (Some [])"
    using revision_positive [OF assms(2)] last_observed_ok [OF observed_ok [OF assms(2)] assms(4)] by auto
  show ?thesis
  proof (cases "ts \<noteq> [] \<and> phase_path (pj_phase p) (map fst ts)")
    case True
    then have w: "write_atomic env opId ''state.json'' (json_of_journal_state ?s) store = (r, s', ss)"
      using assms(1) setPhases_legal [OF assms(2), of env ts] by simp
    show ?thesis
      using True write_state [OF assms(2,3) state_after_def s w] write_atomic_cases [OF w]
      by (intro exI [of _ "with_state p ?s"]) (auto simp: state_after_def)
  next
    case False
    then have "s' = store \<and> ss = [] \<and> r \<noteq> Inr ()"
      using assms(1) setPhases_illegal [OF assms(2) _ assms(1)] by (cases "ts = []") (auto simp: setPhases_def)
    then show ?thesis
      using assms(2) by (intro exI [of _ "with_state p ?s"]) (simp add: state_after_def)
  qed
qed


lemma transition_back:
  "canTransition p q \<Longrightarrow> q = COMMITTED \<Longrightarrow> p = CURSOR_COMMITTED"
  "canTransition p q \<Longrightarrow> q = CURSOR_COMMITTED \<Longrightarrow> p = FILES_VERIFIED"
  "canTransition p q \<Longrightarrow> q = FILES_VERIFIED \<Longrightarrow> p = APPLYING"
  "canTransition p q \<Longrightarrow> q = APPLYING \<Longrightarrow> p = SESSION_MOVED"
  "canTransition p q \<Longrightarrow> q = SESSION_MOVED \<Longrightarrow> p = PREPARED"
  by (cases p; simp add: canTransition_def phase_order_def)+


lemma phase_path_snoc: "phase_path p (qs @ [q]) \<longleftrightarrow> phase_path p qs \<and> canTransition (last (p # qs)) q"
  by (induction qs arbitrary: p) auto

lemma path_back:
  assumes "phase_path PREPARED qs" "last (PREPARED # qs) = q" "q \<noteq> PREPARED" "\<And>p. canTransition p q \<Longrightarrow> p = p0"
  obtains qs' where "qs = qs' @ [q]" "phase_path PREPARED qs'" "last (PREPARED # qs') = p0"
proof (cases qs rule: rev_cases)
  case Nil
  then show ?thesis using assms by simp
next
  case (snoc qs' x)
  then show ?thesis using assms that by (auto simp: phase_path_snoc)
qed

text \<open>A path of legal phase changes that reaches COMMITTED from PREPARED went, at its end, through moving the
  session, applying, verifying the files and committing the cursor, in this order and without detour.\<close>

theorem commit_path:
  assumes "phase_path PREPARED qs" "last (PREPARED # qs) = COMMITTED"
  shows "suffix [SESSION_MOVED, APPLYING, FILES_VERIFIED, CURSOR_COMMITTED, COMMITTED] qs"
proof -
  obtain q1 where 1: "qs = q1 @ [COMMITTED]" "phase_path PREPARED q1" "last (PREPARED # q1) = CURSOR_COMMITTED"
    using path_back [OF assms _ transition_back(1) [OF _ refl]] by auto
  obtain q2 where 2: "q1 = q2 @ [CURSOR_COMMITTED]" "phase_path PREPARED q2" "last (PREPARED # q2) = FILES_VERIFIED"
    using path_back [OF 1(2,3) _ transition_back(2) [OF _ refl]] by auto
  obtain q3 where 3: "q2 = q3 @ [FILES_VERIFIED]" "phase_path PREPARED q3" "last (PREPARED # q3) = APPLYING"
    using path_back [OF 2(2,3) _ transition_back(3) [OF _ refl]] by auto
  obtain q4 where 4: "q3 = q4 @ [APPLYING]" "phase_path PREPARED q4" "last (PREPARED # q4) = SESSION_MOVED"
    using path_back [OF 3(2,3) _ transition_back(4) [OF _ refl]] by auto
  obtain q5 where 5: "q4 = q5 @ [SESSION_MOVED]"
    using path_back [OF 4(2,3) _ transition_back(5) [OF _ refl]] by auto
  show ?thesis by (simp add: 1 2 3 4 5 suffix_def)
qed

lemma commit_path_witness:
  "suffix [SESSION_MOVED, APPLYING, FILES_VERIFIED, CURSOR_COMMITTED, COMMITTED]
     [SESSION_MOVED, APPLYING, FILES_VERIFIED, CURSOR_COMMITTED, COMMITTED]"
  by (rule commit_path) (simp_all add: canTransition_def phase_order_def)

text \<open>The phase after an aborting or a failed one can be PREPARED, since \<open>indexOf\<close> gives -1 for both.\<close>

lemma aborting_restarts: "canTransition ABORTING PREPARED \<and> canTransition RECOVERY_REQUIRED PREPARED"
  by (simp add: canTransition_def phase_order_def)

section \<open>A transaction for the examples\<close>

lemma zero_digest_hex: "digest zero_digest"
  by unfold_locales (simp add: zero_digest_def is_checksum_def is_hex_digit_def list_all_iff is_digit_def)

definition demo_hex :: string where
  "demo_hex = replicate 64 (CHR ''0'')"

definition demo_descriptor :: operation_descriptor where
  "demo_descriptor =
     \<lparr>od_opId = ''op'', od_sessionIdentity = \<lparr>si_path = ''/s'', si_headerChecksum = demo_hex\<rparr>, od_workspaceIdentity = ''w'',
      od_action = Undo, od_fromLogicalLeaf = Some ''b'', od_toLogicalLeaf = Some ''a'', od_targetManifestId = demo_hex,
      od_rollbackManifestId = demo_hex, od_coverage = ''complete'', od_scopePaths = [], od_planDigest = demo_hex,
      od_checksum = demo_hex\<rparr>"

definition demo_env :: fs_env where
  "demo_env = \<lparr>fe_win32 = False, fe_suffix = ''1.a'', fe_torn = 0, fe_faults = (\<lambda>_ _. None)\<rparr>"

definition demo_plan :: jsval where
  "demo_plan = JObj
     [(''boundaryRoots'', JArr []), (''currentManifestId'', JStr demo_hex), (''deletePaths'', JArr []),
      (''planDigest'', JStr demo_hex), (''scopePaths'', JArr []), (''targetManifestId'', JStr demo_hex), (''writePaths'', JArr [])]"

definition demo_store :: store where
  "demo_store = fst (snd (prepare zero_digest demo_env (json_of_descriptor demo_descriptor) demo_plan None))"

lemma zero_checksum_json: "json_ok v \<Longrightarrow> checksum_json zero_digest v = Some demo_hex"
  using json_parse_canonicalJson [of v] by (auto simp: checksum_json_def zero_digest_def demo_hex_def)

lemma demo_hex_ok [simp]: "is_checksum demo_hex" "demo_hex \<noteq> []"
  by (simp_all add: demo_hex_def is_checksum_def is_hex_digit_def list_all_iff is_digit_def)

lemma demo_descriptor_valid:
  "assertOperationDescriptor zero_digest (json_of_descriptor demo_descriptor) = Inr (json_of_descriptor demo_descriptor)"
proof -
  have "json_ok (JObj (descriptor_content demo_descriptor))"
    using json_ok_descriptor [of demo_descriptor] by (simp add: json_of_descriptor_def)
  then show ?thesis
    unfolding descriptor_valid_iff
    by (simp add: zero_checksum_json) (simp add: demo_descriptor_def descriptor_fields_ok_def op_id_ok_def identity_ok_def
        has_char_def leaf_ok_def coverage_ok_def starts_with_def isCanonicalRoot_def ends_with_def drive_prefix_def)
qed

lemma demo_prepares: "fst (prepare zero_digest demo_env (json_of_descriptor demo_descriptor) demo_plan None) = Inr ()"
proof -
  obtain dt where d: "canonicalJson (json_of_descriptor demo_descriptor) = Some dt"
    using json_parse_canonicalJson [OF json_ok_descriptor] by blast
  have "json_ok demo_plan" by (simp add: demo_plan_def)
  then obtain pt where p: "canonicalJson demo_plan = Some pt"
    using json_parse_canonicalJson by blast
  obtain st where s: "canonicalJson (json_of_journal_state
      (makeState zero_digest (descriptor_of (json_of_descriptor demo_descriptor)) PREPARED 1 None)) = Some st"
    using canonicalJson_state by blast
  have f: "fld (json_of_descriptor demo_descriptor) ''opId'' = JStr ''op''"
    "fld (json_of_descriptor demo_descriptor) ''planDigest'' = JStr demo_hex"
    by (simp_all add: json_of_descriptor_def descriptor_content_def demo_descriptor_def)
  show ?thesis
    using d p s
    by (simp add: prepare_def demo_descriptor_valid validated_def f isPlanForDescriptor_def demo_plan_def is_record_def
        operationDirectory_ok_def is_alpha_def and_then_def write_addressed_def write_atomic_def tx_write_def
        tx_dir_def tx_entry_of_def tx_put_def tx_read_def demo_env_def temp_name_def writeContentAddressed_def
        writeBytesAtomic_def read_target_def readFile_def targetMode_def stat_mode_def writeTemporary_def
        open_exclusive_def link_new_def rename_over_def rm_quiet_def fsyncDirectory_def Let_def)
qed

lemma demo_store: "\<exists>ss. prepare zero_digest demo_env (json_of_descriptor demo_descriptor) demo_plan None = (Inr (), demo_store, ss)"
  using demo_prepares unfolding demo_store_def by (metis prod.collapse)

lemma demo_opId: "str_of (fld (json_of_descriptor demo_descriptor) ''opId'') = ''op''"
  by (simp add: json_of_descriptor_def descriptor_content_def demo_descriptor_def)

lemma demo_plan_ok: "json_ok demo_plan"
  by (simp add: demo_plan_def)

lemma demo_fresh: "tx_read None opId n = Inl ''ENOENT''"
  by (simp add: tx_read_def tx_dir_def tx_entry_of_def readFile_def)

definition demo_pending :: pending_journal where
  "demo_pending =
     with_state \<lparr>pj_descriptor = normalise (json_of_descriptor demo_descriptor), pj_plan = normalise demo_plan, pj_state = JNull\<rparr>
       (makeState zero_digest demo_descriptor PREPARED 1 None)"

lemma demo_load: "load zero_digest demo_store ''op'' = Inr demo_pending"
proof -
  obtain ss where "prepare zero_digest demo_env (json_of_descriptor demo_descriptor) demo_plan None = (Inr (), demo_store, ss)"
    using demo_store by blast
  from prepare_load [OF this zero_digest_hex _ demo_plan_ok demo_opId [symmetric] demo_fresh]
  show ?thesis by (simp add: demo_pending_def)
qed

lemma demo_phase [simp]: "pj_phase demo_pending = PREPARED" "pj_revision demo_pending = 1" "pj_observed demo_pending = None"
  by (simp_all add: demo_pending_def)


lemma set_phases_witness:
  "\<exists>p' r s' ss. setPhases zero_digest demo_env ''op'' [(SESSION_MOVED, None), (APPLYING, None)] demo_store = (r, s', ss) \<and>
     pj_phase p' = APPLYING \<and> pj_revision p' = 3 \<and>
     (load zero_digest s' ''op'' = Inr demo_pending \<or> load zero_digest s' ''op'' = Inr p')"
proof -
  obtain r s' ss where e: "setPhases zero_digest demo_env ''op'' [(SESSION_MOVED, None), (APPLYING, None)] demo_store = (r, s', ss)"
    by (metis prod_cases3)
  have "\<forall>t \<in> set [(SESSION_MOVED, None), (APPLYING, None)]. snd t \<noteq> Some (Some [])" by simp
  from set_phases [OF e demo_load zero_digest_hex this] show ?thesis using e by auto
qed


section \<open>Properties of recovery's evidence\<close>

lemma load_entries_set:
  "load_entries H store es = Inr ps \<Longrightarrow>
   set ps = {p. \<exists>name d. (name, TxDir d) \<in> set es \<and> map_of d ''state.json'' \<noteq> None \<and>
      load H store name = Inr p \<and> \<not> terminal (pj_phase p)}"
proof (induction es arbitrary: ps)
  case (Cons e es)
  obtain name t where e: "e = (name, t)" by (cases e)
  show ?case
  proof (cases "\<exists>d. t = TxDir d \<and> map_of d ''state.json'' \<noteq> None")
    case False
    then have "load_entries H store es = Inr ps" using Cons.prems e by (auto split: tx_entry.splits)
    from Cons.IH [OF this] show ?thesis using False e by auto
  next
    case True
    then obtain d where t: "t = TxDir d" "map_of d ''state.json'' \<noteq> None" by blast
    then obtain p qs where p: "load H store name = Inr p" "load_entries H store es = Inr qs"
      "ps = (if \<not> terminal (pj_phase p) then p # qs else qs)"
      using Cons.prems e by (auto split: dir_entry.splits option.splits)
    show ?thesis unfolding p(3) using Cons.IH [OF p(2)] e t p(1) by auto
  qed
qed simp

text \<open>The pending transactions are exactly those of the operation directories that have a state file, load
  and are in no terminal phase.\<close>

theorem pending_listed:
  assumes "loadPending H localeCompare (Some es) = Inr ps"
  shows "p \<in> set ps \<longleftrightarrow> (\<exists>name d. (name, TxDir d) \<in> set es \<and> map_of d ''state.json'' \<noteq> None \<and>
    load H (Some es) name = Inr p \<and> \<not> terminal (pj_phase p))"
  using load_entries_set [of H "Some es" "sort_cmp (\<lambda>l r. localeCompare (fst l) (fst r)) es" ps] assms
  by (simp add: loadPending_def set_sort_cmp_gen)

lemma nonempty_singleton: "xs \<noteq> [] \<and> set xs \<subseteq> {x} \<longleftrightarrow> set xs = {x}"
  by (cases xs) auto

text \<open>C26 (markers_decide): Recovery rolls forward exactly if the session file has a marker of the operation and all its markers
  are the same valid cursor, rolls back exactly if there is none, and locks if they disagree, are
  invalid or do not match the descriptor.\<close>

theorem markers_decide:
  assumes "inspectCursorMarkers H (Inr content) d expected = Inr i"
  shows "let ms = markers H (descriptor_of d) expected (split_on NL content); a = rd_action (decideRecovery i)
    in (a = RollForward \<longleftrightarrow> (\<exists>t. set ms = {Marker t})) \<and> (a = Rollback \<longleftrightarrow> ms = []) \<and>
       (a = Lock \<longleftrightarrow> ms \<noteq> [] \<and> \<not> (\<exists>t. set ms = {Marker t})) \<and> a \<noteq> Discard"
proof -
  let ?ms = "markers H (descriptor_of d) expected (split_on NL content)"
  have i: "i = scan_markers H (descriptor_of d) expected (ends_with [NL] content) None False (split_on NL content)"
    using assms by (auto simp: inspectCursorMarkers_def)
  have a: "i = MarkerAbsent \<longleftrightarrow> ?ms = []" using scan_markers_absent i by auto
  have m: "(\<exists>n. i = MarkerMatch n) \<longleftrightarrow> (\<exists>t. set ?ms = {Marker t})"
    unfolding i scan_markers_match by (simp add: nonempty_singleton)
  show ?thesis
  proof (cases i)
    case MarkerAbsent
    then have "?ms = []" using a by simp
    then show ?thesis using MarkerAbsent by (simp add: decideRecovery_def)
  next
    case (MarkerMatch n)
    then have "\<exists>t. set ?ms = {Marker t}" "?ms \<noteq> []" using m a by auto
    then show ?thesis using MarkerMatch by (simp add: decideRecovery_def)
  next
    case MarkerConflict
    then have "\<not> (\<exists>t. set ?ms = {Marker t})" "?ms \<noteq> []" using m a by auto
    then show ?thesis using MarkerConflict by (simp add: decideRecovery_def)
  qed
qed

lemma markers_append: "markers H d e (xs @ ys) = markers H d e xs @ markers H d e ys"
  by (induction xs) auto

lemma match_after_newline:
  assumes "inspectCursorMarkers H (Inr content) d expected = Inr (MarkerMatch n)"
  shows "inspectCursorMarkers H (Inr (content @ [NL])) d expected = Inr (MarkerMatch False)"
proof -
  let ?D = "descriptor_of d"
  have "\<exists>n. scan_markers H ?D expected (ends_with [NL] content) None False (split_on NL content) = MarkerMatch n"
    using assms by (auto simp: inspectCursorMarkers_def)
  then have "\<exists>n. scan_markers H ?D expected (ends_with [NL] (content @ [NL])) None False (split_on NL (content @ [NL])) = MarkerMatch n"
    unfolding scan_markers_match split_on_end markers_append by (simp add: blank_no_marker)
  then obtain n' where "scan_markers H ?D expected (ends_with [NL] (content @ [NL])) None False (split_on NL (content @ [NL])) = MarkerMatch n'"
    by blast
  moreover have "n' = False"
    using calculation scan_markers_needs [OF ends_with_newline] by (cases n') auto
  ultimately show ?thesis using assms by (auto simp: inspectCursorMarkers_def)
qed

text \<open>C27 (finalize_durable): After a match, making the marker durable adds at most one newline, and when the calls do not fail
  it succeeds: the file then still has the matching marker, on a complete line.\<close>

theorem finalize_durable:
  assumes "inspectCursorMarkers H (Inr content) d expected = Inr (MarkerMatch needs)"
    and "finalizeCursorMarker H win32 appendFault ft d needs expected content = (r, content')"
  shows "(content' = content \<or> content' = content @ [NL]) \<and>
    (r = Inr () \<longrightarrow> inspectCursorMarkers H (Inr content') d expected = Inr (MarkerMatch False)) \<and>
    (appendFault = None \<and> (\<forall>s. ft s = None) \<longrightarrow> r = Inr ())"
proof -
  have "inspectCursorMarkers H (Inr (if needs then content @ [NL] else content)) d expected = Inr (MarkerMatch False)"
    using assms(1) match_after_newline [OF assms(1)] by (cases needs) simp_all
  then show ?thesis
    using assms(2)
    by (auto simp: finalizeCursorMarker_def Let_def fsyncFile_def fsyncDirectory_def split: if_splits sum.splits)
qed

lemma fold_chains_cleaned: "fold_chains chs rs = Some chs' \<Longrightarrow> list_all (\<lambda>r. mr_state r = CLEANED) rs"
  by (induction chs rs rule: fold_chains.induct) (auto split: if_splits option.splits)

lemma fold_chains_distinct:
  "fold_chains chs rs = Some chs' \<Longrightarrow> distinct (map fst chs) \<Longrightarrow> distinct (map fst chs')"
  by (induction chs rs rule: fold_chains.induct) (auto simp: distinct_update split: if_splits option.splits)

text \<open>C30 (chains_identity): A log counts as compensated exactly if all its mutations are cleaned and there are fingerprints of
  the workspace from which carrying them out, each from its source, ends where it began.\<close>

theorem chains_identity:
  "fingerprintChainsFoldToIdentity rs \<longleftrightarrow>
     list_all (\<lambda>r. mr_state r = CLEANED) rs \<and> (\<exists>fs. replay_mutations fs rs = Some fs)"
proof
  assume "fingerprintChainsFoldToIdentity rs"
  then obtain chs where c: "fold_chains [] rs = Some chs" "\<forall>(p, s, t) \<in> set chs. t = s"
    by (auto simp: fingerprintChainsFoldToIdentity_def list_all_iff split: option.splits)
  define fs where "fs p = (case map_of chs p of Some (s, t) \<Rightarrow> s | None \<Rightarrow> [])" for p
  have "chains_fit [] fs fs" by (simp add: chains_fit_def)
  moreover have "\<forall>p s t. map_of chs p = Some (s, t) \<longrightarrow> fs p = s" by (simp add: fs_def)
  ultimately obtain fs' where f: "replay_mutations fs rs = Some fs'" "chains_fit chs fs fs'"
    using fold_chains_replay [OF c(1)] by blast
  have "fs' p = fs p" for p
  proof (cases "map_of chs p")
    case None
    then show ?thesis using f(2) by (simp add: chains_fit_def)
  next
    case (Some st)
    obtain s t where "st = (s, t)" by (cases st)
    then show ?thesis using f(2) Some c(2) map_of_SomeD [OF Some] by (auto simp: chains_fit_def)
  qed
  then have "fs' = fs" by blast
  moreover have "list_all (\<lambda>r. mr_state r = CLEANED) rs"
    using c(1) fold_chains_cleaned by blast
  ultimately show "list_all (\<lambda>r. mr_state r = CLEANED) rs \<and> (\<exists>fs. replay_mutations fs rs = Some fs)" using f(1) by blast
next
  assume a: "list_all (\<lambda>r. mr_state r = CLEANED) rs \<and> (\<exists>fs. replay_mutations fs rs = Some fs)"
  then obtain fs where f: "replay_mutations fs rs = Some fs" "\<forall>r \<in> set rs. mr_state r = CLEANED"
    by (auto simp: list_all_iff)
  have "chains_fit [] fs fs" by (simp add: chains_fit_def)
  from replay_fold_chains [OF f(1) this f(2)] obtain chs where
    c: "fold_chains [] rs = Some chs" "chains_fit chs fs fs" by blast
  have "distinct (map fst chs)" using fold_chains_distinct [OF c(1)] by simp
  then have "t = s" if "(p, s, t) \<in> set chs" for p s t
    using map_of_is_SomeI [OF _ that] c(2) by (auto simp: chains_fit_def)
  then show "fingerprintChainsFoldToIdentity rs"
    using c(1) by (auto simp: fingerprintChainsFoldToIdentity_def list_all_iff)
qed

text \<open>A foreign transaction is discarded as inert only if it is PREPARED, its plan deletes, writes and
  scopes no path, and its directory held nothing but the three control files, so no mutation log.\<close>

theorem inert_prepared:
  assumes "isInertForeignPrepared H pending s1 s2 s3 s4"
  shows "pj_phase pending = PREPARED \<and>
    fld (pj_plan pending) ''writePaths'' = JArr [] \<and> fld (pj_plan pending) ''deletePaths'' = JArr [] \<and>
    fld (pj_plan pending) ''scopePaths'' = JArr [] \<and>
    (\<exists>d. tx_entry_of s4 (str_of (fld (pj_descriptor pending) ''opId'')) = Some (TxDir d) \<and>
       (\<forall>n. map_of d n \<noteq> None \<longleftrightarrow> n \<in> set control_names))"
proof -
  let ?op = "str_of (fld (pj_descriptor pending) ''opId'')"
  have i: "isInertRestorePlan H (pj_plan pending) (pj_descriptor pending)" "pj_phase pending = PREPARED"
    "hasOnlyControlFiles s4 ?op"
    using assms by (auto simp: isInertForeignPrepared_def Let_def split: if_splits sum.splits)
  have regular: "(case map_of d n of Some (EFile m bytes) \<Rightarrow> True | _ \<Rightarrow> False) \<longleftrightarrow> (\<exists>m b. map_of d n = Some (EFile m b))" for d n
    by (cases "map_of d n" rule: option.exhaust; cases "the (map_of d n)") auto
  obtain d where d: "tx_entry_of s4 ?op = Some (TxDir d)" "length d = 3"
    "\<forall>n \<in> set control_names. \<exists>m b. map_of d n = Some (EFile m b)"
    using i(3) unfolding hasOnlyControlFiles_def Let_def regular list_all_iff
    by (auto simp: control_names_def split: option.splits tx_entry.splits)
  have "set control_names \<subseteq> set (map fst d)"
    using d(3) by (force dest: map_of_SomeD)
  moreover have "card (set control_names) = 3" by (simp add: control_names_def)
  moreover have "card (set (map fst d)) \<le> 3" using card_length [of "map fst d"] d(2) by simp
  ultimately have "set (map fst d) = set control_names"
    by (metis List.finite_set card_seteq)
  then have "\<forall>n. map_of d n \<noteq> None \<longleftrightarrow> n \<in> set control_names"
    by (simp add: map_of_eq_None_iff)
  then show ?thesis
    using i(1,2) d(1) by (auto simp: isInertRestorePlan_def isEmptyArray_def split: if_splits)
qed

section \<open>Witnesses\<close>

lemma demo_store_shape:
  obtains dt pt st where "demo_store = Some [(''op'', TxDir
    [(''descriptor.json'', EFile 384 dt), (''restore-plan.json'', EFile 384 pt), (''state.json'', EFile 384 st)])]"
proof -
  obtain dt where d: "canonicalJson (json_of_descriptor demo_descriptor) = Some dt"
    using json_parse_canonicalJson [OF json_ok_descriptor] by blast
  obtain pt where p: "canonicalJson demo_plan = Some pt"
    using json_parse_canonicalJson [OF demo_plan_ok] by blast
  obtain st where s: "canonicalJson (json_of_journal_state
      (makeState zero_digest (descriptor_of (json_of_descriptor demo_descriptor)) PREPARED 1 None)) = Some st"
    using canonicalJson_state by blast
  have f: "fld (json_of_descriptor demo_descriptor) ''opId'' = JStr ''op''"
    "fld (json_of_descriptor demo_descriptor) ''planDigest'' = JStr demo_hex"
    by (simp_all add: json_of_descriptor_def descriptor_content_def demo_descriptor_def)
  have pl: "isPlanForDescriptor demo_plan (json_of_descriptor demo_descriptor)"
    by (simp add: isPlanForDescriptor_def f demo_plan_def is_record_def)
  have "demo_store = Some [(''op'', TxDir
    [(''descriptor.json'', EFile 384 dt), (''restore-plan.json'', EFile 384 pt), (''state.json'', EFile 384 st)])]"
    unfolding demo_store_def using d p s
    by (simp add: prepare_def demo_descriptor_valid validated_def f pl
        operationDirectory_ok_def is_alpha_def and_then_def write_addressed_def write_atomic_def tx_write_def
        tx_dir_def tx_entry_of_def tx_put_def tx_read_def demo_env_def temp_name_def writeContentAddressed_def
        writeBytesAtomic_def read_target_def readFile_def targetMode_def stat_mode_def writeTemporary_def
        open_exclusive_def link_new_def rename_over_def rm_quiet_def fsyncDirectory_def Let_def)
  then show thesis by (rule that)
qed

lemma pending_listed_witness:
  "\<exists>es ps. demo_store = Some es \<and> loadPending zero_digest compare_strings (Some es) = Inr ps \<and>
    (demo_pending \<in> set ps \<longleftrightarrow> (\<exists>name d. (name, TxDir d) \<in> set es \<and> map_of d ''state.json'' \<noteq> None \<and>
      load zero_digest (Some es) name = Inr demo_pending \<and> \<not> terminal (pj_phase demo_pending)))"
proof -
  obtain dt pt st where s: "demo_store = Some [(''op'', TxDir
    [(''descriptor.json'', EFile 384 dt), (''restore-plan.json'', EFile 384 pt), (''state.json'', EFile 384 st)])]" (is "_ = Some ?es")
    using demo_store_shape .
  have "loadPending zero_digest compare_strings (Some ?es) = Inr [demo_pending]"
    using demo_load unfolding s by (simp add: loadPending_def sort_cmp_def terminal_def)
  from pending_listed [OF this] this s show ?thesis by blast
qed

lemma demo_inert_plan: "isInertRestorePlan zero_digest (normalise demo_plan) (normalise (json_of_descriptor demo_descriptor))"
  by code_simp

lemma demo_same: "samePendingJournal demo_pending demo_pending"
proof -
  have "json_ok (pending_json demo_pending)"
    by (simp add: pending_json_def demo_pending_def with_state_def json_ok_normalise demo_plan_ok)
  then obtain t where "canonicalJson (pending_json demo_pending) = Some t"
    using json_parse_canonicalJson by blast
  then show ?thesis by (simp add: samePendingJournal_def)
qed

lemma demo_desc_fields:
  "str_of (fld (pj_descriptor demo_pending) ''opId'') = ''op''"
  "arr_of (fld (pj_descriptor demo_pending) ''scopePaths'') = []"
  by (simp_all add: demo_pending_def fld_normalise) (simp_all add: json_of_descriptor_def descriptor_content_def demo_descriptor_def)

lemma demo_inert: "isInertForeignPrepared zero_digest demo_pending demo_store demo_store demo_store demo_store"
proof -
  obtain dt pt st where s: "demo_store = Some [(''op'', TxDir
    [(''descriptor.json'', EFile 384 dt), (''restore-plan.json'', EFile 384 pt), (''state.json'', EFile 384 st)])]"
    using demo_store_shape .
  have "hasOnlyControlFiles demo_store ''op''"
    by (simp add: s hasOnlyControlFiles_def tx_entry_of_def)
  moreover have "isInertRestorePlan zero_digest (pj_plan demo_pending) (pj_descriptor demo_pending)"
    using demo_inert_plan by (simp add: demo_pending_def)
  ultimately show ?thesis
    by (simp add: isInertForeignPrepared_def demo_desc_fields demo_load demo_same)
qed

lemma inert_prepared_witness:
  "isInertForeignPrepared zero_digest demo_pending demo_store demo_store demo_store demo_store \<and>
   pj_phase demo_pending = PREPARED \<and>
    fld (pj_plan demo_pending) ''writePaths'' = JArr [] \<and> fld (pj_plan demo_pending) ''deletePaths'' = JArr [] \<and>
    fld (pj_plan demo_pending) ''scopePaths'' = JArr [] \<and>
    (\<exists>d. tx_entry_of demo_store (str_of (fld (pj_descriptor demo_pending) ''opId'')) = Some (TxDir d) \<and>
       (\<forall>n. map_of d n \<noteq> None \<longleftrightarrow> n \<in> set control_names))"
  using inert_prepared [OF demo_inert] demo_inert by blast

section \<open>A written cursor is found\<close>

text \<open>The entry of a cursor in the session file: \<open>JSON.stringify({ type: "custom", customType: "pi-undo:cursor", data, ... })\<close>
  with whatever other fields the session manager adds.\<close>

definition cursor_entry :: "cursor_state \<Rightarrow> (string \<times> jsval) list \<Rightarrow> jsval" where
  "cursor_entry c extra =
     JObj ([(''type'', JStr ''custom''), (''customType'', JStr ''pi-undo:cursor''), (''data'', json_of_cursor c)] @ extra)"

lemma cursor_entry_marker:
  assumes "json_ok (cursor_entry c extra)" "assertCursor H (json_of_cursor c) = Inr w"
    and "cu_opId c = od_opId d" "matchesDescriptor c d"
    and "cu_fromLogicalLeaf c = od_fromLogicalLeaf d" "cu_toLogicalLeaf c = expected"
  shows "\<exists>t. canonicalJson (json_of_cursor c) = Some t \<and>
    read_marker H d expected (plain_text (cursor_entry c extra)) = Marker t"
proof -
  let ?e = "cursor_entry c extra"
  have w: "w = json_of_cursor c" using assms(2) validators_return_argument(1) by blast
  obtain t where t: "canonicalJson (json_of_cursor c) = Some t"
    using json_parse_canonicalJson [OF json_ok_cursor] by blast
  have f: "isCursorEntry ?e" "fld ?e ''data'' = json_of_cursor c"
    by (simp_all add: cursor_entry_def isCursorEntry_def is_record_def)
  have "\<not> blank (plain_text ?e)"
    by (simp add: cursor_entry_def blank_def)
  then show ?thesis
    using json_parse_plain [OF assms(1)] f assms t
    by (simp add: read_marker_def w Let_def)
qed

definition demo_cursor :: cursor_state where
  "demo_cursor =
     \<lparr>cu_opId = ''op'', cu_action = Undo, cu_sessionIdentity = \<lparr>si_path = ''/s'', si_headerChecksum = demo_hex\<rparr>,
      cu_fromLogicalLeaf = Some ''b'', cu_toLogicalLeaf = Some ''a'', cu_targetManifestId = demo_hex,
      cu_rollbackManifestId = demo_hex, cu_undoHead = None, cu_redoStack = [''r''], cu_descriptorChecksum = demo_hex,
      cu_checksum = demo_hex\<rparr>"

lemma demo_cursor_valid: "assertCursor zero_digest (json_of_cursor demo_cursor) = Inr (json_of_cursor demo_cursor)"
proof -
  have "json_ok (JObj (cursor_content demo_cursor))"
    using json_ok_cursor [of demo_cursor] by (simp add: json_of_cursor_def)
  then show ?thesis
    unfolding cursor_valid_iff
    by (simp add: zero_checksum_json) (simp add: demo_cursor_def cursor_fields_ok_def op_id_ok_def identity_ok_def
        has_char_def leaf_ok_def)
qed

definition demo_session :: string where
  "demo_session = plain_text (cursor_entry demo_cursor [])"

lemma demo_marker:
  obtains t where "read_marker zero_digest demo_descriptor (Some ''a'') demo_session = Marker t"
  using cursor_entry_marker [of demo_cursor "[]" zero_digest _ demo_descriptor "Some ''a''", OF _ demo_cursor_valid]
  unfolding demo_session_def
  by (auto simp: cursor_entry_def demo_cursor_def demo_descriptor_def matchesDescriptor_def json_of_cursor_def
      cursor_content_def json_of_identity_def)

lemma ends_with_last: "ends_with [NL] s \<longleftrightarrow> s \<noteq> [] \<and> last s = NL"
  by (cases s rule: rev_cases) (auto simp: ends_with_def starts_with_def)

lemma last_not_newline: "NL \<notin> set s \<Longrightarrow> s \<noteq> [] \<Longrightarrow> last s \<noteq> NL"
  by (metis last_in_set)

lemma demo_inspect:
  "inspectCursorMarkers zero_digest (Inr demo_session) (json_of_descriptor demo_descriptor) (Some ''a'') = Inr (MarkerMatch True)"
proof -
  obtain t where t: "read_marker zero_digest demo_descriptor (Some ''a'') demo_session = Marker t"
    using demo_marker .
  have n: "NL \<notin> set demo_session"
    unfolding demo_session_def by (rule plain_text_no_newline) (simp add: cursor_entry_def)
  then have "\<not> ends_with [NL] demo_session"
    using ends_with_last [of demo_session] last_not_newline [of demo_session] by blast
  with t n show ?thesis
    by (simp add: inspectCursorMarkers_def validated_def demo_descriptor_valid split_on_no_sep)
qed

lemma markers_decide_witness:
  "rd_action (decideRecovery (MarkerMatch True)) = RollForward \<longleftrightarrow>
   (\<exists>t. set (markers zero_digest (descriptor_of (json_of_descriptor demo_descriptor)) (Some ''a'') (split_on NL demo_session)) = {Marker t})"
  using markers_decide [OF demo_inspect] unfolding Let_def by blast

lemma finalize_durable_witness:
  "\<exists>content'. finalizeCursorMarker zero_digest False None (\<lambda>_. None) (json_of_descriptor demo_descriptor) True (Some ''a'') demo_session
      = (Inr (), content') \<and> (content' = demo_session \<or> content' = demo_session @ [NL])"
proof -
  obtain r content' where e: "finalizeCursorMarker zero_digest False None (\<lambda>_. None) (json_of_descriptor demo_descriptor) True
      (Some ''a'') demo_session = (r, content')" by fastforce
  then show ?thesis using finalize_durable [OF demo_inspect e] by simp
qed

text \<open>C31 (cursor_recovered): A valid cursor of an operation that was appended to the session file, even without its final newline, is
  what recovery finds: with no other marker of the operation in the file, recovery rolls forward.\<close>

theorem cursor_recovered:
  assumes "json_ok (cursor_entry c extra)" "assertCursor H (json_of_cursor c) = Inr w"
    and "assertOperationDescriptor H d = Inr d" "cu_opId c = od_opId (descriptor_of d)" "matchesDescriptor c (descriptor_of d)"
    and "cu_fromLogicalLeaf c = od_fromLogicalLeaf (descriptor_of d)"
    and "markers H (descriptor_of d) (cu_toLogicalLeaf c) (split_on NL (before @ [NL])) = []"
    and "tail = [] \<or> tail = [NL]"
  shows "inspectCursorMarkers H (Inr (before @ [NL] @ plain_text (cursor_entry c extra) @ tail)) d (cu_toLogicalLeaf c) =
    Inr (MarkerMatch (tail = []))"
proof -
  let ?D = "descriptor_of d" and ?l = "cu_toLogicalLeaf c" and ?p = "plain_text (cursor_entry c extra)"
  obtain t where t: "read_marker H ?D ?l ?p = Marker t"
    using cursor_entry_marker [OF assms(1,2,4,5,6) refl] by blast
  have n: "NL \<notin> set ?p" by (rule plain_text_no_newline [OF assms(1)])
  have b: "markers H ?D ?l (split_on NL before) = []"
    using assms(7) by (simp add: split_on_append markers_append)
  have s: "split_on NL (before @ NL # ?p) = split_on NL before @ [?p]"
    "split_on NL (before @ NL # ?p @ [NL]) = split_on NL before @ [?p, []]"
    using n split_on_append [of NL before "?p @ [NL]"] split_on_end [of ?p]
    by (simp_all add: split_on_append split_on_no_sep)
  have "?p \<noteq> []" by (simp add: cursor_entry_def)
  then have e: "\<not> ends_with [NL] (before @ NL # ?p)" "ends_with [NL] (before @ NL # ?p @ [NL])"
    using n last_not_newline [of ?p] by (auto simp: ends_with_last)
  have skip: "scan_markers H ?D ?l nl None False (xs @ ys) = scan_markers H ?D ?l nl None False ys"
    if "markers H ?D ?l xs = []" for xs ys nl
    using that by (induction xs) (auto split: if_splits)
  show ?thesis
  proof (cases "tail = []")
    case True
    then show ?thesis
      using assms(3) t skip [OF b] e(1) by (simp add: inspectCursorMarkers_def s validated_def)
  next
    case False
    then show ?thesis
      using assms(3,8) t skip [OF b] e(2) by (simp add: inspectCursorMarkers_def s validated_def blank_no_marker)
  qed
qed

lemma cursor_recovered_witness:
  "inspectCursorMarkers zero_digest (Inr (''x'' @ [NL] @ plain_text (cursor_entry demo_cursor []) @ []))
     (json_of_descriptor demo_descriptor) (cu_toLogicalLeaf demo_cursor) = Inr (MarkerMatch ([] = ([] :: string)))"
proof (rule cursor_recovered [OF _ demo_cursor_valid demo_descriptor_valid])
  have not_json: "json_parse ''x'' = None" by code_simp
  have "read_marker zero_digest demo_descriptor l ''x'' = NoMarker" for l
    by (simp add: read_marker_def not_json)
  then show "markers zero_digest (descriptor_of (json_of_descriptor demo_descriptor)) (cu_toLogicalLeaf demo_cursor)
      (split_on NL (''x'' @ [NL])) = []"
    by (simp add: blank_no_marker)
qed (simp_all add: cursor_entry_def demo_cursor_def demo_descriptor_def matchesDescriptor_def)

end
