(* ===== verification/PathSafety.thy ===== *)
theory PathSafety
  imports AtomicFs
begin

text \<open>
  \<open>src/src/path-safety.ts\<close>: the paths of a workspace. A path is relative, with \<open>/\<close> between its
  components; a check before a mutation makes sure that it leads to no place outside the root, also
  through a symbolic link; and two orders sort the paths of a plan.

  \<open>path.resolve\<close> and \<open>path.relative\<close> are their POSIX versions, with the working directory as a
  parameter. \<open>lstat\<close> is a parameter too: what a path names, or the error code.
\<close>

section \<open>node:path\<close>

fun resolve_parts :: "string list \<Rightarrow> string list \<Rightarrow> string list" where
  "resolve_parts acc [] = rev acc"
| "resolve_parts acc (p # ps) =
     (if p = [] \<or> p = ''.'' then resolve_parts acc ps
      else if p = ''..'' then resolve_parts (tl acc) ps
      else resolve_parts (p # acc) ps)"

definition absolute_parts :: "string \<Rightarrow> string \<Rightarrow> string list" where
  "absolute_parts cwd p =
     resolve_parts [] (split_on (CHR ''/'') (if starts_with ''/'' p then p else cwd @ ''/'' @ p))"

definition resolve :: "string \<Rightarrow> string \<Rightarrow> string" where
  "resolve cwd p = ''/'' @ join_with ''/'' (absolute_parts cwd p)"

fun relative_parts :: "string list \<Rightarrow> string list \<Rightarrow> string list" where
  "relative_parts (x # xs) (y # ys) =
     (if x = y then relative_parts xs ys else replicate (Suc (length xs)) ''..'' @ y # ys)"
| "relative_parts xs ys = replicate (length xs) ''..'' @ ys"

definition relative :: "string \<Rightarrow> string \<Rightarrow> string \<Rightarrow> string" where
  "relative cwd a b = join_with ''/'' (relative_parts (absolute_parts cwd a) (absolute_parts cwd b))"

section \<open>Candidates\<close>

datatype path_error = UnsafePath | SymlinkEscape | LstatFailed errno

definition drive_letter :: "string \<Rightarrow> bool" where
  "drive_letter p \<longleftrightarrow> (case p of c # d # _ \<Rightarrow> is_alpha c \<and> d = CHR '':'' | _ \<Rightarrow> False)"

definition assertRelativeCandidate :: "string \<Rightarrow> path_error + unit" where
  "assertRelativeCandidate p =
     rbind (guard (p \<noteq> [] \<and> \<not> has_char (CHR 0x00) p \<and> \<not> has_char (CHR 0x5C) p \<and>
                   \<not> starts_with ''/'' p \<and> \<not> drive_letter p) UnsafePath) (\<lambda>_.
     if p = ''.'' then Inr ()
     else guard (\<not> list_ex (\<lambda>part. part = [] \<or> part = ''.'' \<or> part = ''..'') (split_on (CHR ''/'') p)) UnsafePath)"

definition relativeSafePath :: "string \<Rightarrow> string \<Rightarrow> string \<Rightarrow> path_error + string" where
  "relativeSafePath cwd root candidate =
     rbind (guard (root \<noteq> [] \<and> \<not> has_char (CHR 0x00) root) UnsafePath) (\<lambda>_.
     rbind (assertRelativeCandidate candidate) (\<lambda>_.
     if candidate = ''.'' then Inr candidate
     else
       let canonicalRoot = resolve cwd root;
           canonicalRelative = relative cwd canonicalRoot (resolve canonicalRoot candidate)
       in rbind (guard (\<not> (canonicalRelative = ''..'' \<or> starts_with ''../'' canonicalRelative \<or>
                           starts_with ''/'' canonicalRelative)) UnsafePath) (\<lambda>_. Inr candidate)))"

section \<open>Symbolic links on the way\<close>

text \<open>The elements of \<open>new Set(xs)\<close>, in the order in which they were added.\<close>

definition js_set :: "'a list \<Rightarrow> 'a list" where
  "js_set xs = rev (remdups (rev xs))"

datatype stat_kind = StatSymlink | StatDirectory | StatOther

type_synonym lstat = "string list \<Rightarrow> errno + stat_kind"

definition check_parent :: "stat_kind \<Rightarrow> path_error + unit" where
  "check_parent st =
     (case st of StatSymlink \<Rightarrow> Inl SymlinkEscape | StatDirectory \<Rightarrow> Inr () | StatOther \<Rightarrow> Inl UnsafePath)"

text \<open>
  The loop over the components; \<open>current\<close> are the components of the absolute path so far. A component
  that does not exist ends it.
\<close>

fun walk_components :: "lstat \<Rightarrow> string list \<Rightarrow> string list \<Rightarrow> path_error + unit" where
  "walk_components lstat current [] = Inr ()"
| "walk_components lstat current (part # parts) =
     (let current = current @ [part] in
      (case lstat current of
         Inl e \<Rightarrow> if e = ''ENOENT'' then Inr () else Inl (LstatFailed e)
       | Inr st \<Rightarrow>
           if parts = [] then Inr ()
           else rbind (check_parent st) (\<lambda>_. walk_components lstat current parts)))"

definition assertNoSymlinkEscape :: "string \<Rightarrow> lstat \<Rightarrow> string \<Rightarrow> string \<Rightarrow> path_error + unit" where
  "assertNoSymlinkEscape cwd lstat root relativePath =
     rbind (relativeSafePath cwd root relativePath) (\<lambda>safePath.
     if safePath = ''.'' then Inr ()
     else walk_components lstat (absolute_parts cwd root) (split_on (CHR ''/'') safePath))"

definition pathDepth :: "string \<Rightarrow> nat" where
  "pathDepth p = (if p = ''.'' then 0 else length (split_on (CHR ''/'') p))"

definition parent_directories :: "string \<Rightarrow> string list" where
  "parent_directories p =
     (let parts = split_on (CHR ''/'') p
      in map (\<lambda>i. join_with ''/'' (take i parts)) [1..<length parts])"

fun collect_directories :: "string \<Rightarrow> string \<Rightarrow> string list \<Rightarrow> path_error + string list" where
  "collect_directories cwd root [] = Inr []"
| "collect_directories cwd root (p # ps) =
     rbind (relativeSafePath cwd root p) (\<lambda>safePath.
     rbind (collect_directories cwd root ps) (\<lambda>ds.
     Inr ((if safePath = ''.'' then [] else parent_directories safePath) @ ds)))"

fun check_directories :: "lstat \<Rightarrow> string list \<Rightarrow> string list \<Rightarrow> path_error + unit" where
  "check_directories lstat base [] = Inr ()"
| "check_directories lstat base (d # ds) =
     (case lstat (base @ split_on (CHR ''/'') d) of
        Inl e \<Rightarrow> if e = ''ENOENT'' then check_directories lstat base ds else Inl (LstatFailed e)
      | Inr st \<Rightarrow> rbind (check_parent st) (\<lambda>_. check_directories lstat base ds))"

definition assertNoSymlinkParents ::
  "(string \<Rightarrow> string \<Rightarrow> int) \<Rightarrow> string \<Rightarrow> lstat \<Rightarrow> string \<Rightarrow> string list \<Rightarrow> path_error + unit" where
  "assertNoSymlinkParents localeCompare cwd lstat root relativePaths =
     rbind (collect_directories cwd root relativePaths) (\<lambda>directories.
     check_directories lstat (absolute_parts cwd root)
       (sort_cmp (\<lambda>l r. let d = int (pathDepth l) - int (pathDepth r) in
                        if d \<noteq> 0 then d else localeCompare l r) (js_set directories)))"

section \<open>Overlap of two sets of paths\<close>

text \<open>\<open>lowerBound\<close>: the first index from which no element is less than the target.\<close>

function lowerBound_loop :: "string list \<Rightarrow> string \<Rightarrow> nat \<Rightarrow> nat \<Rightarrow> nat" where
  "lowerBound_loop xs target low high =
     (if low < high then
        let middle = low + (high - low) div 2 in
        if compare_strings (xs ! middle) target < 0 then lowerBound_loop xs target (middle + 1) high
        else lowerBound_loop xs target low middle
      else low)"
  by pat_completeness auto
termination
  by (relation "measure (\<lambda>(xs, target, low, high). high - low)") auto

declare lowerBound_loop.simps [simp del]

definition lowerBound :: "string list \<Rightarrow> string \<Rightarrow> nat" where
  "lowerBound xs target = lowerBound_loop xs target 0 (length xs)"

definition slice_parent :: "string \<Rightarrow> string" where
  "slice_parent p = rev (tl (dropWhile (\<lambda>c. c \<noteq> CHR ''/'') (rev p)))"

text \<open>The prefixes \<open>path.slice(0, separator)\<close> for the separators from the last to the first.\<close>

function slash_prefixes :: "string \<Rightarrow> string list" where
  "slash_prefixes p = (if has_char (CHR ''/'') p then slice_parent p # slash_prefixes (slice_parent p) else [])"
  by pat_completeness auto

lemma slice_parent_split:
  assumes "CHR ''/'' \<in> set p"
  shows "\<exists>s. p = slice_parent p @ CHR ''/'' # s \<and> CHR ''/'' \<notin> set s"
proof -
  let ?d = "dropWhile (\<lambda>c. c \<noteq> CHR ''/'') (rev p)" and ?t = "takeWhile (\<lambda>c. c \<noteq> CHR ''/'') (rev p)"
  have ne: "?d \<noteq> []" using assms by (simp add: dropWhile_eq_Nil_conv)
  then have "hd ?d = CHR ''/''" using hd_dropWhile [OF ne] by simp
  then have "rev p = ?t @ CHR ''/'' # tl ?d"
    using ne by (metis list.collapse takeWhile_dropWhile_id)
  then have "p = rev (tl ?d) @ CHR ''/'' # rev ?t"
    by (metis append.assoc append_Cons append_Nil rev.simps(2) rev_append rev_rev_ident)
  moreover have "CHR ''/'' \<notin> set (rev ?t)" by (auto dest: set_takeWhileD)
  ultimately show ?thesis unfolding slice_parent_def by blast
qed

termination slash_prefixes
proof (relation "measure length")
  fix p assume "has_char (CHR ''/'') p"
  then obtain s where "p = slice_parent p @ CHR ''/'' # s"
    using slice_parent_split has_char_in by blast
  then have "length p = length (slice_parent p) + Suc (length s)" by (metis length_Cons length_append)
  then show "(slice_parent p, p) \<in> measure length" by simp
qed simp

declare slash_prefixes.simps [simp del]

definition overlaps_one :: "string list \<Rightarrow> string list \<Rightarrow> string \<Rightarrow> bool" where
  "overlaps_one rightSet sortedRight path \<longleftrightarrow>
     path \<in> set rightSet \<or> list_ex (\<lambda>q. q \<in> set rightSet) (slash_prefixes path) \<or>
     (case get_at sortedRight (lowerBound sortedRight (path @ ''/'')) of
        None \<Rightarrow> False
      | Some candidate \<Rightarrow> starts_with (path @ ''/'') candidate)"

definition pathSetsOverlap :: "string list \<Rightarrow> string list \<Rightarrow> path_error + bool" where
  "pathSetsOverlap leftPaths rightPaths =
     rbind (map_res assertRelativeCandidate leftPaths) (\<lambda>_.
     rbind (map_res assertRelativeCandidate rightPaths) (\<lambda>_.
     let rightSet = js_set rightPaths;
         sortedRight = sort_cmp compare_strings rightSet
     in Inr (list_ex (overlaps_one rightSet sortedRight) leftPaths)))"

section \<open>Orders\<close>

definition path_order :: "int \<Rightarrow> string \<Rightarrow> string \<Rightarrow> int" where
  "path_order direction l r =
     (let depthDifference = int (pathDepth l) - int (pathDepth r) in
      if depthDifference \<noteq> 0 then depthDifference * direction else compare_strings l r)"

definition sortPaths :: "int \<Rightarrow> string list \<Rightarrow> path_error + string list" where
  "sortPaths direction paths =
     rbind (map_res assertRelativeCandidate paths) (\<lambda>_. Inr (sort_cmp (path_order direction) paths))"

definition sortDeletePaths :: "string list \<Rightarrow> path_error + string list" where
  "sortDeletePaths paths = sortPaths (-1) paths"

definition sortWritePaths :: "string list \<Rightarrow> path_error + string list" where
  "sortWritePaths paths = sortPaths 1 paths"

section \<open>Components\<close>

lemma set_js_set [simp]: "set (js_set xs) = set xs"
  by (simp add: js_set_def)

lemma distinct_js_set [simp]: "distinct (js_set xs)"
  by (simp add: js_set_def)

lemma prefix_parts: "prefix (a @ [c]) b \<Longrightarrow> \<exists>s. b = a @ c # s \<and> split_on c b = split_on c a @ split_on c s"
  by (auto simp: prefix_def split_on_append)

text \<open>A component of a resolved path: it is none of the names that the resolution removes.\<close>

definition plain_part :: "string \<Rightarrow> bool" where
  "plain_part s \<longleftrightarrow> s \<noteq> [] \<and> s \<noteq> ''.'' \<and> s \<noteq> ''..'' \<and> CHR ''/'' \<notin> set s"

lemma resolve_parts_plain: "list_all plain_part ps \<Longrightarrow> resolve_parts acc ps = rev acc @ ps"
  by (induction ps arbitrary: acc) (auto simp: plain_part_def)

lemma resolve_parts_all:
  "list_all plain_part acc \<Longrightarrow> list_all (\<lambda>p. CHR ''/'' \<notin> set p) ps \<Longrightarrow> list_all plain_part (resolve_parts acc ps)"
proof (induction acc ps rule: resolve_parts.induct)
  case (1 acc)
  then show ?case by (simp add: list_all_iff)
next
  case (2 acc p ps)
  have "list_all plain_part (tl acc)" using 2(4) by (cases acc) auto
  moreover have "p \<noteq> [] \<Longrightarrow> p \<noteq> ''.'' \<Longrightarrow> p \<noteq> ''..'' \<Longrightarrow> plain_part p" using 2(5) by (simp add: plain_part_def)
  ultimately show ?case using 2 by simp
qed

lemma absolute_parts_plain: "list_all plain_part (absolute_parts cwd p)"
  unfolding absolute_parts_def
  by (rule resolve_parts_all) (auto simp: list_all_iff dest: split_on_no_char)

lemma split_join_parts:
  "list_all plain_part ps \<Longrightarrow> ps \<noteq> [] \<Longrightarrow> split_on (CHR ''/'') (join_with ''/'' ps) = ps"
  by (rule split_join) (auto simp: list_all_iff plain_part_def)

lemma resolve_parts_append: "resolve_parts acc (ps @ qs) = resolve_parts (rev (resolve_parts acc ps)) qs"
  by (induction acc ps rule: resolve_parts.induct) auto

lemma absolute_parts_resolve [simp]: "absolute_parts cwd' (resolve cwd p) = absolute_parts cwd p"
proof (cases "absolute_parts cwd p = []")
  case True
  then show ?thesis unfolding resolve_def absolute_parts_def [of cwd'] by (simp add: starts_with_prefix)
next
  case False
  have "split_on (CHR ''/'') (resolve cwd p) = [] # absolute_parts cwd p"
    unfolding resolve_def using split_join_parts [OF absolute_parts_plain False] by simp
  then show ?thesis
    unfolding absolute_parts_def [of cwd' "resolve cwd p"]
    using resolve_parts_plain [OF absolute_parts_plain [of cwd p], of "[]"]
    by (simp add: resolve_def starts_with_prefix)
qed

lemma relative_parts_append: "relative_parts xs (xs @ ys) = ys"
  by (induction xs) auto

text \<open>What the check of a candidate admits.\<close>

definition safe_candidate :: "string \<Rightarrow> bool" where
  "safe_candidate p \<longleftrightarrow>
     p \<noteq> [] \<and> CHR 0x00 \<notin> set p \<and> CHR 0x5C \<notin> set p \<and> \<not> drive_letter p \<and>
     (p = ''.'' \<or> list_all plain_part (split_on (CHR ''/'') p))"

lemma slash_first: "prefix ''/'' p \<Longrightarrow> \<not> list_all plain_part (split_on (CHR ''/'') p)"
  by (cases p) (auto simp: plain_part_def)

lemma candidate_iff: "assertRelativeCandidate p = (if safe_candidate p then Inr () else Inl UnsafePath)"
proof -
  have e: "list_all plain_part (split_on (CHR ''/'') p) \<longleftrightarrow>
      \<not> list_ex (\<lambda>part. part = [] \<or> part = ''.'' \<or> part = ''..'') (split_on (CHR ''/'') p)"
    using split_on_no_char [of _ "CHR ''/''" p] by (auto simp: list_all_iff list_ex_iff plain_part_def)
  show ?thesis
    using slash_first [of p]
    unfolding assertRelativeCandidate_def safe_candidate_def e
    by (auto simp: rbind_guard guard_def str_simps)
qed

lemma safe_candidate_parts:
  "safe_candidate p \<Longrightarrow> p \<noteq> ''.'' \<Longrightarrow> list_all plain_part (split_on (CHR ''/'') p)"
  by (simp add: safe_candidate_def)

lemma candidate_inside:
  assumes "safe_candidate p" "p \<noteq> ''.''" "starts_with ''/'' root"
  shows "absolute_parts root p = absolute_parts cwd root @ split_on (CHR ''/'') p"
proof -
  have np: "\<not> starts_with ''/'' p"
    using assms slash_first by (auto simp: starts_with_prefix safe_candidate_def)
  have "absolute_parts root p = resolve_parts [] (split_on (CHR ''/'') (root @ ''/'' @ p))"
    using np by (simp add: absolute_parts_def)
  also have "\<dots> = resolve_parts [] (split_on (CHR ''/'') root @ split_on (CHR ''/'') p)"
    using split_on_append [of "CHR ''/''" root p] by simp
  also have "\<dots> = absolute_parts cwd root @ split_on (CHR ''/'') p"
    using assms(3) resolve_parts_plain [OF safe_candidate_parts [OF assms(1,2)]]
    by (simp add: resolve_parts_append absolute_parts_def)
  finally show ?thesis .
qed

lemma resolve_absolute [simp]: "starts_with ''/'' (resolve cwd p)"
  by (simp add: resolve_def starts_with_def)

lemma relativeSafePath_iff:
  "relativeSafePath cwd root p =
     (if root \<noteq> [] \<and> CHR 0x00 \<notin> set root \<and> safe_candidate p then Inr p else Inl UnsafePath)"
proof (cases "safe_candidate p \<and> p \<noteq> ''.''")
  case True
  let ?r = "relative cwd (resolve cwd root) (resolve (resolve cwd root) p)"
  have parts: "absolute_parts (resolve cwd root) p = absolute_parts cwd root @ split_on (CHR ''/'') p"
    using candidate_inside [of p "resolve cwd root" cwd] True by simp
  have "?r = join_with ''/'' (split_on (CHR ''/'') p)"
    unfolding relative_def by (simp add: parts relative_parts_append)
  then have r: "?r = p" by simp
  have "p \<noteq> ''..''" "\<not> starts_with ''../'' p" "\<not> starts_with ''/'' p"
    using True slash_first [of p] split_on_append [of "CHR ''/''" "''..''"]
    by (auto simp: starts_with_prefix safe_candidate_def plain_part_def prefix_def)
  then show ?thesis
    using True by (auto simp: relativeSafePath_def candidate_iff r Let_def rbind_guard has_char_in)
next
  case False
  then show ?thesis by (auto simp: relativeSafePath_def candidate_iff rbind_guard has_char_in)
qed



section \<open>Binary search\<close>

lemma compare_strings_less [simp]: "compare_strings a b < 0 \<longleftrightarrow> a < b"
  by (simp add: compare_strings_def)

lemma lowerBound_loop_spec:
  assumes "sorted xs" "low \<le> high" "high \<le> length xs"
    "\<forall>i < low. xs ! i < t" "\<forall>i. high \<le> i \<longrightarrow> i < length xs \<longrightarrow> t \<le> xs ! i"
  shows "lowerBound_loop xs t low high \<le> length xs \<and> (\<forall>i < lowerBound_loop xs t low high. xs ! i < t) \<and>
    (\<forall>i. lowerBound_loop xs t low high \<le> i \<longrightarrow> i < length xs \<longrightarrow> t \<le> xs ! i)"
  using assms
proof (induction xs t low high rule: lowerBound_loop.induct)
  case (1 xs target low high)
  let ?m = "low + (high - low) div 2"
  show ?case
  proof (cases "low < high")
    case False
    then show ?thesis using 1(4-7) by (subst (1 2 3) lowerBound_loop.simps) auto
  next
    case True
    then have m: "?m < high" "low \<le> ?m" "?m < length xs" using 1(5) by auto
    show ?thesis
    proof (cases "xs ! ?m < target")
      case less: True
      have "\<forall>i < ?m + 1. xs ! i < target"
      proof (intro allI impI)
        fix i assume "i < ?m + 1"
        then have "xs ! i \<le> xs ! ?m" using sorted_nth_mono [OF 1(3)] m(3) by simp
        then show "xs ! i < target" using less by (rule le_less_trans)
      qed
      moreover have "lowerBound_loop xs target low high = lowerBound_loop xs target (?m + 1) high"
        using True less by (subst lowerBound_loop.simps) simp
      moreover have "compare_strings (xs ! ?m) target < 0" "?m + 1 \<le> high" using less m(1) by simp_all
      ultimately show ?thesis using 1(1) [OF True refl _ 1(3) _ 1(5) _ 1(7)] by presburger
    next
      case ge: False
      have "\<forall>i. ?m \<le> i \<longrightarrow> i < length xs \<longrightarrow> target \<le> xs ! i"
      proof (intro allI impI)
        fix i assume "?m \<le> i" "i < length xs"
        then have "xs ! ?m \<le> xs ! i" using sorted_nth_mono [OF 1(3)] by simp
        then show "target \<le> xs ! i" using ge by simp
      qed
      moreover have "lowerBound_loop xs target low high = lowerBound_loop xs target low ?m"
        using True ge by (subst lowerBound_loop.simps) simp
      moreover have "\<not> compare_strings (xs ! ?m) target < 0" "?m \<le> length xs" using ge m(3) by simp_all
      ultimately show ?thesis using 1(2) [OF True refl _ 1(3) m(2) _ 1(6)] by presburger
    qed
  qed
qed

lemmas lowerBound_spec = lowerBound_loop_spec [of xs 0 "length xs" t for xs t, folded lowerBound_def, simplified]

lemma prefix_between: "t \<le> y \<Longrightarrow> y \<le> t @ z \<Longrightarrow> prefix t y" for t y z :: string
proof (induction t arbitrary: y)
  case Nil
  then show ?case by simp
next
  case (Cons a t)
  then show ?case by (cases y) (auto)
qed

text \<open>The element found at the lower bound answers whether a prefix occurs.\<close>

lemma lowerBound_prefix:
  assumes "sorted xs"
  shows "(case get_at xs (lowerBound xs t) of None \<Rightarrow> False | Some y \<Rightarrow> starts_with t y) \<longleftrightarrow>
    (\<exists>x \<in> set xs. prefix t x)"
proof -
  let ?i = "lowerBound xs t"
  note sp = lowerBound_spec [OF assms, of t]
  have "prefix t (xs ! ?i)" "?i < length xs" if x: "x \<in> set xs" "prefix t x" for x
  proof -
    obtain j where j: "j < length xs" "xs ! j = x" using x(1) by (auto simp: in_set_conv_nth)
    obtain z where z: "x = t @ z" using x(2) by (auto simp: prefix_def)
    have tx: "t \<le> x" unfolding z by (induction t) auto
    have ij: "?i \<le> j" using sp j tx by (meson not_le)
    then show lt: "?i < length xs" using j(1) by simp
    have "xs ! ?i \<le> t @ z" using sorted_nth_mono [OF assms ij j(1)] j(2) z by simp
    moreover have "t \<le> xs ! ?i" using sp lt by simp
    ultimately show "prefix t (xs ! ?i)" by (rule prefix_between [rotated])
  qed
  then show ?thesis by (auto simp: get_at_def starts_with_prefix)
qed

lemma sorted_compare_strings: "sorted (sort_cmp compare_strings xs)"
proof -
  have "(\<lambda>a b. compare_strings a b \<le> 0) = (\<le>)"
    by (auto simp: compare_strings_def fun_eq_iff)
  then show ?thesis using strings.sorted_sort_cmp [of xs] by simp
qed

section \<open>Ancestors\<close>

definition below :: "string \<Rightarrow> string \<Rightarrow> bool" where
  "below a b \<longleftrightarrow> prefix (a @ ''/'') b"

lemma slash_prefixes_iff: "q \<in> set (slash_prefixes p) \<longleftrightarrow> below q p"
proof (induction p rule: slash_prefixes.induct)
  case (1 p)
  show ?case
  proof (cases "CHR ''/'' \<in> set p")
    case False
    then have "\<not> below q p" by (auto simp: below_def prefix_def)
    then show ?thesis using False by (simp add: slash_prefixes.simps [of p] has_char_in)
  next
    case True
    obtain s where s: "p = slice_parent p @ CHR ''/'' # s" "CHR ''/'' \<notin> set s"
      using slice_parent_split [OF True] by blast
    have "below q p \<longleftrightarrow> q = slice_parent p \<or> below q (slice_parent p)"
    proof
      assume "below q p"
      then obtain z where z: "p = q @ CHR ''/'' # z" by (auto simp: below_def prefix_def)
      then have "q @ CHR ''/'' # z = slice_parent p @ CHR ''/'' # s" using s(1) by simp
      then obtain us where "q = slice_parent p @ us \<and> us @ CHR ''/'' # z = CHR ''/'' # s \<or>
          q @ us = slice_parent p \<and> CHR ''/'' # z = us @ CHR ''/'' # s"
        by (auto simp: append_eq_append_conv2)
      then show "q = slice_parent p \<or> below q (slice_parent p)"
      proof
        assume "q = slice_parent p @ us \<and> us @ CHR ''/'' # z = CHR ''/'' # s"
        then show ?thesis using s(2) by (cases us) auto
      next
        assume a: "q @ us = slice_parent p \<and> CHR ''/'' # z = us @ CHR ''/'' # s"
        show ?thesis
        proof (cases us)
          case Nil
          then show ?thesis using a by simp
        next
          case (Cons c us')
          then have "slice_parent p = (q @ ''/'') @ us'" using a by auto
          then show ?thesis unfolding below_def by (metis prefixI)
        qed
      qed
    next
      assume "q = slice_parent p \<or> below q (slice_parent p)"
      then show "below q p"
      proof
        assume "q = slice_parent p"
        then show ?thesis unfolding below_def prefix_def using s(1) by (intro exI [of _ s]) simp
      next
        assume "below q (slice_parent p)"
        moreover have "prefix (slice_parent p) p" using s(1) by (metis prefixI)
        ultimately show ?thesis unfolding below_def by (rule prefix_order.trans)
      qed
    qed
    then show ?thesis
      using 1 True by (simp add: slash_prefixes.simps [of p] has_char_in)
  qed
qed

text \<open>C34 (sets_overlap): Two sets of valid paths overlap exactly when a path of one is a path of the other, or lies in a directory
  the other names; the binary search misses none.\<close>

theorem sets_overlap:
  "pathSetsOverlap L R =
     (if list_all safe_candidate (L @ R)
      then Inr (list_ex (\<lambda>l. list_ex (\<lambda>r. l = r \<or> below l r \<or> below r l) R) L) else Inl UnsafePath)"
proof -
  have v: "map_res assertRelativeCandidate xs =
      (if list_all safe_candidate xs then Inr (map (\<lambda>_. ()) xs) else Inl UnsafePath)" for xs
    by (induction xs) (auto simp: candidate_iff)
  let ?s = "sort_cmp compare_strings (js_set R)"
  have "overlaps_one (js_set R) ?s = (\<lambda>l. list_ex (\<lambda>r. l = r \<or> below l r \<or> below r l) R)"
    unfolding fun_eq_iff overlaps_one_def lowerBound_prefix [OF sorted_compare_strings]
    by (auto simp: list_ex_iff strings.set_sort_cmp slash_prefixes_iff below_def)
  then show ?thesis by (simp add: pathSetsOverlap_def v Let_def)
qed

section \<open>Orders\<close>

lemma path_order_comparator: "d = 1 \<or> d = -1 \<Longrightarrow> comparator (path_order d)"
  by unfold_locales (auto simp: path_order_def Let_def compare_strings_def split: if_splits)

interpretation deletes: comparator "path_order (-1)"
  by (rule path_order_comparator) simp

interpretation writes: comparator "path_order 1"
  by (rule path_order_comparator) simp

lemma depth_below:
  assumes "below a b" "safe_candidate b"
  shows "pathDepth a < pathDepth b"
proof -
  obtain s where s: "b = a @ CHR ''/'' # s" "split_on (CHR ''/'') b = split_on (CHR ''/'') a @ split_on (CHR ''/'') s"
    using assms(1) prefix_parts [of a "CHR ''/''" b] by (auto simp: below_def)
  have "b \<noteq> ''.''" using s(1) by (cases a) auto
  moreover have "0 < length (split_on (CHR ''/'') s)" "0 < length (split_on (CHR ''/'') a)" by auto
  ultimately show ?thesis unfolding pathDepth_def s(2) by simp
qed

lemma map_res_candidates: "map_res assertRelativeCandidate xs = Inr us \<Longrightarrow> list_all safe_candidate xs"
  by (induction xs arbitrary: us) (auto simp: candidate_iff split: if_splits)

lemma sortPaths_facts:
  assumes "sortPaths d ps = Inr qs" "d = 1 \<or> d = -1"
  shows "mset qs = mset ps" "sorted_wrt (\<lambda>a b. path_order d a b \<le> 0) qs" "list_all safe_candidate qs"
proof -
  note cmp = path_order_comparator [OF assms(2)]
  obtain us where u: "map_res assertRelativeCandidate ps = Inr us" "qs = sort_cmp (path_order d) ps"
    using assms(1) by (auto simp: sortPaths_def)
  show m: "mset qs = mset ps" "sorted_wrt (\<lambda>a b. path_order d a b \<le> 0) qs"
    unfolding u(2) by (rule comparator.mset_sort_cmp [OF cmp], rule comparator.sorted_sort_cmp [OF cmp])
  show "list_all safe_candidate qs"
    using map_res_candidates [OF u(1)] mset_eq_setD [OF m(1)] by (simp add: list_all_iff)
qed

lemma path_order_depth:
  "path_order (-1) a b \<le> 0 \<Longrightarrow> pathDepth b \<le> pathDepth a"
  "path_order 1 a b \<le> 0 \<Longrightarrow> pathDepth a \<le> pathDepth b"
  by (auto simp: path_order_def Let_def split: if_splits)

lemma delete_sorted:
  assumes "sortDeletePaths ps = Inr qs"
  shows "mset qs = mset ps" "list_all safe_candidate qs" "sorted_wrt (\<lambda>a b. \<not> below a b) qs"
proof -
  note f = sortPaths_facts [OF assms [unfolded sortDeletePaths_def]]
  show "mset qs = mset ps" "list_all safe_candidate qs" using f by simp_all
  then show "sorted_wrt (\<lambda>a b. \<not> below a b) qs"
    by (intro sorted_wrt_mono_rel [OF _ f(2)]) (use path_order_depth(1) depth_below in \<open>fastforce simp: list_all_iff\<close>)+
qed

lemma write_sorted:
  assumes "sortWritePaths ps = Inr qs"
  shows "mset qs = mset ps" "list_all safe_candidate qs" "sorted_wrt (\<lambda>a b. \<not> below b a) qs"
proof -
  note f = sortPaths_facts [OF assms [unfolded sortWritePaths_def]]
  show "mset qs = mset ps" "list_all safe_candidate qs" using f by simp_all
  then show "sorted_wrt (\<lambda>a b. \<not> below b a) qs"
    by (intro sorted_wrt_mono_rel [OF _ f(2)]) (use path_order_depth(2) depth_below in \<open>fastforce simp: list_all_iff\<close>)+
qed

text \<open>C32 (removal_order): The order of deletions keeps every path of the plan and puts each path before the directories it lies in;
  the order of writes puts each directory before what lies in it.\<close>

theorem removal_order:
  "(\<forall>qs. sortDeletePaths ps = Inr qs \<longrightarrow> mset qs = mset ps \<and> sorted_wrt (\<lambda>a b. \<not> below a b) qs) \<and>
   (\<forall>qs. sortWritePaths ps = Inr qs \<longrightarrow> mset qs = mset ps \<and> sorted_wrt (\<lambda>a b. \<not> below b a) qs)"
  using delete_sorted(1,3) write_sorted(1,3) by blast

lemma removal_order_witness:
  "sortDeletePaths [''a'', ''a/b'', ''c''] = Inr [''a/b'', ''a'', ''c''] \<and>
   sorted_wrt (\<lambda>a b. \<not> below a b) [''a/b'', ''a'', ''c'']"
proof -
  have e: "sortDeletePaths [''a'', ''a/b'', ''c''] = Inr [''a/b'', ''a'', ''c'']"
    by (simp add: sortDeletePaths_def sortPaths_def candidate_iff safe_candidate_def drive_letter_def plain_part_def
        sort_cmp_def path_order_def pathDepth_def compare_strings_def)
  show ?thesis using conjunct1 [OF removal_order] e by blast
qed

section \<open>Directories on the way\<close>

text \<open>A component that does not exist has nothing below it.\<close>

definition coherent_lstat :: "lstat \<Rightarrow> bool" where
  "coherent_lstat lstat \<longleftrightarrow> (\<forall>d part. lstat d = Inl ''ENOENT'' \<longrightarrow> lstat (d @ [part]) = Inl ''ENOENT'')"

definition parent_ok :: "errno + stat_kind \<Rightarrow> bool" where
  "parent_ok r \<longleftrightarrow> r = Inl ''ENOENT'' \<or> r = Inr StatDirectory"

definition leaf_ok :: "errno + stat_kind \<Rightarrow> bool" where
  "leaf_ok r \<longleftrightarrow> r = Inl ''ENOENT'' \<or> is_ok r"

lemma check_parent_ok: "check_parent st = Inr u \<longleftrightarrow> st = StatDirectory"
  by (cases st) (auto simp: check_parent_def)

lemma below_absent:
  "coherent_lstat lstat \<Longrightarrow> lstat d = Inl ''ENOENT'' \<Longrightarrow> lstat (d @ parts) = Inl ''ENOENT''"
proof (induction parts arbitrary: d)
  case (Cons p parts)
  then have "lstat (d @ [p]) = Inl ''ENOENT''" by (simp add: coherent_lstat_def)
  from Cons.IH [OF Cons.prems(1) this] show ?case by simp
qed simp

lemma walk_components_ok:
  assumes "coherent_lstat lstat" "parts \<noteq> []"
  shows "walk_components lstat cur parts = Inr () \<longleftrightarrow>
    (\<forall>i. 0 < i \<longrightarrow> i < length parts \<longrightarrow> parent_ok (lstat (cur @ take i parts))) \<and> leaf_ok (lstat (cur @ parts))"
  using assms(2)
proof (induction parts arbitrary: cur)
  case Nil
  then show ?case by simp
next
  case (Cons p parts)
  have shift: "(\<forall>i. 0 < i \<longrightarrow> i < length (p # parts) \<longrightarrow> parent_ok (lstat (cur @ take i (p # parts)))) \<longleftrightarrow>
      (parts \<noteq> [] \<longrightarrow> parent_ok (lstat (cur @ [p]))) \<and>
      (\<forall>i. 0 < i \<longrightarrow> i < length parts \<longrightarrow> parent_ok (lstat ((cur @ [p]) @ take i parts)))"
    (is "?l \<longleftrightarrow> ?a \<and> ?b")
  proof
    assume l: ?l
    have ?a using l [rule_format, of 1] by auto
    moreover have "parent_ok (lstat ((cur @ [p]) @ take i parts))" if "0 < i" "i < length parts" for i
      using l [rule_format, of "Suc i"] that by simp
    ultimately show "?a \<and> ?b" by blast
  next
    assume r: "?a \<and> ?b"
    have "parent_ok (lstat (cur @ take i (p # parts)))" if i: "0 < i" "i < length (p # parts)" for i
    proof (cases "i = 1")
      case True
      then show ?thesis using r i by auto
    next
      case False
      then obtain j where "i = Suc j" "0 < j" using i(1) by (cases i) auto
      then show ?thesis using conjunct2 [OF r, rule_format, of j] i(2) by simp
    qed
    then show ?l by blast
  qed
  show ?case
  proof (cases "lstat (cur @ [p])")
    case (Inl e)
    have "leaf_ok (lstat (cur @ [p] @ parts))" "parent_ok (lstat ((cur @ [p]) @ take i parts))"
      if "e = ''ENOENT''" for i
      using below_absent [OF assms(1), of "cur @ [p]"] Inl that by (simp_all add: leaf_ok_def parent_ok_def)
    then show ?thesis
      unfolding shift using Inl
      by (cases "e = ''ENOENT''"; cases parts) (auto simp: parent_ok_def leaf_ok_def)
  next
    case (Inr st)
    show ?thesis
    proof (cases "parts = []")
      case True
      then show ?thesis using Inr by (simp add: leaf_ok_def)
    next
      case False
      then show ?thesis
        unfolding shift using Inr Cons.IH [OF False, of "cur @ [p]"]
        by (cases st) (simp_all add: check_parent_def parent_ok_def)
    qed
  qed
qed

lemma check_directories_ok:
  "check_directories lstat base ds = Inr () \<longleftrightarrow> (\<forall>d \<in> set ds. parent_ok (lstat (base @ split_on (CHR ''/'') d)))"
proof (induction ds)
  case (Cons d ds)
  show ?case
  proof (cases "lstat (base @ split_on (CHR ''/'') d)")
    case (Inl e)
    then show ?thesis using Cons by (auto simp: parent_ok_def)
  next
    case (Inr st)
    then show ?thesis using Cons by (cases st) (auto simp: parent_ok_def check_parent_def)
  qed
qed simp


lemma check_directories_result: "check_directories lstat base ds = Inr u \<longleftrightarrow> check_directories lstat base ds = Inr ()"
  by simp

lemma collect_directories_iff:
  "collect_directories cwd root ps =
     (if ps = [] \<or> root \<noteq> [] \<and> CHR 0x00 \<notin> set root \<and> list_all safe_candidate ps
      then Inr (concat (map (\<lambda>p. if p = ''.'' then [] else parent_directories p) ps)) else Inl UnsafePath)"
  by (induction ps) (auto simp: relativeSafePath_iff rbind_guard)

lemma parent_directories_parts:
  assumes "list_all plain_part (split_on (CHR ''/'') p)"
  shows "split_on (CHR ''/'') ` set (parent_directories p) =
    (\<lambda>i. take i (split_on (CHR ''/'') p)) ` {i. 0 < i \<and> i < length (split_on (CHR ''/'') p)}"
proof -
  let ?ps = "split_on (CHR ''/'') p"
  have "split_on (CHR ''/'') (join_with ''/'' (take i ?ps)) = take i ?ps" if "0 < i" "i < length ?ps" for i
    by (rule split_join_parts) (use assms that in \<open>auto simp: list_all_iff dest: in_set_takeD\<close>)
  then show ?thesis
    unfolding parent_directories_def Let_def set_map image_image set_upt
    by (intro image_cong) auto
qed

text \<open>C33 (parents_batch): On a file system in which nothing lies below a component that does not exist, checking the parent
  directories of many paths at once accepts them exactly when checking each path by itself does; the
  latter looks at the path itself too, which the former leaves to its callers.\<close>

theorem parents_batch:
  assumes "coherent_lstat lstat" "root \<noteq> []" "CHR 0x00 \<notin> set root"
  shows "list_all (\<lambda>p. assertNoSymlinkEscape cwd lstat root p = Inr ()) ps \<longleftrightarrow>
    assertNoSymlinkParents lc cwd lstat root ps = Inr () \<and>
    list_all (\<lambda>p. p = ''.'' \<or> leaf_ok (lstat (absolute_parts cwd root @ split_on (CHR ''/'') p))) ps"
proof (cases "list_all safe_candidate ps")
  case False
  then have "ps \<noteq> []" "collect_directories cwd root ps = Inl UnsafePath"
    by (auto simp: collect_directories_iff)
  then have b: "assertNoSymlinkParents lc cwd lstat root ps \<noteq> Inr ()"
    by (simp add: assertNoSymlinkParents_def)
  obtain p where p: "p \<in> set ps" "\<not> safe_candidate p" using False by (auto simp: list_all_iff)
  then have "assertNoSymlinkEscape cwd lstat root p \<noteq> Inr ()"
    by (simp add: assertNoSymlinkEscape_def relativeSafePath_iff)
  then show ?thesis using b p(1) unfolding list_all_iff by blast
next
  case True
  let ?base = "absolute_parts cwd root" and ?parts = "split_on (CHR ''/'')"
  let ?dirs = "\<lambda>p. if p = ''.'' then [] else parent_directories p"
  have one: "assertNoSymlinkEscape cwd lstat root p = Inr () \<longleftrightarrow>
      (\<forall>d \<in> set (?dirs p). parent_ok (lstat (?base @ ?parts d))) \<and> (p = ''.'' \<or> leaf_ok (lstat (?base @ ?parts p)))"
    if "safe_candidate p" for p
  proof (cases "p = ''.''")
    case True
    then show ?thesis using that assms(2,3) by (simp add: assertNoSymlinkEscape_def relativeSafePath_iff)
  next
    case False
    have "(\<forall>d \<in> set (parent_directories p). parent_ok (lstat (?base @ ?parts d))) \<longleftrightarrow>
        (\<forall>x \<in> ?parts ` set (parent_directories p). parent_ok (lstat (?base @ x)))" by blast
    also have "\<dots> \<longleftrightarrow> (\<forall>i. 0 < i \<longrightarrow> i < length (?parts p) \<longrightarrow> parent_ok (lstat (?base @ take i (?parts p))))"
      unfolding parent_directories_parts [OF safe_candidate_parts [OF that False]] by blast
    finally show ?thesis
      using False that assms(2,3) walk_components_ok [OF assms(1), of "?parts p" ?base]
      by (simp add: assertNoSymlinkEscape_def relativeSafePath_iff)
  qed
  have batch: "assertNoSymlinkParents lc cwd lstat root ps = Inr () \<longleftrightarrow>
      (\<forall>p \<in> set ps. \<forall>d \<in> set (?dirs p). parent_ok (lstat (?base @ ?parts d)))"
    using True assms(2,3)
    by (simp add: assertNoSymlinkParents_def collect_directories_iff check_directories_ok set_sort_cmp_gen) blast
  show ?thesis using True unfolding list_all_iff batch by (auto simp: one)
qed


definition demo_lstat :: lstat where
  "demo_lstat d = (if d = [] \<or> d = [''r''] \<or> d = [''r'', ''a''] then Inr StatDirectory
     else if d = [''r'', ''l''] then Inr StatSymlink else Inl ''ENOENT'')"

lemma parents_batch_witness:
  "assertNoSymlinkParents compare_strings ''/'' demo_lstat ''/r'' [''a/b'', ''n/x''] = Inr () \<and>
   assertNoSymlinkParents compare_strings ''/'' demo_lstat ''/r'' [''a/b'', ''l/x''] \<noteq> Inr ()"
proof -
  have c: "coherent_lstat demo_lstat"
    by (auto simp: coherent_lstat_def demo_lstat_def append_eq_Cons_conv split: if_splits)
  have r: "absolute_parts ''/'' ''/r'' = [''r'']" by (simp add: absolute_parts_def starts_with_def)
  have e: "assertNoSymlinkEscape ''/'' demo_lstat ''/r'' ''a/b'' = Inr ()"
    "assertNoSymlinkEscape ''/'' demo_lstat ''/r'' ''n/x'' = Inr ()"
    "assertNoSymlinkEscape ''/'' demo_lstat ''/r'' ''l/x'' \<noteq> Inr ()"
    by (simp_all add: assertNoSymlinkEscape_def relativeSafePath_iff safe_candidate_def drive_letter_def plain_part_def
        r demo_lstat_def check_parent_def)
  note b = parents_batch [OF c, of "''/r''" "''/''" _ compare_strings]
  have "list_all (\<lambda>p. p = ''.'' \<or> leaf_ok (demo_lstat (absolute_parts ''/'' ''/r'' @ split_on (CHR ''/'') p))) [''a/b'', ''l/x'']"
    by (simp add: r demo_lstat_def leaf_ok_def)
  then show ?thesis using b [of "[''a/b'', ''n/x'']"] b [of "[''a/b'', ''l/x'']"] e by simp
qed

end
