(* ===== verification/SessionState.thy ===== *)
theory SessionState
  imports Journal PathSafety
begin

text \<open>
  \<open>src/src/session-state.ts\<close>: the session of the host as a tree of entries, of which the branch that
  ends at the current leaf counts; the checkpoints and the cursor that can be trusted on it; and
  writing a cursor so that it survives a crash.

  The entries come from the host as JSON values. A loop that follows parents and keeps the visited
  entries is a recursion that ends because the entries not yet visited become fewer.
\<close>

datatype session_error =
    SE_entry | SE_duplicate | SE_cycle | SE_missing | SE_identity | SE_checkpoint | SE_cursor validation_error
  | SE_no_checkpoint | SE_fs errno | SE_type

record session_entry =
  se_type :: string
  se_id :: string
  se_parent :: "string option"
  se_customType :: "string option"
  se_raw :: jsval

record session_source =
  ss_entries :: "jsval list"
  ss_leaf :: "string option"
  ss_file :: "string option"

text \<open>The names of control entries.\<close>

abbreviation cursor_type :: string where "cursor_type \<equiv> ''pi-undo:cursor''"
abbreviation start_type :: string where "start_type \<equiv> ''pi-undo:start''"
abbreviation checkpoint_type :: string where "checkpoint_type \<equiv> ''pi-undo:checkpoint''"
abbreviation barrier_type :: string where "barrier_type \<equiv> ''pi-undo:barrier''"

section \<open>Session identities\<close>

definition sameSessionIdentity :: "string \<Rightarrow> session_file_identity \<Rightarrow> session_file_identity \<Rightarrow> bool" where
  "sameSessionIdentity cwd l r \<longleftrightarrow>
     resolve cwd (si_path l) = resolve cwd (si_path r) \<and> si_headerChecksum l = si_headerChecksum r"

section \<open>The tree of entries\<close>

definition assertSessionEntry :: "jsval \<Rightarrow> session_error + session_entry" where
  "assertSessionEntry v =
     rbind (guard (is_record v \<and> is_string (fld v ''type'') \<and> is_string (fld v ''id'') \<and> str_of (fld v ''id'') \<noteq> [] \<and>
                   (fld v ''parentId'' = JNull \<or> is_string (fld v ''parentId''))) SE_entry) (\<lambda>_.
     rbind (guard (fld v ''customType'' = JUndef \<or> is_string (fld v ''customType'')) SE_entry) (\<lambda>_.
     Inr \<lparr>se_type = str_of (fld v ''type''), se_id = str_of (fld v ''id''), se_parent = opt_str_of (fld v ''parentId''),
          se_customType = opt_str_of (fld v ''customType''), se_raw = v\<rparr>))"

definition se_data :: "session_entry \<Rightarrow> jsval" where
  "se_data e = fld (se_raw e) ''data''"

definition isUndoControlEntry :: "session_entry \<Rightarrow> bool" where
  "isUndoControlEntry e \<longleftrightarrow>
     se_type e = ''custom'' \<and> (case se_customType e of None \<Rightarrow> False | Some t \<Rightarrow> starts_with ''pi-undo:'' t)"

fun index_entries :: "(string \<times> session_entry) list \<Rightarrow> jsval list \<Rightarrow> session_error + (string \<times> session_entry) list" where
  "index_entries es [] = Inr es"
| "index_entries es (v # vs) =
     rbind (assertSessionEntry v) (\<lambda>e.
     rbind (guard (map_of es (se_id e) = None) SE_duplicate) (\<lambda>_.
     index_entries (es @ [(se_id e, e)]) vs))"

definition entryIndex :: "session_source \<Rightarrow> session_error + (string \<times> session_entry) list" where
  "entryIndex src = index_entries [] (ss_entries src)"

lemma unvisited_less: "map_of es c = Some e \<Longrightarrow> c \<notin> set v \<Longrightarrow> card (fst ` set es - set (c # v)) < card (fst ` set es - set v)"
proof (rule psubset_card_mono)
  assume "map_of es c = Some e" "c \<notin> set v"
  then have "c \<in> fst ` set es - set v" by (force dest: map_of_SomeD)
  then show "fst ` set es - set (c # v) \<subset> fst ` set es - set v" by auto
qed simp

function walk ::
  "(string \<times> session_entry) list \<Rightarrow> string list \<Rightarrow> string option \<Rightarrow> session_error + session_entry list" where
  "walk es visited None = Inr []"
| "walk es visited (Some c) =
     (if c \<in> set visited then Inl SE_cycle
      else (case map_of es c of
        None \<Rightarrow> Inl SE_missing
      | Some e \<Rightarrow> rbind (walk es (c # visited) (se_parent e)) (\<lambda>r. Inr (e # r))))"
  by pat_completeness auto

termination
  by (relation "measure (\<lambda>(es, v, c). card (fst ` set es - set v))") (auto simp: unvisited_less simp del: set_simps)

definition physicalBranch :: "session_source \<Rightarrow> session_error + session_entry list" where
  "physicalBranch src =
     rbind (entryIndex src) (\<lambda>es. rbind (walk es [] (ss_leaf src)) (\<lambda>r. Inr (rev r)))"

definition getActiveBranch :: "session_source \<Rightarrow> session_error + session_entry list" where
  "getActiveBranch src =
     rbind (physicalBranch src) (\<lambda>b. Inr (filter (\<lambda>e. \<not> isUndoControlEntry e) b))"

function leaf_from ::
  "(string \<times> session_entry) list \<Rightarrow> string list \<Rightarrow> string option \<Rightarrow> session_error + string option" where
  "leaf_from es visited None = Inr None"
| "leaf_from es visited (Some c) =
     (if c \<in> set visited then Inl SE_cycle
      else (case map_of es c of
        None \<Rightarrow> Inl SE_missing
      | Some e \<Rightarrow> if \<not> isUndoControlEntry e then Inr (Some (se_id e)) else leaf_from es (c # visited) (se_parent e)))"
  by pat_completeness auto

termination
  by (relation "measure (\<lambda>(es, v, c). card (fst ` set es - set v))") (auto simp: unvisited_less simp del: set_simps)

definition logicalLeafFrom :: "(string \<times> session_entry) list \<Rightarrow> string option \<Rightarrow> session_error + string option" where
  "logicalLeafFrom es start = leaf_from es [] start"

definition getLogicalLeafId :: "session_source \<Rightarrow> session_error + string option" where
  "getLogicalLeafId src = rbind (entryIndex src) (\<lambda>es. logicalLeafFrom es (ss_leaf src))"

section \<open>Checkpoints\<close>

definition is_plain :: "jsval \<Rightarrow> bool" where
  "is_plain v = (case v of JObj _ \<Rightarrow> True | _ \<Rightarrow> False)"

definition sorted_keys :: "jsval \<Rightarrow> string" where
  "sorted_keys v = join_with [CHR 0x00] (sort_cmp compare_strings (map fst (props v)))"

definition isEntryId :: "jsval \<Rightarrow> bool" where
  "isEntryId v \<longleftrightarrow> is_string v \<and> str_of v \<noteq> [] \<and> \<not> has_char (CHR 0x00) (str_of v)"

definition isChecksum :: "jsval \<Rightarrow> bool" where
  "isChecksum v \<longleftrightarrow> is_string v \<and> is_checksum (str_of v)"

definition isManifestId :: "jsval \<Rightarrow> bool" where
  "isManifestId v = isChecksum v"

definition isCanonicalRelativePath :: "string \<Rightarrow> bool" where
  "isCanonicalRelativePath path =
     (if path = ''.'' then True
      else if path = [] \<or> starts_with ''/'' path \<or> ends_with ''/'' path \<or> has_char BSL path \<or> has_char (CHR 0x00) path \<or>
              drive_prefix path then False
      else list_all (\<lambda>part. part \<noteq> [] \<and> part \<noteq> ''.'' \<and> part \<noteq> ''..'' \<and> to_lower part \<noteq> ''.git'') (split_on (CHR ''/'') path))"

fun scan_changed_paths :: "string option \<Rightarrow> jsval list \<Rightarrow> bool" where
  "scan_changed_paths prev [] = True"
| "scan_changed_paths prev (p # ps) =
     (if p = JHole \<or> \<not> is_string p \<or> \<not> isCanonicalRelativePath (str_of p) \<or> (\<exists>q \<in> set_option prev. str_of p \<le> q)
      then False else scan_changed_paths (Some (str_of p)) ps)"

definition isCanonicalChangedPaths :: "jsval \<Rightarrow> bool" where
  "isCanonicalChangedPaths v \<longleftrightarrow> is_array v \<and> scan_changed_paths None (arr_of v)"

definition assertIdentity :: "jsval \<Rightarrow> session_error + unit" where
  "assertIdentity v =
     guard (is_plain v \<and> sorted_keys v = ''headerChecksum'' @ [CHR 0x00] @ ''path'' \<and>
            is_string (fld v ''path'') \<and> str_of (fld v ''path'') \<noteq> [] \<and> \<not> has_char (CHR 0x00) (str_of (fld v ''path'')) \<and>
            isChecksum (fld v ''headerChecksum'')) SE_identity"

definition checkpoint_fields :: "string list" where
  "checkpoint_fields =
     [''afterManifestId'', ''beforeManifestId'', ''changedPaths'', ''checkpointId'', ''checksum'', ''endLeafId'',
      ''rawPrompt'', ''runId'', ''schemaVersion'', ''sessionIdentity'', ''startEntryId'', ''userEntryId'']"

definition checkpointFromEntry :: "hash \<Rightarrow> string \<Rightarrow> session_entry \<Rightarrow> session_file_identity \<Rightarrow> session_error + checkpoint_record" where
  "checkpointFromEntry H cwd e expected =
     (let r = se_data e in
      rbind (guard (is_plain r) SE_checkpoint) (\<lambda>_.
      rbind (guard (sorted_keys r = join_with [CHR 0x00] checkpoint_fields \<and> fld r ''schemaVersion'' = jint 1 \<and>
                    isEntryId (fld r ''checkpointId'') \<and> isEntryId (fld r ''runId'') \<and> isEntryId (fld r ''startEntryId'') \<and>
                    isEntryId (fld r ''userEntryId'') \<and> isEntryId (fld r ''endLeafId'') \<and> is_string (fld r ''rawPrompt'') \<and>
                    isManifestId (fld r ''beforeManifestId'') \<and> isManifestId (fld r ''afterManifestId'') \<and>
                    isCanonicalChangedPaths (fld r ''changedPaths'') \<and> isChecksum (fld r ''checksum'')) SE_checkpoint) (\<lambda>_.
      rbind (assertIdentity (fld r ''sessionIdentity'')) (\<lambda>_.
      rbind (guard (sameSessionIdentity cwd (identity_of (fld r ''sessionIdentity'')) expected) SE_checkpoint) (\<lambda>_.
      case checksum_json H (without ''checksum'' r) of
        None \<Rightarrow> Inl SE_type
      | Some c \<Rightarrow> rbind (guard (fld r ''checksum'' = JStr c) SE_checkpoint) (\<lambda>_. Inr (checkpoint_of r)))))))"

definition isMessageRole :: "session_entry \<Rightarrow> string \<Rightarrow> bool" where
  "isMessageRole e role \<longleftrightarrow>
     se_type e = ''message'' \<and> is_record (fld (se_raw e) ''message'') \<and> fld (fld (se_raw e) ''message'') ''role'' = JStr role"

text \<open>\<open>positions\<close> and \<open>entries\<close> are read off the branch, whose entries have distinct identifiers.\<close>

fun position :: "session_entry list \<Rightarrow> string \<Rightarrow> nat option" where
  "position [] i = None"
| "position (e # es) i = (case position es i of Some n \<Rightarrow> Some (Suc n) | None \<Rightarrow> if se_id e = i then Some 0 else None)"

definition branch_map :: "session_entry list \<Rightarrow> (string \<times> session_entry) list" where
  "branch_map b = rev (map (\<lambda>e. (se_id e, e)) b)"

definition isCheckpointChainTrusted ::
  "checkpoint_record \<Rightarrow> string \<Rightarrow> session_entry list \<Rightarrow> session_error + bool" where
  "isCheckpointChainTrusted cp entryId b =
     (let entries = branch_map b in
      case (position b (cp_startEntryId cp), position b (cp_userEntryId cp), position b (cp_endLeafId cp), position b entryId) of
        (Some start, Some user, Some end_pos, Some checkpointEntry) \<Rightarrow>
          (case (map_of entries (cp_startEntryId cp), map_of entries (cp_userEntryId cp), map_of entries (cp_endLeafId cp),
                 map_of entries entryId) of
             (Some startEntry, Some userEntry, Some endEntry, Some checkpointRecord) \<Rightarrow>
               if start < user \<and> user \<le> end_pos \<and> end_pos < checkpointEntry \<and>
                  se_type startEntry = ''custom'' \<and> se_customType startEntry = Some start_type \<and>
                  se_parent userEntry = Some (cp_startEntryId cp) \<and> isMessageRole userEntry ''user'' \<and>
                  \<not> isUndoControlEntry endEntry
               then rbind (logicalLeafFrom entries (se_parent checkpointRecord)) (\<lambda>l. Inr (l = Some (cp_endLeafId cp)))
               else Inr False
           | _ \<Rightarrow> Inr False)
      | _ \<Rightarrow> Inr False)"

definition candidate :: "hash \<Rightarrow> string \<Rightarrow> session_file_identity \<Rightarrow> session_entry list \<Rightarrow> session_entry \<Rightarrow> checkpoint_record option" where
  "candidate H cwd identity b e =
     (if se_type e \<noteq> ''custom'' \<or> se_customType e \<noteq> Some checkpoint_type then None
      else (case checkpointFromEntry H cwd e identity of
        Inl _ \<Rightarrow> None
      | Inr cp \<Rightarrow> (case isCheckpointChainTrusted cp (se_id e) b of Inl _ \<Rightarrow> None | Inr ok \<Rightarrow> if ok then Some cp else None)))"

definition getCheckpoints ::
  "hash \<Rightarrow> string \<Rightarrow> session_source \<Rightarrow> session_file_identity \<Rightarrow> session_error + checkpoint_record list" where
  "getCheckpoints H cwd src identity =
     rbind (assertIdentity (json_of_identity identity)) (\<lambda>_.
     rbind (physicalBranch src) (\<lambda>b.
     let candidates = List.map_filter (candidate H cwd identity b) b in
     Inr (filter (\<lambda>cp. length (filter (\<lambda>c. cp_checkpointId c = cp_checkpointId cp) candidates) = 1) candidates)))"

definition find_checkpoint :: "hash \<Rightarrow> string \<Rightarrow> session_source \<Rightarrow> string \<Rightarrow> session_file_identity \<Rightarrow> session_error + checkpoint_record" where
  "find_checkpoint H cwd src checkpointId identity =
     rbind (getCheckpoints H cwd src identity) (\<lambda>cps.
     case find (\<lambda>c. cp_checkpointId c = checkpointId) cps of None \<Rightarrow> Inl SE_no_checkpoint | Some c \<Rightarrow> Inr c)"

definition findUserEntry :: "hash \<Rightarrow> string \<Rightarrow> session_source \<Rightarrow> string \<Rightarrow> session_file_identity \<Rightarrow> session_error + string" where
  "findUserEntry H cwd src checkpointId identity =
     rbind (find_checkpoint H cwd src checkpointId identity) (\<lambda>c. Inr (cp_userEntryId c))"

definition findTargetManifest :: "hash \<Rightarrow> string \<Rightarrow> session_source \<Rightarrow> string \<Rightarrow> session_file_identity \<Rightarrow> session_error + manifest_id" where
  "findTargetManifest H cwd src targetId identity =
     rbind (find_checkpoint H cwd src targetId identity) (\<lambda>c. Inr (cp_afterManifestId c))"

section \<open>The cursor\<close>

fun last_cursor :: "hash \<Rightarrow> string \<Rightarrow> session_file_identity \<Rightarrow> session_entry list \<Rightarrow> session_error + cursor_state option" where
  "last_cursor H cwd identity [] = Inr None"
| "last_cursor H cwd identity (e # es) =
     (if se_type e \<noteq> ''custom'' then last_cursor H cwd identity es
      else if se_customType e = Some start_type \<or> se_customType e = Some checkpoint_type \<or> se_customType e = Some barrier_type
        then Inr None
      else if se_customType e \<noteq> Some cursor_type then last_cursor H cwd identity es
      else (case assertCursor H (se_data e) of
        Inl err \<Rightarrow> Inl (SE_cursor err)
      | Inr v \<Rightarrow> Inr (if sameSessionIdentity cwd (cu_sessionIdentity (cursor_of v)) identity then Some (cursor_of v) else None)))"

definition getCursor :: "hash \<Rightarrow> string \<Rightarrow> session_source \<Rightarrow> session_file_identity \<Rightarrow> session_error + cursor_state option" where
  "getCursor H cwd src identity = rbind (physicalBranch src) (\<lambda>b. last_cursor H cwd identity (rev b))"

datatype branch_check = BranchMatch | BranchAbsent | BranchConflict

text \<open>What an entry says about the cursor looked for.\<close>

datatype cursor_mark = NoCursor | BadCursor | ThisCursor

definition cursor_mark :: "hash \<Rightarrow> cursor_state \<Rightarrow> jsval \<Rightarrow> cursor_mark" where
  "cursor_mark H expected data =
     (case assertCursor H data of
        Inl _ \<Rightarrow> if raw_op_id data = Some (cu_opId expected) then BadCursor else NoCursor
      | Inr v \<Rightarrow>
          if cu_opId (cursor_of v) \<noteq> cu_opId expected then NoCursor
          else if cu_checksum (cursor_of v) \<noteq> cu_checksum expected \<or> canonicalJson v \<noteq> canonicalJson (json_of_cursor expected)
            then BadCursor else ThisCursor)"

fun matching_entries :: "hash \<Rightarrow> cursor_state \<Rightarrow> session_entry list \<Rightarrow> session_entry list option" where
  "matching_entries H expected [] = Some []"
| "matching_entries H expected (e # es) =
     (if se_type e \<noteq> ''custom'' \<or> se_customType e \<noteq> Some cursor_type then matching_entries H expected es
      else (case cursor_mark H expected (se_data e) of
        NoCursor \<Rightarrow> matching_entries H expected es
      | BadCursor \<Rightarrow> None
      | ThisCursor \<Rightarrow> map_option (\<lambda>r. e # r) (matching_entries H expected es)))"

definition verifyCursorOnCurrentBranch :: "hash \<Rightarrow> session_source \<Rightarrow> cursor_state \<Rightarrow> session_error + branch_check" where
  "verifyCursorOnCurrentBranch H src expected =
     rbind (entryIndex src) (\<lambda>entries.
     rbind (physicalBranch src) (\<lambda>b.
     case matching_entries H expected b of
       None \<Rightarrow> Inr BranchConflict
     | Some [] \<Rightarrow> Inr BranchAbsent
     | Some [e] \<Rightarrow>
         rbind (logicalLeafFrom entries (se_parent e)) (\<lambda>l.
         Inr (if l = cu_toLogicalLeaf expected then BranchMatch else BranchConflict))
     | Some _ \<Rightarrow> Inr BranchConflict))"

section \<open>The session file\<close>

definition isRegularFile :: "dir_entry option \<Rightarrow> bool" where
  "isRegularFile f = (case f of Some (EFile m bytes) \<Rightarrow> True | _ \<Rightarrow> False)"

definition file_text :: "dir_entry option \<Rightarrow> session_error + string" where
  "file_text f =
     (case f of
        Some (EFile m bytes) \<Rightarrow> Inr bytes
      | Some (ESymlink (Some (m, bytes))) \<Rightarrow> Inr bytes
      | Some (EDirectory m) \<Rightarrow> Inl (SE_fs ''EISDIR'')
      | _ \<Rightarrow> Inl (SE_fs ''ENOENT''))"

definition header_identity :: "hash \<Rightarrow> string \<Rightarrow> string \<Rightarrow> string \<Rightarrow> session_file_identity option" where
  "header_identity H cwd path firstLine =
     (case json_parse firstLine of
        None \<Rightarrow> None
      | Some h \<Rightarrow>
          if fld h ''type'' \<noteq> JStr ''session'' \<or> \<not> is_string (fld h ''id'') \<or> \<not> is_string (fld h ''timestamp'') \<or>
             \<not> is_string (fld h ''cwd'') then None
          else map_option (\<lambda>c. \<lparr>si_path = resolve cwd path, si_headerChecksum = c\<rparr>)
            (checksum_json H (JObj [(''id'', fld h ''id''), (''timestamp'', fld h ''timestamp''), (''cwd'', fld h ''cwd'')])))"

definition readSessionFileIdentity :: "hash \<Rightarrow> string \<Rightarrow> string \<Rightarrow> dir_entry option \<Rightarrow> session_file_identity option" where
  "readSessionFileIdentity H cwd path f =
     (case f of
        Some (EFile m content) \<Rightarrow>
          (let firstLine = hd (split_on (CHR 0x0A) content) in
           if firstLine = [] then None else header_identity H cwd path firstLine)
      | _ \<Rightarrow> None)"

definition sessionIdentityMatches :: "hash \<Rightarrow> string \<Rightarrow> string \<Rightarrow> dir_entry option \<Rightarrow> session_file_identity \<Rightarrow> bool" where
  "sessionIdentityMatches H cwd path f identity =
     (case readSessionFileIdentity H cwd path f of
        None \<Rightarrow> False | Some observed \<Rightarrow> sameSessionIdentity cwd observed identity)"

text \<open>What one line of the session file says about the cursor looked for: the text of a matching one.\<close>

definition read_cursor :: "hash \<Rightarrow> cursor_state \<Rightarrow> string \<Rightarrow> marker" where
  "read_cursor H expected line =
     (if blank line then NoMarker
      else (case json_parse line of
        None \<Rightarrow> NoMarker
      | Some entry \<Rightarrow>
          if \<not> isCursorEntry entry then NoMarker
          else (case assertCursor H (fld entry ''data'') of
            Inl e \<Rightarrow> if raw_op_id (fld entry ''data'') = Some (cu_opId expected) then BadMarker else NoMarker
          | Inr v \<Rightarrow>
              if cu_opId (cursor_of v) \<noteq> cu_opId expected then NoMarker
              else (case canonicalJson v of
                  None \<Rightarrow> BadMarker
                | Some encoded \<Rightarrow> if canonicalJson (json_of_cursor expected) = Some encoded then Marker encoded else BadMarker))))"

fun scan_cursors :: "hash \<Rightarrow> cursor_state \<Rightarrow> bool \<Rightarrow> string option \<Rightarrow> bool \<Rightarrow> string list \<Rightarrow> marker_inspection" where
  "scan_cursors H expected newline found needs [] =
     (case found of None \<Rightarrow> MarkerAbsent | Some _ \<Rightarrow> MarkerMatch needs)"
| "scan_cursors H expected newline found needs (line # lines) =
     (case read_cursor H expected line of
        NoMarker \<Rightarrow> scan_cursors H expected newline found needs lines
      | BadMarker \<Rightarrow> MarkerConflict
      | Marker encoded \<Rightarrow>
          if found \<noteq> None \<and> found \<noteq> Some encoded then MarkerConflict
          else scan_cursors H expected newline (Some encoded) (lines = [] \<and> \<not> newline) lines)"

definition inspectCursorState :: "hash \<Rightarrow> string \<Rightarrow> cursor_state \<Rightarrow> marker_inspection" where
  "inspectCursorState H content expected =
     scan_cursors H expected (ends_with [CHR 0x0A] content) None False (split_on (CHR 0x0A) content)"

section \<open>Writing the cursor\<close>

datatype recovery_reason = AppendAmbiguous | CursorMissing | CursorConflict | IdentityMismatch

datatype durable_result = Durable "string option" | Volatile | RecoveryRequired recovery_reason

text \<open>The session file and what the session manager answers.\<close>

record session_world =
  sw_file :: "dir_entry option"
  sw_source :: session_source

definition append_newline :: "session_world \<Rightarrow> session_world" where
  "append_newline w =
     w\<lparr>sw_file := (case sw_file w of Some (EFile m bytes) \<Rightarrow> Some (EFile m (bytes @ [CHR 0x0A])) | f \<Rightarrow> f)\<rparr>"

definition finishDurable ::
  "hash \<Rightarrow> string \<Rightarrow> bool \<Rightarrow> errno option \<Rightarrow> faults \<Rightarrow> string \<Rightarrow> cursor_state \<Rightarrow> bool \<Rightarrow> session_world \<Rightarrow>
   (session_error + durable_result) \<times> session_world" where
  "finishDurable H cwd win32 appendFault ft path st needsTrailingNewline w =
     (if needsTrailingNewline \<and> appendFault \<noteq> None then (Inl (SE_fs (the appendFault)), w)
      else (let w' = (if needsTrailingNewline then append_newline w else w) in
        (case rbind (fsyncFile ft) (\<lambda>_. fsyncDirectory win32 ft) of
           Inl e \<Rightarrow> Inl (SE_fs e)
         | Inr _ \<Rightarrow>
             if \<not> sessionIdentityMatches H cwd path (sw_file w') (cu_sessionIdentity st)
             then Inr (RecoveryRequired IdentityMismatch)
             else rbind (file_text (sw_file w')) (\<lambda>content.
               (case inspectCursorState H content st of
                  MarkerMatch _ \<Rightarrow>
                    rbind (verifyCursorOnCurrentBranch H (sw_source w') st) (\<lambda>branch.
                    (case branch of
                       BranchAbsent \<Rightarrow> Inr (RecoveryRequired CursorMissing)
                     | BranchConflict \<Rightarrow> Inr (RecoveryRequired CursorConflict)
                     | BranchMatch \<Rightarrow> rbind (getLogicalLeafId (sw_source w')) (\<lambda>l. Inr (Durable l))))
                | _ \<Rightarrow> Inr (RecoveryRequired CursorConflict))),
         w')))"

text \<open>\<open>pi.appendEntry\<close> is the parameter: whether it throws, and the world after it.\<close>

definition appendCursor ::
  "hash \<Rightarrow> string \<Rightarrow> bool \<Rightarrow> errno option \<Rightarrow> faults \<Rightarrow> (session_world \<Rightarrow> bool \<times> session_world) \<Rightarrow>
   cursor_state \<Rightarrow> session_world \<Rightarrow> (session_error + durable_result) \<times> session_world" where
  "appendCursor H cwd win32 appendFault ft appendEntry st w =
     (case assertCursor H (json_of_cursor st) of
        Inl e \<Rightarrow> (Inl (SE_cursor e), w)
      | Inr _ \<Rightarrow>
          (case ss_file (sw_source w) of
             None \<Rightarrow> (Inr Volatile, w)
           | Some path \<Rightarrow>
               if \<not> isRegularFile (sw_file w) then (Inr Volatile, w)
               else if \<not> sessionIdentityMatches H cwd path (sw_file w) (cu_sessionIdentity st)
               then (Inr (RecoveryRequired IdentityMismatch), w)
               else (case appendEntry w of (threw, w1) \<Rightarrow>
                 (case file_text (sw_file w1) of
                    Inl e \<Rightarrow> (Inl e, w1)
                  | Inr content \<Rightarrow>
                      (case inspectCursorState H content st of
                         MarkerMatch needs \<Rightarrow> finishDurable H cwd win32 appendFault ft path st needs w1
                       | MarkerConflict \<Rightarrow>
                           (Inr (RecoveryRequired (if threw then AppendAmbiguous else CursorConflict)), w1)
                       | MarkerAbsent \<Rightarrow>
                           (Inr (RecoveryRequired (if threw then AppendAmbiguous else CursorMissing)), w1))))))"

section \<open>The branch\<close>

fun chained :: "string option \<Rightarrow> session_entry list \<Rightarrow> bool" where
  "chained c [] \<longleftrightarrow> c = None"
| "chained c (e # es) \<longleftrightarrow> c = Some (se_id e) \<and> chained (se_parent e) es"

definition keyed :: "(string \<times> session_entry) list \<Rightarrow> bool" where
  "keyed es \<longleftrightarrow> (\<forall>k e. map_of es k = Some e \<longrightarrow> se_id e = k)"

lemma assertSessionEntry_raw: "assertSessionEntry v = Inr e \<Longrightarrow> se_raw e = v \<and> se_id e \<noteq> []"
  by (auto simp: assertSessionEntry_def is_string_ex)

lemma index_entries_Inr:
  assumes "index_entries es vs = Inr es'"
  shows "\<exists>xs. es' = es @ xs \<and> map (se_raw \<circ> snd) xs = vs \<and> (\<forall>(k, e) \<in> set xs. se_id e = k) \<and>
    (distinct (map fst es) \<longrightarrow> distinct (map fst es'))"
  using assms
proof (induction vs arbitrary: es)
  case (Cons v vs)
  from Cons.prems obtain e where e: "assertSessionEntry v = Inr e" "map_of es (se_id e) = None"
    "index_entries (es @ [(se_id e, e)]) vs = Inr es'" by auto
  from Cons.IH [OF e(3)] obtain xs where
    "es' = (es @ [(se_id e, e)]) @ xs" "map (se_raw \<circ> snd) xs = vs" "\<forall>(k, e) \<in> set xs. se_id e = k"
    "distinct (map fst (es @ [(se_id e, e)])) \<longrightarrow> distinct (map fst es')" by blast
  moreover have "distinct (map fst es) \<longrightarrow> distinct (map fst (es @ [(se_id e, e)]))"
    using e(2) by (auto simp: map_of_eq_None_iff)
  ultimately show ?case
    using assertSessionEntry_raw [OF e(1)] by (intro exI [of _ "(se_id e, e) # xs"]) auto
qed simp

lemma entryIndex_Inr:
  assumes "entryIndex src = Inr es"
  shows "keyed es" "distinct (map fst es)" "map (se_raw \<circ> snd) es = ss_entries src"
  using index_entries_Inr [of "[]" "ss_entries src" es] assms
  by (auto simp: entryIndex_def keyed_def dest!: map_of_SomeD)

lemma walk_Inr:
  assumes "walk es v c = Inr b" "keyed es"
  shows "chained c b \<and> distinct (map se_id b) \<and> set (map se_id b) \<inter> set v = {} \<and> set b \<subseteq> snd ` set es"
  using assms
proof (induction es v c arbitrary: b rule: walk.induct)
  case (2 es v c)
  from "2.prems"(1) obtain e r where e: "c \<notin> set v" "map_of es c = Some e"
    "walk es (c # v) (se_parent e) = Inr r" "b = e # r"
    by (auto split: if_splits option.splits)
  have k: "se_id e = c" using "2.prems"(2) e(2) by (auto simp: keyed_def)
  have "e \<in> snd ` set es" using map_of_SomeD [OF e(2)] by force
  with "2.IH" [OF e(1,2,3) "2.prems"(2)] k e(1,4) show ?case by auto
qed simp

lemma leaf_from_walk:
  "walk es v c = Inr b \<Longrightarrow> leaf_from es v c = Inr (map_option se_id (find (\<lambda>e. \<not> isUndoControlEntry e) b))"
proof (induction es v c arbitrary: b rule: walk.induct)
  case (2 es v c)
  from "2.prems"(1) obtain e r where e: "c \<notin> set v" "map_of es c = Some e"
    "walk es (c # v) (se_parent e) = Inr r" "b = e # r"
    by (auto split: if_splits option.splits)
  with "2.IH" [OF e(1,2,3)] show ?case by simp
qed simp

lemma physicalBranch_Inr:
  assumes "physicalBranch src = Inr b"
  obtains es where "entryIndex src = Inr es" "walk es [] (ss_leaf src) = Inr (rev b)" "keyed es"
    "chained (ss_leaf src) (rev b)" "distinct (map se_id b)"
proof -
  obtain es r where "entryIndex src = Inr es" "walk es [] (ss_leaf src) = Inr r" "b = rev r"
    using assms by (auto simp: physicalBranch_def)
  then show thesis
    using that walk_Inr entryIndex_Inr(1) by (metis distinct_rev rev_map rev_rev_ident)
qed

lemma find_last: "find P (rev xs) = (if filter P xs = [] then None else Some (last (filter P xs)))"
  by (induction xs rule: rev_induct) auto

text \<open>Following parents from an entry of the branch walks the branch backwards.\<close>

lemma chained_append: "chained c (xs @ ys) \<Longrightarrow> \<exists>d. chained d ys \<and> (xs \<noteq> [] \<longrightarrow> d = se_parent (last xs)) \<and> (xs = [] \<longrightarrow> d = c)"
  by (induction xs arbitrary: c) auto

lemma walk_chained:
  assumes "chained c b" "\<And>e. e \<in> set b \<Longrightarrow> map_of es (se_id e) = Some e" "distinct (map se_id b)"
    "set (map se_id b) \<inter> set v = {}"
  shows "walk es v c = Inr b"
  using assms
proof (induction b arbitrary: c v)
  case (Cons e b)
  have "walk es (se_id e # v) (se_parent e) = Inr b"
    using Cons.prems by (intro Cons.IH) auto
  then show ?case using Cons.prems by simp
qed simp

lemma branch_map_of: "distinct (map se_id b) \<Longrightarrow> e \<in> set b \<Longrightarrow> map_of (branch_map b) (se_id e) = Some e"
proof -
  assume "distinct (map se_id b)" "e \<in> set b"
  then have "distinct (map fst (branch_map b))" "(se_id e, e) \<in> set (branch_map b)"
    by (simp_all add: branch_map_def comp_def rev_map [symmetric])
  then show ?thesis by simp
qed

lemma logicalLeaf_on_branch:
  assumes "chained c (rev b)" "distinct (map se_id b)" "i < length b"
  shows "logicalLeafFrom (branch_map b) (se_parent (b ! i)) =
    Inr (map_option se_id (find (\<lambda>e. \<not> isUndoControlEntry e) (rev (take i b))))"
proof -
  have "rev b = rev (drop (Suc i) b) @ [b ! i] @ rev (take i b)"
    using id_take_nth_drop [OF assms(3)] by (metis append_assoc append_Cons append_Nil rev.simps(2) rev_append)
  then have "chained (se_parent (b ! i)) (rev (take i b))"
    using assms(1) chained_append [of c "rev (drop (Suc i) b) @ [b ! i]" "rev (take i b)"] by auto
  moreover have "distinct (map se_id (rev (take i b)))"
    using assms(2) by (simp add: rev_map [symmetric] take_map [symmetric])
  ultimately have "walk (branch_map b) [] (se_parent (b ! i)) = Inr (rev (take i b))"
    using branch_map_of [OF assms(2)] by (intro walk_chained) (auto dest: in_set_takeD)
  then show ?thesis using leaf_from_walk by (simp add: logicalLeafFrom_def)
qed

lemma position_Some: "position b i = Some n \<Longrightarrow> n < length b \<and> se_id (b ! n) = i"
  by (induction b arbitrary: n) (auto split: option.splits if_splits)

lemma count_ids: "length (filter (\<lambda>y. f y = k) xs) = count (mset (map f xs)) k"
  by (induction xs) auto

lemma distinct_unique: "distinct (filter (\<lambda>k. count (mset ks) k = 1) ks)"
proof -
  have in_ks: "count (mset ks) a = 1 \<Longrightarrow> a \<in> set ks" for a
    by (metis count_mset_0_iff zero_neq_one)
  have "count (mset (filter (\<lambda>k. count (mset ks) k = 1) ks)) a =
      (if a \<in> set (filter (\<lambda>k. count (mset ks) k = 1) ks) then 1 else 0)" for a
    using in_ks [of a] by (cases "count (mset ks) a = 1") simp_all
  then show ?thesis unfolding distinct_count_atmost_1 by blast
qed

lemma unique_ids: "distinct (map f (filter (\<lambda>x. length (filter (\<lambda>y. f y = f x) xs) = 1) xs))"
proof -
  have "map f (filter (\<lambda>x. length (filter (\<lambda>y. f y = f x) xs) = 1) xs) =
    filter (\<lambda>k. count (mset (map f xs)) k = 1) (map f xs)"
    unfolding filter_map count_ids comp_def ..
  then show ?thesis by (simp only: distinct_unique)
qed

section \<open>Trusted checkpoints\<close>

lemma candidate_Some:
  assumes "candidate H cwd identity b e = Some cp" "e \<in> set b" "chained c (rev b)" "distinct (map se_id b)"
  obtains i j k l where "i < j" "j \<le> k" "k < l" "l < length b" "b ! l = e" "se_customType e = Some checkpoint_type"
    "se_customType (b ! i) = Some start_type" "se_id (b ! i) = cp_startEntryId cp"
    "isMessageRole (b ! j) ''user''" "se_id (b ! j) = cp_userEntryId cp" "se_parent (b ! j) = Some (cp_startEntryId cp)"
    "\<not> isUndoControlEntry (b ! k)" "se_id (b ! k) = cp_endLeafId cp"
    "\<And>n. k < n \<Longrightarrow> n < l \<Longrightarrow> isUndoControlEntry (b ! n)"
    "checkpointFromEntry H cwd e identity = Inr cp"
proof -
  have c: "se_customType e = Some checkpoint_type" "checkpointFromEntry H cwd e identity = Inr cp"
    "isCheckpointChainTrusted cp (se_id e) b = Inr True"
    using assms(1) by (auto simp: candidate_def split: if_splits sum.splits)
  let ?m = "branch_map b"
  from c(3) obtain i j k l se ue ee ce where p: "position b (cp_startEntryId cp) = Some i"
    "position b (cp_userEntryId cp) = Some j" "position b (cp_endLeafId cp) = Some k" "position b (se_id e) = Some l"
    "map_of ?m (cp_startEntryId cp) = Some se" "map_of ?m (cp_userEntryId cp) = Some ue"
    "map_of ?m (cp_endLeafId cp) = Some ee" "map_of ?m (se_id e) = Some ce" and
    t: "i < j" "j \<le> k" "k < l" "se_customType se = Some start_type" "se_parent ue = Some (cp_startEntryId cp)"
    "isMessageRole ue ''user''" "\<not> isUndoControlEntry ee"
    "logicalLeafFrom ?m (se_parent ce) = Inr (Some (cp_endLeafId cp))"
    by (auto simp: isCheckpointChainTrusted_def Let_def split: option.splits if_splits)
  note q = position_Some [OF p(1)] position_Some [OF p(2)] position_Some [OF p(3)] position_Some [OF p(4)]
  have m: "map_of ?m (se_id (b ! n)) = Some (b ! n)" if "n < length b" for n
    using branch_map_of [OF assms(4)] that by simp
  have e: "se = b ! i" "ue = b ! j" "ee = b ! k" "ce = b ! l"
    using p(5-8) q m by (metis option.inject)+
  have "ce = e" using p(8) branch_map_of [OF assms(4,2)] by simp
  have "map_option se_id (find (\<lambda>e. \<not> isUndoControlEntry e) (rev (take l b))) = Some (cp_endLeafId cp)"
    using t(8) logicalLeaf_on_branch [OF assms(3,4), of l] q(4) e(4) by simp
  then obtain x where x: "find (\<lambda>e. \<not> isUndoControlEntry e) (rev (take l b)) = Some x" "se_id x = cp_endLeafId cp" by auto
  let ?f = "filter (\<lambda>e. \<not> isUndoControlEntry e) (take l b)"
  have f: "?f \<noteq> []" "last ?f = x" using x(1) by (auto simp: find_last split: if_splits)
  then have "x \<in> set b" using last_in_set [OF f(1)] by (auto dest: in_set_takeD)
  then have xk: "x = b ! k" using m q(3) x(2) branch_map_of [OF assms(4)] by (metis option.inject)
  have ctrl: "isUndoControlEntry (b ! n)" if "k < n" "n < l" for n
  proof (rule ccontr)
    assume n: "\<not> isUndoControlEntry (b ! n)"
    have s: "take l b = take (Suc k) b @ drop (Suc k) (take l b)"
      using that by (metis append_take_drop_id min.absorb1 Suc_leI less_trans less_imp_le take_take)
    have "b ! n \<in> set (drop (Suc k) (take l b))"
      using that q(4) by (auto simp: in_set_conv_nth intro!: exI [of _ "n - Suc k"])
    then have d: "filter (\<lambda>e. \<not> isUndoControlEntry e) (drop (Suc k) (take l b)) \<noteq> []"
      using n by (auto simp: filter_empty_conv)
    then have "last ?f = last (filter (\<lambda>e. \<not> isUndoControlEntry e) (drop (Suc k) (take l b)))"
      by (subst s) simp
    then have "x \<in> set (drop (Suc k) (take l b))"
      using f(2) last_in_set [OF d] by simp
    then obtain n' where "n' < length (drop (Suc k) (take l b))" "x = drop (Suc k) (take l b) ! n'"
      unfolding in_set_conv_nth by blast
    then have "Suc k + n' < l" "x = b ! (Suc k + n')"
      using q(4) by (simp_all add: less_diff_conv add.commute)
    then show False
      using xk assms(4) q(3,4) nth_eq_iff_index_eq [of "map se_id b" k "Suc k + n'"] by simp
  qed
  have bl: "b ! l = e" using e(4) \<open>ce = e\<close> by simp
  show thesis
    by (rule that [OF t(1-3) _ bl c(1) t(4) [unfolded e(1)] _ t(6) [unfolded e(2)] _ t(5) [unfolded e(2)]
        t(7) [unfolded e(3)] _ ctrl c(2)]) (simp_all only: q)
qed

section \<open>The cursor of recovery and the cursor of the session\<close>

lemma json_ok_fld_record: "json_ok v \<Longrightarrow> assertCursor H (fld v k) = Inr w \<Longrightarrow> json_ok (fld v k)"
  using jval_fld [of v k] by (auto simp: jval_def assertCursor_def assertRecord_def)

lemma read_cursor_marker:
  assumes "cu_opId c = od_opId d" "matchesDescriptor c d" "cu_fromLogicalLeaf c = od_fromLogicalLeaf d"
  shows "read_cursor H c line = Marker t \<Longrightarrow> read_marker H d (cu_toLogicalLeaf c) line = Marker t"
    and "read_cursor H c line = NoMarker \<Longrightarrow> read_marker H d (cu_toLogicalLeaf c) line = NoMarker"
proof -
  have same: "cursor_of v = c" if "json_ok v" "canonicalJson (json_of_cursor c) = canonicalJson v" for v
  proof -
    have "normalise (json_of_cursor c) = normalise v"
      using that canonicalJson_inject [OF json_ok_cursor that(1)] by blast
    then show ?thesis using views_normalise(3) [OF that(1)] views_normalise(3) [OF json_ok_cursor, of c] by simp
  qed
  show "read_marker H d (cu_toLogicalLeaf c) line = Marker t" if r: "read_cursor H c line = Marker t"
  proof -
    from r obtain entry v where e: "\<not> blank line" "json_parse line = Some entry" "isCursorEntry entry"
      "assertCursor H (fld entry ''data'') = Inr v" "canonicalJson v = Some t" "canonicalJson (json_of_cursor c) = Some t"
      by (auto simp: read_cursor_def split: if_splits option.splits sum.splits)
    have "v = fld entry ''data''" using validators_return_argument(1) [OF e(4)] .
    then have "json_ok v" using json_ok_fld_record [OF json_ok_parse [OF e(2)]] e(4) by blast
    then have "cursor_of v = c" using same e(5,6) by simp
    then show ?thesis using e assms by (simp add: read_marker_def Let_def)
  qed
  show "read_marker H d (cu_toLogicalLeaf c) line = NoMarker" if r: "read_cursor H c line = NoMarker"
    using r assms(1) by (auto simp: read_cursor_def read_marker_def Let_def split: if_splits option.splits sum.splits)
qed

lemma scan_cursors_markers:
  assumes "cu_opId c = od_opId d" "matchesDescriptor c d" "cu_fromLogicalLeaf c = od_fromLogicalLeaf d"
  shows "scan_cursors H c newline found needs lines = i \<Longrightarrow> i \<noteq> MarkerConflict \<Longrightarrow>
    scan_markers H d (cu_toLogicalLeaf c) newline found needs lines = i"
proof (induction lines arbitrary: found needs)
  case (Cons line lines)
  then show ?case
    using read_cursor_marker [OF assms, of H line]
    by (cases "read_cursor H c line") (auto split: if_splits)
qed simp

lemma inspect_agree:
  assumes "cu_opId c = od_opId (descriptor_of d)" "matchesDescriptor c (descriptor_of d)"
    and "cu_fromLogicalLeaf c = od_fromLogicalLeaf (descriptor_of d)"
    and "assertOperationDescriptor H d = Inr d" "inspectCursorState H content c = i" "i \<noteq> MarkerConflict"
  shows "inspectCursorMarkers H (Inr content) d (cu_toLogicalLeaf c) = Inr i"
  using scan_cursors_markers [OF assms(1-3), of H "ends_with [NL] content" None False "split_on NL content" i] assms(4-6)
  by (simp add: inspectCursorState_def inspectCursorMarkers_def validated_def)

lemma match_Durable:
  "(case i of MarkerAbsent \<Rightarrow> Inr (RecoveryRequired q) | MarkerMatch n \<Rightarrow> A | MarkerConflict \<Rightarrow> Inr (RecoveryRequired r)) = Inr (Durable l)
    \<longleftrightarrow> (\<exists>n. i = MarkerMatch n) \<and> A = Inr (Durable l)"
  by (cases i) auto

lemma branch_Durable:
  "(case b of BranchMatch \<Rightarrow> A | BranchAbsent \<Rightarrow> Inr (RecoveryRequired q) | BranchConflict \<Rightarrow> Inr (RecoveryRequired r)) = Inr (Durable l)
    \<longleftrightarrow> b = BranchMatch \<and> A = Inr (Durable l)"
  by (cases b) auto

lemma finishDurable_Durable:
  assumes "finishDurable H cwd win32 af ft path st needs w = (Inr (Durable l), w')"
  shows "sessionIdentityMatches H cwd path (sw_file w') (cu_sessionIdentity st)"
    "\<exists>content n. file_text (sw_file w') = Inr content \<and> inspectCursorState H content st = MarkerMatch n"
    "verifyCursorOnCurrentBranch H (sw_source w') st = Inr BranchMatch" "getLogicalLeafId (sw_source w') = Inr l"
  using assms
  by (auto simp: finishDurable_def Let_def match_Durable branch_Durable split: if_splits sum.splits)

lemma appendCursor_Durable:
  assumes "appendCursor H cwd win32 af ft app st w = (Inr (Durable l), w')"
  shows "\<exists>path needs w1. finishDurable H cwd win32 af ft path st needs w1 = (Inr (Durable l), w') \<and>
    assertCursor H (json_of_cursor st) = Inr (json_of_cursor st)"
  using assms validators_return_argument(1) [of H "json_of_cursor st"]
  by (auto simp: appendCursor_def split: if_splits sum.splits option.splits prod.splits marker_inspection.splits)

section \<open>Properties\<close>

text \<open>The branch is a path of the tree: it starts at an entry without parent, each entry is the parent of
  the next, it ends at the current leaf, no entry occurs twice, and every entry is one of the
  session's.\<close>

theorem session_branch:
  assumes "physicalBranch src = Inr b"
  shows "(\<forall>i. Suc i < length b \<longrightarrow> se_parent (b ! Suc i) = Some (se_id (b ! i))) \<and>
    (b \<noteq> [] \<longrightarrow> se_parent (hd b) = None) \<and> ss_leaf src = (if b = [] then None else Some (se_id (last b))) \<and>
    distinct (map se_id b) \<and> se_raw ` set b \<subseteq> set (ss_entries src)"
proof -
  obtain es where es: "entryIndex src = Inr es" "walk es [] (ss_leaf src) = Inr (rev b)" "keyed es"
    "chained (ss_leaf src) (rev b)" "distinct (map se_id b)"
    using physicalBranch_Inr [OF assms] .
  have c: "(\<forall>i. Suc i < length b \<longrightarrow> se_parent (b ! Suc i) = Some (se_id (b ! i))) \<and> (b \<noteq> [] \<longrightarrow> se_parent (hd b) = None) \<and>
    c = (if b = [] then None else Some (se_id (last b)))" if "chained c (rev b)" for c b
    using that
  proof (induction b arbitrary: c rule: rev_induct)
    case (snoc e b)
    then have ch: "c = Some (se_id e)" "chained (se_parent e) (rev b)" by simp_all
    note IH = snoc.IH [OF ch(2)]
    show ?case
    proof (intro conjI allI impI)
      fix i assume "Suc i < length (b @ [e])"
      then consider "Suc i < length b" | "i = length b - 1" "b \<noteq> []" by fastforce
      then show "se_parent ((b @ [e]) ! Suc i) = Some (se_id ((b @ [e]) ! i))"
        using IH by cases (auto simp: nth_append last_conv_nth)
    qed (use IH ch(1) in \<open>auto simp: hd_append\<close>)
  qed simp
  have "set b \<subseteq> snd ` set es" using walk_Inr [OF es(2,3)] by simp
  then have "se_raw ` set b \<subseteq> set (map (se_raw \<circ> snd) es)" by (auto simp: image_image)
  then have "se_raw ` set b \<subseteq> set (ss_entries src)" using entryIndex_Inr(3) [OF es(1)] by simp
  then show ?thesis using c [OF es(4)] es(5) by blast
qed

text \<open>The logical leaf, found by following parents, is the last entry of the branch that is not a control entry
  of the extension.\<close>

theorem logical_leaf:
  assumes "getActiveBranch src = Inr b"
  shows "getLogicalLeafId src = Inr (if b = [] then None else Some (se_id (last b)))"
proof -
  obtain pb where pb: "physicalBranch src = Inr pb" "b = filter (\<lambda>e. \<not> isUndoControlEntry e) pb"
    using assms by (auto simp: getActiveBranch_def)
  obtain es where es: "entryIndex src = Inr es" "walk es [] (ss_leaf src) = Inr (rev pb)"
    using physicalBranch_Inr [OF pb(1)] .
  show ?thesis
    using leaf_from_walk [OF es(2)] es(1) pb(2)
    by (simp add: getLogicalLeafId_def logicalLeafFrom_def find_last)
qed

text \<open>A checkpoint that lies on the branch in one piece.\<close>

definition trusted_at :: "hash \<Rightarrow> string \<Rightarrow> session_file_identity \<Rightarrow> session_entry list \<Rightarrow> checkpoint_record \<Rightarrow> bool" where
  "trusted_at H cwd identity b cp \<longleftrightarrow> (\<exists>i j k l. i < j \<and> j \<le> k \<and> k < l \<and> l < length b \<and>
      checkpointFromEntry H cwd (b ! l) identity = Inr cp \<and> se_customType (b ! l) = Some checkpoint_type \<and>
      se_id (b ! i) = cp_startEntryId cp \<and> se_customType (b ! i) = Some start_type \<and>
      se_id (b ! j) = cp_userEntryId cp \<and> isMessageRole (b ! j) ''user'' \<and> se_parent (b ! j) = Some (se_id (b ! i)) \<and>
      se_id (b ! k) = cp_endLeafId cp \<and> \<not> isUndoControlEntry (b ! k) \<and>
      (\<forall>n. k < n \<longrightarrow> n < l \<longrightarrow> isUndoControlEntry (b ! n)))"

text \<open>C29 (checkpoints_trusted): A checkpoint is used only if its record is valid for the session and it lies on the branch in one
  piece: a start entry, then the user message that is its child, then the end of the run, then only
  control entries up to the checkpoint's own entry; and no two checkpoints used have the same
  identifier.\<close>

theorem checkpoints_trusted:
  assumes "getCheckpoints H cwd src identity = Inr cps"
  shows "distinct (map cp_checkpointId cps) \<and>
    (\<exists>b. physicalBranch src = Inr b \<and> (\<forall>cp \<in> set cps. trusted_at H cwd identity b cp))"
proof -
  obtain b where b: "physicalBranch src = Inr b"
    and cps: "cps = (let cs = List.map_filter (candidate H cwd identity b) b in
      filter (\<lambda>cp. length (filter (\<lambda>c. cp_checkpointId c = cp_checkpointId cp) cs) = 1) cs)"
    using assms by (auto simp: getCheckpoints_def Let_def)
  obtain es where ch: "chained (ss_leaf src) (rev b)" "distinct (map se_id b)" using physicalBranch_Inr [OF b] by blast
  have "distinct (map cp_checkpointId cps)" unfolding cps Let_def by (rule unique_ids)
  moreover have "trusted_at H cwd identity b cp" if cp: "cp \<in> set cps" for cp
  proof -
    obtain e where e: "candidate H cwd identity b e = Some cp" "e \<in> set b"
      using cp unfolding cps by (auto simp: map_filter_def Let_def)
    show ?thesis
    proof (rule candidate_Some [OF e ch])
      fix i j k l
      assume a: "i < j" "j \<le> k" "k < l" "l < length b" "b ! l = e" "se_customType e = Some checkpoint_type"
        "se_customType (b ! i) = Some start_type" "se_id (b ! i) = cp_startEntryId cp"
        "isMessageRole (b ! j) ''user''" "se_id (b ! j) = cp_userEntryId cp" "se_parent (b ! j) = Some (cp_startEntryId cp)"
        "\<not> isUndoControlEntry (b ! k)" "se_id (b ! k) = cp_endLeafId cp"
        "\<And>n. k < n \<Longrightarrow> n < l \<Longrightarrow> isUndoControlEntry (b ! n)"
        "checkpointFromEntry H cwd e identity = Inr cp"
      have "se_parent (b ! j) = Some (se_id (b ! i))" "checkpointFromEntry H cwd (b ! l) identity = Inr cp"
        "se_customType (b ! l) = Some checkpoint_type"
        using a(5,6,8,11,15) by simp_all
      then show ?thesis
        unfolding trusted_at_def using a by - (rule exI [of _ i], rule exI [of _ j], rule exI [of _ k], rule exI [of _ l],
            intro conjI allI impI, assumption+)
    qed
  qed
  ultimately show ?thesis using b by blast
qed

text \<open>The cursor of the session is the last control entry of the branch that is a start, a checkpoint, a
  barrier or a cursor, if that is a valid cursor of this session file; a cursor before a later run or
  barrier is not used.\<close>

theorem current_cursor:
  assumes "getCursor H cwd src identity = Inr (Some c)"
  shows "\<exists>b pre e post. physicalBranch src = Inr b \<and> b = pre @ e # post \<and> se_customType e = Some cursor_type \<and>
    assertCursor H (se_data e) = Inr (se_data e) \<and> c = cursor_of (se_data e) \<and>
    sameSessionIdentity cwd (cu_sessionIdentity c) identity \<and>
    (\<forall>x \<in> set post. se_type x = ''custom'' \<longrightarrow>
       se_customType x \<notin> {Some start_type, Some checkpoint_type, Some barrier_type, Some cursor_type})"
proof -
  obtain b where b: "physicalBranch src = Inr b" "last_cursor H cwd identity (rev b) = Inr (Some c)"
    using assms by (auto simp: getCursor_def)
  have "\<exists>pre e post. xs = pre @ e # post \<and> se_customType e = Some cursor_type \<and>
    assertCursor H (se_data e) = Inr (se_data e) \<and> c = cursor_of (se_data e) \<and>
    sameSessionIdentity cwd (cu_sessionIdentity c) identity \<and>
    (\<forall>x \<in> set pre. se_type x = ''custom'' \<longrightarrow>
       se_customType x \<notin> {Some start_type, Some checkpoint_type, Some barrier_type, Some cursor_type})"
    if "last_cursor H cwd identity xs = Inr (Some c)" for xs
    using that
  proof (induction xs)
    case (Cons e xs)
    show ?case
    proof (cases "se_type e = ''custom'' \<and> se_customType e = Some cursor_type")
      case True
      then have "assertCursor H (se_data e) = Inr (se_data e) \<and> c = cursor_of (se_data e) \<and>
          sameSessionIdentity cwd (cu_sessionIdentity c) identity"
        using Cons.prems validators_return_argument(1) [of H "se_data e"] by (auto split: sum.splits if_splits)
      then show ?thesis
        using True by - (rule exI [of _ "[]"], rule exI [of _ e], rule exI [of _ xs], auto)
    next
      case False
      then have "last_cursor H cwd identity xs = Inr (Some c)"
        "se_type e = ''custom'' \<longrightarrow> se_customType e \<notin> {Some start_type, Some checkpoint_type, Some barrier_type, Some cursor_type}"
        using Cons.prems by (auto split: if_splits)
      note ne = this(2)
      from Cons.IH [OF \<open>last_cursor H cwd identity xs = Inr (Some c)\<close>] obtain pre e' post where
        x: "xs = pre @ e' # post" "se_customType e' = Some cursor_type"
          "assertCursor H (se_data e') = Inr (se_data e')" "c = cursor_of (se_data e')"
          "sameSessionIdentity cwd (cu_sessionIdentity c) identity"
          "\<forall>x \<in> set pre. se_type x = ''custom'' \<longrightarrow>
             se_customType x \<notin> {Some start_type, Some checkpoint_type, Some barrier_type, Some cursor_type}" by blast
      have "e # xs = (e # pre) @ e' # post" using x(1) by simp
      moreover have "\<forall>x \<in> set (e # pre). se_type x = ''custom'' \<longrightarrow>
             se_customType x \<notin> {Some start_type, Some checkpoint_type, Some barrier_type, Some cursor_type}"
        using x(6) ne by (metis set_ConsD)
      ultimately show ?thesis using x(2-5) by blast
    qed
  qed simp
  from this [OF b(2)] obtain pre e post where p: "rev b = pre @ e # post" "se_customType e = Some cursor_type"
    "assertCursor H (se_data e) = Inr (se_data e)" "c = cursor_of (se_data e)"
    "sameSessionIdentity cwd (cu_sessionIdentity c) identity"
    "\<forall>x \<in> set pre. se_type x = ''custom'' \<longrightarrow>
       se_customType x \<notin> {Some start_type, Some checkpoint_type, Some barrier_type, Some cursor_type}" by blast
  have "b = rev post @ e # rev pre" using arg_cong [OF p(1), of rev] by simp
  moreover have "\<forall>x \<in> set (rev pre). se_type x = ''custom'' \<longrightarrow>
       se_customType x \<notin> {Some start_type, Some checkpoint_type, Some barrier_type, Some cursor_type}"
    using p(6) by simp
  ultimately show ?thesis using b(1) p(2-5) by blast
qed


section \<open>Witnesses\<close>

definition entry_json :: "string \<Rightarrow> string \<Rightarrow> string option \<Rightarrow> (string \<times> jsval) list \<Rightarrow> jsval" where
  "entry_json ty i parent extra = JObj ([(''type'', JStr ty), (''id'', JStr i), (''parentId'', jopt parent)] @ extra)"

definition demo_identity :: session_file_identity where
  "demo_identity = \<lparr>si_path = ''/s'', si_headerChecksum = demo_hex\<rparr>"

definition demo_checkpoint :: checkpoint_record where
  "demo_checkpoint =
     \<lparr>cp_checkpointId = ''k'', cp_runId = ''run'', cp_sessionIdentity = demo_identity, cp_startEntryId = ''st'',
      cp_userEntryId = ''a'', cp_endLeafId = ''a'', cp_rawPrompt = ''hi'', cp_beforeManifestId = demo_hex,
      cp_afterManifestId = demo_hex, cp_changedPaths = [''f''], cp_checksum = demo_hex\<rparr>"

definition demo_source :: session_source where
  "demo_source =
     \<lparr>ss_entries =
        [entry_json ''custom'' ''st'' None [(''customType'', JStr start_type)],
         entry_json ''message'' ''a'' (Some ''st'') [(''message'', JObj [(''role'', JStr ''user'')])],
         entry_json ''custom'' ''cp'' (Some ''a'')
           [(''customType'', JStr checkpoint_type), (''data'', json_of_checkpoint demo_checkpoint)]],
      ss_leaf = Some ''cp'', ss_file = Some ''/s''\<rparr>"

lemma demo_branch: "map_option (map se_id) (case physicalBranch demo_source of Inl _ \<Rightarrow> None | Inr b \<Rightarrow> Some b) = Some [''st'', ''a'', ''cp'']"
  by code_simp

lemma demo_checkpoints: "getCheckpoints zero_digest ''/'' demo_source demo_identity = Inr [demo_checkpoint]"
  by code_simp

lemma session_branch_witness:
  "\<exists>b. physicalBranch demo_source = Inr b \<and> length b = 3 \<and> distinct (map se_id b) \<and>
     se_raw ` set b \<subseteq> set (ss_entries demo_source)"
proof -
  obtain b where b: "physicalBranch demo_source = Inr b" "map se_id b = [''st'', ''a'', ''cp'']"
    using demo_branch by (auto split: sum.splits)
  have "length (map se_id b) = 3" using b(2) by simp
  then show ?thesis using b(1) session_branch [OF b(1)] by simp
qed

lemma demo_active: "map_option (map se_id) (case getActiveBranch demo_source of Inl _ \<Rightarrow> None | Inr b \<Rightarrow> Some b) = Some [''a'']"
  by code_simp

lemma logical_leaf_witness: "getLogicalLeafId demo_source = Inr (Some ''a'')"
proof -
  obtain b where b: "getActiveBranch demo_source = Inr b" "map se_id b = [''a'']"
    using demo_active by (auto split: sum.splits)
  then have "b \<noteq> []" "se_id (last b) = ''a''" by auto
  then show ?thesis using logical_leaf [OF b(1)] by simp
qed

lemma checkpoints_trusted_witness:
  "\<exists>b. physicalBranch demo_source = Inr b \<and> trusted_at zero_digest ''/'' demo_identity b demo_checkpoint"
  using checkpoints_trusted [OF demo_checkpoints] by auto

text \<open>A session file with a header, before and after the cursor was appended.\<close>

definition demo_header :: jsval where
  "demo_header =
     JObj [(''type'', JStr ''session''), (''id'', JStr ''i''), (''timestamp'', JStr ''t''), (''cwd'', JStr ''/'')]"

definition session_entry_of :: "cursor_state \<Rightarrow> jsval" where
  "session_entry_of c = cursor_entry c [(''id'', JStr ''c''), (''parentId'', JStr ''a'')]"

definition demo_world :: "bool \<Rightarrow> session_world" where
  "demo_world appended =
     \<lparr>sw_file = Some (EFile 384 (plain_text demo_header @ NL #
        (if appended then plain_text (session_entry_of demo_cursor) @ [NL] else []))),
      sw_source =
        \<lparr>ss_entries =
           [entry_json ''message'' ''a'' None []] @ (if appended then [session_entry_of demo_cursor] else []),
         ss_leaf = Some (if appended then ''c'' else ''a''), ss_file = Some ''/s''\<rparr>\<rparr>"

lemma demo_cursor_source: "getCursor zero_digest ''/'' (sw_source (demo_world True)) demo_identity = Inr (Some demo_cursor)"
  by code_simp

lemma current_cursor_witness:
  "\<exists>b pre e post. physicalBranch (sw_source (demo_world True)) = Inr b \<and> b = pre @ e # post \<and>
     se_customType e = Some cursor_type \<and> demo_cursor = cursor_of (se_data e)"
  using current_cursor [OF demo_cursor_source] by blast

lemma demo_leaf: "getLogicalLeafId (sw_source (demo_world True)) = Inr (Some ''a'')"
  by code_simp

lemma demo_verify: "verifyCursorOnCurrentBranch zero_digest (sw_source (demo_world True)) demo_cursor = Inr BranchMatch"
  by code_simp

lemma demo_header_text: "json_ok demo_header" "plain_text demo_header \<noteq> []" "NL \<notin> set (plain_text demo_header)"
proof -
  show o: "json_ok demo_header" by (simp add: demo_header_def)
  show "plain_text demo_header \<noteq> []" by (simp add: demo_header_def)
  show "NL \<notin> set (plain_text demo_header)" by (rule plain_text_no_newline [OF o])
qed

lemma demo_identity_read:
  "readSessionFileIdentity zero_digest ''/'' ''/s'' (sw_file (demo_world x)) = Some demo_identity"
proof -
  have h: "hd (split_on NL (plain_text demo_header @ NL # t)) = plain_text demo_header" for t
    using demo_header_text(3) by (simp add: split_on_append split_on_no_sep)
  have r: "resolve ''/'' ''/s'' = ''/s''" by code_simp
  have c: "checksum_json zero_digest (JObj [(''id'', JStr ''i''), (''timestamp'', JStr ''t''), (''cwd'', JStr ''/'')]) = Some demo_hex"
    by (rule zero_checksum_json) simp
  have "header_identity zero_digest ''/'' ''/s'' (plain_text demo_header) = Some demo_identity"
    using json_parse_plain [OF demo_header_text(1)] c r
    by (simp add: header_identity_def demo_header_def demo_identity_def)
  then show ?thesis
    using demo_header_text(2) h by (simp add: demo_world_def readSessionFileIdentity_def Let_def)
qed

lemma demo_identity_matches:
  "sessionIdentityMatches zero_digest ''/'' ''/s'' (sw_file (demo_world x)) (cu_sessionIdentity demo_cursor)"
  by (simp add: sessionIdentityMatches_def demo_identity_read sameSessionIdentity_def demo_identity_def demo_cursor_def)

lemma demo_lines:
  "inspectCursorState zero_digest (plain_text demo_header @ NL # plain_text (session_entry_of demo_cursor) @ [NL]) demo_cursor
    = MarkerMatch False"
proof -
  let ?e = "session_entry_of demo_cursor"
  have ok: "json_ok ?e" by (simp add: session_entry_of_def cursor_entry_def)
  have n: "NL \<notin> set (plain_text ?e)" by (rule plain_text_no_newline [OF ok])
  have s: "split_on NL (plain_text demo_header @ NL # plain_text ?e @ [NL]) = [plain_text demo_header, plain_text ?e, []]"
    using n demo_header_text(3) by (simp add: split_on_append split_on_no_sep)
  have e: "ends_with [NL] (plain_text demo_header @ NL # plain_text ?e @ [NL])"
    by (simp add: ends_with_last)
  have "read_cursor zero_digest demo_cursor (plain_text demo_header) = NoMarker"
    using json_parse_plain [OF demo_header_text(1)]
    by (simp add: read_cursor_def isCursorEntry_def demo_header_def)
  moreover obtain t where "canonicalJson (json_of_cursor demo_cursor) = Some t"
    using json_parse_canonicalJson [OF json_ok_cursor] by blast
  then have "read_cursor zero_digest demo_cursor (plain_text ?e) = Marker t"
    using json_parse_plain [OF ok] demo_cursor_valid
    by (simp add: read_cursor_def blank_def session_entry_of_def cursor_entry_def isCursorEntry_def is_record_def)
  moreover have "read_cursor zero_digest demo_cursor [] = NoMarker" by (simp add: read_cursor_def blank_def)
  ultimately show ?thesis by (simp add: inspectCursorState_def s e)
qed

lemma demo_append:
  "appendCursor zero_digest ''/'' False None (\<lambda>_. None) (\<lambda>w. (False, demo_world True)) demo_cursor (demo_world False)
    = (Inr (Durable (Some ''a'')), demo_world True)"
proof -
  have f: "file_text (sw_file (demo_world True)) = Inr (plain_text demo_header @ NL # plain_text (session_entry_of demo_cursor) @ [NL])"
    by (simp add: demo_world_def file_text_def)
  have "ss_file (sw_source (demo_world False)) = Some ''/s''" "isRegularFile (sw_file (demo_world False))"
    by (simp_all add: demo_world_def isRegularFile_def)
  then show ?thesis
    using demo_cursor_valid demo_identity_matches demo_lines f demo_verify demo_leaf
    by (simp add: appendCursor_def finishDurable_def fsyncFile_def fsyncDirectory_def)
qed


end
