(* ===== verification/WorkerPool.thy ===== *)
theory WorkerPool
  imports Prelude
begin

text \<open>
  The loops of \<open>src/src/restore-engine.ts\<close> (and \<open>src/src/snapshot-store.ts\<close>) that work on the elements of
  an array with several asynchronous workers: \<open>mapConcurrentOrdered\<close> and the verification of
  \<open>verifyKnownState\<close>. A worker takes the next index, awaits the operation, stores the result and goes
  on. Between the awaits of one worker the others move, so the model is a step relation: a step takes
  an index or ends an operation, in any order. What comes out does not depend on the order.
\<close>

section \<open>mapConcurrentOrdered\<close>

record ('e, 'r) pool =
  po_next :: nat
  po_busy :: "nat set"
  po_results :: "nat \<Rightarrow> 'r option"
  po_failure :: "'e option"

definition pool_start :: "('e, 'r) pool" where
  "pool_start = \<lparr>po_next = 0, po_busy = {}, po_results = (\<lambda>_. None), po_failure = None\<rparr>"

text \<open>
  \<open>operation i\<close> is the result for the element at \<open>i\<close>; \<open>cancelled\<close> is the error of \<open>checkOperation\<close> once
  the operation is cancelled, which may be at any time.
\<close>

inductive pool_step ::
  "nat \<Rightarrow> nat \<Rightarrow> (nat \<Rightarrow> 'e + 'r) \<Rightarrow> 'e option \<Rightarrow> ('e, 'r) pool \<Rightarrow> ('e, 'r) pool \<Rightarrow> bool"
  for concurrency n operation cancelled
where
  take_index:
    "po_failure s = None \<Longrightarrow> po_next s < n \<Longrightarrow> card (po_busy s) < concurrency \<Longrightarrow>
     pool_step concurrency n operation cancelled s
       (s\<lparr>po_next := po_next s + 1, po_busy := insert (po_next s) (po_busy s)\<rparr>)"
| store_result:
    "i \<in> po_busy s \<Longrightarrow> operation i = Inr r \<Longrightarrow>
     pool_step concurrency n operation cancelled s
       (s\<lparr>po_busy := po_busy s - {i}, po_results := (po_results s)(i := Some r)\<rparr>)"
| store_failure:
    "i \<in> po_busy s \<Longrightarrow> operation i = Inl e \<or> cancelled = Some e \<Longrightarrow>
     pool_step concurrency n operation cancelled s
       (s\<lparr>po_busy := po_busy s - {i},
          po_failure := (case po_failure s of None \<Rightarrow> Some e | Some f \<Rightarrow> Some f)\<rparr>)"

inductive_simps pool_step_iff: "pool_step concurrency n operation cancelled s t"

definition pool_done :: "nat \<Rightarrow> ('e, 'r) pool \<Rightarrow> bool" where
  "pool_done n s \<longleftrightarrow> po_busy s = {} \<and> (po_failure s \<noteq> None \<or> n \<le> po_next s)"

definition mapConcurrentOrdered :: "nat \<Rightarrow> ('e, 'r) pool \<Rightarrow> 'e + 'r option list" where
  "mapConcurrentOrdered n s =
     (case po_failure s of Some e \<Rightarrow> Inl e | None \<Rightarrow> Inr (map (po_results s) [0..<n]))"

definition pool_reaches ::
  "nat \<Rightarrow> nat \<Rightarrow> (nat \<Rightarrow> 'e + 'r) \<Rightarrow> 'e option \<Rightarrow> ('e, 'r) pool \<Rightarrow> bool" where
  "pool_reaches concurrency n operation cancelled s \<longleftrightarrow>
     (pool_step concurrency n operation cancelled)\<^sup>*\<^sup>* pool_start s"

section \<open>verifyKnownState\<close>

record 'e verification =
  vf_next :: nat
  vf_busy :: "nat set"
  vf_results :: "nat \<Rightarrow> bool option"
  vf_stop :: bool
  vf_failure :: "(nat \<times> 'e) option"

definition verify_start :: "'e verification" where
  "verify_start = \<lparr>vf_next = 0, vf_busy = {}, vf_results = (\<lambda>_. None), vf_stop = False, vf_failure = None\<rparr>"

inductive verify_step :: "nat \<Rightarrow> nat \<Rightarrow> (nat \<Rightarrow> 'e + bool) \<Rightarrow> 'e verification \<Rightarrow> 'e verification \<Rightarrow> bool"
  for concurrency n verifyPath
where
  verify_take:
    "\<not> vf_stop s \<Longrightarrow> vf_next s < n \<Longrightarrow> card (vf_busy s) < concurrency \<Longrightarrow>
     verify_step concurrency n verifyPath s
       (s\<lparr>vf_next := vf_next s + 1, vf_busy := insert (vf_next s) (vf_busy s)\<rparr>)"
| verify_result:
    "i \<in> vf_busy s \<Longrightarrow> verifyPath i = Inr ok \<Longrightarrow>
     verify_step concurrency n verifyPath s
       (s\<lparr>vf_busy := vf_busy s - {i}, vf_results := (vf_results s)(i := Some ok), vf_stop := vf_stop s \<or> \<not> ok\<rparr>)"
| verify_error:
    "i \<in> vf_busy s \<Longrightarrow> verifyPath i = Inl e \<Longrightarrow>
     verify_step concurrency n verifyPath s
       (s\<lparr>vf_busy := vf_busy s - {i}, vf_stop := True,
          vf_failure := (case vf_failure s of
             None \<Rightarrow> Some (i, e) | Some (j, f) \<Rightarrow> if i < j then Some (i, e) else Some (j, f))\<rparr>)"

inductive_simps verify_step_iff: "verify_step concurrency n verifyPath s t"

definition verify_done :: "nat \<Rightarrow> 'e verification \<Rightarrow> bool" where
  "verify_done n s \<longleftrightarrow> vf_busy s = {} \<and> (vf_stop s \<or> n \<le> vf_next s)"

text \<open>The loop over the results; the answer is whether all are verified and how many before the first that is not.\<close>

fun scan_results :: "'e verification \<Rightarrow> nat list \<Rightarrow> nat \<Rightarrow> 'e + bool \<times> nat" where
  "scan_results s [] verifiedPaths = Inr (True, verifiedPaths)"
| "scan_results s (index # rest) verifiedPaths =
     (case vf_results s index of
        Some False \<Rightarrow> Inr (False, verifiedPaths)
      | Some True \<Rightarrow> scan_results s rest (verifiedPaths + 1)
      | None \<Rightarrow>
          (case vf_failure s of
             Some (i, e) \<Rightarrow> if i = index then Inl e else Inr (False, verifiedPaths)
           | None \<Rightarrow> Inr (False, verifiedPaths)))"

definition verifyKnownState :: "nat \<Rightarrow> 'e verification \<Rightarrow> 'e + bool \<times> nat" where
  "verifyKnownState n s = scan_results s [0..<n] 0"

definition verify_reaches :: "nat \<Rightarrow> nat \<Rightarrow> (nat \<Rightarrow> 'e + bool) \<Rightarrow> 'e verification \<Rightarrow> bool" where
  "verify_reaches concurrency n verifyPath s \<longleftrightarrow> (verify_step concurrency n verifyPath)\<^sup>*\<^sup>* verify_start s"

text \<open>One path after the other.\<close>

fun verify_in_order :: "(nat \<Rightarrow> 'e + bool) \<Rightarrow> nat list \<Rightarrow> nat \<Rightarrow> 'e + bool \<times> nat" where
  "verify_in_order verifyPath [] verifiedPaths = Inr (True, verifiedPaths)"
| "verify_in_order verifyPath (index # rest) verifiedPaths =
     (case verifyPath index of
        Inl e \<Rightarrow> Inl e
      | Inr ok \<Rightarrow> if ok then verify_in_order verifyPath rest (verifiedPaths + 1) else Inr (False, verifiedPaths))"

section \<open>Invariants\<close>

definition pool_inv :: "nat \<Rightarrow> nat \<Rightarrow> (nat \<Rightarrow> 'e + 'r) \<Rightarrow> 'e option \<Rightarrow> ('e, 'r) pool \<Rightarrow> bool" where
  "pool_inv concurrency n operation cancelled s \<longleftrightarrow>
     po_next s \<le> n \<and> po_busy s \<subseteq> {..<po_next s} \<and> card (po_busy s) \<le> concurrency \<and>
     (\<forall>i. \<forall>r. po_results s i = Some r \<longrightarrow> operation i = Inr r) \<and>
     (\<forall>i < po_next s. i \<notin> po_busy s \<longrightarrow> po_failure s = None \<longrightarrow> po_results s i \<noteq> None) \<and>
     (\<forall>e. po_failure s = Some e \<longrightarrow> (\<exists>i < n. operation i = Inl e) \<or> cancelled = Some e)"

lemma pool_inv_step:
  assumes "pool_step c n operation cancelled s t" "pool_inv c n operation cancelled s"
  shows "pool_inv c n operation cancelled t"
  using assms
proof (induction rule: pool_step.induct)
  case (take_index s)
  have f: "finite (po_busy s)" "po_next s \<notin> po_busy s"
    using take_index.prems by (auto simp: pool_inv_def intro: finite_subset)
  show ?case
    using take_index f by (auto simp: pool_inv_def less_Suc_eq)
next
  case (store_result i s r)
  have f: "finite (po_busy s)" using store_result.prems by (auto simp: pool_inv_def intro: finite_subset)
  then have "card (po_busy s - {i}) \<le> card (po_busy s)" by (intro card_mono) auto
  then show ?case using store_result by (auto simp: pool_inv_def)
next
  case (store_failure i s e)
  have f: "finite (po_busy s)" using store_failure.prems by (auto simp: pool_inv_def intro: finite_subset)
  then have c: "card (po_busy s - {i}) \<le> card (po_busy s)" by (intro card_mono) auto
  have "i < n" using store_failure by (auto simp: pool_inv_def)
  then show ?case using store_failure c by (auto simp: pool_inv_def split: option.splits)
qed

lemma pool_inv_reaches:
  assumes "pool_reaches c n operation cancelled s"
  shows "pool_inv c n operation cancelled s"
  using assms unfolding pool_reaches_def
proof (induction rule: rtranclp_induct)
  case base
  then show ?case by (simp add: pool_inv_def pool_start_def)
next
  case (step s t)
  then show ?case using pool_inv_step by blast
qed

text \<open>A path that was taken and is no longer worked on has left its answer.\<close>

definition verified_at :: "(nat \<Rightarrow> 'e + bool) \<Rightarrow> 'e verification \<Rightarrow> nat \<Rightarrow> bool" where
  "verified_at verifyPath s i \<longleftrightarrow>
     (case verifyPath i of
        Inr ok \<Rightarrow> vf_results s i = Some ok
      | Inl e \<Rightarrow> vf_results s i = None \<and> (\<exists>j f. vf_failure s = Some (j, f) \<and> j \<le> i))"

definition verify_inv :: "nat \<Rightarrow> (nat \<Rightarrow> 'e + bool) \<Rightarrow> 'e verification \<Rightarrow> bool" where
  "verify_inv n verifyPath s \<longleftrightarrow>
     vf_next s \<le> n \<and> vf_busy s \<subseteq> {..<vf_next s} \<and>
     (\<forall>i < vf_next s. i \<notin> vf_busy s \<longrightarrow> verified_at verifyPath s i) \<and>
     (\<forall>i. vf_next s \<le> i \<or> i \<in> vf_busy s \<longrightarrow> vf_results s i = None) \<and>
     (\<forall>j f. vf_failure s = Some (j, f) \<longrightarrow> j < vf_next s \<and> verifyPath j = Inl f) \<and>
     (vf_stop s \<longrightarrow> (\<exists>i < vf_next s. verifyPath i \<noteq> Inr True))"

lemma verify_invD:
  assumes "verify_inv n verifyPath s"
  shows "vf_next s \<le> n" "i \<in> vf_busy s \<Longrightarrow> i < vf_next s"
    "i < vf_next s \<Longrightarrow> i \<notin> vf_busy s \<Longrightarrow> verified_at verifyPath s i"
    "vf_next s \<le> i \<or> i \<in> vf_busy s \<Longrightarrow> vf_results s i = None"
    "vf_failure s = Some (j, f) \<Longrightarrow> j < vf_next s" "vf_failure s = Some (j, f) \<Longrightarrow> verifyPath j = Inl f"
    "vf_stop s \<Longrightarrow> \<exists>i < vf_next s. verifyPath i \<noteq> Inr True"
  using assms unfolding verify_inv_def by blast+

lemma verify_inv_step:
  assumes "verify_step c n verifyPath s t" "verify_inv n verifyPath s"
  shows "verify_inv n verifyPath t"
  using assms
proof (induction rule: verify_step.induct)
  case (verify_take s)
  note inv = verify_invD [OF verify_take.prems]
  let ?t = "s\<lparr>vf_next := vf_next s + 1, vf_busy := insert (vf_next s) (vf_busy s)\<rparr>"
  have v: "verified_at verifyPath ?t i = verified_at verifyPath s i" for i
    by (simp add: verified_at_def split: sum.splits)
  have "verified_at verifyPath s i" if "i < vf_next s + 1" "i \<notin> insert (vf_next s) (vf_busy s)" for i
    using inv(3) [of i] that by auto
  moreover have "vf_results s i = None" if "vf_next s + 1 \<le> i \<or> i \<in> insert (vf_next s) (vf_busy s)" for i
    using inv(4) [of i] that by auto
  moreover have "insert (vf_next s) (vf_busy s) \<subseteq> {..<vf_next s + 1}" using inv(2) by fastforce
  moreover have "j < vf_next s + 1 \<and> verifyPath j = Inl f" if "vf_failure s = Some (j, f)" for j f
    using inv(5,6) [OF that] by simp
  ultimately show ?case
    unfolding verify_inv_def v using verify_take.hyps by simp
next
  case (verify_result i s ok)
  note inv = verify_invD [OF verify_result.prems]
  let ?t = "s\<lparr>vf_busy := vf_busy s - {i}, vf_results := (vf_results s)(i := Some ok), vf_stop := vf_stop s \<or> \<not> ok\<rparr>"
  have i: "i < vf_next s" using inv(2) verify_result.hyps by simp
  have "verified_at verifyPath ?t k" if "k < vf_next s" "k \<notin> vf_busy s - {i}" for k
  proof (cases "k = i")
    case True
    then show ?thesis using verify_result.hyps by (simp add: verified_at_def)
  next
    case False
    then show ?thesis using inv(3) [of k] that by (simp add: verified_at_def split: sum.splits)
  qed
  moreover have "((vf_results s)(i := Some ok)) k = None" if "vf_next s \<le> k \<or> k \<in> vf_busy s - {i}" for k
    using inv(4) [of k] that i by auto
  moreover have "\<exists>k < vf_next s. verifyPath k \<noteq> Inr True" if "vf_stop s \<or> \<not> ok"
    using that inv(7) i verify_result.hyps by auto
  moreover have "vf_busy s - {i} \<subseteq> {..<vf_next s}" using inv(2) by auto
  ultimately show ?case using inv(1,5,6) unfolding verify_inv_def by simp
next
  case (verify_error i s e)
  note inv = verify_invD [OF verify_error.prems]
  let ?f = "case vf_failure s of None \<Rightarrow> Some (i, e) | Some (j, f) \<Rightarrow> if i < j then Some (i, e) else Some (j, f)"
  let ?t = "s\<lparr>vf_busy := vf_busy s - {i}, vf_stop := True, vf_failure := ?f\<rparr>"
  have i: "i < vf_next s" using inv(2) verify_error.hyps by simp
  have f: "\<exists>j g. ?f = Some (j, g) \<and> j \<le> i \<and> (\<forall>k h. vf_failure s = Some (k, h) \<longrightarrow> j \<le> k)"
    by (cases "vf_failure s") auto
  have g: "j < vf_next s \<and> verifyPath j = Inl g" if "?f = Some (j, g)" for j g
    using that inv(5,6) i verify_error.hyps by (auto split: option.splits if_splits)
  have "verified_at verifyPath ?t k" if k: "k < vf_next s" "k \<notin> vf_busy s - {i}" for k
  proof (cases "k = i")
    case True
    then show ?thesis using verify_error.hyps f inv(4) [of i] by (auto simp: verified_at_def)
  next
    case False
    then have "verified_at verifyPath s k" using inv(3) [of k] k by simp
    then show ?thesis using f by (cases "verifyPath k") (auto simp: verified_at_def intro: order_trans)
  qed
  moreover have "vf_busy s - {i} \<subseteq> {..<vf_next s}" using inv(2) by auto
  moreover have "vf_results s k = None" if "vf_next s \<le> k \<or> k \<in> vf_busy s - {i}" for k
    using inv(4) [of k] that by auto
  moreover have "\<exists>k < vf_next s. verifyPath k \<noteq> Inr True" using i verify_error.hyps by auto
  ultimately show ?case using inv(1) g unfolding verify_inv_def by simp
qed

lemma verify_inv_reaches:
  assumes "verify_reaches c n verifyPath s"
  shows "verify_inv n verifyPath s"
  using assms unfolding verify_reaches_def
proof (induction rule: rtranclp_induct)
  case base
  then show ?case by (simp add: verify_inv_def verify_start_def)
next
  case (step s t)
  then show ?case using verify_inv_step by blast
qed

section \<open>Results\<close>

definition pool_left :: "nat \<Rightarrow> ('e, 'r) pool \<Rightarrow> nat" where
  "pool_left n s = 2 * (n - po_next s) + card (po_busy s)"

lemma pool_step_left:
  assumes "pool_step c n operation cancelled s t" "pool_inv c n operation cancelled s"
  shows "pool_left n t < pool_left n s"
proof -
  have f: "finite (po_busy s)" using assms(2) by (auto simp: pool_inv_def intro: finite_subset)
  have fresh: "po_next s \<notin> po_busy s" using assms(2) by (auto simp: pool_inv_def)
  have gone: "card (po_busy s - {i}) < card (po_busy s)" if "i \<in> po_busy s" for i
    using that f by (intro psubset_card_mono) auto
  from assms(1) show ?thesis
    by (cases rule: pool_step.cases) (use f fresh gone in \<open>auto simp: pool_left_def\<close>)
qed

text \<open>C36 (pool_ordered): However the workers interleave, at most \<open>concurrency\<close> operations run at a time, every step brings the
  pool closer to its end, it is stuck only at its end, and there the result is that of applying the operation to
  the elements in order if all succeed, and otherwise the error of one that failed or of the cancellation.\<close>

theorem pool_ordered:
  assumes "pool_reaches concurrency n operation cancelled s"
  shows "card (po_busy s) \<le> concurrency \<and>
    (\<forall>t. pool_step concurrency n operation cancelled s t \<longrightarrow> pool_left n t < pool_left n s) \<and>
    (0 < concurrency \<longrightarrow> \<not> pool_done n s \<longrightarrow> (\<exists>t. pool_step concurrency n operation cancelled s t)) \<and>
    (pool_done n s \<longrightarrow>
       (case mapConcurrentOrdered n s of
          Inr results \<Rightarrow> map_res operation [0..<n] = Inr (map the results)
        | Inl e \<Rightarrow> cancelled = Some e \<or> (\<exists>i < n. operation i = Inl e)))"
proof -
  note inv = pool_inv_reaches [OF assms]
  have 1: "card (po_busy s) \<le> concurrency" using inv by (simp add: pool_inv_def)
  have 2: "\<exists>t. pool_step concurrency n operation cancelled s t" if "0 < concurrency" "\<not> pool_done n s"
  proof (cases "po_busy s = {}")
    case True
    then have "po_failure s = None" "po_next s < n" using that(2) by (auto simp: pool_done_def)
    then show ?thesis using pool_step.take_index [of s n concurrency] True that(1) by fastforce
  next
    case False
    then obtain i where i: "i \<in> po_busy s" by blast
    show ?thesis
    proof (cases "operation i")
      case (Inl e)
      then show ?thesis using pool_step.store_failure [OF i] by blast
    next
      case (Inr r)
      then show ?thesis using pool_step.store_result [OF i] by blast
    qed
  qed
  have 3: "case mapConcurrentOrdered n s of Inr results \<Rightarrow> map_res operation [0..<n] = Inr (map the results)
      | Inl e \<Rightarrow> cancelled = Some e \<or> (\<exists>i < n. operation i = Inl e)" if "pool_done n s"
  proof (cases "po_failure s")
    case (Some e)
    then show ?thesis using inv by (auto simp: mapConcurrentOrdered_def pool_inv_def)
  next
    case None
    then have d: "po_next s = n" "po_busy s = {}" using that inv by (auto simp: pool_done_def pool_inv_def)
    have "operation i = Inr (the (po_results s i))" if "i < n" for i
    proof -
      obtain r where "po_results s i = Some r" using inv d None \<open>i < n\<close> unfolding pool_inv_def by blast
      then show ?thesis using inv unfolding pool_inv_def by simp
    qed
    then have "map_res operation [0..<n] = Inr (map (\<lambda>i. the (po_results s i)) [0..<n])"
      by (simp add: map_res_Inr list_all2_conv_all_nth)
    then show ?thesis using None by (simp add: mapConcurrentOrdered_def comp_def)
  qed
  show ?thesis using 1 2 3 pool_step_left [OF _ inv] by blast
qed

lemma verified_prefix:
  assumes "verify_inv n verifyPath s" "verify_done n s" "\<forall>k < i. verifyPath k = Inr True" "i < n"
  shows "verified_at verifyPath s i"
proof -
  have "i < vf_next s"
  proof (cases "vf_stop s")
    case True
    then obtain k where "k < vf_next s" "verifyPath k \<noteq> Inr True" using verify_invD(7) [OF assms(1)] by blast
    then show ?thesis using assms(3) by (meson le_less_trans not_le)
  next
    case False
    then show ?thesis using assms(2,4) by (simp add: verify_done_def)
  qed
  then show ?thesis using verify_invD(3) [OF assms(1)] assms(2) by (simp add: verify_done_def)
qed

lemma scan_agrees:
  assumes "verify_inv n verifyPath s" "verify_done n s" "\<forall>k < i. verifyPath k = Inr True" "i \<le> n"
  shows "scan_results s [i..<n] m = verify_in_order verifyPath [i..<n] m"
  using assms(3,4)
proof (induction "n - i" arbitrary: i m)
  case 0
  then show ?case by simp
next
  case (Suc d)
  then have i: "i < n" by simp
  note v = verified_prefix [OF assms(1,2) Suc.prems(1) i]
  have u: "[i..<n] = i # [Suc i..<n]" using i by (rule upt_conv_Cons)
  show ?case
  proof (cases "verifyPath i")
    case (Inl e)
    obtain j f where f: "vf_failure s = Some (j, f)" "j \<le> i" "vf_results s i = None"
      using v Inl by (auto simp: verified_at_def)
    then have "verifyPath j = Inl f" using verify_invD(6) [OF assms(1)] by simp
    then have "j = i" using f(2) Suc.prems(1) by (cases "j = i") auto
    then show ?thesis using f Inl \<open>verifyPath j = Inl f\<close> unfolding u by simp
  next
    case (Inr ok)
    then have r: "vf_results s i = Some ok" using v by (simp add: verified_at_def)
    have "scan_results s [Suc i..<n] (m + 1) = verify_in_order verifyPath [Suc i..<n] (m + 1)" if ok
    proof (rule Suc.hyps(1))
      show "d = n - Suc i" using Suc.hyps(2) by simp
      show "\<forall>k < Suc i. verifyPath k = Inr True" using Suc.prems(1) Inr that by (simp add: less_Suc_eq)
    qed (use i in simp)
    then show ?thesis using Inr r unfolding u by (cases ok) simp_all
  qed
qed

text \<open>C19 (verify_deterministic): Verifying the paths concurrently, and stopping early, gives what verifying them one after the other
  gives, in every interleaving: the same answer, the same count before the first that fails, and the
  same error.\<close>

theorem verify_deterministic:
  assumes "verify_reaches concurrency n verifyPath s" "verify_done n s"
  shows "verifyKnownState n s = verify_in_order verifyPath [0..<n] 0"
  unfolding verifyKnownState_def
  by (rule scan_agrees [OF verify_inv_reaches [OF assms(1)] assms(2)]) simp_all

section \<open>A run whose second element ends first\<close>

lemma four_steps: "R a b \<Longrightarrow> R b c \<Longrightarrow> R c d \<Longrightarrow> R d e \<Longrightarrow> R\<^sup>*\<^sup>* a e"
  by (meson converse_rtranclp_into_rtranclp rtranclp.rtrancl_refl)

lemma verify_deterministic_witness:
  "\<exists>s :: string verification. verify_done 2 s \<and> vf_results s 1 = Some False \<and>
     verifyKnownState 2 s = verify_in_order (\<lambda>i. if i = 0 then Inl ''e'' else Inr False) [0..<2] 0 \<and>
     verifyKnownState 2 s = Inl ''e''"
proof -
  let ?v = "\<lambda>i :: nat. if i = 0 then Inl ''e'' else Inr False :: string + bool"
  define s1 where "s1 = (verify_start :: string verification)\<lparr>vf_next := 1, vf_busy := {0}\<rparr>"
  define s2 where "s2 = s1\<lparr>vf_next := 2, vf_busy := {1, 0}\<rparr>"
  define s3 where "s3 = s2\<lparr>vf_busy := {0}, vf_results := (\<lambda>_. None)(1 := Some False), vf_stop := True\<rparr>"
  define s4 where "s4 = s3\<lparr>vf_busy := {}, vf_failure := Some (0, ''e'')\<rparr>"
  note defs = s4_def s3_def s2_def s1_def verify_start_def
  have 1: "verify_step 2 2 ?v verify_start s1" using verify_step.verify_take [of verify_start 2 2 ?v] by (simp add: defs)
  have 2: "verify_step 2 2 ?v s1 s2" using verify_step.verify_take [of s1 2 2 ?v] by (simp add: defs numeral_2_eq_2)
  have 3: "verify_step 2 2 ?v s2 s3" using verify_step.verify_result [of 1 s2 ?v False 2 2] by (simp add: defs)
  have 4: "verify_step 2 2 ?v s3 s4" using verify_step.verify_error [of 0 s3 ?v "''e''" 2 2] by (simp add: defs)
  have r: "verify_reaches 2 2 ?v s4"
    unfolding verify_reaches_def by (rule four_steps [of "verify_step 2 2 ?v", OF 1 2 3 4])
  have d: "verify_done 2 s4" by (simp add: verify_done_def defs)
  have "verify_in_order ?v [0..<2] 0 = Inl ''e''" by (simp add: upt_rec)
  then show ?thesis
    using verify_deterministic [OF r d] d by (intro exI [of _ s4]) (simp add: defs)
qed

lemma pool_ordered_witness:
  "\<exists>s :: (string, nat) pool. pool_done 2 s \<and> mapConcurrentOrdered 2 s = Inr [Some 0, Some 1]"
proof -
  let ?o = "\<lambda>i :: nat. Inr i :: string + nat"
  define s1 where "s1 = (pool_start :: (string, nat) pool)\<lparr>po_next := 1, po_busy := {0}\<rparr>"
  define s2 where "s2 = s1\<lparr>po_next := 2, po_busy := {1, 0}\<rparr>"
  define s3 where "s3 = s2\<lparr>po_busy := {0}, po_results := (\<lambda>_. None)(1 := Some 1)\<rparr>"
  define s4 where "s4 = s3\<lparr>po_busy := {}, po_results := (\<lambda>_. None)(1 := Some 1, 0 := Some 0)\<rparr>"
  note defs = s4_def s3_def s2_def s1_def pool_start_def
  have 1: "pool_step 2 2 ?o None pool_start s1" using pool_step.take_index [of pool_start 2 2 ?o None] by (simp add: defs)
  have 2: "pool_step 2 2 ?o None s1 s2" using pool_step.take_index [of s1 2 2 ?o None] by (simp add: defs numeral_2_eq_2)
  have 3: "pool_step 2 2 ?o None s2 s3" using pool_step.store_result [of 1 s2 ?o 1 2 2 None] by (simp add: defs)
  have 4: "pool_step 2 2 ?o None s3 s4" using pool_step.store_result [of 0 s3 ?o 0 2 2 None] by (simp add: defs fun_upd_twist)
  have r: "pool_reaches 2 2 ?o None s4"
    unfolding pool_reaches_def by (rule four_steps [of "pool_step 2 2 ?o None", OF 1 2 3 4])
  have d: "pool_done 2 s4" by (simp add: pool_done_def defs)
  have "case mapConcurrentOrdered 2 s4 of Inr results \<Rightarrow> map_res ?o [0..<2] = Inr (map the results)
      | Inl e \<Rightarrow> None = Some e \<or> (\<exists>i < 2. ?o i = Inl e)"
    using pool_ordered [OF r] d by blast
  then show ?thesis
    using d by (intro exI [of _ s4]) (auto simp: mapConcurrentOrdered_def defs upt_rec)
qed

end
