(* ===== verification/RestorePlan.thy ===== *)
theory RestorePlan
  imports PathSafety Encoding WorkerPool "HOL-Library.AList"
begin

text \<open>
  The planning half of \<open>src/src/restore-engine.ts\<close>: which paths a restore from one manifest to
  another deletes and writes, in which order, and the checks before it.

  A \<open>Map\<close> is an association list in insertion order. The snapshot store is a parameter: whether a
  manifest is complete, and the tree of a root. Checks that throw are the error of the result.
\<close>

section \<open>Plans\<close>

record restore_plan =
  pl_currentManifestId :: manifest_id
  pl_targetManifestId :: manifest_id
  pl_boundaryRoots :: "string list"
  pl_deletePaths :: "string list"
  pl_writePaths :: "string list"
  pl_scopePaths :: "string list option"
  pl_planDigest :: string

record owned_path =
  ow_absolutePath :: string
  ow_entry :: restore_path
  ow_root :: snapshot_root

datatype plan_error =
    PE_manifest validation_error | PE_path path_error | PE_git_metadata | PE_workspace | PE_broken
  | PE_coverage | PE_two_roots | PE_store | PE_type

record snapshot_port =
  sp_assertComplete :: "manifest_id \<Rightarrow> string list option \<Rightarrow> bool"
  sp_listTree :: "manifest_id \<Rightarrow> string \<Rightarrow> string list option \<Rightarrow> restore_path list option"

type_synonym owned_map = "(string \<times> owned_path) list"

section \<open>Manifests as JSON\<close>

primrec root_state_name :: "root_state \<Rightarrow> string" where
  "root_state_name Active = ''active''"
| "root_state_name Uninitialized = ''uninitialized''"
| "root_state_name Broken = ''broken''"

definition json_of_root :: "snapshot_root \<Rightarrow> jsval" where
  "json_of_root r = JObj
     ([(''relativeRoot'', JStr (sr_relativeRoot r)), (''parentRoot'', jopt (sr_parentRoot r)),
       (''state'', JStr (root_state_name (sr_state r))), (''sourceIdentity'', JStr (sr_sourceIdentity r)),
       (''privateRepositoryId'', JStr (sr_privateRepositoryId r))] @
      (case sr_gitlinkOid r of None \<Rightarrow> [] | Some g \<Rightarrow> [(''gitlinkOid'', jopt g)]) @
      [(''treeId'', jopt (sr_treeId r)), (''coverage'', JStr (sr_coverage r)),
       (''ignorePolicy'', JStr (sr_ignorePolicy r)), (''ignoredPresentPaths'', jstrs (sr_ignoredPresentPaths r)),
       (''ignoreClosure'', JStr (sr_ignoreClosure r)), (''objectClosure'', JStr (sr_objectClosure r))])"

definition json_of_manifest :: "snapshot_manifest \<Rightarrow> jsval" where
  "json_of_manifest m = JObj
     [(''schemaVersion'', jint (sm_schemaVersion m)), (''manifestId'', JStr (sm_manifestId m)),
      (''workspaceIdentity'', JStr (sm_workspaceIdentity m)),
      (''topologyFingerprint'', JStr (sm_topologyFingerprint m)), (''coverage'', JStr (sm_coverage m)),
      (''roots'', JArr (map json_of_root (sm_roots m))), (''createdAt'', JStr (sm_createdAt m))]"

section \<open>Entries and paths\<close>

definition sameEntry :: "restore_path \<Rightarrow> restore_path \<Rightarrow> bool" where
  "sameEntry l r \<longleftrightarrow>
     rp_kind l = rp_kind r \<and> rp_mode l = rp_mode r \<and> rp_blobId l = rp_blobId r \<and> rp_size l = rp_size r \<and>
     rp_linkText l = rp_linkText r"

definition entriesEquivalent :: "owned_path option \<Rightarrow> owned_path \<Rightarrow> bool" where
  "entriesEquivalent l r \<longleftrightarrow> (case l of None \<Rightarrow> False | Some x \<Rightarrow> sameEntry (ow_entry x) (ow_entry r))"

definition assertNotGitMetadata :: "string \<Rightarrow> plan_error + unit" where
  "assertNotGitMetadata path =
     guard (\<not> list_ex (\<lambda>c. to_lower c = ''.git'') (split_on (CHR ''/'') path)) PE_git_metadata"

definition lift_path :: "path_error + 'a \<Rightarrow> plan_error + 'a" where
  "lift_path r = (case r of Inl e \<Rightarrow> Inl (PE_path e) | Inr x \<Rightarrow> Inr x)"

definition isStrictWorkspaceAncestor :: "string \<Rightarrow> string \<Rightarrow> bool" where
  "isStrictWorkspaceAncestor parent child =
     (if parent = ''.'' then child \<noteq> ''.'' else starts_with (parent @ ''/'') child)"

definition workspacePath :: "string \<Rightarrow> string \<Rightarrow> string" where
  "workspacePath root path = (if root = ''.'' then path else if path = ''.'' then root else root @ ''/'' @ path)"

definition rootBoundaryDirectories :: "string \<Rightarrow> string list" where
  "rootBoundaryDirectories root =
     (if root = ''.'' then []
      else let parts = split_on (CHR ''/'') root
           in map (\<lambda>index. join_with ''/'' (take (index + 1) parts)) [0..<length parts])"

definition strictPathAncestors :: "string \<Rightarrow> string list" where
  "strictPathAncestors path =
     (let parts = split_on (CHR ''/'') path
      in rev (map (\<lambda>index. join_with ''/'' (take (index + 1) parts)) [0..<length (butlast parts)]))"

definition hasNonDirectoryAncestor :: "string \<Rightarrow> owned_map \<Rightarrow> bool" where
  "hasNonDirectoryAncestor path paths =
     list_ex (\<lambda>ancestor. case map_of paths ancestor of None \<Rightarrow> False
                         | Some owned \<Rightarrow> rp_kind (ow_entry owned) \<noteq> Directory) (strictPathAncestors path)"

definition isPathAffectedByMutations :: "string \<Rightarrow> string list \<Rightarrow> string list \<Rightarrow> bool" where
  "isPathAffectedByMutations path deletePaths writePaths =
     list_ex (\<lambda>mutationPath. mutationPath = path \<or> starts_with (path @ ''/'') mutationPath \<or>
                starts_with (mutationPath @ ''/'') path) (deletePaths @ writePaths)"

fun root_scope_paths :: "string \<Rightarrow> string list \<Rightarrow> string list \<Rightarrow> string list option" where
  "root_scope_paths root result [] = Some result"
| "root_scope_paths root result (path # paths) =
     (if path = ''.'' \<or> path = root \<or> isStrictWorkspaceAncestor path root then None
      else root_scope_paths root
        (if isStrictWorkspaceAncestor root path
         then result @ [if root = ''.'' then path else drop (length root + 1) path] else result) paths)"

definition rootRelativeScopePaths :: "string \<Rightarrow> string list option \<Rightarrow> string list option" where
  "rootRelativeScopePaths root scopePaths =
     (case scopePaths of
        None \<Rightarrow> None
      | Some paths \<Rightarrow>
          if paths = [] then Some []
          else map_option (\<lambda>result. sort_cmp compare_strings (js_set result)) (root_scope_paths root [] paths))"

definition ignoredWorkspacePaths :: "snapshot_manifest \<Rightarrow> string list option \<Rightarrow> string list" where
  "ignoredWorkspacePaths manifest scopePaths =
     (let scopeAncestors = concat (map strictPathAncestors (case scopePaths of None \<Rightarrow> [] | Some ps \<Rightarrow> ps))
      in js_set (concat (map (\<lambda>root.
           filter (\<lambda>path. case scopePaths of None \<Rightarrow> True
                     | Some scope \<Rightarrow> ''.'' \<in> set scope \<or> path \<in> set scope \<or> path \<in> set scopeAncestors \<or>
                         list_ex (\<lambda>ancestor. ancestor \<in> set scope) (strictPathAncestors path))
             (map (workspacePath (sr_relativeRoot root)) (sr_ignoredPresentPaths root))) (sm_roots manifest))))"

text \<open>\<open>IgnoredProofIndex.isProtected\<close>, with its own binary search.\<close>

function proof_index_loop :: "string list \<Rightarrow> string \<Rightarrow> nat \<Rightarrow> nat \<Rightarrow> nat" where
  "proof_index_loop xs pre low high =
     (if low < high then
        let middle = (low + high) div 2 in
        if xs ! middle < pre then proof_index_loop xs pre (middle + 1) high
        else proof_index_loop xs pre low middle
      else low)"
  by pat_completeness auto
termination
  by (relation "measure (\<lambda>(xs, pre, low, high). high - low)") auto

declare proof_index_loop.simps [simp del]

definition isProtected :: "string list \<Rightarrow> string \<Rightarrow> leaf_kind \<Rightarrow> bool" where
  "isProtected exact path kind =
     (if kind \<noteq> Directory then path \<in> set exact
      else if exact = [] then False
      else let sortedPaths = sort_cmp compare_strings exact;
               low = proof_index_loop sortedPaths (path @ ''/'') 0 (length sortedPaths)
           in low < length sortedPaths \<and> starts_with (path @ ''/'') (sortedPaths ! low))"

section \<open>Compatible manifests\<close>

definition scope_coverage :: "hash \<Rightarrow> string list \<Rightarrow> string option" where
  "scope_coverage H scope = map_option (\<lambda>c. ''paths:'' @ c) (checksum_json H (jstrs scope))"

definition assertCompatibleManifests ::
  "hash \<Rightarrow> snapshot_manifest \<Rightarrow> snapshot_manifest \<Rightarrow> string list option \<Rightarrow> plan_error + unit" where
  "assertCompatibleManifests H current target scope =
     rbind (guard (sm_workspaceIdentity current = sm_workspaceIdentity target) PE_workspace) (\<lambda>_.
     rbind (guard (\<not> (list_ex (\<lambda>r. sr_state r = Broken) (sm_roots current) \<or>
                      list_ex (\<lambda>r. sr_state r = Broken) (sm_roots target))) PE_broken) (\<lambda>_.
     rbind (case scope of None \<Rightarrow> Inr None
            | Some ps \<Rightarrow> (case scope_coverage H ps of None \<Rightarrow> Inl PE_type | Some c \<Rightarrow> Inr (Some c))) (\<lambda>scopedCoverage.
     if sm_coverage current = sm_coverage target then
       guard (\<not> (scopedCoverage \<noteq> None \<and> sm_coverage current \<noteq> ''complete'' \<and>
                 Some (sm_coverage current) \<noteq> scopedCoverage)) PE_coverage
     else
       guard (\<not> (scopedCoverage = None \<or>
                 \<not> list_all (\<lambda>coverage. coverage = ''complete'' \<or> Some coverage = scopedCoverage)
                     [sm_coverage current, sm_coverage target])) PE_coverage)))"

section \<open>The paths a manifest owns\<close>

definition put_boundaries :: "snapshot_root \<Rightarrow> owned_map \<Rightarrow> owned_map" where
  "put_boundaries root result =
     foldl (\<lambda>result boundaryPath.
        if boundaryPath \<in> fst ` set result then result
        else result @ [(boundaryPath,
          \<lparr>ow_absolutePath = boundaryPath,
           ow_entry = \<lparr>rp_relativePath = boundaryPath, rp_kind = Directory, rp_mode = 493, rp_blobId = None,
                       rp_size = 0,
                       rp_rootHash = (case sr_treeId root of Some t \<Rightarrow> t | None \<Rightarrow> sr_objectClosure root),
                       rp_linkText = None\<rparr>,
           ow_root = root\<rparr>)])
       result (rootBoundaryDirectories (sr_relativeRoot root))"

fun put_entries ::
  "string \<Rightarrow> string \<Rightarrow> snapshot_root \<Rightarrow> owned_map \<Rightarrow> restore_path list \<Rightarrow> plan_error + owned_map" where
  "put_entries cwd workspaceRoot root result [] = Inr result"
| "put_entries cwd workspaceRoot root result (entry # entries) =
     (let absolutePath = workspacePath (sr_relativeRoot root) (rp_relativePath entry) in
      rbind (assertNotGitMetadata absolutePath) (\<lambda>_.
      rbind (lift_path (relativeSafePath cwd workspaceRoot absolutePath)) (\<lambda>_.
      rbind (guard (absolutePath \<notin> fst ` set result) PE_two_roots) (\<lambda>_.
      put_entries cwd workspaceRoot root
        (result @ [(absolutePath, \<lparr>ow_absolutePath = absolutePath, ow_entry = entry, ow_root = root\<rparr>)]) entries))))"

fun read_roots ::
  "string \<Rightarrow> string \<Rightarrow> snapshot_port \<Rightarrow> manifest_id \<Rightarrow> string list option \<Rightarrow> owned_map \<Rightarrow> snapshot_root list \<Rightarrow>
   plan_error + owned_map" where
  "read_roots cwd workspaceRoot store mid scopePaths result [] = Inr result"
| "read_roots cwd workspaceRoot store mid scopePaths result (root # roots) =
     rbind (assertNotGitMetadata (sr_relativeRoot root)) (\<lambda>_.
     let rootScope = rootRelativeScopePaths (sr_relativeRoot root) scopePaths in
     if rootScope = Some [] then read_roots cwd workspaceRoot store mid scopePaths result roots
     else
       (case sp_listTree store mid (sr_relativeRoot root) rootScope of
          None \<Rightarrow> Inl PE_store
        | Some entries \<Rightarrow>
            rbind (put_entries cwd workspaceRoot root
                    (if entries \<noteq> [] then put_boundaries root result else result) entries) (\<lambda>result.
            read_roots cwd workspaceRoot store mid scopePaths result roots)))"

definition readOwnedPaths ::
  "string \<Rightarrow> string \<Rightarrow> snapshot_port \<Rightarrow> snapshot_manifest \<Rightarrow> string list option \<Rightarrow> plan_error + owned_map" where
  "readOwnedPaths cwd workspaceRoot store manifest scopePaths =
     read_roots cwd workspaceRoot store (sm_manifestId manifest) scopePaths [] (sm_roots manifest)"

section \<open>The plan\<close>

type_synonym by_root = "(string \<times> string list) list"

definition appendPath :: "by_root \<Rightarrow> string \<Rightarrow> string \<Rightarrow> by_root" where
  "appendPath paths root path =
     AList.update root (case map_of paths root of None \<Rightarrow> [path] | Some owned \<Rightarrow> owned @ [path]) paths"

definition in_scope :: "string list option \<Rightarrow> string \<Rightarrow> bool" where
  "in_scope scope path \<longleftrightarrow> (case scope of None \<Rightarrow> True | Some ps \<Rightarrow> path \<in> set ps)"

definition to_delete :: "string list option \<Rightarrow> owned_map \<Rightarrow> string list \<Rightarrow> string \<times> owned_path \<Rightarrow> bool" where
  "to_delete scope targetPaths targetIgnored = (\<lambda>(path, owned).
     in_scope scope path \<and>
     (case map_of targetPaths path of
        Some targetOwned \<Rightarrow>
          \<not> sameEntry (ow_entry owned) (ow_entry targetOwned) \<and>
          (rp_kind (ow_entry targetOwned) \<noteq> rp_kind (ow_entry owned) \<or> rp_kind (ow_entry targetOwned) = SymlinkLeaf)
      | None \<Rightarrow> \<not> isProtected targetIgnored path (rp_kind (ow_entry owned))))"

definition to_write :: "string list option \<Rightarrow> owned_map \<Rightarrow> string \<times> owned_path \<Rightarrow> bool" where
  "to_write scope currentPaths = (\<lambda>(path, owned).
     in_scope scope path \<and> \<not> entriesEquivalent (map_of currentPaths path) owned)"

definition collect_paths :: "(string \<times> owned_path \<Rightarrow> bool) \<Rightarrow> owned_map \<Rightarrow> by_root" where
  "collect_paths wanted paths =
     foldl (\<lambda>byRoot (path, owned).
        if wanted (path, owned) then appendPath byRoot (sr_relativeRoot (ow_root owned)) path else byRoot) [] paths"

definition target_kind :: "owned_map \<Rightarrow> string \<Rightarrow> leaf_kind option" where
  "target_kind targetPaths path = map_option (\<lambda>owned. rp_kind (ow_entry owned)) (map_of targetPaths path)"

fun leaf_writes :: "by_root \<Rightarrow> owned_map \<Rightarrow> snapshot_root list \<Rightarrow> path_error + string list" where
  "leaf_writes paths targetPaths [] = Inr []"
| "leaf_writes paths targetPaths (root # roots) =
     rbind (sortWritePaths
       (filter (\<lambda>path. target_kind targetPaths path \<noteq> Some Directory)
          (case map_of paths (sr_relativeRoot root) of None \<Rightarrow> [] | Some ps \<Rightarrow> ps))) (\<lambda>leaves.
     rbind (leaf_writes paths targetPaths roots) (\<lambda>result. Inr (leaves @ result)))"

definition orderedWritePaths :: "snapshot_root list \<Rightarrow> by_root \<Rightarrow> owned_map \<Rightarrow> path_error + string list" where
  "orderedWritePaths roots paths targetPaths =
     (let directories = filter (\<lambda>path. target_kind targetPaths path = Some Directory) (concat (map snd paths)) in
      rbind (leaf_writes paths targetPaths roots) (\<lambda>result.
      rbind (sortWritePaths directories) (\<lambda>ds. Inr (ds @ result))))"

definition canonicalScope :: "string \<Rightarrow> string \<Rightarrow> string list \<Rightarrow> plan_error + string list" where
  "canonicalScope cwd workspaceRoot paths =
     (let canonical = sort_cmp compare_strings (js_set paths) in
      rbind (map_res (\<lambda>path. rbind (assertNotGitMetadata path) (\<lambda>_.
               lift_path (relativeSafePath cwd workspaceRoot path))) canonical) (\<lambda>_. Inr canonical))"

definition plan_content :: "restore_plan \<Rightarrow> (string \<times> jsval) list" where
  "plan_content p =
     [(''currentManifestId'', JStr (pl_currentManifestId p)), (''targetManifestId'', JStr (pl_targetManifestId p)),
      (''boundaryRoots'', jstrs (pl_boundaryRoots p)), (''deletePaths'', jstrs (pl_deletePaths p)),
      (''writePaths'', jstrs (pl_writePaths p))] @
     (case pl_scopePaths p of None \<Rightarrow> [] | Some ps \<Rightarrow> [(''scopePaths'', jstrs ps)])"

definition json_of_plan :: "restore_plan \<Rightarrow> jsval" where
  "json_of_plan p = JObj (plan_content p @ [(''planDigest'', JStr (pl_planDigest p))])"

definition with_digest :: "hash \<Rightarrow> restore_plan \<Rightarrow> plan_error + restore_plan" where
  "with_digest H p =
     (case checksum_json H (JObj (plan_content p)) of None \<Rightarrow> Inl PE_type | Some c \<Rightarrow> Inr (p\<lparr>pl_planDigest := c\<rparr>))"

definition plan ::
  "hash \<Rightarrow> string \<Rightarrow> string \<Rightarrow> snapshot_port \<Rightarrow> snapshot_manifest \<Rightarrow> snapshot_manifest \<Rightarrow> string list option \<Rightarrow>
   plan_error + restore_plan" where
  "plan H cwd workspaceRoot store current target scopePaths =
     rbind (case assertManifest H (json_of_manifest current) of Inl e \<Rightarrow> Inl (PE_manifest e) | Inr _ \<Rightarrow> Inr ()) (\<lambda>_.
     rbind (case assertManifest H (json_of_manifest target) of Inl e \<Rightarrow> Inl (PE_manifest e) | Inr _ \<Rightarrow> Inr ()) (\<lambda>_.
     rbind (case scopePaths of None \<Rightarrow> Inr None
            | Some ps \<Rightarrow> rbind (canonicalScope cwd workspaceRoot ps) (\<lambda>c. Inr (Some c))) (\<lambda>scope.
     rbind (assertCompatibleManifests H current target scope) (\<lambda>_.
     rbind (guard (sp_assertComplete store (sm_manifestId current) scope) PE_store) (\<lambda>_.
     rbind (guard (sp_assertComplete store (sm_manifestId target) scope) PE_store) (\<lambda>_.
     rbind (readOwnedPaths cwd workspaceRoot store current scope) (\<lambda>currentPaths.
     rbind (readOwnedPaths cwd workspaceRoot store target scope) (\<lambda>targetPaths.
     let deleteByRoot = collect_paths (to_delete scope targetPaths (ignoredWorkspacePaths target None)) currentPaths;
         writeByRoot = collect_paths (to_write scope currentPaths) targetPaths;
         boundaryRoots = sort_cmp compare_strings
           (js_set (map sr_relativeRoot (sm_roots current) @ map sr_relativeRoot (sm_roots target))) in
     rbind (lift_path (sortDeletePaths (concat (map snd deleteByRoot)))) (\<lambda>deletePaths.
     rbind (lift_path (orderedWritePaths (sm_roots target) writeByRoot targetPaths)) (\<lambda>writePaths.
     with_digest H
       \<lparr>pl_currentManifestId = sm_manifestId current, pl_targetManifestId = sm_manifestId target,
        pl_boundaryRoots = boundaryRoots, pl_deletePaths = deletePaths, pl_writePaths = writePaths,
        pl_scopePaths = scope, pl_planDigest = []\<rparr>))))))))))"

text \<open>A plan that comes back from the journal or a caller. Its keys are those of the record.\<close>

definition hasValidPlanDigest :: "hash \<Rightarrow> jsval \<Rightarrow> bool" where
  "hasValidPlanDigest H v =
     (let scoped = fld v ''scopePaths'' \<noteq> JUndef;
          expectedKeys = [''boundaryRoots'', ''currentManifestId'', ''deletePaths'', ''planDigest''] @
            (if scoped then [''scopePaths''] else []) @ [''targetManifestId'', ''writePaths'']
      in sort_cmp compare_strings (map fst (props v)) = expectedKeys \<and>
         (case checksum_json H (JObj
            ([(''currentManifestId'', fld v ''currentManifestId''), (''targetManifestId'', fld v ''targetManifestId''),
              (''boundaryRoots'', fld v ''boundaryRoots''), (''deletePaths'', fld v ''deletePaths''),
              (''writePaths'', fld v ''writePaths'')] @
             (if scoped then [(''scopePaths'', fld v ''scopePaths'')] else []))) of
            None \<Rightarrow> False
          | Some c \<Rightarrow> JStr c = fld v ''planDigest''))"

section \<open>The index of ignored paths\<close>

lemma proof_index_lowerBound: "low \<le> high \<Longrightarrow> proof_index_loop xs t low high = lowerBound_loop xs t low high"
proof (induction xs t low high rule: proof_index_loop.induct)
  case (1 xs t low high)
  have m: "(low + high) div 2 = low + (high - low) div 2" using 1(3) by arith
  show ?case
    using 1 m by (subst proof_index_loop.simps, subst lowerBound_loop.simps) (auto simp: Let_def)
qed

lemma proof_index_prefix:
  assumes "sorted xs"
  shows "(let low = proof_index_loop xs t 0 (length xs) in low < length xs \<and> starts_with t (xs ! low)) \<longleftrightarrow>
    (\<exists>x \<in> set xs. prefix t x)"
proof -
  have "proof_index_loop xs t 0 (length xs) = lowerBound xs t"
    by (simp add: proof_index_lowerBound lowerBound_def)
  then show ?thesis
    using lowerBound_prefix [OF assms, of t] by (auto simp: Let_def get_at_def split: if_splits)
qed

text \<open>C38 (ignored_index): The index answers what a scan of all ignored paths answers: a leaf is protected if it is one of them, a
  directory if one of them lies below it.\<close>

theorem ignored_index:
  "isProtected exact path kind \<longleftrightarrow>
     (if kind = Directory then list_ex (below path) exact else path \<in> set exact)"
proof (cases "kind = Directory \<and> exact \<noteq> []")
  case True
  then show ?thesis
    using proof_index_prefix [OF sorted_compare_strings, of exact "path @ ''/''"]
    by (auto simp: isProtected_def list_ex_iff strings.set_sort_cmp below_def Let_def)
next
  case False
  then show ?thesis by (auto simp: isProtected_def)
qed

lemma isProtected_iff:
  "isProtected exact path kind \<longleftrightarrow> (if kind = Directory then \<exists>x \<in> set exact. below path x else path \<in> set exact)"
proof (cases "kind = Directory \<and> exact \<noteq> []")
  case True
  then show ?thesis
    using proof_index_prefix [OF sorted_compare_strings, of exact "path @ ''/''"]
    by (auto simp: isProtected_def strings.set_sort_cmp below_def Let_def)
next
  case False
  then show ?thesis by (auto simp: isProtected_def)
qed

section \<open>Paths by root\<close>

definition paths_of :: "by_root \<Rightarrow> string \<Rightarrow> string list" where
  "paths_of m r = (case map_of m r of None \<Rightarrow> [] | Some ps \<Rightarrow> ps)"

lemma paths_of_append: "paths_of (appendPath m r p) r' = (if r' = r then paths_of m r @ [p] else paths_of m r')"
  by (auto simp: paths_of_def appendPath_def update_conv' split: option.splits)

lemma mset_update:
  "distinct (map fst m) \<Longrightarrow>
    mset (concat (map snd (AList.update r ps m))) + mset (paths_of m r) = mset (concat (map snd m)) + mset ps"
proof (induction m)
  case Nil
  then show ?case by (simp add: paths_of_def)
next
  case (Cons x m)
  obtain k v where x: "x = (k, v)" by (cases x)
  show ?case
  proof (cases "k = r")
    case True
    then show ?thesis using x by (simp add: paths_of_def)
  next
    case False
    then have "paths_of (x # m) r = paths_of m r" using x by (simp add: paths_of_def)
    then show ?thesis using Cons False x by (simp add: ac_simps)
  qed
qed

lemma appendPath_facts:
  assumes "distinct (map fst m)"
  shows "distinct (map fst (appendPath m r p))" "mset (concat (map snd (appendPath m r p))) = add_mset p (mset (concat (map snd m)))"
proof -
  show "distinct (map fst (appendPath m r p))" using assms by (simp add: appendPath_def distinct_update)
  have e: "appendPath m r p = AList.update r (paths_of m r @ [p]) m"
    by (simp add: appendPath_def paths_of_def split: option.splits)
  show "mset (concat (map snd (appendPath m r p))) = add_mset p (mset (concat (map snd m)))"
    using mset_update [OF assms, of r "paths_of m r @ [p]"] unfolding e by simp
qed

lemma collect_paths_facts:
  "mset (concat (map snd (collect_paths w ps))) = mset (map fst (filter w ps)) \<and>
   distinct (map fst (collect_paths w ps)) \<and>
   (\<forall>r. paths_of (collect_paths w ps) r = map fst (filter (\<lambda>x. w x \<and> sr_relativeRoot (ow_root (snd x)) = r) ps))"
proof (induction ps rule: rev_induct)
  case Nil
  then show ?case by (simp add: collect_paths_def paths_of_def)
next
  case (snoc x ps)
  obtain path owned where x: "x = (path, owned)" by (cases x)
  have e: "collect_paths w (ps @ [x]) =
      (if w x then appendPath (collect_paths w ps) (sr_relativeRoot (ow_root owned)) path else collect_paths w ps)"
    by (simp add: collect_paths_def x)
  show ?case
    using snoc appendPath_facts(1,2) [of "collect_paths w ps" "sr_relativeRoot (ow_root owned)" path]
    unfolding e by (simp add: x paths_of_append)
qed

lemma mset_by_root:
  assumes "distinct rs" "\<forall>x \<in> set ps. root x \<in> set rs"
  shows "mset (concat (map (\<lambda>r. filter (\<lambda>x. root x = r) ps) rs)) = mset ps"
  using assms(2)
proof (induction ps)
  case Nil
  then show ?case by (induction rs) auto
next
  case (Cons x ps)
  have "mset (concat (map (\<lambda>r. filter (\<lambda>y. root y = r) (x # ps)) qs)) =
      (if root x \<in> set qs then {#x#} else {#}) + mset (concat (map (\<lambda>r. filter (\<lambda>y. root y = r) ps) qs))"
    if "distinct qs" for qs
    using that by (induction qs) auto
  from this [OF assms(1)] Cons show ?case by simp
qed

section \<open>The order of the writes\<close>

lemma leaf_writes_mset:
  "leaf_writes m tgt roots = Inr ls \<Longrightarrow>
    mset ls = mset (concat (map (\<lambda>r. filter (\<lambda>p. target_kind tgt p \<noteq> Some Directory) (paths_of m r))
                     (map sr_relativeRoot roots)))"
proof (induction roots arbitrary: ls)
  case Nil
  then show ?case by simp
next
  case (Cons r roots)
  obtain a b where ab: "sortWritePaths (filter (\<lambda>p. target_kind tgt p \<noteq> Some Directory) (paths_of m (sr_relativeRoot r))) = Inr a"
      "leaf_writes m tgt roots = Inr b" "ls = a @ b"
    using Cons.prems by (auto simp: paths_of_def)
  show ?case using Cons.IH [OF ab(2)] write_sorted(1) [OF ab(1)] ab(3) by simp
qed

lemma orderedWritePaths_facts:
  assumes "orderedWritePaths roots (collect_paths w ps) tgt = Inr qs"
    and "distinct (map sr_relativeRoot roots)" "\<forall>x \<in> set ps. ow_root (snd x) \<in> set roots"
  obtains ds ls where "qs = ds @ ls" "sorted_wrt (\<lambda>a b. \<not> below b a) ds"
    "mset ds = mset (filter (\<lambda>p. target_kind tgt p = Some Directory) (map fst (filter w ps)))"
    "mset ls = mset (filter (\<lambda>p. target_kind tgt p \<noteq> Some Directory) (map fst (filter w ps)))"
proof -
  let ?m = "collect_paths w ps" and ?dir = "\<lambda>p. target_kind tgt p = Some Directory"
  let ?root = "\<lambda>x. sr_relativeRoot (ow_root (snd x))"
  obtain ls ds where q: "leaf_writes ?m tgt roots = Inr ls"
      "sortWritePaths (filter ?dir (concat (map snd ?m))) = Inr ds" "qs = ds @ ls"
    using assms(1) by (auto simp: orderedWritePaths_def Let_def)
  have "mset ds = filter_mset ?dir (mset (concat (map snd ?m)))"
    using write_sorted(1) [OF q(2)] by simp
  also have "\<dots> = mset (filter ?dir (map fst (filter w ps)))"
    using collect_paths_facts [of w ps] by simp
  finally have ds: "mset ds = mset (filter ?dir (map fst (filter w ps)))" .
  let ?ps = "filter (\<lambda>x. w x \<and> \<not> ?dir (fst x)) ps"
  have one: "filter (\<lambda>p. \<not> ?dir p) (paths_of ?m r) = map fst (filter (\<lambda>x. ?root x = r) ?ps)" for r
  proof -
    have "paths_of ?m r = map fst (filter (\<lambda>x. w x \<and> ?root x = r) ps)"
      using collect_paths_facts [of w ps] by blast
    then show ?thesis by (simp add: filter_map comp_def conj_ac)
  qed
  have "mset ls = mset (concat (map (\<lambda>r. map fst (filter (\<lambda>x. ?root x = r) ?ps)) (map sr_relativeRoot roots)))"
    using leaf_writes_mset [OF q(1)] one by simp
  also have "\<dots> = image_mset fst (mset (concat (map (\<lambda>r. filter (\<lambda>x. ?root x = r) ?ps) (map sr_relativeRoot roots))))"
    unfolding mset_map [symmetric] map_concat by (simp add: comp_def)
  also have "\<dots> = image_mset fst (mset ?ps)"
    by (subst mset_by_root [OF assms(2), of ?ps ?root]) (use assms(3) in auto)
  also have "\<dots> = mset (filter (\<lambda>p. \<not> ?dir p) (map fst (filter w ps)))"
    by (simp add: filter_map comp_def flip: mset_map mset_filter)
  finally show ?thesis using that [OF q(3) write_sorted(3) [OF q(2)] ds] by simp
qed

section \<open>The paths a manifest owns\<close>

definition owned_ok :: "snapshot_root list \<Rightarrow> owned_map \<Rightarrow> bool" where
  "owned_ok roots m \<longleftrightarrow> distinct (map fst m) \<and> (\<forall>x \<in> set m. ow_root (snd x) \<in> set roots)"

lemma put_boundaries_ok:
  assumes "owned_ok roots m" "r \<in> set roots"
  shows "owned_ok roots (put_boundaries r m)"
  unfolding put_boundaries_def
  by (rule foldl_keeps) (use assms in \<open>auto simp: owned_ok_def\<close>)

lemma put_entries_ok:
  "put_entries cwd ws r m es = Inr m' \<Longrightarrow> owned_ok roots m \<Longrightarrow> r \<in> set roots \<Longrightarrow> owned_ok roots m'"
proof (induction es arbitrary: m)
  case Nil
  then show ?case by simp
next
  case (Cons e es)
  let ?p = "workspacePath (sr_relativeRoot r) (rp_relativePath e)"
  let ?m = "m @ [(?p, \<lparr>ow_absolutePath = ?p, ow_entry = e, ow_root = r\<rparr>)]"
  have 1: "?p \<notin> fst ` set m" "put_entries cwd ws r ?m es = Inr m'"
    using Cons.prems(1) unfolding put_entries.simps Let_def rbind_Inr guard_Inr by blast+
  have "owned_ok roots ?m" using 1(1) Cons.prems(2,3) by (auto simp: owned_ok_def)
  from Cons.IH [OF 1(2) this Cons.prems(3)] show ?case .
qed

lemma read_roots_ok:
  "read_roots cwd ws store mid scope m rs = Inr m' \<Longrightarrow> owned_ok roots m \<Longrightarrow> set rs \<subseteq> set roots \<Longrightarrow> owned_ok roots m'"
proof (induction rs arbitrary: m)
  case Nil
  then show ?case by simp
next
  case (Cons r rs)
  show ?case
  proof (cases "rootRelativeScopePaths (sr_relativeRoot r) scope = Some []")
    case True
    then show ?thesis using Cons.IH [OF _ Cons.prems(2)] Cons.prems(1,3) by (simp add: Let_def)
  next
    case False
    then obtain es m1 where 1: "put_entries cwd ws r (if es \<noteq> [] then put_boundaries r m else m) es = Inr m1"
        "read_roots cwd ws store mid scope m1 rs = Inr m'"
      using Cons.prems(1) by (auto simp: Let_def split: option.splits)
    have "owned_ok roots (if es \<noteq> [] then put_boundaries r m else m)"
      using put_boundaries_ok Cons.prems(2,3) by simp
    from put_entries_ok [OF 1(1) this] have "owned_ok roots m1" using Cons.prems(3) by simp
    from Cons.IH [OF 1(2) this] show ?thesis using Cons.prems(3) by simp
  qed
qed

lemma readOwnedPaths_ok: "readOwnedPaths cwd ws store m scope = Inr ps \<Longrightarrow> owned_ok (sm_roots m) ps"
  unfolding readOwnedPaths_def by (erule read_roots_ok) (simp_all add: owned_ok_def)

section \<open>What a manifest checks\<close>

lemma root_paths_json: "root_paths (json_of_manifest m) = map sr_relativeRoot (sm_roots m)"
  by (simp add: root_paths_def json_of_manifest_def json_of_root_def comp_def)

lemma manifest_roots_distinct:
  "assertManifest H (json_of_manifest m) = Inr w \<Longrightarrow> distinct (map sr_relativeRoot (sm_roots m))"
  using manifest_roots_sorted [of H "json_of_manifest m" w] by (simp add: root_paths_json)

text \<open>The parts of a successful planning.\<close>

lemma planE:
  assumes "plan H cwd ws store current target scopePaths = Inr p"
  obtains cur tgt where
    "readOwnedPaths cwd ws store current (pl_scopePaths p) = Inr cur"
    "readOwnedPaths cwd ws store target (pl_scopePaths p) = Inr tgt"
    "sortDeletePaths (concat (map snd (collect_paths
       (to_delete (pl_scopePaths p) tgt (ignoredWorkspacePaths target None)) cur))) = Inr (pl_deletePaths p)"
    "orderedWritePaths (sm_roots target) (collect_paths (to_write (pl_scopePaths p) cur) tgt) tgt = Inr (pl_writePaths p)"
    "distinct (map sr_relativeRoot (sm_roots target))"
    "checksum_json H (JObj (plan_content p)) = Some (pl_planDigest p)"
    "scopePaths = None \<Longrightarrow> pl_scopePaths p = None"
    "\<And>ps. scopePaths = Some ps \<Longrightarrow> \<exists>qs. pl_scopePaths p = Some qs \<and> set qs = set ps"
proof -
  obtain u scope cur tgt dels wrs where r:
    "(case assertManifest H (json_of_manifest target) of Inl e \<Rightarrow> Inl (PE_manifest e) | Inr _ \<Rightarrow> Inr ()) = Inr u"
    "(case scopePaths of None \<Rightarrow> Inr None | Some ps \<Rightarrow> rbind (canonicalScope cwd ws ps) (\<lambda>c. Inr (Some c))) = Inr scope"
    "readOwnedPaths cwd ws store current scope = Inr cur" "readOwnedPaths cwd ws store target scope = Inr tgt"
    "lift_path (sortDeletePaths (concat (map snd (collect_paths
       (to_delete scope tgt (ignoredWorkspacePaths target None)) cur)))) = Inr dels"
    "lift_path (orderedWritePaths (sm_roots target) (collect_paths (to_write scope cur) tgt) tgt) = Inr wrs"
    "with_digest H \<lparr>pl_currentManifestId = sm_manifestId current, pl_targetManifestId = sm_manifestId target,
        pl_boundaryRoots = sort_cmp compare_strings
           (js_set (map sr_relativeRoot (sm_roots current) @ map sr_relativeRoot (sm_roots target))),
        pl_deletePaths = dels, pl_writePaths = wrs, pl_scopePaths = scope, pl_planDigest = []\<rparr> = Inr p"
    using assms unfolding plan_def Let_def rbind_Inr by (elim exE conjE) (rule that; assumption)
  have lift: "lift_path x = Inr y \<Longrightarrow> x = Inr y" for x :: "path_error + string list" and y
    by (simp add: lift_path_def split: sum.splits)
  note d = r(7) [unfolded with_digest_def]
  have p: "pl_scopePaths p = scope" "pl_deletePaths p = dels" "pl_writePaths p = wrs"
    using d by (auto split: option.splits)
  have c: "checksum_json H (JObj (plan_content p)) = Some (pl_planDigest p)"
    using d by (auto simp: plan_content_def split: option.splits)
  have m: "distinct (map sr_relativeRoot (sm_roots target))"
    using r(1) manifest_roots_distinct [of H target] by (auto split: sum.splits)
  have s: "scopePaths = None \<Longrightarrow> pl_scopePaths p = None"
      "\<And>ps. scopePaths = Some ps \<Longrightarrow> \<exists>qs. pl_scopePaths p = Some qs \<and> set qs = set ps"
    using r(2) by (auto simp: p(1) canonicalScope_def Let_def set_sort_cmp_gen)
  show ?thesis
    using that [of cur tgt] r(3,4) lift [OF r(5)] lift [OF r(6)] m c s unfolding p by simp
qed

section \<open>Running a plan\<close>

text \<open>
  The workspace as the plan sees it: what each path holds. A deletion is refused if something lies
  below the path, a write if a directory on the way is missing or the path holds an entry of another
  kind or a symbolic link.
\<close>

type_synonym entry_key = "leaf_kind \<times> nat \<times> string option \<times> nat \<times> string option"

definition entry_key :: "restore_path \<Rightarrow> entry_key" where
  "entry_key e = (rp_kind e, rp_mode e, rp_blobId e, rp_size e, rp_linkText e)"

type_synonym workspace = "string \<Rightarrow> entry_key option"

definition workspace_of :: "owned_map \<Rightarrow> workspace" where
  "workspace_of m p = map_option (\<lambda>owned. entry_key (ow_entry owned)) (map_of m p)"

definition kind_at :: "workspace \<Rightarrow> string \<Rightarrow> leaf_kind option" where
  "kind_at \<sigma> p = map_option fst (\<sigma> p)"

definition delete_at :: "workspace \<Rightarrow> string \<Rightarrow> workspace option" where
  "delete_at \<sigma> p = (if \<sigma> p \<noteq> None \<and> (\<forall>c. below p c \<longrightarrow> \<sigma> c = None) then Some (\<sigma>(p := None)) else None)"

definition write_at :: "workspace \<Rightarrow> workspace \<Rightarrow> string \<Rightarrow> workspace option" where
  "write_at target \<sigma> p =
     (case target p of
        None \<Rightarrow> None
      | Some e \<Rightarrow>
          if (\<forall>q. below q p \<longrightarrow> kind_at \<sigma> q = Some Directory) \<and>
             (\<sigma> p = None \<or> kind_at \<sigma> p = Some (fst e) \<and> fst e \<noteq> SymlinkLeaf)
          then Some (\<sigma>(p := Some e)) else None)"

fun run_all :: "(workspace \<Rightarrow> string \<Rightarrow> workspace option) \<Rightarrow> workspace \<Rightarrow> string list \<Rightarrow> workspace option" where
  "run_all f \<sigma> [] = Some \<sigma>"
| "run_all f \<sigma> (p # ps) = (case f \<sigma> p of None \<Rightarrow> None | Some \<sigma>' \<Rightarrow> run_all f \<sigma>' ps)"

definition run_plan :: "workspace \<Rightarrow> restore_plan \<Rightarrow> workspace \<Rightarrow> workspace option" where
  "run_plan target p \<sigma> =
     (case run_all delete_at \<sigma> (pl_deletePaths p) of None \<Rightarrow> None
      | Some \<sigma>' \<Rightarrow> run_all (write_at target) \<sigma>' (pl_writePaths p))"

definition tree_shaped :: "workspace \<Rightarrow> bool" where
  "tree_shaped \<sigma> \<longleftrightarrow> (\<forall>p q. \<sigma> p \<noteq> None \<longrightarrow> below q p \<longrightarrow> kind_at \<sigma> q = Some Directory)"

definition without_paths :: "workspace \<Rightarrow> string set \<Rightarrow> workspace" where
  "without_paths \<sigma> D p = (if p \<in> D then None else \<sigma> p)"

lemma sameEntry_key: "sameEntry a b \<longleftrightarrow> entry_key a = entry_key b"
  by (auto simp: sameEntry_def entry_key_def)

lemma run_deletes:
  assumes "distinct ps" "sorted_wrt (\<lambda>a b. \<not> below a b) ps" "\<forall>p \<in> set ps. \<sigma> p \<noteq> None"
    "\<forall>p \<in> set ps. \<forall>c. below p c \<longrightarrow> \<sigma> c \<noteq> None \<longrightarrow> c \<in> set ps"
  shows "run_all delete_at \<sigma> ps = Some (without_paths \<sigma> (set ps))"
  using assms
proof (induction ps arbitrary: \<sigma>)
  case Nil
  then show ?case by (simp add: without_paths_def fun_eq_iff)
next
  case (Cons p ps)
  have nb: "\<not> below p p" by (simp add: below_def)
  have empty: "\<sigma> c = None" if "below p c" for c
  proof (rule ccontr)
    assume "\<sigma> c \<noteq> None"
    then have "c \<in> set (p # ps)" using Cons.prems(4) that by simp
    then show False using Cons.prems(2) that nb by auto
  qed
  then have d: "delete_at \<sigma> p = Some (\<sigma>(p := None))" using Cons.prems(3) by (auto simp: delete_at_def)
  have "run_all delete_at (\<sigma>(p := None)) ps = Some (without_paths (\<sigma>(p := None)) (set ps))"
  proof (rule Cons.IH)
    show "distinct ps" "sorted_wrt (\<lambda>a b. \<not> below a b) ps" using Cons.prems(1,2) by simp_all
    show "\<forall>q \<in> set ps. (\<sigma>(p := None)) q \<noteq> None" using Cons.prems(1,3) by auto
    show "\<forall>q \<in> set ps. \<forall>c. below q c \<longrightarrow> (\<sigma>(p := None)) c \<noteq> None \<longrightarrow> c \<in> set ps"
    proof (intro ballI allI impI)
      fix q c assume "q \<in> set ps" "below q c" and c: "(\<sigma>(p := None)) c \<noteq> None"
      moreover have "\<sigma> c \<noteq> None" "c \<noteq> p" using c by (auto split: if_splits)
      ultimately show "c \<in> set ps" using Cons.prems(4) [rule_format, of q c] by simp
    qed
  qed
  moreover have "without_paths (\<sigma>(p := None)) (set ps) = without_paths \<sigma> (set (p # ps))"
    by (auto simp: without_paths_def fun_eq_iff)
  ultimately show ?case using d by simp
qed

definition with_paths :: "workspace \<Rightarrow> workspace \<Rightarrow> string set \<Rightarrow> workspace" where
  "with_paths target \<sigma> W p = (if p \<in> W then target p else \<sigma> p)"

lemma run_writes:
  assumes "distinct ps" "\<forall>p \<in> set ps. target p \<noteq> None"
    "\<forall>p \<in> set ps. \<sigma> p = None \<or> kind_at \<sigma> p = kind_at target p \<and> kind_at target p \<noteq> Some SymlinkLeaf"
    "\<forall>i < length ps. \<forall>q. below q (ps ! i) \<longrightarrow>
       kind_at \<sigma> q = Some Directory \<and> (q \<in> set ps \<longrightarrow> kind_at target q = Some Directory) \<or>
       kind_at target q = Some Directory \<and> q \<in> set (take i ps)"
  shows "run_all (write_at target) \<sigma> ps = Some (with_paths target \<sigma> (set ps))"
  using assms
proof (induction ps arbitrary: \<sigma>)
  case Nil
  then show ?case by (simp add: with_paths_def fun_eq_iff)
next
  case (Cons p ps)
  obtain e where e: "target p = Some e" using Cons.prems(2) by auto
  have dirs: "kind_at \<sigma> q = Some Directory" if "below q p" for q
    using Cons.prems(4) [rule_format, of 0 q] that by auto
  have w: "write_at target \<sigma> p = Some (\<sigma>(p := Some e))"
    using dirs Cons.prems(3) e by (cases e) (auto simp: write_at_def kind_at_def)
  let ?s = "\<sigma>(p := Some e)"
  have "run_all (write_at target) ?s ps = Some (with_paths target ?s (set ps))"
  proof (rule Cons.IH)
    show "distinct ps" "\<forall>p \<in> set ps. target p \<noteq> None" using Cons.prems(1,2) by simp_all
    show "\<forall>q \<in> set ps. ?s q = None \<or> kind_at ?s q = kind_at target q \<and> kind_at target q \<noteq> Some SymlinkLeaf"
      using Cons.prems(1,3) by (auto simp: kind_at_def)
    show "\<forall>i < length ps. \<forall>q. below q (ps ! i) \<longrightarrow>
       kind_at ?s q = Some Directory \<and> (q \<in> set ps \<longrightarrow> kind_at target q = Some Directory) \<or>
       kind_at target q = Some Directory \<and> q \<in> set (take i ps)"
    proof (intro allI impI)
      fix i q assume i: "i < length ps" "below q (ps ! i)"
      have "kind_at \<sigma> q = Some Directory \<and> (q \<in> set (p # ps) \<longrightarrow> kind_at target q = Some Directory) \<or>
          kind_at target q = Some Directory \<and> q \<in> set (take (Suc i) (p # ps))"
        using Cons.prems(4) [rule_format, of "Suc i" q] i by simp
      then show "kind_at ?s q = Some Directory \<and> (q \<in> set ps \<longrightarrow> kind_at target q = Some Directory) \<or>
          kind_at target q = Some Directory \<and> q \<in> set (take i ps)"
        using e Cons.prems(1) by (auto simp: kind_at_def dest: in_set_takeD)
    qed
  qed
  moreover have "with_paths target ?s (set ps) = with_paths target \<sigma> (set (p # ps))"
    using e by (auto simp: with_paths_def fun_eq_iff)
  ultimately show ?case using w by simp
qed

section \<open>What a plan does\<close>

definition deletes :: "workspace \<Rightarrow> workspace \<Rightarrow> string list \<Rightarrow> string \<Rightarrow> bool" where
  "deletes C T ign q \<longleftrightarrow>
     (case C q of None \<Rightarrow> False
      | Some e \<Rightarrow> (case T q of Some t \<Rightarrow> e \<noteq> t \<and> (fst t \<noteq> fst e \<or> fst t = SymlinkLeaf)
                   | None \<Rightarrow> \<not> isProtected ign q (fst e)))"

definition writes :: "workspace \<Rightarrow> workspace \<Rightarrow> string \<Rightarrow> bool" where
  "writes C T q \<longleftrightarrow> T q \<noteq> None \<and> C q \<noteq> T q"

text \<open>The target, and of what it does not have the paths it ignores.\<close>

definition restored :: "workspace \<Rightarrow> workspace \<Rightarrow> string list \<Rightarrow> workspace" where
  "restored C T ign q =
     (case T q of Some t \<Rightarrow> Some t
      | None \<Rightarrow> (case C q of None \<Rightarrow> None | Some e \<Rightarrow> if isProtected ign q (fst e) then Some e else None))"

lemma map_of_set: "distinct (map fst m) \<Longrightarrow> fst ` {x \<in> set m. P x} = {k. \<exists>v. map_of m k = Some v \<and> P (k, v)}"
  by force

lemma deleted_set:
  assumes "distinct (map fst cur)"
  shows "set (map fst (filter (to_delete scope tgt ign) cur)) =
    {q. in_scope scope q \<and> deletes (workspace_of cur) (workspace_of tgt) ign q}"
  unfolding set_map set_filter map_of_set [OF assms]
  by (auto simp: to_delete_def deletes_def workspace_of_def sameEntry_key entry_key_def split: option.splits)

lemma written_set:
  assumes "distinct (map fst tgt)"
  shows "set (map fst (filter (to_write scope cur) tgt)) =
    {q. in_scope scope q \<and> writes (workspace_of cur) (workspace_of tgt) q}"
  unfolding set_map set_filter map_of_set [OF assms]
  by (auto simp: to_write_def writes_def workspace_of_def entriesEquivalent_def sameEntry_key split: option.splits)

lemma target_kind_kind: "target_kind tgt p = kind_at (workspace_of tgt) p"
  by (simp add: target_kind_def kind_at_def workspace_of_def entry_key_def option.map_comp comp_def)

text \<open>The two lists of a plan, for the workspaces its manifests describe.\<close>

lemma plan_lists:
  assumes "plan H cwd ws store current target scopePaths = Inr p"
    and "readOwnedPaths cwd ws store current (pl_scopePaths p) = Inr cur"
    and "readOwnedPaths cwd ws store target (pl_scopePaths p) = Inr tgt"
  shows "distinct (pl_deletePaths p)"
    and "set (pl_deletePaths p) = {q. in_scope (pl_scopePaths p) q \<and>
           deletes (workspace_of cur) (workspace_of tgt) (ignoredWorkspacePaths target None) q}"
    and "sorted_wrt (\<lambda>a b. \<not> below a b) (pl_deletePaths p)"
    and "distinct (pl_writePaths p)"
    and "set (pl_writePaths p) = {q. in_scope (pl_scopePaths p) q \<and> writes (workspace_of cur) (workspace_of tgt) q}"
    and "\<exists>ds ls. pl_writePaths p = ds @ ls \<and> sorted_wrt (\<lambda>a b. \<not> below b a) ds \<and>
           set ds = {q \<in> set (pl_writePaths p). kind_at (workspace_of tgt) q = Some Directory}"
proof -
  let ?sc = "pl_scopePaths p" and ?ign = "ignoredWorkspacePaths target None"
  let ?dl = "map fst (filter (to_delete ?sc tgt ?ign) cur)" and ?wl = "map fst (filter (to_write ?sc cur) tgt)"
  have dc: "distinct (map fst cur)" and dt: "distinct (map fst tgt)"
    and rt: "\<forall>x \<in> set tgt. ow_root (snd x) \<in> set (sm_roots target)"
    using readOwnedPaths_ok [OF assms(2)] readOwnedPaths_ok [OF assms(3)] by (simp_all add: owned_ok_def)
  obtain cur' tgt' where e: "readOwnedPaths cwd ws store current ?sc = Inr cur'" "readOwnedPaths cwd ws store target ?sc = Inr tgt'"
      "sortDeletePaths (concat (map snd (collect_paths (to_delete ?sc tgt' ?ign) cur'))) = Inr (pl_deletePaths p)"
      "orderedWritePaths (sm_roots target) (collect_paths (to_write ?sc cur') tgt') tgt' = Inr (pl_writePaths p)"
      "distinct (map sr_relativeRoot (sm_roots target))"
    by (rule planE [OF assms(1)])
  have s: "cur' = cur" "tgt' = tgt" using e(1,2) assms(2,3) by simp_all
  have md: "mset (pl_deletePaths p) = mset ?dl"
    using delete_sorted(1) [OF e(3)] collect_paths_facts [of "to_delete ?sc tgt ?ign" cur] unfolding s by simp
  have "distinct ?dl" "distinct ?wl" using dc dt by (simp_all add: distinct_map_filter)
  then show "distinct (pl_deletePaths p)" using mset_eq_imp_distinct_iff [OF md] by simp
  show "set (pl_deletePaths p) = {q. in_scope ?sc q \<and> deletes (workspace_of cur) (workspace_of tgt) ?ign q}"
    unfolding mset_eq_setD [OF md] by (rule deleted_set [OF dc])
  show "sorted_wrt (\<lambda>a b. \<not> below a b) (pl_deletePaths p)" by (rule delete_sorted(3) [OF e(3)])
  obtain ds ls where w: "pl_writePaths p = ds @ ls" "sorted_wrt (\<lambda>a b. \<not> below b a) ds"
      "mset ds = mset (filter (\<lambda>p. target_kind tgt p = Some Directory) ?wl)"
      "mset ls = mset (filter (\<lambda>p. target_kind tgt p \<noteq> Some Directory) ?wl)"
    by (rule orderedWritePaths_facts [OF e(4) [unfolded s] e(5) rt])
  have mw: "mset (pl_writePaths p) = mset ?wl"
    unfolding w(1) using w(3,4) by (simp flip: multiset_partition)
  then show "distinct (pl_writePaths p)" using mset_eq_imp_distinct_iff [OF mw] \<open>distinct ?wl\<close> by simp
  show "set (pl_writePaths p) = {q. in_scope ?sc q \<and> writes (workspace_of cur) (workspace_of tgt) q}"
    unfolding mset_eq_setD [OF mw] by (rule written_set [OF dt])
  have "set ds = {q \<in> set (pl_writePaths p). kind_at (workspace_of tgt) q = Some Directory}"
    unfolding mset_eq_setD [OF mw] mset_eq_setD [OF w(3)] by (auto simp: target_kind_kind)
  then show "\<exists>ds ls. pl_writePaths p = ds @ ls \<and> sorted_wrt (\<lambda>a b. \<not> below b a) ds \<and>
      set ds = {q \<in> set (pl_writePaths p). kind_at (workspace_of tgt) q = Some Directory}"
    using w(1,2) by blast
qed

lemma below_trans: "below a b \<Longrightarrow> below b c \<Longrightarrow> below a c"
  by (auto simp: below_def prefix_def)

lemma below_irrefl [simp]: "\<not> below a a"
  by (simp add: below_def)

lemma tree_shapedD: "tree_shaped C \<Longrightarrow> below p c \<Longrightarrow> C c \<noteq> None \<Longrightarrow> kind_at C p = Some Directory"
  unfolding tree_shaped_def by blast

lemma kind_at_Some: "kind_at C p = Some k \<Longrightarrow> \<exists>e. C p = Some e \<and> fst e = k"
  by (cases "C p") (simp_all add: kind_at_def)

definition ignored_fit :: "workspace \<Rightarrow> string list \<Rightarrow> bool" where
  "ignored_fit T ign \<longleftrightarrow> (\<forall>g \<in> set ign. \<forall>q. below q g \<longrightarrow> T q = None \<or> kind_at T q = Some Directory)"

lemma deletes_closed:
  assumes "tree_shaped C" "tree_shaped T" "ignored_fit T ign" "deletes C T ign p" "below p c" "C c \<noteq> None"
  shows "deletes C T ign c"
proof -
  obtain e where e: "C p = Some e" "fst e = Directory"
    using kind_at_Some [OF tree_shapedD [OF assms(1,5,6)]] by blast
  have nt: "kind_at T p \<noteq> Some Directory"
  proof (cases "T p")
    case (Some t)
    then have "fst t \<noteq> fst e \<or> fst t = SymlinkLeaf" using assms(4) e by (simp add: deletes_def)
    then show ?thesis using Some e by (auto simp: kind_at_def)
  qed (simp add: kind_at_def)
  then have tc: "T c = None" using tree_shapedD [OF assms(2,5)] by blast
  have "\<not> isProtected ign c k" for k
  proof
    assume "isProtected ign c k"
    then obtain g where g: "g \<in> set ign" "below p g"
      using assms(5) below_trans by (auto simp: isProtected_iff split: if_splits)
    then have "T p = None" using assms(3) nt unfolding ignored_fit_def by blast
    then show False using assms(4) e g by (auto simp: deletes_def isProtected_iff)
  qed
  then show ?thesis using assms(6) tc by (auto simp: deletes_def split: option.splits)
qed

lemma restored_paths:
  "with_paths T (without_paths C {q. deletes C T ign q}) {q. writes C T q} = restored C T ign"
  by (auto simp: with_paths_def without_paths_def restored_def deletes_def writes_def fun_eq_iff split: option.splits)

lemma write_order:
  assumes "sorted_wrt (\<lambda>a b. \<not> below b a) ds" "i < length (ds @ ls)" "q \<in> set ds" "below q ((ds @ ls) ! i)"
  shows "q \<in> set (take i (ds @ ls))"
proof -
  obtain j where j: "j < length ds" "ds ! j = q" using assms(3) by (auto simp: in_set_conv_nth)
  have "j < i"
  proof (rule ccontr)
    assume "\<not> j < i"
    then have i: "i \<le> j" "i < length ds" using j(1) by simp_all
    show False
    proof (cases "i = j")
      case True
      then show False using assms(4) j by (simp add: nth_append)
    next
      case False
      then have "\<not> below (ds ! j) (ds ! i)" using sorted_wrt_nth_less [OF assms(1)] i j(1) by simp
      then show False using assms(4) i j by (simp add: nth_append)
    qed
  qed
  then have "take i (ds @ ls) ! j = q" "j < length (take i (ds @ ls))"
    using j assms(2) by (simp_all add: nth_append)
  then show ?thesis by (metis nth_mem)
qed

section \<open>Properties of plans\<close>

lemma deletes_present: "deletes C T ign q \<Longrightarrow> C q \<noteq> None"
  by (cases "C q") (simp_all add: deletes_def)

text \<open>C18 (plan_restores): Running the plan of a complete restore on a workspace that holds the current manifest never fails: no
  directory is removed while it has content, no entry is written before its directory exists or over
  an entry of another kind. It ends in the target, together with the paths that the target does not
  have but ignores.\<close>

theorem plan_restores:
  assumes "plan H cwd ws store current target None = Inr p"
    and "readOwnedPaths cwd ws store current None = Inr cur"
    and "readOwnedPaths cwd ws store target None = Inr tgt"
    and "tree_shaped (workspace_of cur)" "tree_shaped (workspace_of tgt)"
    and "ignored_fit (workspace_of tgt) (ignoredWorkspacePaths target None)"
  shows "run_plan (workspace_of tgt) p (workspace_of cur) =
    Some (restored (workspace_of cur) (workspace_of tgt) (ignoredWorkspacePaths target None))"
proof -
  let ?C = "workspace_of cur" and ?T = "workspace_of tgt" and ?ign = "ignoredWorkspacePaths target None"
  have sc: "pl_scopePaths p = None" by (rule planE [OF assms(1)]) simp
  note l = plan_lists [OF assms(1), unfolded sc, OF assms(2,3), unfolded in_scope_def, simplified]
  let ?D = "{q. deletes ?C ?T ?ign q}" and ?W = "{q. writes ?C ?T q}"
  let ?S = "without_paths ?C ?D"
  have dels: "run_all delete_at ?C (pl_deletePaths p) = Some ?S"
  proof -
    have "\<forall>q \<in> set (pl_deletePaths p). ?C q \<noteq> None" unfolding l(2) using deletes_present by blast
    moreover have "\<forall>q \<in> set (pl_deletePaths p). \<forall>c. below q c \<longrightarrow> ?C c \<noteq> None \<longrightarrow> c \<in> set (pl_deletePaths p)"
      unfolding l(2) using deletes_closed [OF assms(4,5,6)] by blast
    ultimately show ?thesis using run_deletes [OF l(1,3)] unfolding l(2) by blast
  qed
  obtain ds ls where w: "pl_writePaths p = ds @ ls" "sorted_wrt (\<lambda>a b. \<not> below b a) ds"
      "set ds = {q \<in> set (pl_writePaths p). kind_at ?T q = Some Directory}"
    using l(6) by blast
  have "run_all (write_at ?T) ?S (pl_writePaths p) = Some (with_paths ?T ?S (set (pl_writePaths p)))"
  proof (rule run_writes [OF l(4)])
    show "\<forall>q \<in> set (pl_writePaths p). ?T q \<noteq> None" unfolding l(5) by (simp add: writes_def)
    show "\<forall>q \<in> set (pl_writePaths p). ?S q = None \<or>
        kind_at ?S q = kind_at ?T q \<and> kind_at ?T q \<noteq> Some SymlinkLeaf"
    proof
      fix q assume q: "q \<in> set (pl_writePaths p)"
      then obtain t where t: "?T q = Some t" "?C q \<noteq> Some t" unfolding l(5) by (auto simp: writes_def)
      show "?S q = None \<or> kind_at ?S q = kind_at ?T q \<and> kind_at ?T q \<noteq> Some SymlinkLeaf"
        using t by (cases "?C q") (auto simp: without_paths_def deletes_def kind_at_def)
    qed
    show "\<forall>i < length (pl_writePaths p). \<forall>q. below q (pl_writePaths p ! i) \<longrightarrow>
       kind_at ?S q = Some Directory \<and> (q \<in> set (pl_writePaths p) \<longrightarrow> kind_at ?T q = Some Directory) \<or>
       kind_at ?T q = Some Directory \<and> q \<in> set (take i (pl_writePaths p))"
    proof (intro allI impI)
      fix i q assume i: "i < length (pl_writePaths p)" "below q (pl_writePaths p ! i)"
      have "pl_writePaths p ! i \<in> set (pl_writePaths p)" using i(1) by simp
      then have "?T (pl_writePaths p ! i) \<noteq> None" unfolding l(5) by (simp add: writes_def)
      then have d: "kind_at ?T q = Some Directory" by (rule tree_shapedD [OF assms(5) i(2)])
      show "kind_at ?S q = Some Directory \<and> (q \<in> set (pl_writePaths p) \<longrightarrow> kind_at ?T q = Some Directory) \<or>
         kind_at ?T q = Some Directory \<and> q \<in> set (take i (pl_writePaths p))"
      proof (cases "q \<in> set (pl_writePaths p)")
        case True
        then have "q \<in> set ds" using d w(3) by simp
        then show ?thesis using write_order [OF w(2), of i ls q] i d unfolding w(1) by blast
      next
        case False
        then have "?C q = ?T q" using kind_at_Some [OF d] unfolding l(5) by (auto simp: writes_def)
        then have "?S q = ?T q" by (auto simp: without_paths_def deletes_def split: option.splits)
        then show ?thesis using d False by (simp add: kind_at_def)
      qed
    qed
  qed
  then show ?thesis using dels restored_paths [of ?T ?C ?ign] unfolding run_plan_def l(5) by simp
qed

text \<open>The plan of a restore that is limited to some paths deletes and writes only those, each at most once,
  and brings each of them to what it is in the target.\<close>

theorem plan_scoped:
  assumes "plan H cwd ws store current target (Some scope) = Inr p"
    and "readOwnedPaths cwd ws store current (pl_scopePaths p) = Inr cur"
    and "readOwnedPaths cwd ws store target (pl_scopePaths p) = Inr tgt"
  shows "set (pl_deletePaths p) \<union> set (pl_writePaths p) \<subseteq> set scope \<and>
    distinct (pl_deletePaths p) \<and> distinct (pl_writePaths p) \<and>
    with_paths (workspace_of tgt) (without_paths (workspace_of cur) (set (pl_deletePaths p))) (set (pl_writePaths p)) =
      (\<lambda>q. if q \<in> set scope
           then restored (workspace_of cur) (workspace_of tgt) (ignoredWorkspacePaths target None) q
           else workspace_of cur q)"
proof -
  let ?C = "workspace_of cur" and ?T = "workspace_of tgt" and ?ign = "ignoredWorkspacePaths target None"
  have "\<exists>qs. pl_scopePaths p = Some qs \<and> set qs = set scope" by (rule planE [OF assms(1)]) simp
  then obtain qs where qs: "pl_scopePaths p = Some qs" "set qs = set scope" by blast
  have s: "in_scope (pl_scopePaths p) q \<longleftrightarrow> q \<in> set scope" for q by (simp add: in_scope_def qs)
  note l = plan_lists [OF assms]
  have "restored ?C ?T ?ign q = with_paths ?T (without_paths ?C {q. deletes ?C ?T ?ign q}) {q. writes ?C ?T q} q" for q
    by (simp add: restored_paths)
  then have "with_paths ?T (without_paths ?C (set (pl_deletePaths p))) (set (pl_writePaths p)) =
      (\<lambda>q. if q \<in> set scope then restored ?C ?T ?ign q else ?C q)"
    unfolding l(2,5) s by (auto simp: with_paths_def without_paths_def fun_eq_iff)
  moreover have "set (pl_deletePaths p) \<union> set (pl_writePaths p) \<subseteq> set scope"
    unfolding l(2,5) s by blast
  ultimately show ?thesis using l(1,4) by blast
qed


section \<open>Two manifests for the examples\<close>

text \<open>A digest that tells the two manifests apart.\<close>

definition length_digest :: hash where
  "length_digest s = replicate 62 (CHR ''0'') @ [hex_char (length s div 16 mod 16), hex_char (length s mod 16)]"

definition hex_id :: "string \<Rightarrow> string" where
  "hex_id s = ''00000000000000000000000000000000000000000000000000000000000000'' @ s"

definition sample_root :: "string list \<Rightarrow> snapshot_root" where
  "sample_root ign =
     \<lparr>sr_relativeRoot = ''.'', sr_parentRoot = None, sr_state = Active, sr_sourceIdentity = ''s'',
      sr_privateRepositoryId = hex_id ''01'', sr_gitlinkOid = None, sr_treeId = Some ''t'',
      sr_coverage = ''complete'', sr_ignorePolicy = ''p'', sr_ignoredPresentPaths = ign,
      sr_ignoreClosure = hex_id (if ign = [] then ''43'' else ''46''), sr_objectClosure = hex_id ''00''\<rparr>"

definition sample_manifest :: "string list \<Rightarrow> snapshot_manifest" where
  "sample_manifest ign =
     \<lparr>sm_schemaVersion = 1, sm_manifestId = hex_id (if ign = [] then ''51'' else ''54''), sm_workspaceIdentity = ''w'',
      sm_topologyFingerprint = hex_id ''db'', sm_coverage = ''complete'', sm_roots = [sample_root ign], sm_createdAt = ''now''\<rparr>"

definition sample_entry :: "string \<Rightarrow> leaf_kind \<Rightarrow> restore_path" where
  "sample_entry p k =
     \<lparr>rp_relativePath = p, rp_kind = k, rp_mode = (if k = Directory then 493 else 420),
      rp_blobId = (if k = Directory then None else Some ''b''), rp_size = 0, rp_rootHash = ''t'', rp_linkText = None\<rparr>"

text \<open>The directory \<open>d\<close> becomes a file, \<open>a\<close> goes, \<open>b/y\<close> comes, \<open>k\<close> is ignored in the target.\<close>

definition sample_store :: snapshot_port where
  "sample_store =
     \<lparr>sp_assertComplete = (\<lambda>_ _. True),
      sp_listTree = (\<lambda>mid root scope. Some
        (if mid = hex_id ''51''
         then [sample_entry ''a'' File, sample_entry ''d'' Directory, sample_entry ''d/x'' File, sample_entry ''k'' File]
         else [sample_entry ''b'' Directory, sample_entry ''b/y'' File, sample_entry ''d'' File]))\<rparr>"

definition sample_plan :: "string list option \<Rightarrow> restore_plan" where
  "sample_plan scope =
     (case plan length_digest ''/'' ''/w'' sample_store (sample_manifest []) (sample_manifest [''k'']) scope of
        Inr p \<Rightarrow> p | Inl _ \<Rightarrow> undefined)"

definition sample_paths :: "string list \<Rightarrow> string list option \<Rightarrow> owned_map" where
  "sample_paths ign scope =
     (case readOwnedPaths ''/'' ''/w'' sample_store (sample_manifest ign) scope of Inr m \<Rightarrow> m | Inl _ \<Rightarrow> [])"

lemma sample_planned:
  "plan length_digest ''/'' ''/w'' sample_store (sample_manifest []) (sample_manifest [''k'']) None = Inr (sample_plan None)"
  "pl_deletePaths (sample_plan None) = [''d/x'', ''a'', ''d'']" "pl_writePaths (sample_plan None) = [''b'', ''d'', ''b/y'']"
proof -
  have "case plan length_digest ''/'' ''/w'' sample_store (sample_manifest []) (sample_manifest [''k'']) None of
      Inl _ \<Rightarrow> False
    | Inr p \<Rightarrow> pl_deletePaths p = [''d/x'', ''a'', ''d''] \<and> pl_writePaths p = [''b'', ''d'', ''b/y'']"
    by code_simp
  then show "plan length_digest ''/'' ''/w'' sample_store (sample_manifest []) (sample_manifest [''k'']) None = Inr (sample_plan None)"
    "pl_deletePaths (sample_plan None) = [''d/x'', ''a'', ''d'']" "pl_writePaths (sample_plan None) = [''b'', ''d'', ''b/y'']"
    by (auto simp: sample_plan_def split: sum.splits)
qed

lemma sample_paths_None:
  "sample_paths [] None =
     map (\<lambda>e. (rp_relativePath e, \<lparr>ow_absolutePath = rp_relativePath e, ow_entry = e, ow_root = sample_root []\<rparr>))
       [sample_entry ''a'' File, sample_entry ''d'' Directory, sample_entry ''d/x'' File, sample_entry ''k'' File]"
  "sample_paths [''k''] None =
     map (\<lambda>e. (rp_relativePath e, \<lparr>ow_absolutePath = rp_relativePath e, ow_entry = e, ow_root = sample_root [''k'']\<rparr>))
       [sample_entry ''b'' Directory, sample_entry ''b/y'' File, sample_entry ''d'' File]"
  by code_simp+

lemma sample_read:
  "readOwnedPaths ''/'' ''/w'' sample_store (sample_manifest []) None = Inr (sample_paths [] None)"
  "readOwnedPaths ''/'' ''/w'' sample_store (sample_manifest [''k'']) None = Inr (sample_paths [''k''] None)"
proof -
  have "is_ok (readOwnedPaths ''/'' ''/w'' sample_store (sample_manifest []) None)"
    "is_ok (readOwnedPaths ''/'' ''/w'' sample_store (sample_manifest [''k'']) None)" by code_simp+
  then show "readOwnedPaths ''/'' ''/w'' sample_store (sample_manifest []) None = Inr (sample_paths [] None)"
    "readOwnedPaths ''/'' ''/w'' sample_store (sample_manifest [''k'']) None = Inr (sample_paths [''k''] None)"
    by (auto simp: sample_paths_def is_ok_iff)
qed

lemma tree_shaped_check:
  assumes "list_all (\<lambda>p. list_all (\<lambda>q. kind_at (workspace_of m) q = Some Directory) (slash_prefixes p)) (map fst m)"
  shows "tree_shaped (workspace_of m)"
  unfolding tree_shaped_def
proof (intro allI impI)
  fix p q assume p: "workspace_of m p \<noteq> None" and q: "below q p"
  from p have "map_of m p \<noteq> None" by (simp add: workspace_of_def)
  then have "p \<in> fst ` set m" by (simp add: map_of_eq_None_iff)
  then show "kind_at (workspace_of m) q = Some Directory"
    using assms q by (auto simp: list_all_iff slash_prefixes_iff)
qed

lemma ignored_fit_check:
  assumes "list_all (\<lambda>g. list_all (\<lambda>q. T q = None \<or> kind_at T q = Some Directory) (slash_prefixes g)) ign"
  shows "ignored_fit T ign"
  using assms by (auto simp: ignored_fit_def list_all_iff slash_prefixes_iff)

lemma plan_restores_witness:
  "run_plan (workspace_of (sample_paths [''k''] None)) (sample_plan None) (workspace_of (sample_paths [] None)) =
     Some (restored (workspace_of (sample_paths [] None)) (workspace_of (sample_paths [''k''] None))
       (ignoredWorkspacePaths (sample_manifest [''k'']) None)) \<and>
   pl_deletePaths (sample_plan None) = [''d/x'', ''a'', ''d''] \<and>
   pl_writePaths (sample_plan None) = [''b'', ''d'', ''b/y'']"
proof -
  have s: "slash_prefixes ''d/x'' = [''d'']" "slash_prefixes ''b/y'' = [''b'']"
    "slash_prefixes ''a'' = []" "slash_prefixes ''b'' = []" "slash_prefixes ''d'' = []" "slash_prefixes ''k'' = []"
    by (simp_all add: slash_prefixes.simps has_char_def slice_parent_def)
  have t: "tree_shaped (workspace_of (sample_paths [] None))"
    by (rule tree_shaped_check) (simp add: sample_paths_None sample_entry_def s kind_at_def workspace_of_def entry_key_def)
  have t': "tree_shaped (workspace_of (sample_paths [''k''] None))"
    by (rule tree_shaped_check) (simp add: sample_paths_None sample_entry_def s kind_at_def workspace_of_def entry_key_def)
  have "ignoredWorkspacePaths (sample_manifest [''k'']) None = [''k'']" by code_simp
  then have i: "ignored_fit (workspace_of (sample_paths [''k''] None)) (ignoredWorkspacePaths (sample_manifest [''k'']) None)"
    by (intro ignored_fit_check) (simp add: s)
  show ?thesis using plan_restores [OF sample_planned(1) sample_read t t' i] sample_planned(2,3) by blast
qed


lemma plan_scoped_witness:
  "\<exists>p. plan length_digest ''/'' ''/w'' sample_store (sample_manifest []) (sample_manifest [''k'']) (Some [''d'', ''a'']) = Inr p \<and>
     set (pl_deletePaths p) \<union> set (pl_writePaths p) \<subseteq> {''a'', ''d''}"
proof -
  have "case plan length_digest ''/'' ''/w'' sample_store (sample_manifest []) (sample_manifest [''k'']) (Some [''d'', ''a'']) of
      Inl _ \<Rightarrow> False
    | Inr p \<Rightarrow> is_ok (readOwnedPaths ''/'' ''/w'' sample_store (sample_manifest []) (pl_scopePaths p)) \<and>
        is_ok (readOwnedPaths ''/'' ''/w'' sample_store (sample_manifest [''k'']) (pl_scopePaths p))"
    by code_simp
  then obtain p cur tgt where p:
      "plan length_digest ''/'' ''/w'' sample_store (sample_manifest []) (sample_manifest [''k'']) (Some [''d'', ''a'']) = Inr p"
      "readOwnedPaths ''/'' ''/w'' sample_store (sample_manifest []) (pl_scopePaths p) = Inr cur"
      "readOwnedPaths ''/'' ''/w'' sample_store (sample_manifest [''k'']) (pl_scopePaths p) = Inr tgt"
    by (auto simp: is_ok_iff split: sum.splits)
  show ?thesis using p(1) plan_scoped [OF p] by auto
qed


section \<open>The known state before a restore\<close>

text \<open>
  \<open>matches\<close> tells whether the file system holds an entry of a manifest (\<open>verifyEntry\<close> does not throw);
  \<open>lstat\<close> is the one of the workspace.
\<close>

definition pathIsAbsent :: "(string \<Rightarrow> errno + stat_kind) \<Rightarrow> string \<Rightarrow> errno + bool" where
  "pathIsAbsent lstat path =
     (case lstat path of
        Inr _ \<Rightarrow> Inr False
      | Inl e \<Rightarrow> if e = ''ENOENT'' \<or> e = ''ENOTDIR'' then Inr True else Inl e)"

definition pathIsShadowedByTarget :: "(manifest_id \<Rightarrow> owned_path \<Rightarrow> bool) \<Rightarrow> manifest_id \<Rightarrow> string \<Rightarrow> owned_map \<Rightarrow> bool" where
  "pathIsShadowedByTarget matches mid path targetPaths =
     (case find (\<lambda>ancestor. \<exists>owned \<in> set_option (map_of targetPaths ancestor). rp_kind (ow_entry owned) \<noteq> Directory)
             (strictPathAncestors path) of
        None \<Rightarrow> False
      | Some ancestor \<Rightarrow> (case map_of targetPaths ancestor of None \<Rightarrow> False | Some owned \<Rightarrow> matches mid owned))"

definition verifyPath ::
  "(manifest_id \<Rightarrow> owned_path \<Rightarrow> bool) \<Rightarrow> (string \<Rightarrow> errno + stat_kind) \<Rightarrow> manifest_id \<Rightarrow> manifest_id \<Rightarrow>
   owned_map \<Rightarrow> owned_map \<Rightarrow> string \<Rightarrow> errno + bool" where
  "verifyPath matches lstat currentId targetId currentPaths targetPaths path =
     (if pathIsShadowedByTarget matches targetId path targetPaths then Inr True
      else
        let currentPath = map_of currentPaths path; targetPath = map_of targetPaths path in
        if (case currentPath of None \<Rightarrow> False | Some owned \<Rightarrow> matches currentId owned) then Inr True
        else if (case targetPath of None \<Rightarrow> False | Some owned \<Rightarrow> matches targetId owned) then Inr True
        else if currentPath = None \<or> targetPath = None then pathIsAbsent lstat path
        else Inr False)"

definition known_paths :: "owned_map \<Rightarrow> owned_map \<Rightarrow> string list option \<Rightarrow> string list" where
  "known_paths currentPaths targetPaths scopePaths =
     sort_cmp compare_strings (filter (in_scope scopePaths) (js_set (map fst currentPaths @ map fst targetPaths)))"

lemma verify_in_order_all:
  "verify_in_order f is m = Inr (True, k) \<Longrightarrow> k = m + length is \<and> (\<forall>i \<in> set is. f i = Inr True)"
proof (induction "is" arbitrary: m)
  case (Cons i "is")
  then have i: "f i = Inr True" "verify_in_order f is (m + 1) = Inr (True, k)"
    by (auto split: sum.splits if_splits)
  show ?case using Cons.IH [OF i(2)] i(1) by simp
qed simp

text \<open>A restore starts only from a known state: when the concurrent verification ends and accepts, every path
  of either manifest that is in scope holds its current entry or its target entry, or is absent and one
  side does not have it, or lies under a leaf of the target that is already in place.\<close>

theorem known_state:
  assumes "verify_reaches concurrency (length (known_paths cur tgt scope))
      (\<lambda>i. verifyPath matches lstat currentId targetId cur tgt (known_paths cur tgt scope ! i)) s"
    and "verify_done (length (known_paths cur tgt scope)) s"
    and "verifyKnownState (length (known_paths cur tgt scope)) s = Inr (True, k)"
    and "in_scope scope path" "path \<in> fst ` set cur \<union> fst ` set tgt"
  shows "pathIsShadowedByTarget matches targetId path tgt \<or>
    (\<exists>owned. map_of cur path = Some owned \<and> matches currentId owned) \<or>
    (\<exists>owned. map_of tgt path = Some owned \<and> matches targetId owned) \<or>
    ((map_of cur path = None \<or> map_of tgt path = None) \<and> lstat path \<in> {Inl ''ENOENT'', Inl ''ENOTDIR''})"
proof -
  let ?ps = "known_paths cur tgt scope"
  let ?v = "verifyPath matches lstat currentId targetId cur tgt"
  have "verify_in_order (\<lambda>i. ?v (?ps ! i)) [0..<length ?ps] 0 = Inr (True, k)"
    using scan_agrees [OF verify_inv_reaches [OF assms(1)] assms(2), of 0 0] assms(3)
    by (simp add: verifyKnownState_def)
  note all = conjunct2 [OF verify_in_order_all [OF this]]
  have "path \<in> set ?ps" using assms(4,5) by (auto simp: known_paths_def strings.set_sort_cmp)
  then obtain i where i: "i < length ?ps" "?ps ! i = path" by (auto simp: in_set_conv_nth)
  then have "?v path = Inr True" using all by fastforce
  then show ?thesis
    by (auto simp: verifyPath_def pathIsAbsent_def Let_def split: if_splits option.splits sum.splits)
qed

lemma two_steps: "R a b \<Longrightarrow> R b c \<Longrightarrow> R\<^sup>*\<^sup>* a c"
  by (meson converse_rtranclp_into_rtranclp rtranclp.rtrancl_refl)

lemma known_state_witness:
  "\<exists>s :: errno verification. verify_done (length (known_paths (sample_paths [] None) [] (Some [''a'']))) s \<and>
     verifyKnownState 1 s = Inr (True, 1) \<and>
     map_of (sample_paths [] None) ''a'' \<noteq> None"
proof -
  let ?cur = "sample_paths [] None" and ?m = "\<lambda>mid owned. rp_relativePath (ow_entry owned) = ''a''"
  let ?ps = "known_paths ?cur [] (Some [''a''])"
  let ?v = "\<lambda>i. verifyPath ?m (\<lambda>_. Inl ''EIO'') [] [] ?cur [] (?ps ! i)"
  have ps: "?ps = [''a'']"
    by (simp add: known_paths_def sample_paths_None sample_entry_def js_set_def in_scope_def sort_cmp_def)
  have v: "?v 0 = Inr True"
    unfolding ps by (simp add: verifyPath_def sample_paths_None sample_entry_def pathIsShadowedByTarget_def strictPathAncestors_def)
  define s1 where "s1 = (verify_start :: errno verification)\<lparr>vf_next := 1, vf_busy := {0}\<rparr>"
  define s2 where "s2 = s1\<lparr>vf_busy := {}, vf_results := (\<lambda>_. None)(0 := Some True)\<rparr>"
  note defs = s2_def s1_def verify_start_def
  have 1: "verify_step 1 (length ?ps) ?v verify_start s1"
    using verify_step.verify_take [of verify_start "length ?ps" 1 ?v] by (simp add: defs ps)
  have 2: "verify_step 1 (length ?ps) ?v s1 s2"
    using verify_step.verify_result [of 0 s1 ?v True 1 "length ?ps"] v by (simp add: defs)
  have r: "verify_reaches 1 (length ?ps) ?v s2"
    unfolding verify_reaches_def by (rule two_steps [of "verify_step 1 (length ?ps) ?v", OF 1 2])
  have d: "verify_done (length ?ps) s2" by (simp add: verify_done_def defs ps)
  have k: "verifyKnownState (length ?ps) s2 = Inr (True, 1)"
    by (simp add: verifyKnownState_def ps defs upt_rec)
  have c: "in_scope (Some [''a'']) ''a''" "''a'' \<in> fst ` set ?cur \<union> fst ` set []"
    by (simp_all add: in_scope_def sample_paths_None sample_entry_def)
  have "\<not> pathIsShadowedByTarget ?m [] ''a'' []" by (simp add: pathIsShadowedByTarget_def strictPathAncestors_def)
  then have "map_of ?cur ''a'' \<noteq> None" using known_state [OF r d k c] by auto
  then show ?thesis using d k unfolding ps by (intro exI [of _ s2]) simp
qed

end
