(* ===== verification/Recovery.thy ===== *)
theory Recovery
  imports Journal RestorePlan
begin

text \<open>
  \<open>src/src/recovery.ts\<close>: what happens to the pending transactions when the extension starts. Each is
  rolled forward if the session file has its durable cursor marker, rolled back if it has none, and
  settled in the journal only after its mutations, its files and its marker are in order; anything
  that does not fit locks the workspace.

  The dependencies are functions on a world \<open>'w\<close>, which a call returns changed; \<open>Inl ()\<close> is an
  exception. Two of them may be missing.
\<close>

type_synonym ('w, 'a) call = "'w \<Rightarrow> (unit + 'a) \<times> 'w"

datatype mutation_recovery = MutationsClean | MutationsConflict nat

record 'w recovery_deps =
  dp_sessionIdentity :: session_file_identity
  dp_workspaceIdentity :: string
  dp_getLogicalLeafId :: "'w \<Rightarrow> string option"
  dp_loadPending :: "('w, pending_journal list) call"
  dp_assessForeign :: "(pending_journal \<Rightarrow> ('w, bool) call) option"
  dp_assessCompensated :: "(pending_journal \<Rightarrow> ('w, bool) call) option"
  dp_inspectCursor :: "pending_journal \<Rightarrow> ('w, marker_inspection) call"
  dp_finalizeCursor :: "pending_journal \<Rightarrow> marker_inspection \<Rightarrow> ('w, unit) call"
  dp_recoverMutations :: "pending_journal \<Rightarrow> recovery_action \<Rightarrow> ('w, mutation_recovery) call"
  dp_capture :: "('w, snapshot_manifest) call"
  dp_loadManifest :: "manifest_id \<Rightarrow> ('w, snapshot_manifest) call"
  dp_planRestore :: "snapshot_manifest \<Rightarrow> snapshot_manifest \<Rightarrow> string list \<Rightarrow> ('w, restore_plan) call"
  dp_applyRestore :: "restore_plan \<Rightarrow> snapshot_manifest \<Rightarrow> string \<Rightarrow> ('w, result_code) call"
  dp_settle :: "string \<Rightarrow> journal_phase \<Rightarrow> ('w, unit) call"

datatype lock_reason =
    Journal_invalid | Workspace_identity_mismatch | Session_identity_mismatch | Cursor_inspection_failed
  | Cursor_conflict | Session_leaf_mismatch | Mutation_recovery_failed | Mutation_conflict
  | Restore_failed | Recovery_failed

datatype recovery_result =
    RecoveryClean
  | Recovered nat
  | Locked lock_reason nat "nat option" "string option"

text \<open>\<open>await\<close>: go on with the value, or throw.\<close>

definition bind_call :: "('w, 'a) call \<Rightarrow> ('a \<Rightarrow> ('w, 'b) call) \<Rightarrow> ('w, 'b) call" where
  "bind_call c f w = (case c w of (Inl e, w') \<Rightarrow> (Inl e, w') | (Inr x, w') \<Rightarrow> f x w')"

definition return_call :: "'a \<Rightarrow> ('w, 'a) call" where
  "return_call x w = (Inr x, w)"

definition pj_desc :: "pending_journal \<Rightarrow> operation_descriptor" where
  "pj_desc j = descriptor_of (pj_descriptor j)"

definition identityError :: "string \<Rightarrow> 'w recovery_deps \<Rightarrow> pending_journal \<Rightarrow> lock_reason option" where
  "identityError cwd deps j =
     (if od_workspaceIdentity (pj_desc j) \<noteq> dp_workspaceIdentity deps then Some Workspace_identity_mismatch
      else let observed = od_sessionIdentity (pj_desc j); expected = dp_sessionIdentity deps in
        if resolve cwd (si_path observed) \<noteq> resolve cwd (si_path expected) \<or>
           si_headerChecksum observed \<noteq> si_headerChecksum expected
        then Some Session_identity_mismatch else None)"

text \<open>A failed assessment, inspection or settlement counts as no evidence.\<close>

definition settleCompensated :: "'w recovery_deps \<Rightarrow> pending_journal \<Rightarrow> 'w \<Rightarrow> bool \<times> 'w" where
  "settleCompensated deps j w =
     (case dp_assessCompensated deps of
        None \<Rightarrow> (False, w)
      | Some assess \<Rightarrow>
          (case assess j w of
             (Inl _, w1) \<Rightarrow> (False, w1)
           | (Inr compensated, w1) \<Rightarrow>
               if \<not> compensated then (False, w1)
               else (case dp_inspectCursor deps j w1 of
                       (Inl _, w2) \<Rightarrow> (False, w2)
                     | (Inr inspection, w2) \<Rightarrow>
                         if inspection \<noteq> MarkerAbsent then (False, w2)
                         else (case dp_settle deps (od_opId (pj_desc j)) ABORTED w2 of
                                 (Inl _, w3) \<Rightarrow> (False, w3)
                               | (Inr _, w3) \<Rightarrow> (True, w3)))))"

definition canIgnoreForeignTransaction :: "'w recovery_deps \<Rightarrow> pending_journal \<Rightarrow> 'w \<Rightarrow> bool \<times> 'w" where
  "canIgnoreForeignTransaction deps j w =
     (case dp_assessForeign deps of
        None \<Rightarrow> (False, w)
      | Some assess \<Rightarrow> (case assess j w of (Inl _, w1) \<Rightarrow> (False, w1) | (Inr b, w1) \<Rightarrow> (b, w1)))"

definition is_match :: "marker_inspection \<Rightarrow> bool" where
  "is_match i \<longleftrightarrow> (case i of MarkerMatch _ \<Rightarrow> True | _ \<Rightarrow> False)"

definition committedLeaf :: "pending_journal \<Rightarrow> string option" where
  "committedLeaf j =
     (case (od_action (pj_desc j), pj_observed j) of
        (Tree, Some leaf) \<Rightarrow> leaf
      | _ \<Rightarrow> od_toLogicalLeaf (pj_desc j))"

definition expectedLeaf :: "pending_journal \<Rightarrow> marker_inspection \<Rightarrow> string option" where
  "expectedLeaf j i = (if is_match i then committedLeaf j else od_fromLogicalLeaf (pj_desc j))"

definition decision :: "marker_inspection \<Rightarrow> recovery_action" where
  "decision i = (if is_match i then RollForward else Rollback)"

text \<open>The restore of the scope: \<open>Inr False\<close> is a restore that reports a failure.\<close>

definition restore_scope :: "'w recovery_deps \<Rightarrow> pending_journal \<Rightarrow> marker_inspection \<Rightarrow> ('w, bool) call" where
  "restore_scope deps j i =
     (if od_scopePaths (pj_desc j) = [] then return_call True
      else bind_call (dp_capture deps) (\<lambda>current.
        bind_call (dp_loadManifest deps
          (if is_match i then od_targetManifestId (pj_desc j) else od_rollbackManifestId (pj_desc j))) (\<lambda>target.
        bind_call (dp_planRestore deps current target (od_scopePaths (pj_desc j))) (\<lambda>restorePlan.
        bind_call (dp_applyRestore deps restorePlan target (od_opId (pj_desc j))) (\<lambda>code.
        return_call (code = RC_ok))))))"

definition finish_journal :: "'w recovery_deps \<Rightarrow> pending_journal \<Rightarrow> marker_inspection \<Rightarrow> ('w, unit) call" where
  "finish_journal deps j i =
     bind_call (if is_match i then dp_finalizeCursor deps j i else return_call ()) (\<lambda>_.
     dp_settle deps (od_opId (pj_desc j)) (if is_match i then COMMITTED else ABORTED))"

datatype journal_outcome = Settled | Ignored | Stopped lock_reason "nat option" "string option"

text \<open>The body of the loop after the checks of identity and of compensation.\<close>

definition recover_journal :: "'w recovery_deps \<Rightarrow> pending_journal \<Rightarrow> 'w \<Rightarrow> journal_outcome \<times> 'w" where
  "recover_journal deps j w =
     (case dp_inspectCursor deps j w of
        (Inl _, w1) \<Rightarrow> (Stopped Cursor_inspection_failed None None, w1)
      | (Inr i, w1) \<Rightarrow>
          if i = MarkerConflict then (Stopped Cursor_conflict None None, w1)
          else if dp_getLogicalLeafId deps w1 \<noteq> expectedLeaf j i then (Stopped Session_leaf_mismatch None None, w1)
          else (case dp_recoverMutations deps j (decision i) w1 of
                  (Inl _, w2) \<Rightarrow> (Stopped Mutation_recovery_failed None None, w2)
                | (Inr (MutationsConflict n), w2) \<Rightarrow>
                    (Stopped Mutation_conflict (Some n) (Some (od_opId (pj_desc j))), w2)
                | (Inr MutationsClean, w2) \<Rightarrow>
                    (case restore_scope deps j i w2 of
                       (Inl _, w3) \<Rightarrow> (Stopped Recovery_failed None None, w3)
                     | (Inr whole, w3) \<Rightarrow>
                         if \<not> whole then (Stopped Restore_failed None None, w3)
                         else (case finish_journal deps j i w3 of
                                 (Inl _, w4) \<Rightarrow> (Stopped Recovery_failed None None, w4)
                               | (Inr _, w4) \<Rightarrow> (Settled, w4)))))"

definition recover_one :: "string \<Rightarrow> 'w recovery_deps \<Rightarrow> pending_journal \<Rightarrow> 'w \<Rightarrow> journal_outcome \<times> 'w" where
  "recover_one cwd deps j w =
     (case identityError cwd deps j of
        Some e \<Rightarrow>
          if e = Session_identity_mismatch then
            (case settleCompensated deps j w of
               (True, w1) \<Rightarrow> (Settled, w1)
             | (False, w1) \<Rightarrow>
                 (case canIgnoreForeignTransaction deps j w1 of
                    (True, w2) \<Rightarrow> (Ignored, w2)
                  | (False, w2) \<Rightarrow> (Stopped e None None, w2)))
          else (Stopped e None None, w)
      | None \<Rightarrow>
          (case settleCompensated deps j w of
             (True, w1) \<Rightarrow> (Settled, w1)
           | (False, w1) \<Rightarrow> recover_journal deps j w1))"

fun recover_all ::
  "string \<Rightarrow> 'w recovery_deps \<Rightarrow> nat \<Rightarrow> pending_journal list \<Rightarrow> 'w \<Rightarrow> recovery_result \<times> 'w" where
  "recover_all cwd deps recovered [] w = (Recovered recovered, w)"
| "recover_all cwd deps recovered (j # js) w =
     (case recover_one cwd deps j w of
        (Settled, w1) \<Rightarrow> recover_all cwd deps (recovered + 1) js w1
      | (Ignored, w1) \<Rightarrow> recover_all cwd deps recovered js w1
      | (Stopped reason files opId, w1) \<Rightarrow> (Locked reason recovered files opId, w1))"

definition recover :: "string \<Rightarrow> 'w recovery_deps \<Rightarrow> 'w \<Rightarrow> recovery_result \<times> 'w" where
  "recover cwd deps w =
     (case dp_loadPending deps w of
        (Inl _, w1) \<Rightarrow> (Locked Journal_invalid 0 None None, w1)
      | (Inr pending, w1) \<Rightarrow>
          if pending = [] then (RecoveryClean, w1) else recover_all cwd deps 0 pending w1)"

section \<open>The calls of a recovery\<close>

text \<open>
  The same dependencies, with the calls and their answers written down. With an inspection of the
  marker goes the logical leaf of the session at that moment.
\<close>

datatype recovery_event =
    EvAssessed pending_journal bool
  | EvForeign pending_journal bool
  | EvInspected pending_journal marker_inspection "string option"
  | EvMutated pending_journal recovery_action mutation_recovery
  | EvCaptured snapshot_manifest
  | EvLoaded manifest_id snapshot_manifest
  | EvPlanned snapshot_manifest snapshot_manifest "string list" restore_plan
  | EvApplied restore_plan snapshot_manifest string result_code
  | EvFinalized pending_journal marker_inspection
  | EvSettled string journal_phase
  | EvThrown

definition logging :: "('w \<Rightarrow> 'a \<Rightarrow> recovery_event) \<Rightarrow> ('w, 'a) call \<Rightarrow> ('w \<times> recovery_event list, 'a) call" where
  "logging ev c = (\<lambda>(w, es).
     case c w of
       (Inl e, w') \<Rightarrow> (Inl e, (w', es @ [EvThrown]))
     | (Inr x, w') \<Rightarrow> (Inr x, (w', es @ [ev w' x])))"

definition quiet :: "('w, 'a) call \<Rightarrow> ('w \<times> recovery_event list, 'a) call" where
  "quiet c = (\<lambda>(w, es). case c w of (r, w') \<Rightarrow> (r, (w', es)))"

definition logged :: "'w recovery_deps \<Rightarrow> ('w \<times> recovery_event list) recovery_deps" where
  "logged deps =
     \<lparr>dp_sessionIdentity = dp_sessionIdentity deps,
      dp_workspaceIdentity = dp_workspaceIdentity deps,
      dp_getLogicalLeafId = (\<lambda>(w, es). dp_getLogicalLeafId deps w),
      dp_loadPending = quiet (dp_loadPending deps),
      dp_assessForeign = map_option (\<lambda>assess j. logging (\<lambda>_ b. EvForeign j b) (assess j)) (dp_assessForeign deps),
      dp_assessCompensated = map_option (\<lambda>assess j. logging (\<lambda>_ b. EvAssessed j b) (assess j)) (dp_assessCompensated deps),
      dp_inspectCursor = (\<lambda>j. logging (\<lambda>w i. EvInspected j i (dp_getLogicalLeafId deps w)) (dp_inspectCursor deps j)),
      dp_finalizeCursor = (\<lambda>j i. logging (\<lambda>_ _. EvFinalized j i) (dp_finalizeCursor deps j i)),
      dp_recoverMutations = (\<lambda>j a. logging (\<lambda>_ r. EvMutated j a r) (dp_recoverMutations deps j a)),
      dp_capture = logging (\<lambda>_ m. EvCaptured m) (dp_capture deps),
      dp_loadManifest = (\<lambda>mid. logging (\<lambda>_ m. EvLoaded mid m) (dp_loadManifest deps mid)),
      dp_planRestore = (\<lambda>c t sc. logging (\<lambda>_ p. EvPlanned c t sc p) (dp_planRestore deps c t sc)),
      dp_applyRestore = (\<lambda>p t op. logging (\<lambda>_ c. EvApplied p t op c) (dp_applyRestore deps p t op)),
      dp_settle = (\<lambda>op ph. logging (\<lambda>_ _. EvSettled op ph) (dp_settle deps op ph))\<rparr>"

definition settles :: "recovery_event list \<Rightarrow> recovery_event list" where
  "settles es = filter (\<lambda>e. \<exists>op ph. e = EvSettled op ph) es"

lemma settles_simps [simp]:
  "settles [] = []" "settles (xs @ ys) = settles xs @ settles ys" "settles (EvSettled op ph # es) = EvSettled op ph # settles es"
  "settles (EvAssessed j yes # es) = settles es" "settles (EvForeign j yes # es) = settles es"
  "settles (EvInspected j i l # es) = settles es" "settles (EvMutated j act m # es) = settles es"
  "settles (EvCaptured sm # es) = settles es" "settles (EvLoaded mid sm # es) = settles es"
  "settles (EvPlanned sm tm sc p # es) = settles es" "settles (EvApplied p tm op' c # es) = settles es"
  "settles (EvFinalized j i # es) = settles es" "settles (EvThrown # es) = settles es"
  by (simp_all add: settles_def)

text \<open>What the calls before a settlement must show.\<close>

definition restore_calls :: "pending_journal \<Rightarrow> marker_inspection \<Rightarrow> recovery_event list \<Rightarrow> bool" where
  "restore_calls j i es \<longleftrightarrow>
     (if od_scopePaths (pj_desc j) = [] then es = []
      else \<exists>current target p.
        es = [EvCaptured current,
              EvLoaded (if is_match i then od_targetManifestId (pj_desc j) else od_rollbackManifestId (pj_desc j)) target,
              EvPlanned current target (od_scopePaths (pj_desc j)) p,
              EvApplied p target (od_opId (pj_desc j)) RC_ok])"

definition rolled :: "pending_journal \<Rightarrow> marker_inspection \<Rightarrow> recovery_event list \<Rightarrow> bool" where
  "rolled j i es \<longleftrightarrow> (\<exists>pre rs.
     es = pre @ [EvInspected j i (expectedLeaf j i), EvMutated j (decision i) MutationsClean] @ rs @
          (if is_match i then [EvFinalized j i] else []) \<and>
     restore_calls j i rs)"

definition justified :: "string \<Rightarrow> 'w recovery_deps \<Rightarrow> pending_journal \<Rightarrow> journal_phase \<Rightarrow> recovery_event list \<Rightarrow> bool" where
  "justified cwd deps j ph es \<longleftrightarrow>
     ph = ABORTED \<and> (\<exists>pre l. es = pre @ [EvAssessed j True, EvInspected j MarkerAbsent l]) \<or>
     identityError cwd deps j = None \<and>
       (ph = ABORTED \<and> rolled j MarkerAbsent es \<or>
        (\<exists>needs. ph = COMMITTED \<and> rolled j (MarkerMatch needs) es))"

lemma justified_append: "justified cwd deps j ph es \<Longrightarrow> justified cwd deps j ph (xs @ es)"
  unfolding justified_def rolled_def by (metis append.assoc)

lemma logging_eq:
  "logging ev c (w, es) = (case c w of (r, w') \<Rightarrow>
     (r, (w', es @ [case r of Inl _ \<Rightarrow> EvThrown | Inr x \<Rightarrow> ev w' x])))"
  by (simp add: logging_def split: prod.split sum.split)

lemma logged_simps [simp]:
  "identityError cwd (logged deps) = identityError cwd deps"
  "dp_getLogicalLeafId (logged deps) (w, es) = dp_getLogicalLeafId deps w"
  "dp_loadPending (logged deps) = quiet (dp_loadPending deps)"
  "dp_assessForeign (logged deps) = map_option (\<lambda>assess j. logging (\<lambda>_ b. EvForeign j b) (assess j)) (dp_assessForeign deps)"
  "dp_assessCompensated (logged deps) = map_option (\<lambda>assess j. logging (\<lambda>_ b. EvAssessed j b) (assess j)) (dp_assessCompensated deps)"
  "dp_inspectCursor (logged deps) j = logging (\<lambda>w i. EvInspected j i (dp_getLogicalLeafId deps w)) (dp_inspectCursor deps j)"
  "dp_finalizeCursor (logged deps) j i = logging (\<lambda>_ _. EvFinalized j i) (dp_finalizeCursor deps j i)"
  "dp_recoverMutations (logged deps) j act = logging (\<lambda>_ r. EvMutated j act r) (dp_recoverMutations deps j act)"
  "dp_capture (logged deps) = logging (\<lambda>_ m. EvCaptured m) (dp_capture deps)"
  "dp_loadManifest (logged deps) mid = logging (\<lambda>_ m. EvLoaded mid m) (dp_loadManifest deps mid)"
  "dp_planRestore (logged deps) c t sc = logging (\<lambda>_ p. EvPlanned c t sc p) (dp_planRestore deps c t sc)"
  "dp_applyRestore (logged deps) p t op = logging (\<lambda>_ c. EvApplied p t op c) (dp_applyRestore deps p t op)"
  "dp_settle (logged deps) op ph = logging (\<lambda>_ _. EvSettled op ph) (dp_settle deps op ph)"
  by (simp_all add: logged_def identityError_def fun_eq_iff)

lemma settleCompensated_logged:
  assumes "settleCompensated (logged deps) j (w, es) = (b, (w', es'))"
  shows "\<exists>tr. es' = es @ tr \<and>
    (if b then \<exists>l. tr = [EvAssessed j True, EvInspected j MarkerAbsent l, EvSettled (od_opId (pj_desc j)) ABORTED]
     else settles tr = [])"
proof (cases "dp_assessCompensated deps")
  case None
  then show ?thesis using assms by (simp add: settleCompensated_def)
next
  case (Some assess)
  obtain r1 w1 where 1: "assess j w = (r1, w1)" by fastforce
  obtain r2 w2 where 2: "dp_inspectCursor deps j w1 = (r2, w2)" by fastforce
  obtain r3 w3 where 3: "dp_settle deps (od_opId (pj_desc j)) ABORTED w2 = (r3, w3)" by fastforce
  note eqs = Some 1 2 3
  consider "\<exists>e. r1 = Inl e" | "r1 = Inr False" | "r1 = Inr True" "\<exists>e. r2 = Inl e"
    | i where "r1 = Inr True" "r2 = Inr i" by (metis (full_types) obj_sumE)
  then show ?thesis
  proof cases
    case (4 i)
    then show ?thesis
      using assms eqs by (cases "i = MarkerAbsent"; cases r3) (auto simp: settleCompensated_def logging_eq)
  qed (use assms eqs in \<open>auto simp: settleCompensated_def logging_eq\<close>)
qed

lemma canIgnore_logged:
  assumes "canIgnoreForeignTransaction (logged deps) j (w, es) = (b, (w', es'))"
  shows "\<exists>tr. es' = es @ tr \<and> settles tr = []"
proof (cases "dp_assessForeign deps")
  case None
  then show ?thesis using assms by (simp add: canIgnoreForeignTransaction_def)
next
  case (Some assess)
  obtain r1 w1 where 1: "assess j w = (r1, w1)" by fastforce
  show ?thesis using assms Some 1 by (cases r1) (auto simp: canIgnoreForeignTransaction_def logging_eq)
qed

lemma restore_scope_logged:
  assumes "restore_scope (logged deps) j i (w, es) = (r, (w', es'))"
  shows "\<exists>tr. es' = es @ tr \<and> settles tr = [] \<and> (r = Inr True \<longrightarrow> restore_calls j i tr)"
proof (cases "od_scopePaths (pj_desc j) = []")
  case True
  then show ?thesis using assms by (simp add: restore_scope_def restore_calls_def return_call_def)
next
  case False
  let ?mid = "if is_match i then od_targetManifestId (pj_desc j) else od_rollbackManifestId (pj_desc j)"
  obtain r1 w1 where 1: "dp_capture deps w = (r1, w1)" by fastforce
  show ?thesis
  proof (cases r1)
    case (Inl e)
    then show ?thesis using assms False 1 by (auto simp: restore_scope_def bind_call_def logging_eq)
  next
    case c: (Inr cur)
    obtain r2 w2 where 2: "dp_loadManifest deps ?mid w1 = (r2, w2)" by fastforce
    show ?thesis
    proof (cases r2)
      case (Inl e)
      then show ?thesis using assms False 1 2 c by (auto simp: restore_scope_def bind_call_def logging_eq)
    next
      case t: (Inr tgt)
      obtain r3 w3 where 3: "dp_planRestore deps cur tgt (od_scopePaths (pj_desc j)) w2 = (r3, w3)" by fastforce
      show ?thesis
      proof (cases r3)
        case (Inl e)
        then show ?thesis using assms False 1 2 3 c t by (auto simp: restore_scope_def bind_call_def logging_eq)
      next
        case p: (Inr p)
        obtain r4 w4 where 4: "dp_applyRestore deps p tgt (od_opId (pj_desc j)) w3 = (r4, w4)" by fastforce
        let ?tr = "[EvCaptured cur, EvLoaded ?mid tgt, EvPlanned cur tgt (od_scopePaths (pj_desc j)) p]"
        have e: "es' = es @ ?tr @ [case r4 of Inl _ \<Rightarrow> EvThrown | Inr c \<Rightarrow> EvApplied p tgt (od_opId (pj_desc j)) c]"
            "r = Inr True \<Longrightarrow> r4 = Inr RC_ok"
          using assms False 1 2 3 4 c t p
          by (cases r4; simp add: restore_scope_def bind_call_def return_call_def logging_eq)+
        have "restore_calls j i (?tr @ [EvApplied p tgt (od_opId (pj_desc j)) RC_ok])"
          using False by (simp add: restore_calls_def)
        then show ?thesis using e by (cases r4) auto
      qed
    qed
  qed
qed

lemma finish_logged:
  assumes "finish_journal (logged deps) j i (w, es) = (r, (w', es'))"
  shows "\<exists>tr. es' = es @ tr \<and>
    (if r = Inr () then tr = (if is_match i then [EvFinalized j i] else []) @
        [EvSettled (od_opId (pj_desc j)) (if is_match i then COMMITTED else ABORTED)]
     else settles tr = [])"
proof (cases "is_match i")
  case True
  obtain r1 w1 where 1: "dp_finalizeCursor deps j i w = (r1, w1)" by fastforce
  obtain r2 w2 where 2: "dp_settle deps (od_opId (pj_desc j)) COMMITTED w1 = (r2, w2)" by fastforce
  show ?thesis
  proof (cases r1)
    case (Inl e)
    then have "r = Inl e" "es' = es @ [EvThrown]"
      using assms True 1 by (simp_all add: finish_journal_def bind_call_def logging_eq)
    then show ?thesis by simp
  next
    case (Inr u)
    then have "r = r2" "es' = es @ [EvFinalized j i] @ [case r2 of Inl _ \<Rightarrow> EvThrown | Inr _ \<Rightarrow> EvSettled (od_opId (pj_desc j)) COMMITTED]"
      using assms True 1 2 by (cases r2; auto simp: finish_journal_def bind_call_def logging_eq)+
    then show ?thesis using True by (cases r2) simp_all
  qed
next
  case False
  obtain r2 w2 where 2: "dp_settle deps (od_opId (pj_desc j)) ABORTED w = (r2, w2)" by fastforce
  have "r = r2" "es' = es @ [case r2 of Inl _ \<Rightarrow> EvThrown | Inr _ \<Rightarrow> EvSettled (od_opId (pj_desc j)) ABORTED]"
    using assms False 2 by (cases r2; auto simp: finish_journal_def bind_call_def return_call_def logging_eq)+
  then show ?thesis using False by (cases r2) simp_all
qed

definition settled_trace :: "string \<Rightarrow> 'w recovery_deps \<Rightarrow> pending_journal \<Rightarrow> recovery_event list \<Rightarrow> bool" where
  "settled_trace cwd deps j tr \<longleftrightarrow>
     (\<exists>tr0 ph. tr = tr0 @ [EvSettled (od_opId (pj_desc j)) ph] \<and> settles tr0 = [] \<and> justified cwd deps j ph tr0)"

lemma rolledI:
  "restore_calls j i rs \<Longrightarrow>
   rolled j i ([EvInspected j i (expectedLeaf j i), EvMutated j (decision i) MutationsClean] @ rs @
     (if is_match i then [EvFinalized j i] else []))"
  unfolding rolled_def by (rule exI [of _ "[]"], rule exI [of _ rs]) simp

lemma rolled_justified:
  assumes "rolled j i es" "i \<noteq> MarkerConflict" "identityError cwd deps j = None"
  shows "justified cwd deps j (if is_match i then COMMITTED else ABORTED) es"
  using assms by (cases i) (auto simp: justified_def is_match_def)

lemma recover_journal_logged:
  assumes "recover_journal (logged deps) j (w, es) = (out, (w', es'))" "identityError cwd deps j = None"
  shows "out \<noteq> Ignored \<and> (\<exists>tr. es' = es @ tr \<and> (if out = Settled then settled_trace cwd deps j tr else settles tr = []))"
proof -
  obtain r1 w1 where 1: "dp_inspectCursor deps j w = (r1, w1)" by fastforce
  show ?thesis
  proof (cases r1)
    case (Inl e)
    then show ?thesis using assms(1) 1 by (auto simp: recover_journal_def logging_eq)
  next
    case i: (Inr i)
    let ?ei = "EvInspected j i (dp_getLogicalLeafId deps w1)"
    show ?thesis
    proof (cases "i = MarkerConflict \<or> dp_getLogicalLeafId deps w1 \<noteq> expectedLeaf j i")
      case True
      then have "out \<noteq> Settled \<and> out \<noteq> Ignored \<and> es' = es @ [?ei]"
        using assms(1) 1 i by (cases "i = MarkerConflict") (auto simp: recover_journal_def logging_eq)
      then show ?thesis by simp
    next
      case False
      then have leaf: "dp_getLogicalLeafId deps w1 = expectedLeaf j i" "i \<noteq> MarkerConflict" by auto
      obtain r2 w2 where m: "dp_recoverMutations deps j (decision i) w1 = (r2, w2)" by fastforce
      consider e where "r2 = Inl e" | n where "r2 = Inr (MutationsConflict n)" | "r2 = Inr MutationsClean"
        by (metis mutation_recovery.exhaust obj_sumE)
      then show ?thesis
      proof cases
        case 3
        let ?em = "EvMutated j (decision i) MutationsClean"
        obtain r3 w3 es3 where s3: "restore_scope (logged deps) j i (w2, es @ [?ei, ?em]) = (r3, (w3, es3))"
          by (metis prod_cases3)
        obtain tr3 where tr3: "es3 = (es @ [?ei, ?em]) @ tr3" "settles tr3 = []" "r3 = Inr True \<longrightarrow> restore_calls j i tr3"
          using restore_scope_logged [OF s3] by blast
        show ?thesis
        proof (cases "r3 = Inr True")
          case False
          have "out \<noteq> Settled \<and> out \<noteq> Ignored \<and> es' = es3"
            using assms(1) 1 m 3 i leaf s3 False
            by (cases r3) (auto simp: recover_journal_def logging_eq)
          then show ?thesis using tr3 by (intro conjI exI [of _ "[?ei, ?em] @ tr3"]) auto
        next
          case True
          obtain r4 w4 es4 where s4: "finish_journal (logged deps) j i (w3, es3) = (r4, (w4, es4))"
            by (metis prod_cases3)
          obtain tr4 where tr4: "es4 = es3 @ tr4"
              "if r4 = Inr () then tr4 = (if is_match i then [EvFinalized j i] else []) @
                [EvSettled (od_opId (pj_desc j)) (if is_match i then COMMITTED else ABORTED)] else settles tr4 = []"
            using finish_logged [OF s4] by blast
          have o: "es' = es4" "out = (case r4 of Inl _ \<Rightarrow> Stopped Recovery_failed None None | Inr _ \<Rightarrow> Settled)"
            using assms(1) 1 m 3 i leaf s3 True s4
            by (cases r4; simp add: recover_journal_def logging_eq)+
          show ?thesis
          proof (cases r4)
            case (Inl e)
            then show ?thesis
              using o tr4 tr3 by (intro conjI exI [of _ "[?ei, ?em] @ tr3 @ tr4"]) auto
          next
            case (Inr u)
            let ?tr0 = "[?ei, ?em] @ tr3 @ (if is_match i then [EvFinalized j i] else [])"
            have "rolled j i ?tr0"
              unfolding leaf(1) by (rule rolledI) (use tr3(3) True in blast)
            then have "justified cwd deps j (if is_match i then COMMITTED else ABORTED) ?tr0"
              using rolled_justified leaf(2) assms(2) by blast
            moreover have "settles ?tr0 = []" using tr3(2) by simp
            ultimately have "settled_trace cwd deps j
                (?tr0 @ [EvSettled (od_opId (pj_desc j)) (if is_match i then COMMITTED else ABORTED)])"
              unfolding settled_trace_def by blast
            moreover have "es' = es @ ?tr0 @ [EvSettled (od_opId (pj_desc j)) (if is_match i then COMMITTED else ABORTED)]"
              using o(1) tr4 Inr tr3(1) by simp
            moreover have "out = Settled" using o(2) Inr by simp
            ultimately show ?thesis by (intro conjI exI [of _ "?tr0 @ [EvSettled (od_opId (pj_desc j)) (if is_match i then COMMITTED else ABORTED)]"]) simp_all
          qed
        qed
      next
        case (1 e)
        have "out = Stopped Mutation_recovery_failed None None \<and> es' = es @ [?ei, EvThrown]"
          using assms(1) by (simp add: recover_journal_def logging_eq 1 \<open>r2 = Inl e\<close> m i leaf \<open>dp_inspectCursor deps j w = (r1, w1)\<close>)
        then show ?thesis by simp
      next
        case (2 n)
        have "out = Stopped Mutation_conflict (Some n) (Some (od_opId (pj_desc j))) \<and> es' = es @ [?ei, EvMutated j (decision i) (MutationsConflict n)]"
          using assms(1) by (simp add: recover_journal_def logging_eq \<open>r2 = Inr (MutationsConflict n)\<close> m i leaf \<open>dp_inspectCursor deps j w = (r1, w1)\<close>)
        then show ?thesis by simp
      qed
    qed
  qed
qed

lemma settled_trace_compensated:
  "tr = [EvAssessed j True, EvInspected j MarkerAbsent l, EvSettled (od_opId (pj_desc j)) ABORTED] \<Longrightarrow>
   settled_trace cwd deps j tr"
  unfolding settled_trace_def justified_def
  by (rule exI [of _ "[EvAssessed j True, EvInspected j MarkerAbsent l]"], rule exI [of _ ABORTED]) simp

lemma settled_trace_append: "settles xs = [] \<Longrightarrow> settled_trace cwd deps j tr \<Longrightarrow> settled_trace cwd deps j (xs @ tr)"
  unfolding settled_trace_def using justified_append by (metis append.assoc append_Nil settles_simps(2))

lemma recover_one_logged:
  assumes "recover_one cwd (logged deps) j (w, es) = (out, (w', es'))"
  shows "(out = Ignored \<longrightarrow> identityError cwd deps j = Some Session_identity_mismatch) \<and>
    (\<exists>tr. es' = es @ tr \<and> (if out = Settled then settled_trace cwd deps j tr else settles tr = []))"
proof -
  obtain b w1 es1 where c: "settleCompensated (logged deps) j (w, es) = (b, (w1, es1))" by (metis prod_cases3)
  obtain tr where tr: "es1 = es @ tr"
      "if b then \<exists>l. tr = [EvAssessed j True, EvInspected j MarkerAbsent l, EvSettled (od_opId (pj_desc j)) ABORTED]
       else settles tr = []"
    using settleCompensated_logged [OF c] by blast
  show ?thesis
  proof (cases "identityError cwd deps j")
    case None
    show ?thesis
    proof (cases b)
      case True
      then have "out = Settled" "es' = es1" using assms c None by (simp_all add: recover_one_def)
      then show ?thesis using tr True settled_trace_compensated by auto
    next
      case False
      then have "recover_journal (logged deps) j (w1, es1) = (out, (w', es'))"
        using assms c None by (simp add: recover_one_def)
      note r = recover_journal_logged [OF this None]
      obtain tr1 where tr1: "es' = es1 @ tr1" "if out = Settled then settled_trace cwd deps j tr1 else settles tr1 = []"
        using r by blast
      have "if out = Settled then settled_trace cwd deps j (tr @ tr1) else settles (tr @ tr1) = []"
        using tr(2) False tr1(2) settled_trace_append [of tr cwd deps j tr1] by simp
      then show ?thesis using r tr(1) tr1(1) by auto
    qed
  next
    case (Some e)
    show ?thesis
    proof (cases "e = Session_identity_mismatch")
      case False
      then have "out = Stopped e None None" "es' = es" using assms Some by (simp_all add: recover_one_def)
      then show ?thesis by simp
    next
      case e: True
      show ?thesis
      proof (cases b)
        case True
        then have "out = Settled" "es' = es1" using assms c Some e by (simp_all add: recover_one_def)
        then show ?thesis using tr True settled_trace_compensated by auto
      next
        case False
        obtain b2 w2 es2 where f: "canIgnoreForeignTransaction (logged deps) j (w1, es1) = (b2, (w2, es2))"
          by (metis prod_cases3)
        obtain tr2 where tr2: "es2 = es1 @ tr2" "settles tr2 = []" using canIgnore_logged [OF f] by blast
        have "out = (if b2 then Ignored else Stopped e None None)" "es' = es2"
          using assms c f Some e False by (cases b2; simp add: recover_one_def)+
        then show ?thesis using tr tr2 False Some e by (intro conjI exI [of _ "tr @ tr2"]) auto
      qed
    qed
  qed
qed

definition settlements_justified :: "string \<Rightarrow> 'w recovery_deps \<Rightarrow> pending_journal list \<Rightarrow> recovery_event list \<Rightarrow> bool" where
  "settlements_justified cwd deps js tr \<longleftrightarrow>
     (\<forall>xs ys op ph. tr = xs @ EvSettled op ph # ys \<longrightarrow>
        (\<exists>j \<in> set js. op = od_opId (pj_desc j) \<and> justified cwd deps j ph xs))"

definition settled_count :: "recovery_result \<Rightarrow> nat" where
  "settled_count res = (case res of RecoveryClean \<Rightarrow> 0 | Recovered n \<Rightarrow> n | Locked _ n _ _ \<Rightarrow> n)"

lemma settles_empty_iff: "settles es = [] \<longleftrightarrow> (\<forall>op ph. EvSettled op ph \<notin> set es)"
  by (auto simp: settles_def filter_empty_conv)

lemma settled_trace_split:
  assumes "settled_trace cwd deps j tr" "tr = xs @ EvSettled op ph # ys"
  shows "op = od_opId (pj_desc j) \<and> justified cwd deps j ph xs"
proof -
  obtain tr0 ph' where t: "tr = tr0 @ [EvSettled (od_opId (pj_desc j)) ph']" "settles tr0 = []" "justified cwd deps j ph' tr0"
    using assms(1) unfolding settled_trace_def by blast
  have "ys = []"
  proof (rule ccontr)
    assume "ys \<noteq> []"
    then have "tr0 = xs @ EvSettled op ph # butlast ys"
      using t(1) assms(2) by (metis butlast.simps(2) butlast_append butlast_snoc list.distinct(1))
    then show False using t(2) by simp
  qed
  then show ?thesis using t assms(2) by simp
qed

lemma settlements_append:
  assumes "if settled then settled_trace cwd deps j t1 else settles t1 = []" "settlements_justified cwd deps js t2"
  shows "settlements_justified cwd deps (j # js) (t1 @ t2)"
  unfolding settlements_justified_def
proof (intro allI impI)
  fix xs ys op ph assume e: "t1 @ t2 = xs @ EvSettled op ph # ys"
  then obtain us where "t1 = xs @ us \<and> us @ t2 = EvSettled op ph # ys \<or> t1 @ us = xs \<and> t2 = us @ EvSettled op ph # ys"
    by (auto simp: append_eq_append_conv2)
  then show "\<exists>j' \<in> set (j # js). op = od_opId (pj_desc j') \<and> justified cwd deps j' ph xs"
  proof
    assume u: "t1 = xs @ us \<and> us @ t2 = EvSettled op ph # ys"
    show ?thesis
    proof (cases us)
      case Nil
      then have "t2 = [] @ EvSettled op ph # ys" using u by simp
      then obtain j' where j': "j' \<in> set js" "op = od_opId (pj_desc j')" "justified cwd deps j' ph []"
        using assms(2) unfolding settlements_justified_def by blast
      then have "justified cwd deps j' ph xs" using justified_append [of cwd deps j' ph "[]" xs] by simp
      then show ?thesis using j' by auto
    next
      case (Cons x us')
      then have t: "t1 = xs @ EvSettled op ph # us'" using u by simp
      then have s: settled using assms(1) by (auto split: if_splits)
      then have "settled_trace cwd deps j t1" using assms(1) by simp
      then show ?thesis using settled_trace_split [OF _ t] by auto
    qed
  next
    assume u: "t1 @ us = xs \<and> t2 = us @ EvSettled op ph # ys"
    then obtain j' where j': "j' \<in> set js" "op = od_opId (pj_desc j')" "justified cwd deps j' ph us"
      using assms(2) unfolding settlements_justified_def by blast
    then show ?thesis using justified_append [OF j'(3), of t1] u by auto
  qed
qed

lemma recover_all_logged:
  assumes "recover_all cwd (logged deps) n js (w, es) = (res, (w', es'))"
  shows "\<exists>tr. es' = es @ tr \<and> settlements_justified cwd deps js tr \<and> settled_count res = n + length (settles tr) \<and>
    res \<noteq> RecoveryClean"
  using assms
proof (induction js arbitrary: n w es)
  case Nil
  then show ?case by (auto simp: settlements_justified_def settled_count_def)
next
  case (Cons j js)
  obtain out w1 es1 where o: "recover_one cwd (logged deps) j (w, es) = (out, (w1, es1))" by (metis prod_cases3)
  obtain t1 where t1: "es1 = es @ t1" "if out = Settled then settled_trace cwd deps j t1 else settles t1 = []"
    using recover_one_logged [OF o] by blast
  have one: "length (settles t1) = (if out = Settled then 1 else 0)"
    using t1(2) by (auto simp: settled_trace_def)
  show ?case
  proof (cases out)
    case (Stopped reason files opId)
    then have "res = Locked reason n files opId" "es' = es1" using Cons.prems o by simp_all
    moreover have "settlements_justified cwd deps (j # js) (t1 @ [])"
      by (rule settlements_append [OF t1(2)]) (simp add: settlements_justified_def)
    ultimately show ?thesis using t1(1) one Stopped by (auto simp: settled_count_def)
  next
    case Settled
    then have "recover_all cwd (logged deps) (n + 1) js (w1, es1) = (res, (w', es'))" using Cons.prems o by simp
    from Cons.IH [OF this] obtain t2 where t2: "es' = es1 @ t2" "settlements_justified cwd deps js t2"
      "settled_count res = n + 1 + length (settles t2)" "res \<noteq> RecoveryClean" by blast
    show ?thesis
      using settlements_append [OF t1(2) t2(2)] t1(1) t2 one Settled by (intro exI [of _ "t1 @ t2"]) simp
  next
    case Ignored
    then have "recover_all cwd (logged deps) n js (w1, es1) = (res, (w', es'))" using Cons.prems o by simp
    from Cons.IH [OF this] obtain t2 where t2: "es' = es1 @ t2" "settlements_justified cwd deps js t2"
      "settled_count res = n + length (settles t2)" "res \<noteq> RecoveryClean" by blast
    show ?thesis
      using settlements_append [OF t1(2) t2(2)] t1(1) t2 one Ignored by (intro exI [of _ "t1 @ t2"]) simp
  qed
qed

text \<open>C4 (recovery_justified): Every settlement a recovery makes is justified by the calls before it. A transaction is committed
  only after its marker matched, the session was at the leaf the marker commits to, its mutations were
  rolled forward, its scope was restored to the target manifest and the marker was made durable. It is
  aborted only after the marker was found absent and either it was assessed as fully compensated, or
  the session was at the leaf it came from, its mutations were rolled back and its scope was restored to the rollback
  manifest. The number of operations in the result is the number of settlements.\<close>

theorem recovery_justified:
  assumes "recover cwd (logged deps) (w, []) = (res, (w', tr))"
    and "dp_loadPending deps w = (Inr pending, w0)"
  shows "settlements_justified cwd deps pending tr \<and> settled_count res = length (settles tr)"
proof (cases "pending = []")
  case True
  then show ?thesis
    using assms by (simp add: recover_def quiet_def settlements_justified_def settled_count_def split: prod.splits)
next
  case False
  then have "recover_all cwd (logged deps) 0 pending (w0, []) = (res, (w', tr))"
    using assms by (simp add: recover_def quiet_def)
  from recover_all_logged [OF this] show ?thesis by simp
qed

text \<open>One pending undo of \<open>f\<close> whose marker is in the session file: it is rolled forward.\<close>

definition demo_scoped :: pending_journal where
  "demo_scoped = demo_pending\<lparr>pj_descriptor := json_of_descriptor (demo_descriptor\<lparr>od_scopePaths := [''f'']\<rparr>)\<rparr>"

definition demo_deps :: "nat recovery_deps" where
  "demo_deps =
     \<lparr>dp_sessionIdentity = od_sessionIdentity demo_descriptor, dp_workspaceIdentity = ''w'',
      dp_getLogicalLeafId = (\<lambda>_. Some ''a''), dp_loadPending = (\<lambda>n. (Inr [demo_scoped], n)),
      dp_assessForeign = None, dp_assessCompensated = Some (\<lambda>_ n. (Inr False, n)),
      dp_inspectCursor = (\<lambda>_ n. (Inr (MarkerMatch True), n)), dp_finalizeCursor = (\<lambda>_ _ n. (Inr (), n)),
      dp_recoverMutations = (\<lambda>_ _ n. (Inr MutationsClean, n)), dp_capture = (\<lambda>n. (Inr (sample_manifest [''f'']), n)),
      dp_loadManifest = (\<lambda>_ n. (Inr (sample_manifest []), n)),
      dp_planRestore = (\<lambda>_ _ _ n. (Inr (sample_plan None), n)),
      dp_applyRestore = (\<lambda>_ _ _ n. (Inr RC_ok, n)), dp_settle = (\<lambda>_ _ n. (Inr (), n + 1))\<rparr>"

lemma demo_scoped_desc: "pj_desc demo_scoped = demo_descriptor\<lparr>od_scopePaths := [''f'']\<rparr>"
  by (simp add: pj_desc_def demo_scoped_def)

lemma demo_scoped_observed: "pj_observed demo_scoped = pj_observed demo_pending"
  by (simp add: demo_scoped_def pj_observed_def)

lemmas demo_recovery_simps =
  demo_scoped_desc demo_scoped_observed logging_def quiet_def bind_call_def return_call_def

lemma demo_one:
  "\<exists>tr. recover_one ''/'' (logged demo_deps) demo_scoped (0, []) = (Settled, (1, tr)) \<and>
     settles tr = [EvSettled ''op'' COMMITTED]"
proof -
  have "identityError ''/'' demo_deps demo_scoped = None"
    by (simp add: identityError_def demo_scoped_desc) (simp add: demo_deps_def demo_descriptor_def)
  moreover have "settleCompensated (logged demo_deps) demo_scoped (0, []) = (False, (0, [EvAssessed demo_scoped False]))"
    by (simp add: settleCompensated_def) (simp add: demo_deps_def logging_def)
  moreover have "expectedLeaf demo_scoped (MarkerMatch True) = Some ''a''"
    by (simp add: expectedLeaf_def is_match_def committedLeaf_def demo_scoped_desc demo_descriptor_def)
  moreover have "od_scopePaths (pj_desc demo_scoped) = [''f'']" "od_opId (pj_desc demo_scoped) = ''op''"
    by (simp_all add: demo_scoped_desc demo_descriptor_def)
  ultimately show ?thesis
    by (simp add: recover_one_def recover_journal_def)
      (simp add: demo_deps_def demo_recovery_simps restore_scope_def finish_journal_def is_match_def)
qed

theorem recovery_justified_witness:
  "\<exists>tr. settlements_justified ''/'' demo_deps [demo_scoped] tr \<and> settles tr = [EvSettled ''op'' COMMITTED]"
proof -
  obtain tr where 1: "recover_one ''/'' (logged demo_deps) demo_scoped (0, []) = (Settled, (1, tr))"
      "settles tr = [EvSettled ''op'' COMMITTED]"
    using demo_one by blast
  have 2: "dp_loadPending demo_deps 0 = (Inr [demo_scoped], 0)" by (simp add: demo_deps_def)
  have "recover ''/'' (logged demo_deps) (0, []) = (Recovered 1, (1, tr))"
    using 1 2 by (simp add: recover_def quiet_def)
  from recovery_justified [OF this 2] show ?thesis using 1(2) by blast
qed

end
