(* ===== verification/Effects.thy ===== *)
theory Effects
  imports Prelude
begin

text \<open>
  Code that changes a state and may throw: an effect takes the state to a result or an exception and
  the state at that moment, so an exception keeps every change made before it. The triples
  \<open>holds P m Q E\<close> say of an effect what is true after it returned (\<open>Q\<close>) and after it threw (\<open>E\<close>).
\<close>

type_synonym ('s, 'e, 'a) eff = "'s \<Rightarrow> ('e + 'a) \<times> 's"

definition ret :: "'a \<Rightarrow> ('s, 'e, 'a) eff" where
  "ret x s = (Inr x, s)"

definition throw :: "'e \<Rightarrow> ('s, 'e, 'a) eff" where
  "throw e s = (Inl e, s)"

definition seq :: "('s, 'e, 'a) eff \<Rightarrow> ('a \<Rightarrow> ('s, 'e, 'b) eff) \<Rightarrow> ('s, 'e, 'b) eff" where
  "seq m f s = (case m s of (Inl e, s') \<Rightarrow> (Inl e, s') | (Inr x, s') \<Rightarrow> f x s')"

definition change :: "('s \<Rightarrow> 's) \<Rightarrow> ('s, 'e, unit) eff" where
  "change f s = (Inr (), f s)"

definition look :: "('s \<Rightarrow> ('s, 'e, 'a) eff) \<Rightarrow> ('s, 'e, 'a) eff" where
  "look f s = f s s"

text \<open>\<open>catching m h\<close> is \<open>try { m } catch (e) { h e }\<close>; the handler may throw itself.\<close>

definition catching :: "('s, 'e, 'a) eff \<Rightarrow> ('e \<Rightarrow> ('s, 'e, 'a) eff) \<Rightarrow> ('s, 'e, 'a) eff" where
  "catching m h s = (case m s of (Inl e, s') \<Rightarrow> h e s' | (Inr x, s') \<Rightarrow> (Inr x, s'))"

text \<open>\<open>ending m f\<close> is \<open>try { m } finally { f }\<close>; an exception of \<open>f\<close> replaces the outcome.\<close>

definition ending :: "('s, 'e, 'a) eff \<Rightarrow> ('s, 'e, unit) eff \<Rightarrow> ('s, 'e, 'a) eff" where
  "ending m f s =
     (case m s of (r, s') \<Rightarrow> (case f s' of (Inl e, s'') \<Rightarrow> (Inl e, s'') | (Inr _, s'') \<Rightarrow> (r, s'')))"

abbreviation ignoring :: "('s, 'e, unit) eff \<Rightarrow> ('s, 'e, unit) eff" where
  "ignoring m \<equiv> catching m (\<lambda>_. ret ())"

section \<open>Triples\<close>

definition holds :: "('s \<Rightarrow> bool) \<Rightarrow> ('s, 'e, 'a) eff \<Rightarrow> ('a \<Rightarrow> 's \<Rightarrow> bool) \<Rightarrow> ('e \<Rightarrow> 's \<Rightarrow> bool) \<Rightarrow> bool" where
  "holds P m Q E \<longleftrightarrow>
     (\<forall>s. P s \<longrightarrow> (case m s of (Inl e, s') \<Rightarrow> E e s' | (Inr x, s') \<Rightarrow> Q x s'))"

named_theorems steps \<open>triples of the primitive effects\<close>

definition outcome :: "('a \<Rightarrow> 's \<Rightarrow> bool) \<Rightarrow> ('e \<Rightarrow> 's \<Rightarrow> bool) \<Rightarrow> ('e + 'a) \<times> 's \<Rightarrow> bool" where
  "outcome Q E = (\<lambda>(r, s). case r of Inl e \<Rightarrow> E e s | Inr x \<Rightarrow> Q x s)"

lemma outcome_simps [simp]: "outcome Q E (Inr x, s) = Q x s" "outcome Q E (Inl e, s) = E e s"
  by (simp_all add: outcome_def)

lemma holds_outcome: "holds P m Q E \<longleftrightarrow> (\<forall>s. P s \<longrightarrow> outcome Q E (m s))"
  by (simp add: holds_def outcome_def case_prod_unfold)

lemma holdsI:
  assumes "\<And>s r s'. P s \<Longrightarrow> m s = (r, s') \<Longrightarrow> outcome Q E (r, s')"
  shows "holds P m Q E"
  unfolding holds_outcome using assms by (metis surj_pair)

lemma holds_at: "holds P m Q E \<Longrightarrow> P s \<Longrightarrow> outcome Q E (m s)"
  by (simp add: holds_outcome)

lemma holdsD_Inr: "holds P m Q E \<Longrightarrow> P s \<Longrightarrow> m s = (Inr x, s') \<Longrightarrow> Q x s'"
  by (drule holds_at, assumption) simp

lemma holdsD_Inl: "holds P m Q E \<Longrightarrow> P s \<Longrightarrow> m s = (Inl e, s') \<Longrightarrow> E e s'"
  by (drule holds_at, assumption) simp

lemma holds_pre: "holds P' m Q E \<Longrightarrow> (\<And>s. P s \<Longrightarrow> P' s) \<Longrightarrow> holds P m Q E"
  by (simp add: holds_outcome)

lemma holdsE:
  assumes "holds P m Q E" "P s"
  obtains x s' where "m s = (Inr x, s')" "Q x s'" | e s' where "m s = (Inl e, s')" "E e s'"
proof -
  obtain r s' where "m s = (r, s')" by fastforce
  moreover have "outcome Q E (m s)" by (rule holds_at [OF assms])
  ultimately show thesis using that by (cases r) simp_all
qed

lemma holds_post:
  assumes "holds P m Q' E'" "\<And>x s. Q' x s \<Longrightarrow> Q x s" "\<And>e s. E' e s \<Longrightarrow> E e s"
  shows "holds P m Q E"
  unfolding holds_outcome
proof (intro allI impI)
  fix s assume "P s"
  from assms(1) this show "outcome Q E (m s)" by (cases rule: holdsE) (simp_all add: assms(2,3))
qed

lemma holds_ret: "(\<And>s. P s \<Longrightarrow> Q x s) \<Longrightarrow> holds P (ret x) Q E"
  by (simp add: holds_def ret_def)

lemma holds_throw: "(\<And>s. P s \<Longrightarrow> E e s) \<Longrightarrow> holds P (throw e) Q E"
  by (simp add: holds_def throw_def)

lemma holds_seq:
  assumes "holds P m R E" "\<And>x. holds (R x) (f x) Q E"
  shows "holds P (seq m f) Q E"
  unfolding holds_outcome
proof (intro allI impI)
  fix s assume "P s"
  from assms(1) this show "outcome Q E (seq m f s)"
    by (cases rule: holdsE) (simp_all add: seq_def holds_at [OF assms(2)])
qed

lemma holds_change: "(\<And>s. P s \<Longrightarrow> Q () (f s)) \<Longrightarrow> holds P (change f) Q E"
  by (simp add: holds_def change_def)

lemma holds_look: "(\<And>s0. holds (\<lambda>s. s = s0 \<and> P s) (f s0) Q E) \<Longrightarrow> holds P (look f) Q E"
  unfolding holds_def look_def by auto

lemma holds_catching:
  assumes "holds P m Q F" "\<And>e. holds (F e) (h e) Q E"
  shows "holds P (catching m h) Q E"
  unfolding holds_outcome
proof (intro allI impI)
  fix s assume "P s"
  from assms(1) this show "outcome Q E (catching m h s)"
    by (cases rule: holdsE) (simp_all add: catching_def holds_at [OF assms(2)])
qed

lemma holds_ignoring: "holds P m Q (\<lambda>_. Q ()) \<Longrightarrow> holds P (ignoring m) Q E"
  by (rule holds_catching) (auto intro: holds_ret)

lemma holds_ending:
  assumes "holds P m Q' E'" "\<And>x. holds (Q' x) f (\<lambda>_. Q x) E" "\<And>e. holds (E' e) f (\<lambda>_. E e) E"
  shows "holds P (ending m f) Q E"
  unfolding holds_outcome
proof (intro allI impI)
  fix s assume "P s"
  from assms(1) this show "outcome Q E (ending m f s)"
  proof (cases rule: holdsE)
    case (1 x s')
    from assms(2) 1(2) show ?thesis by (cases rule: holdsE) (simp_all add: ending_def 1(1))
  next
    case (2 e s')
    from assms(3) 2(2) show ?thesis by (cases rule: holdsE) (simp_all add: ending_def 2(1))
  qed
qed

lemma holds_if:
  "(b \<Longrightarrow> holds P m Q E) \<Longrightarrow> (\<not> b \<Longrightarrow> holds P n Q E) \<Longrightarrow> holds P (if b then m else n) Q E"
  by simp

lemma holds_option:
  "(x = None \<Longrightarrow> holds P m Q E) \<Longrightarrow> (\<And>y. x = Some y \<Longrightarrow> holds P (f y) Q E) \<Longrightarrow>
   holds P (case x of None \<Rightarrow> m | Some y \<Rightarrow> f y) Q E"
  by (cases x) auto

lemma holds_fact: "(b \<Longrightarrow> holds P m Q E) \<Longrightarrow> holds (\<lambda>s. b \<and> P s) m Q E"
  unfolding holds_def by simp

lemma holds_conj:
  assumes "holds P m Q E" "holds P' m Q' E'"
  shows "holds (\<lambda>s. P s \<and> P' s) m (\<lambda>x s. Q x s \<and> Q' x s) (\<lambda>e s. E e s \<and> E' e s)"
  unfolding holds_outcome
proof (intro allI impI)
  fix s assume p: "P s \<and> P' s"
  obtain r s' where m: "m s = (r, s')" by fastforce
  show "outcome (\<lambda>x s. Q x s \<and> Q' x s) (\<lambda>e s. E e s \<and> E' e s) (m s)"
    using holds_at [OF assms(1), of s] holds_at [OF assms(2), of s] p m by (cases r) auto
qed

end
