(* ===== verification/OperationContext.thy ===== *)
theory OperationContext
  imports Prelude
begin

text \<open>
  \<open>src/src/operation-context.ts\<close>: the errors that mean a cancelled or late operation, the scope of an
  operation with its timer and its parent's signal, and the checks at the boundaries of its steps.
\<close>

section \<open>Errors and their causes\<close>

text \<open>
  An error object with the properties the code reads: \<open>message\<close>, \<open>name\<close>, \<open>code\<close>, the flags of \<open>result\<close> and
  \<open>cause\<close>. Objects live in a heap and refer to each other by index, so a chain of causes may be
  circular. A thrown value that is no object is \<open>None\<close>.
\<close>

record error_object =
  eo_message :: string
  eo_name :: "string option"
  eo_code :: "string option"
  eo_timedOut :: bool
  eo_aborted :: bool
  eo_cause :: "nat option"

type_synonym heap = "error_object list"

text \<open>The texts of the messages the code makes up are left empty: nothing depends on them.\<close>

text \<open>An exception, as everything but \<open>errorChain\<close> sees it: the objects on its chain.\<close>

type_synonym exn = "error_object list"

function chain_refs :: "heap \<Rightarrow> nat list \<Rightarrow> nat option \<Rightarrow> nat list" where
  "chain_refs heap seen None = []"
| "chain_refs heap seen (Some r) =
     (if r < length heap \<and> r \<notin> set seen then r # chain_refs heap (r # seen) (eo_cause (heap ! r)) else [])"
  by pat_completeness auto

termination
proof (relation "measure (\<lambda>(heap, seen, _). card ({..<length heap} - set seen))")
  fix heap :: heap and seen :: "nat list" and r
  assume r: "r < length heap \<and> r \<notin> set seen"
  then have "{..<length heap} - set (r # seen) \<subset> {..<length heap} - set seen" by auto
  then have "card ({..<length heap} - set (r # seen)) < card ({..<length heap} - set seen)"
    by (intro psubset_card_mono) auto
  then show "((heap, r # seen, eo_cause (heap ! r)), heap, seen, Some r)
      \<in> measure (\<lambda>(heap, seen, _). card ({..<length heap} - set seen))"
    by simp
qed simp

definition errorChain :: "heap \<Rightarrow> nat option \<Rightarrow> exn" where
  "errorChain heap e = map ((!) heap) (chain_refs heap [] e)"

definition isUnconfirmedExit :: "exn \<Rightarrow> bool" where
  "isUnconfirmedExit e \<longleftrightarrow>
     list_ex (\<lambda>v. eo_code v = Some ''git_termination_failed'' \<or> eo_code v = Some ''process_exit_unconfirmed'') e"

datatype operation_failure = Operation_cancelled | Operation_timeout

fun operationFailure :: "exn \<Rightarrow> operation_failure option" where
  "operationFailure [] = None"
| "operationFailure (v # e) =
     (if eo_code v = Some ''operation_cancelled'' then Some Operation_cancelled
      else if eo_code v = Some ''operation_timeout'' then Some Operation_timeout
      else if eo_timedOut v then Some Operation_timeout
      else if eo_aborted v then Some Operation_cancelled
      else operationFailure e)"

definition rethrowOperationFailure :: "exn \<Rightarrow> exn + unit" where
  "rethrowOperationFailure e = (if isUnconfirmedExit e \<or> operationFailure e \<noteq> None then Inl e else Inr ())"

section \<open>Contexts\<close>

datatype abort_reason =
    Reason_string string
  | Reason_object "string option" "string option"  \<comment> \<open>its \<open>code\<close> and \<open>name\<close>\<close>
  | Reason_other

definition isTimeoutReason :: "abort_reason \<Rightarrow> bool" where
  "isTimeoutReason reason =
     (case reason of
        Reason_string s \<Rightarrow> s = ''operation_timeout''
      | Reason_object code name \<Rightarrow> code = Some ''operation_timeout'' \<or> name = Some ''TimeoutError''
      | Reason_other \<Rightarrow> False)"

definition operation_error :: "string \<Rightarrow> exn" where
  "operation_error code =
     [\<lparr>eo_message = [], eo_name = Some ''OperationError'', eo_code = Some code, eo_timedOut = False, eo_aborted = False,
       eo_cause = None\<rparr>]"

definition operationErrorFromAbortReason :: "abort_reason \<Rightarrow> exn" where
  "operationErrorFromAbortReason reason =
     operation_error (if isTimeoutReason reason then ''operation_timeout'' else ''operation_cancelled'')"

definition unconfirmed_exit :: exn where
  "unconfirmed_exit =
     [\<lparr>eo_message = [], eo_name = Some ''Error'', eo_code = Some ''process_exit_unconfirmed'', eo_timedOut = False, eo_aborted = False,
       eo_cause = None\<rparr>]"

text \<open>A context: why its signal is aborted, if it is, and its deadline, if it has one.\<close>

record op_context =
  oc_aborted :: "abort_reason option"
  oc_deadline :: "int option"

definition checkOperation :: "bool \<Rightarrow> op_context option \<Rightarrow> int \<Rightarrow> exn + unit" where
  "checkOperation unsafe context now =
     (case context of
        None \<Rightarrow> Inr ()
      | Some c \<Rightarrow>
          if unsafe then Inl unconfirmed_exit
          else case oc_aborted c of
            Some reason \<Rightarrow> Inl (operationErrorFromAbortReason reason)
          | None \<Rightarrow>
              (case oc_deadline c of
                 Some d \<Rightarrow> if d \<le> now then Inl (operation_error ''operation_timeout'') else Inr ()
               | None \<Rightarrow> Inr ()))"

text \<open>The clock is read twice: by the check and for the time that remains.\<close>

definition range_error :: exn where
  "range_error =
     [\<lparr>eo_message = [], eo_name = Some ''RangeError'', eo_code = None, eo_timedOut = False, eo_aborted = False,
       eo_cause = None\<rparr>]"

definition operationProcessOptions :: "bool \<Rightarrow> op_context option \<Rightarrow> int \<Rightarrow> int \<Rightarrow> int \<Rightarrow> exn + int" where
  "operationProcessOptions unsafe context defaultTimeoutMs now now' =
     (if defaultTimeoutMs < 0 then Inl range_error
      else case context of
        None \<Rightarrow> Inr defaultTimeoutMs
      | Some c \<Rightarrow>
          rbind (checkOperation unsafe context now) (\<lambda>_.
          Inr (case oc_deadline c of None \<Rightarrow> defaultTimeoutMs | Some d \<Rightarrow> min defaultTimeoutMs (d - now'))))"

section \<open>Scopes\<close>

text \<open>
  A scope: its context, whether its timer is armed, and whether it listens to its parent. What may
  happen to it: the timer fires, the parent aborts, the owner cancels or disposes it.
\<close>

record op_scope =
  os_context :: op_context
  os_timer :: bool
  os_listening :: bool

datatype scope_event = Timer_fires | Parent_aborts "abort_reason option" | Scope_cancelled | Scope_disposed

definition abort_with :: "abort_reason \<Rightarrow> op_context \<Rightarrow> op_context" where
  "abort_with reason c = (case oc_aborted c of Some _ \<Rightarrow> c | None \<Rightarrow> c\<lparr>oc_aborted := Some reason\<rparr>)"

definition onParentAbort :: "abort_reason option \<Rightarrow> op_context \<Rightarrow> op_context" where
  "onParentAbort reason = abort_with (case reason of Some r \<Rightarrow> r | None \<Rightarrow> Reason_string ''operation_cancelled'')"

text \<open>The parent's signal: absent, quiet, or aborted with a reason.\<close>

definition createOperationScope :: "int option \<Rightarrow> abort_reason option option option \<Rightarrow> int \<Rightarrow> op_scope" where
  "createOperationScope timeoutMs parent now =
     (let c = \<lparr>oc_aborted = None, oc_deadline = map_option (\<lambda>t. now + t) timeoutMs\<rparr> in
      \<lparr>os_context = (case parent of Some (Some reason) \<Rightarrow> onParentAbort reason c | _ \<Rightarrow> c),
       os_timer = (timeoutMs \<noteq> None),
       os_listening = (parent = Some None)\<rparr>)"

fun scope_step :: "op_scope \<Rightarrow> scope_event \<Rightarrow> op_scope" where
  "scope_step s Timer_fires =
     (if os_timer s then s\<lparr>os_context := abort_with (Reason_string ''operation_timeout'') (os_context s), os_timer := False\<rparr> else s)"
| "scope_step s (Parent_aborts reason) =
     (if os_listening s then s\<lparr>os_context := onParentAbort reason (os_context s), os_listening := False\<rparr> else s)"
| "scope_step s Scope_cancelled =
     s\<lparr>os_context := abort_with (Reason_string ''operation_cancelled'') (os_context s)\<rparr>"
| "scope_step s Scope_disposed = s\<lparr>os_timer := False, os_listening := False\<rparr>"

section \<open>Waiting for several tasks\<close>

text \<open>All tasks are awaited; the first failure in their order is thrown.\<close>

definition allCompleted :: "(exn + 'a) list \<Rightarrow> exn + 'a list" where
  "allCompleted outcomes =
     (case find (\<lambda>x. \<exists>e. x = Inl e) outcomes of
        Some (Inl e) \<Rightarrow> Inl e
      | _ \<Rightarrow> Inr (map projr outcomes))"

section \<open>What the checks guarantee\<close>

definition causes :: "heap \<Rightarrow> nat \<Rightarrow> nat \<Rightarrow> bool" where
  "causes heap r r' \<longleftrightarrow> r < length heap \<and> eo_cause (heap ! r) = Some r' \<and> r' < length heap"

lemma chain_refs_distinct: "distinct (chain_refs heap seen e) \<and> set (chain_refs heap seen e) \<inter> set seen = {}"
  by (induction heap seen e rule: chain_refs.induct) auto

lemma chain_refs_valid: "x \<in> set (chain_refs heap seen e) \<Longrightarrow> x < length heap"
  by (induction heap seen e rule: chain_refs.induct) (auto split: if_splits)

lemma chain_refs_reached:
  "x \<in> set (chain_refs heap seen e) \<Longrightarrow> \<exists>r. e = Some r \<and> (causes heap)\<^sup>*\<^sup>* r x"
proof (induction heap seen e rule: chain_refs.induct)
  case (2 heap seen r)
  then have r: "r < length heap" "r \<notin> set seen" by (auto split: if_splits)
  show ?case
  proof (cases "x = r")
    case False
    then have x: "x \<in> set (chain_refs heap (r # seen) (eo_cause (heap ! r)))" using 2 r by simp
    then obtain r' where r': "eo_cause (heap ! r) = Some r'" "(causes heap)\<^sup>*\<^sup>* r' x" using 2 r by blast
    then have "r' < length heap" using x by (auto split: if_splits)
    then have "causes heap r r'" using r r' by (simp add: causes_def)
    from converse_rtranclp_into_rtranclp [of "causes heap", OF this r'(2)] show ?thesis by simp
  qed auto
qed simp

text \<open>The chain is closed under causes: the walk ends only at a reference it has passed before.\<close>

lemma chain_refs_closed:
  "y \<in> set (chain_refs heap seen e) \<Longrightarrow> causes heap y z \<Longrightarrow> z \<in> set (chain_refs heap seen e) \<union> set seen"
proof (induction heap seen e rule: chain_refs.induct)
  case (2 heap seen r)
  then have r: "r < length heap" "r \<notin> set seen" by (auto split: if_splits)
  show ?case
  proof (cases "y = r")
    case True
    then have "eo_cause (heap ! r) = Some z" "z < length heap" using 2 by (simp_all add: causes_def)
    then show ?thesis using r by auto
  next
    case False
    then show ?thesis using 2 r by auto
  qed
qed simp

text \<open>The chain of an error is exactly the objects its causes lead to, each once, also when the
  causes are circular. So wrapping an error in others never hides a cancellation, and looking for one always ends.\<close>

theorem error_chain:
  "set (chain_refs heap [] (Some r)) = {x. r < length heap \<and> (causes heap)\<^sup>*\<^sup>* r x} \<and> distinct (chain_refs heap [] (Some r))"
proof -
  have "x \<in> set (chain_refs heap [] (Some r))" if "r < length heap" "(causes heap)\<^sup>*\<^sup>* r x" for x
    using that(2)
  proof (induction rule: rtranclp_induct)
    case base
    then show ?case using that(1) by simp
  next
    case (step y z)
    then show ?case using chain_refs_closed [of y heap "[]" "Some r" z] by simp
  qed
  moreover have "r < length heap \<and> (causes heap)\<^sup>*\<^sup>* r x" if "x \<in> set (chain_refs heap [] (Some r))" for x
    using chain_refs_reached [OF that] that by (auto split: if_splits)
  ultimately show ?thesis using chain_refs_distinct by blast
qed

text \<open>A scope that is aborted stays so, for the same reason.\<close>

definition run_scope :: "op_scope \<Rightarrow> scope_event list \<Rightarrow> op_scope" where
  "run_scope = foldl scope_step"

lemma scope_step_context:
  "oc_deadline (os_context (scope_step s e)) = oc_deadline (os_context s)"
  "oc_aborted (os_context s) = Some reason \<Longrightarrow> oc_aborted (os_context (scope_step s e)) = Some reason"
  by (cases e; simp add: abort_with_def onParentAbort_def split: option.splits)+

lemma run_scope_context:
  "oc_deadline (os_context (run_scope s es)) = oc_deadline (os_context s)"
  "oc_aborted (os_context s) = Some reason \<Longrightarrow> oc_aborted (os_context (run_scope s es)) = Some reason"
  by (induction es arbitrary: s) (simp_all add: run_scope_def scope_step_context)

lemma operationFailure_error [simp]:
  "operationFailure (operationErrorFromAbortReason reason) =
     Some (if isTimeoutReason reason then Operation_timeout else Operation_cancelled)"
  "operationFailure (operation_error ''operation_timeout'') = Some Operation_timeout"
  "operationFailure unconfirmed_exit = None" "isUnconfirmedExit unconfirmed_exit"
  "\<not> isUnconfirmedExit (operationErrorFromAbortReason reason)" "\<not> isUnconfirmedExit (operation_error ''operation_timeout'')"
  by (simp_all add: operationErrorFromAbortReason_def operation_error_def unconfirmed_exit_def isUnconfirmedExit_def)

text \<open>Once a check of an operation failed, every later check of it fails too, whatever its timer, its parent and
  its owner do in between, and a check that fails because of a cancellation or a timer reports that same cause ever after.\<close>

theorem checks_stick:
  assumes "checkOperation False (Some (os_context s)) now = Inl e" "now \<le> now'"
  shows "\<exists>e'. checkOperation False (Some (os_context (run_scope s es))) now' = Inl e' \<and> operationFailure e' \<noteq> None \<and>
    (oc_aborted (os_context s) \<noteq> None \<longrightarrow> e' = e)"
proof (cases "oc_aborted (os_context s)")
  case (Some reason)
  then show ?thesis using assms run_scope_context(2) [OF Some] by (auto simp: checkOperation_def)
next
  case None
  then obtain d where "oc_deadline (os_context s) = Some d" "d \<le> now"
    using assms(1) by (auto simp: checkOperation_def split: option.splits if_splits)
  then have "oc_deadline (os_context (run_scope s es)) = Some d" "d \<le> now'"
    using assms(2) by (simp_all add: run_scope_context)
  then show ?thesis
    using None by (cases "oc_aborted (os_context (run_scope s es))") (simp_all add: checkOperation_def)
qed

theorem checks_stick_witness:
  "\<exists>e'. checkOperation False
       (Some (os_context (run_scope (scope_step (createOperationScope (Some 10) None 5) Scope_cancelled) [Timer_fires]))) 40 = Inl e' \<and>
     operationFailure e' \<noteq> None \<and> e' = operationErrorFromAbortReason (Reason_string ''operation_cancelled'')"
proof -
  let ?s = "scope_step (createOperationScope (Some 10) None 5) Scope_cancelled"
  have "checkOperation False (Some (os_context ?s)) 6 = Inl (operationErrorFromAbortReason (Reason_string ''operation_cancelled''))"
    "oc_aborted (os_context ?s) \<noteq> None"
    by (simp_all add: createOperationScope_def checkOperation_def abort_with_def)
  from checks_stick [OF this(1), of 40 "[Timer_fires]"] this(2) show ?thesis by auto
qed



end
