(* ===== verification/Controller.thy ===== *)
theory Controller
  imports Effects OperationContext Journal RestorePlan
begin

text \<open>
  \<open>src/src/controller.ts\<close>: the state machine between the session, the workspace and the journal. It keeps
  the stacks of undo and redo, records the runs of the agent as checkpoints, and carries out undo,
  redo and navigation in the session tree as transactions of the journal.

  The dependencies are effects on a world \<open>'w\<close>. Each handler is a sequence of such calls and of changes
  of the controller's own state; what other handlers do while an operation waits for a promise is the
  argument \<open>wait\<close>. Timings, progress reports and diagnostics are left out.
\<close>

section \<open>Data\<close>

record controller_redo_entry =
  re_checkpoint :: checkpoint_record
  re_targetManifestId :: manifest_id

record staged_run =
  sg_rawPrompt :: string
  sg_before :: snapshot_manifest
  sg_sourceLogicalLeaf :: "string option"
  sg_startEntryId :: "string option option"  \<comment> \<open>undefined, null or an id\<close>

record run_completion =
  rn_id :: nat  \<comment> \<open>the identity of the object\<close>
  rn_started :: bool

record restore_transaction =
  tr_descriptor :: operation_descriptor
  tr_manifests :: "(snapshot_manifest \<times> snapshot_manifest) option"  \<comment> \<open>\<open>rollback\<close> and \<open>target\<close>\<close>
  tr_cursorDurable :: bool

record pending_tree =
  pt_descriptor :: operation_descriptor
  pt_rollback :: snapshot_manifest
  pt_target :: snapshot_manifest
  pt_plan :: restore_plan
  pt_undoStack :: "checkpoint_record list"

record operation_result =
  or_code :: result_code
  or_changedFiles :: nat
  or_message :: "string option"
  or_refillPrompt :: "string option"

record restore_result =
  rr_code :: result_code
  rr_verifiedPaths :: nat
  rr_failureCode :: "operation_failure option"

datatype cursor_append =
    Cursor_durable "string option"
  | Cursor_volatile string
  | Cursor_recovery_required string

datatype input_result = Input_continue | Input_handled | Input_defer

text \<open>The entries of \<open>appendControl\<close>.\<close>

datatype control_entry =
    Start_entry manifest_id "string option"
  | Checkpoint_entry checkpoint_record
  | Barrier_entry string

datatype scope_id = Operation_scope | Tree_scope | Background_scope | Budget_scope

type_synonym ('w, 'a) dep = "('w, exn, 'a) eff"

record 'w controller_deps =
  cd_hash :: hash
  cd_workspaceIdentity :: string
  cd_sessionIdentity :: session_file_identity
  cd_isAgentIdle :: "'w \<Rightarrow> bool"
  cd_abortAgent :: "('w, unit) dep"
  cd_waitForIdle :: "int \<Rightarrow> ('w, bool) dep"
  cd_getLogicalLeafId :: "'w \<Rightarrow> string option"
  cd_acquireWorkspaceLock :: "('w, unit) dep"
  cd_release :: "('w, unit) dep"
  cd_findUserEntryAfter :: "string \<Rightarrow> 'w \<Rightarrow> string option"
  cd_resolveSessionTarget :: "action \<Rightarrow> checkpoint_record \<Rightarrow> ('w, string option) dep"
  cd_navigateSession :: "action \<Rightarrow> checkpoint_record \<Rightarrow> ('w, bool \<times> string option) dep"
  cd_restoreSessionLeaf :: "string option \<Rightarrow> ('w, bool) dep"
  cd_resolveTreeTarget :: "string option \<Rightarrow> ('w, string option \<times> manifest_id \<times> checkpoint_record list) dep"
  cd_appendControl :: "control_entry \<Rightarrow> ('w, string option) dep"
  cd_appendCursor :: "cursor_state \<Rightarrow> ('w, cursor_append) dep"
  cd_capture :: "string list option \<Rightarrow> ('w, snapshot_manifest) dep"
  cd_captureBaseline :: "(snapshot_manifest \<Rightarrow> ('w, snapshot_manifest) dep) option"
  cd_captureSafety :: "(manifest_id \<Rightarrow> manifest_id \<Rightarrow> string list \<Rightarrow> ('w, snapshot_manifest) dep) option"
  cd_changedPaths :: "snapshot_manifest \<Rightarrow> snapshot_manifest \<Rightarrow> ('w, string list) dep"
  cd_loadManifest :: "manifest_id \<Rightarrow> ('w, snapshot_manifest) dep"
  cd_planRestore :: "snapshot_manifest \<Rightarrow> snapshot_manifest \<Rightarrow> string list option \<Rightarrow> ('w, restore_plan) dep"
  cd_applyRestore :: "restore_plan \<Rightarrow> snapshot_manifest \<Rightarrow> string \<Rightarrow> ('w, restore_result) dep"
  cd_recoverPending :: "('w, string option option) dep"  \<comment> \<open>\<open>Some reason\<close> is \<open>locked\<close>\<close>
  cd_prepare :: "operation_descriptor \<Rightarrow> restore_plan \<Rightarrow> ('w, unit) dep"
  cd_setPhase :: "string \<Rightarrow> journal_phase \<Rightarrow> string option option \<Rightarrow> ('w, unit) dep"
  cd_setPhases :: "(string \<Rightarrow> (journal_phase \<times> string option option) list \<Rightarrow> ('w, unit) dep) option"
  cd_markCommitted :: "string \<Rightarrow> ('w, unit) dep"
  cd_now :: "'w \<Rightarrow> int"
  cd_context :: "scope_id \<Rightarrow> 'w \<Rightarrow> op_context option"
  cd_exitUnconfirmed :: "scope_id \<Rightarrow> 'w \<Rightarrow> bool"
  cd_randomUUID :: "'w \<Rightarrow> string \<times> 'w"

text \<open>
  The fields of the controller. \<open>ct_marked\<close> are the contexts it marked as unsafe itself, \<open>ct_inputCapture\<close> is
  the token of a capture that runs, \<open>ct_warmUp\<close> says that a warm-up was begun and not consumed.
\<close>

record 'w ctl =
  ct_world :: 'w
  ct_undoStack :: "checkpoint_record list"
  ct_redoStack :: "controller_redo_entry list"
  ct_staged :: "staged_run option"
  ct_pendingTree :: "pending_tree option"
  ct_locked :: bool
  ct_lockedReason :: "string option"
  ct_historyPaused :: bool
  ct_operationInFlight :: bool
  ct_operationAction :: "action option"
  ct_promptDeferral :: bool
  ct_lastSafety :: "manifest_id option"
  ct_lastApplied :: "(snapshot_manifest \<times> int) option"
  ct_captureFailure :: "string option"
  ct_warmUp :: bool
  ct_warmUpManifest :: "snapshot_manifest option"
  ct_inputCapture :: "nat option"
  ct_inputCommit :: bool
  ct_deferAgentStart :: bool
  ct_runCompletion :: "run_completion option"
  ct_settling :: bool
  ct_treeCancelled :: bool
  ct_disposed :: bool
  ct_unsafeExit :: bool
  ct_marked :: "scope_id list"
  ct_operationId :: "string option"
  ct_transaction :: "restore_transaction option"
  ct_recoveryCompleted :: bool
  ct_counter :: nat  \<comment> \<open>the next fresh object or symbol\<close>

type_synonym ('w, 'a) act = "('w ctl, exn, 'a) eff"

type_synonym 'w waiting = "'w ctl \<Rightarrow> bool \<times> 'w ctl"

section \<open>Calls, contexts and the lock\<close>

definition call :: "('w, 'a) dep \<Rightarrow> ('w, 'a) act" where
  "call c s = (case c (ct_world s) of (r, w) \<Rightarrow> (r, s\<lparr>ct_world := w\<rparr>))"

definition leaf_now :: "'w controller_deps \<Rightarrow> 'w ctl \<Rightarrow> string option" where
  "leaf_now deps s = cd_getLogicalLeafId deps (ct_world s)"

definition hasUnconfirmedExit :: "'w controller_deps \<Rightarrow> scope_id \<Rightarrow> 'w ctl \<Rightarrow> bool" where
  "hasUnconfirmedExit deps scope s \<longleftrightarrow> cd_exitUnconfirmed deps scope (ct_world s) \<or> scope \<in> set (ct_marked s)"

definition check :: "'w controller_deps \<Rightarrow> scope_id \<Rightarrow> ('w, unit) act" where
  "check deps scope s =
     (checkOperation (hasUnconfirmedExit deps scope s) (cd_context deps scope (ct_world s)) (cd_now deps (ct_world s)), s)"

text \<open>A step of an operation that is measured: it is not begun once the operation is over.\<close>

definition measured :: "'w controller_deps \<Rightarrow> ('w, 'a) act \<Rightarrow> ('w, 'a) act" where
  "measured deps m = seq (check deps Operation_scope) (\<lambda>_. m)"

definition is_control :: "char \<Rightarrow> bool" where
  "is_control c \<longleftrightarrow> of_char c \<le> (31 :: nat) \<or> of_char c = (127 :: nat)"

fun blank_controls :: "bool \<Rightarrow> string \<Rightarrow> string" where
  "blank_controls inside [] = []"
| "blank_controls inside (c # cs) =
     (if is_control c then (if inside then [] else '' '') @ blank_controls True cs else c # blank_controls False cs)"

definition is_space :: "char \<Rightarrow> bool" where
  "is_space c \<longleftrightarrow> of_char c \<in> {9, 10, 11, 12, 13, 32, 160 :: nat}"

definition trim :: "string \<Rightarrow> string" where
  "trim s = rev (dropWhile is_space (rev (dropWhile is_space s)))"

definition truncateReason :: "string \<Rightarrow> string" where
  "truncateReason reason = take 120 (trim (blank_controls False reason))"

definition lock :: "string \<Rightarrow> 'w ctl \<Rightarrow> 'w ctl" where
  "lock reason s =
     s\<lparr>ct_locked := True,
       ct_lockedReason := (case ct_lockedReason s of
          Some r \<Rightarrow> Some r
        | None \<Rightarrow> Some (if truncateReason reason = [] then ''recovery_required'' else truncateReason reason))\<rparr>"

definition recoveryReason :: "'w ctl \<Rightarrow> string option" where
  "recoveryReason s =
     (if ct_locked s then Some (case ct_lockedReason s of Some r \<Rightarrow> r | None \<Rightarrow> ''pending journal'') else None)"

definition result_of :: "result_code \<Rightarrow> nat \<Rightarrow> operation_result" where
  "result_of code n = \<lparr>or_code = code, or_changedFiles = n, or_message = None, or_refillPrompt = None\<rparr>"

definition recoveryResult :: "nat \<Rightarrow> ('w, operation_result) act" where
  "recoveryResult n = look (\<lambda>s. ret ((result_of RC_recovery_required n)\<lparr>or_message := recoveryReason s\<rparr>))"

definition recordUnsafeExit :: "'w controller_deps \<Rightarrow> scope_id \<Rightarrow> exn \<Rightarrow> ('w, bool) act" where
  "recordUnsafeExit deps scope e = look (\<lambda>s.
     if isUnconfirmedExit e \<or> hasUnconfirmedExit deps scope s
     then seq (change (\<lambda>s. lock ''process_exit_unconfirmed'' (s\<lparr>ct_unsafeExit := True\<rparr>))) (\<lambda>_. ret True)
     else ret False)"

definition check_exit :: "'w controller_deps \<Rightarrow> scope_id \<Rightarrow> ('w, unit) act" where
  "check_exit deps scope = look (\<lambda>s.
     if hasUnconfirmedExit deps scope s then seq (recordUnsafeExit deps scope unconfirmed_exit) (\<lambda>_. ret ()) else ret ())"

definition runBackground :: "'w controller_deps \<Rightarrow> ('w, 'a) act \<Rightarrow> ('w, 'a) act" where
  "runBackground deps body = ending body (check_exit deps Background_scope)"

definition release_lock :: "'w controller_deps \<Rightarrow> ('w, unit) act" where
  "release_lock deps =
     catching (call (cd_release deps)) (\<lambda>_. change (lock ''workspace_lock_release_failed''))"

text \<open>A body with a time budget of its own, in the context \<open>outer\<close>.\<close>

definition withRecoveryBudget :: "'w controller_deps \<Rightarrow> scope_id \<Rightarrow> ('w, 'a) act \<Rightarrow> ('w, 'a) act" where
  "withRecoveryBudget deps outer body =
     catching
       (seq (look (\<lambda>s. if hasUnconfirmedExit deps outer s then check deps outer else ret ())) (\<lambda>_.
        seq (change (\<lambda>s. s\<lparr>ct_marked := filter (\<lambda>c. c \<noteq> Budget_scope) (ct_marked s)\<rparr>)) (\<lambda>_.
        catching
          (ending body (look (\<lambda>s. if hasUnconfirmedExit deps Budget_scope s then check deps Budget_scope else ret ())))
          (\<lambda>e. seq (if isUnconfirmedExit e then change (\<lambda>s. s\<lparr>ct_marked := outer # ct_marked s\<rparr>) else ret ()) (\<lambda>_.
               throw e)))))
       (\<lambda>e. seq (recordUnsafeExit deps outer e) (\<lambda>_. throw e))"

section \<open>The records of an operation\<close>

definition operation_id :: "'w controller_deps \<Rightarrow> ('w, string) act" where
  "operation_id deps s =
     (case ct_operationId s of
        Some i \<Rightarrow> (Inr i, s)
      | None \<Rightarrow> (case cd_randomUUID deps (ct_world s) of (u, w) \<Rightarrow> (Inr (''op-'' @ u), s\<lparr>ct_world := w\<rparr>)))"

definition plan_scope :: "restore_plan \<Rightarrow> string list" where
  "plan_scope p =
     sort_cmp compare_strings (case pl_scopePaths p of Some ps \<Rightarrow> ps | None \<Rightarrow> pl_deletePaths p @ pl_writePaths p)"

definition make_descriptor ::
  "'w controller_deps \<Rightarrow> string \<Rightarrow> action \<Rightarrow> manifest_id \<Rightarrow> manifest_id \<Rightarrow> restore_plan \<Rightarrow> string option \<Rightarrow> string option \<Rightarrow>
   operation_descriptor" where
  "make_descriptor deps opId act rollbackId targetId p fromLeaf toLeaf =
     (let scopePaths = plan_scope p;
          d = \<lparr>od_opId = opId, od_sessionIdentity = cd_sessionIdentity deps,
               od_workspaceIdentity = cd_workspaceIdentity deps, od_action = act, od_fromLogicalLeaf = fromLeaf,
               od_toLogicalLeaf = toLeaf, od_targetManifestId = targetId, od_rollbackManifestId = rollbackId,
               od_coverage = (case scope_coverage (cd_hash deps) scopePaths of Some c \<Rightarrow> c | None \<Rightarrow> []),
               od_scopePaths = scopePaths, od_planDigest = pl_planDigest p, od_checksum = []\<rparr>
      in d\<lparr>od_checksum := content_checksum (cd_hash deps) (descriptor_content d)\<rparr>)"

definition createDescriptorFromManifestIds ::
  "'w controller_deps \<Rightarrow> action \<Rightarrow> manifest_id \<Rightarrow> manifest_id \<Rightarrow> restore_plan \<Rightarrow> string option \<Rightarrow>
   ('w, operation_descriptor) act" where
  "createDescriptorFromManifestIds deps act rollbackId targetId p toLeaf =
     seq (operation_id deps) (\<lambda>opId. look (\<lambda>s.
     ret (make_descriptor deps opId act rollbackId targetId p (leaf_now deps s) toLeaf)))"

definition createDescriptor ::
  "'w controller_deps \<Rightarrow> action \<Rightarrow> snapshot_manifest \<Rightarrow> snapshot_manifest \<Rightarrow> restore_plan \<Rightarrow> string option \<Rightarrow>
   ('w, operation_descriptor) act" where
  "createDescriptor deps act rollback target p toLeaf =
     createDescriptorFromManifestIds deps act (sm_manifestId rollback) (sm_manifestId target) p toLeaf"

definition seal_cursor :: "hash \<Rightarrow> cursor_state \<Rightarrow> cursor_state" where
  "seal_cursor H c = c\<lparr>cu_checksum := content_checksum H (cursor_content c)\<rparr>"

definition createCursor ::
  "hash \<Rightarrow> operation_descriptor \<Rightarrow> action \<Rightarrow> checkpoint_record \<Rightarrow> 'w ctl \<Rightarrow> cursor_state" where
  "createCursor H d act cp s =
     (let redoIds = (\<lambda>es. map (\<lambda>e. cp_checkpointId (re_checkpoint e)) es);
          undo = ct_undoStack s
      in seal_cursor H
        \<lparr>cu_opId = od_opId d, cu_action = act, cu_sessionIdentity = od_sessionIdentity d,
         cu_fromLogicalLeaf = od_fromLogicalLeaf d, cu_toLogicalLeaf = od_toLogicalLeaf d,
         cu_targetManifestId = od_targetManifestId d, cu_rollbackManifestId = od_rollbackManifestId d,
         cu_undoHead =
           (if act = Undo
            then if 2 \<le> length undo then Some (cp_checkpointId (undo ! (length undo - 2))) else None
            else Some (cp_checkpointId cp)),
         cu_redoStack =
           (if act = Undo then redoIds (ct_redoStack s) @ [cp_checkpointId cp] else redoIds (butlast (ct_redoStack s))),
         cu_descriptorChecksum = od_checksum d, cu_checksum = []\<rparr>)"

definition createTreeCursor ::
  "hash \<Rightarrow> operation_descriptor \<Rightarrow> string option \<Rightarrow> checkpoint_record list \<Rightarrow> cursor_state" where
  "createTreeCursor H d observed undo =
     seal_cursor H
       \<lparr>cu_opId = od_opId d, cu_action = Tree, cu_sessionIdentity = od_sessionIdentity d,
        cu_fromLogicalLeaf = od_fromLogicalLeaf d, cu_toLogicalLeaf = observed,
        cu_targetManifestId = od_targetManifestId d, cu_rollbackManifestId = od_rollbackManifestId d,
        cu_undoHead = (if undo = [] then None else Some (cp_checkpointId (last undo))),
        cu_redoStack = [], cu_descriptorChecksum = od_checksum d, cu_checksum = []\<rparr>"

definition emptyRestorePlan :: "hash \<Rightarrow> manifest_id \<Rightarrow> manifest_id \<Rightarrow> restore_plan" where
  "emptyRestorePlan H currentId targetId =
     (let p = \<lparr>pl_currentManifestId = currentId, pl_targetManifestId = targetId, pl_boundaryRoots = [],
               pl_deletePaths = [], pl_writePaths = [], pl_scopePaths = Some [], pl_planDigest = []\<rparr>
      in p\<lparr>pl_planDigest := content_checksum H (plan_content p)\<rparr>)"

section \<open>Compensation\<close>

definition set_phase :: "'w controller_deps \<Rightarrow> string \<Rightarrow> journal_phase \<Rightarrow> ('w, unit) act" where
  "set_phase deps opId ph = call (cd_setPhase deps opId ph None)"

fun each_phase :: "'w controller_deps \<Rightarrow> string \<Rightarrow> (journal_phase \<times> string option option) list \<Rightarrow> ('w, unit) act" where
  "each_phase deps opId [] = ret ()"
| "each_phase deps opId ((ph, observed) # ts) =
     seq (call (cd_setPhase deps opId ph observed)) (\<lambda>_. each_phase deps opId ts)"

definition setJournalPhases ::
  "'w controller_deps \<Rightarrow> string \<Rightarrow> (journal_phase \<times> string option option) list \<Rightarrow> ('w, unit) act" where
  "setJournalPhases deps opId ts =
     (case cd_setPhases deps of Some f \<Rightarrow> call (f opId ts) | None \<Rightarrow> each_phase deps opId ts)"

definition plain_error :: exn where
  "plain_error =
     [\<lparr>eo_message = [], eo_name = Some ''Error'', eo_code = None, eo_timedOut = False, eo_aborted = False, eo_cause = None\<rparr>]"

definition compensateSessionOnlyWithinBudget :: "'w controller_deps \<Rightarrow> operation_descriptor \<Rightarrow> ('w, operation_result) act" where
  "compensateSessionOnlyWithinBudget deps d =
     catching
       (seq (set_phase deps (od_opId d) ABORTING) (\<lambda>_.
        seq (call (cd_restoreSessionLeaf deps (od_fromLogicalLeaf d))) (\<lambda>restored.
        if \<not> restored then throw plain_error
        else seq (set_phase deps (od_opId d) ABORTED) (\<lambda>_. ret (result_of RC_restore_failed_safe 0)))))
       (\<lambda>_. seq (change (lock ''session_only_recovery_failed'')) (\<lambda>_.
            seq (ignoring (set_phase deps (od_opId d) RECOVERY_REQUIRED)) (\<lambda>_.
            recoveryResult 0)))"

definition compensateSessionOnly :: "'w controller_deps \<Rightarrow> operation_descriptor \<Rightarrow> ('w, operation_result) act" where
  "compensateSessionOnly deps d =
     catching (withRecoveryBudget deps Operation_scope (compensateSessionOnlyWithinBudget deps d))
       (\<lambda>_. seq (change (lock ''session_only_recovery_failed'')) (\<lambda>_. recoveryResult 0))"

text \<open>The session goes back, the files go back, and only then the transaction is aborted.\<close>

definition revert_files ::
  "'w controller_deps \<Rightarrow> operation_descriptor \<Rightarrow> snapshot_manifest \<Rightarrow> snapshot_manifest \<Rightarrow> ('w, bool) act" where
  "revert_files deps d rollback target =
     catching
       (seq (set_phase deps (od_opId d) ABORTING) (\<lambda>_.
        seq (call (cd_restoreSessionLeaf deps (od_fromLogicalLeaf d))) (\<lambda>restored.
        if \<not> restored then throw plain_error
        else seq (call (cd_planRestore deps target rollback (Some (od_scopePaths d)))) (\<lambda>rollbackPlan.
             seq (call (cd_applyRestore deps rollbackPlan rollback (od_opId d))) (\<lambda>reverted.
             if rr_code reverted = RC_ok
             then seq (set_phase deps (od_opId d) ABORTED) (\<lambda>_. ret True) else ret False)))))
       (\<lambda>e. seq (recordUnsafeExit deps Budget_scope e) (\<lambda>_. ret False))"

definition compensateWithinBudget ::
  "'w controller_deps \<Rightarrow> operation_descriptor \<Rightarrow> snapshot_manifest \<Rightarrow> snapshot_manifest \<Rightarrow> nat \<Rightarrow>
   ('w, operation_result) act" where
  "compensateWithinBudget deps d rollback target verified =
     seq (revert_files deps d rollback target) (\<lambda>whole.
     if whole then ret (result_of RC_restore_failed_safe verified)
     else seq (change (lock ''compensation_failed'')) (\<lambda>_.
          seq (ignoring (set_phase deps (od_opId d) RECOVERY_REQUIRED)) (\<lambda>_.
          recoveryResult verified)))"

definition compensate ::
  "'w controller_deps \<Rightarrow> operation_descriptor \<Rightarrow> snapshot_manifest \<Rightarrow> snapshot_manifest \<Rightarrow> nat \<Rightarrow>
   ('w, operation_result) act" where
  "compensate deps d rollback target verified =
     catching (withRecoveryBudget deps Operation_scope (compensateWithinBudget deps d rollback target verified))
       (\<lambda>_. seq (change (lock ''compensation_failed'')) (\<lambda>_. recoveryResult 0))"

section \<open>Undo and redo\<close>

definition advanceHistory :: "action \<Rightarrow> checkpoint_record \<Rightarrow> operation_result \<Rightarrow> ('w, operation_result) act" where
  "advanceHistory act cp r = look (\<lambda>s.
     if or_code r \<noteq> RC_ok then ret r
     else if act = Undo then
       (case ct_lastSafety s of
          None \<Rightarrow> ret r
        | Some safety \<Rightarrow>
            seq (change (\<lambda>s. s\<lparr>ct_undoStack := butlast (ct_undoStack s),
                ct_redoStack := ct_redoStack s @ [\<lparr>re_checkpoint = cp, re_targetManifestId = safety\<rparr>]\<rparr>)) (\<lambda>_.
            ret (r\<lparr>or_refillPrompt := Some (cp_rawPrompt cp)\<rparr>)))
     else
       seq (change (\<lambda>s. s\<lparr>ct_redoStack := butlast (ct_redoStack s), ct_undoStack := ct_undoStack s @ [cp]\<rparr>)) (\<lambda>_. ret r))"

text \<open>Begin the transaction in the journal and move the session; \<open>moved\<close> goes on at the target leaf.\<close>

definition navigate ::
  "'w controller_deps \<Rightarrow> action \<Rightarrow> checkpoint_record \<Rightarrow> operation_descriptor \<Rightarrow> restore_plan \<Rightarrow>
   (string option \<Rightarrow> ('w, operation_result) act) \<Rightarrow> ('w, operation_result) act" where
  "navigate deps act cp d p moved =
     seq (measured deps (call (cd_prepare deps d p))) (\<lambda>_.
     seq (measured deps (call (cd_navigateSession deps act cp))) (\<lambda>(cancelled, leaf).
     if cancelled then
       seq (measured deps (seq (set_phase deps (od_opId d) ABORTING) (\<lambda>_. set_phase deps (od_opId d) ABORTED))) (\<lambda>_.
       ret (result_of RC_restore_failed_safe 0))
     else if leaf \<noteq> od_toLogicalLeaf d then
       seq (change (lock ''session_navigation_diverged'')) (\<lambda>_.
       seq (measured deps (set_phase deps (od_opId d) RECOVERY_REQUIRED)) (\<lambda>_.
       ret (result_of RC_recovery_required 0)))
     else moved leaf))"

text \<open>
  Make the cursor durable, which is the point of no return, and commit. \<open>undone\<close> is what happens when the
  cursor did not become durable, \<open>committed\<close> what follows the commit.
\<close>

definition commit_cursor ::
  "'w controller_deps \<Rightarrow> action \<Rightarrow> checkpoint_record \<Rightarrow> operation_descriptor \<Rightarrow> nat \<Rightarrow> ('w, operation_result) act \<Rightarrow>
   ('w, operation_result) act \<Rightarrow> ('w, operation_result) act" where
  "commit_cursor deps act cp d verified undone committed = look (\<lambda>s0.
     seq (measured deps (call (cd_appendCursor deps (createCursor (cd_hash deps) d act cp s0)))) (\<lambda>appended.
     case appended of
       Cursor_recovery_required reason \<Rightarrow>
         seq (change (lock reason)) (\<lambda>_.
         seq (measured deps (ignoring (set_phase deps (od_opId d) RECOVERY_REQUIRED))) (\<lambda>_.
         ret (result_of RC_recovery_required verified)))
     | Cursor_volatile _ \<Rightarrow> measured deps undone
     | Cursor_durable _ \<Rightarrow>
         seq (change (\<lambda>s. s\<lparr>ct_transaction := map_option (\<lambda>t. t\<lparr>tr_cursorDurable := True\<rparr>) (ct_transaction s)\<rparr>)) (\<lambda>_.
         seq (set_phase deps (od_opId d) CURSOR_COMMITTED) (\<lambda>_.
         seq (call (cd_markCommitted deps (od_opId d))) (\<lambda>_. committed)))))"

definition begin_transaction ::
  "operation_descriptor \<Rightarrow> (snapshot_manifest \<times> snapshot_manifest) option \<Rightarrow> ('w, unit) act" where
  "begin_transaction d ms =
     change (\<lambda>s. s\<lparr>ct_transaction := Some \<lparr>tr_descriptor = d, tr_manifests = ms, tr_cursorDurable = False\<rparr>\<rparr>)"

definition runSessionOnlyOperation ::
  "'w controller_deps \<Rightarrow> action \<Rightarrow> checkpoint_record \<Rightarrow> manifest_id option \<Rightarrow> ('w, operation_result) act" where
  "runSessionOnlyOperation deps act cp targetManifestId =
     (let rollbackId = (if act = Undo then cp_afterManifestId cp else cp_beforeManifestId cp);
          targetId = (case targetManifestId of Some m \<Rightarrow> m
                      | None \<Rightarrow> if act = Undo then cp_beforeManifestId cp else cp_afterManifestId cp);
          p = emptyRestorePlan (cd_hash deps) rollbackId targetId
      in seq (call (cd_resolveSessionTarget deps act cp)) (\<lambda>toLeaf.
         seq (createDescriptorFromManifestIds deps act rollbackId targetId p toLeaf) (\<lambda>d.
         seq (begin_transaction d None) (\<lambda>_.
         navigate deps act cp d p (\<lambda>leaf.
         seq (measured deps (setJournalPhases deps (od_opId d)
               [(SESSION_MOVED, Some leaf), (APPLYING, None), (FILES_VERIFIED, None)])) (\<lambda>_.
         commit_cursor deps act cp d 0 (compensateSessionOnly deps d)
           (seq (change (\<lambda>s. s\<lparr>ct_lastSafety := Some rollbackId\<rparr>)) (\<lambda>_. ret (result_of RC_ok 0)))))))))"

definition failure_result :: "operation_failure \<Rightarrow> result_code" where
  "failure_result f = (case f of Operation_cancelled \<Rightarrow> RC_operation_cancelled | Operation_timeout \<Rightarrow> RC_operation_timeout)"

text \<open>Move the session and the files to the target, under a transaction already described by \<open>d\<close>.\<close>

definition restore_files ::
  "'w controller_deps \<Rightarrow> action \<Rightarrow> checkpoint_record \<Rightarrow> operation_descriptor \<Rightarrow> snapshot_manifest \<Rightarrow> snapshot_manifest \<Rightarrow>
   restore_plan \<Rightarrow> ('w, operation_result) act" where
  "restore_files deps act cp d rollback target p =
     navigate deps act cp d p (\<lambda>leaf.
     seq (measured deps (setJournalPhases deps (od_opId d) [(SESSION_MOVED, Some leaf), (APPLYING, None)])) (\<lambda>_.
     seq (measured deps (call (cd_applyRestore deps p target (od_opId d)))) (\<lambda>applied.
     if rr_code applied \<noteq> RC_ok then
       seq (compensate deps d rollback target (rr_verifiedPaths applied)) (\<lambda>r.
       ret (case rr_failureCode applied of
              Some f \<Rightarrow> if or_code r = RC_restore_failed_safe then r\<lparr>or_code := failure_result f\<rparr> else r
            | None \<Rightarrow> r))
     else
       seq (measured deps (set_phase deps (od_opId d) FILES_VERIFIED)) (\<lambda>_.
       commit_cursor deps act cp d (rr_verifiedPaths applied) (compensate deps d rollback target (rr_verifiedPaths applied))
         (seq (change (\<lambda>s. s\<lparr>ct_lastSafety := Some (sm_manifestId rollback),
                             ct_lastApplied := Some (target, cd_now deps (ct_world s))\<rparr>)) (\<lambda>_.
          advanceHistory act cp (result_of RC_ok (rr_verifiedPaths applied))))))))"

text \<open>An error that is no cancellation gives up with \<open>code\<close>, before anything was begun.\<close>

definition giving_up :: "('w, 'a) act \<Rightarrow> result_code \<Rightarrow> ('a \<Rightarrow> ('w, operation_result) act) \<Rightarrow> ('w, operation_result) act" where
  "giving_up m code f =
     seq (catching (seq m (\<lambda>x. ret (Some x)))
            (\<lambda>e. if operationFailure e \<noteq> None \<or> isUnconfirmedExit e then throw e else ret None))
       (\<lambda>x. case x of None \<Rightarrow> ret (result_of code 0) | Some y \<Rightarrow> f y)"

definition safety_capture ::
  "'w controller_deps \<Rightarrow> manifest_id \<Rightarrow> manifest_id \<Rightarrow> string list \<Rightarrow> ('w, snapshot_manifest) act" where
  "safety_capture deps referenceId targetId scope =
     (case cd_captureSafety deps of
        None \<Rightarrow> call (cd_capture deps (Some scope))
      | Some f \<Rightarrow> call (f referenceId targetId scope))"

definition restore_checkpoint ::
  "'w controller_deps \<Rightarrow> action \<Rightarrow> checkpoint_record \<Rightarrow> manifest_id option \<Rightarrow> ('w, operation_result) act" where
  "restore_checkpoint deps act cp targetManifestId =
     (let targetId = (case targetManifestId of Some m \<Rightarrow> m
                      | None \<Rightarrow> if act = Undo then cp_beforeManifestId cp else cp_afterManifestId cp);
          referenceId = (if act = Undo then cp_afterManifestId cp else cp_beforeManifestId cp)
      in giving_up (measured deps (safety_capture deps referenceId targetId (cp_changedPaths cp))) RC_capture_failed (\<lambda>rollback.
         giving_up
           (seq (measured deps (call (cd_loadManifest deps targetId))) (\<lambda>target.
            seq (measured deps (call (cd_planRestore deps rollback target (Some (cp_changedPaths cp))))) (\<lambda>p.
            seq (call (cd_resolveSessionTarget deps act cp)) (\<lambda>toLeaf. ret (target, p, toLeaf)))))
           RC_restore_failed_safe (\<lambda>(target, p, toLeaf).
         seq (createDescriptor deps act rollback target p toLeaf) (\<lambda>d.
         seq (begin_transaction d (Some (rollback, target))) (\<lambda>_.
         restore_files deps act cp d rollback target p)))))"

definition carry_out ::
  "'w controller_deps \<Rightarrow> action \<Rightarrow> checkpoint_record \<Rightarrow> manifest_id option \<Rightarrow> ('w, operation_result) act" where
  "carry_out deps act cp targetManifestId =
     (if cp_changedPaths cp = []
      then seq (runSessionOnlyOperation deps act cp targetManifestId) (advanceHistory act cp)
      else restore_checkpoint deps act cp targetManifestId)"

text \<open>\<open>wait_task\<close> waits for the promise of another handler until the deadline.\<close>

definition wait_task :: "'w controller_deps \<Rightarrow> 'w waiting \<Rightarrow> ('w, bool) act" where
  "wait_task deps wait = seq (check deps Operation_scope) (\<lambda>_ s. case wait s of (completed, s') \<Rightarrow> (Inr completed, s'))"

fun wait_tasks :: "'w controller_deps \<Rightarrow> 'w waiting \<Rightarrow> nat \<Rightarrow> ('w, bool) act" where
  "wait_tasks deps wait 0 = ret True"
| "wait_tasks deps wait (Suc n) =
     seq (wait_task deps wait) (\<lambda>completed. if completed then wait_tasks deps wait n else ret False)"

definition waitForCheckpoint :: "'w controller_deps \<Rightarrow> 'w waiting \<Rightarrow> ('w, bool) act" where
  "waitForCheckpoint deps wait = look (\<lambda>s0.
     seq (wait_tasks deps wait
           ((if ct_inputCapture s0 \<noteq> None then 1 else 0) + (if ct_inputCommit s0 then 1 else 0))) (\<lambda>completed.
     if \<not> completed then ret False
     else look (\<lambda>s. case ct_runCompletion s of
            Some run \<Rightarrow> if rn_started run then wait_task deps wait
                        else seq (change (\<lambda>s. s\<lparr>ct_staged := None, ct_deferAgentStart := False, ct_runCompletion := None\<rparr>)) (\<lambda>_. ret True)
          | None \<Rightarrow> seq (change (\<lambda>s. s\<lparr>ct_staged := None, ct_deferAgentStart := False\<rparr>)) (\<lambda>_. ret True))))"

definition ensureIdle :: "'w controller_deps \<Rightarrow> ('w, bool) act" where
  "ensureIdle deps = look (\<lambda>s.
     if cd_isAgentIdle deps (ct_world s) then ret True
     else catching
       (seq (call (cd_abortAgent deps)) (\<lambda>_. look (\<lambda>s. call (cd_waitForIdle deps (cd_now deps (ct_world s) + 30000)))))
       (\<lambda>e. case rethrowOperationFailure e of Inl e' \<Rightarrow> throw e' | Inr _ \<Rightarrow> ret False))"

text \<open>
  The operation up to the workspace lock: either its result already, or the checkpoint and the target
  to go to, and then the lock is held.
\<close>

definition choose_checkpoint ::
  "'w controller_deps \<Rightarrow> 'w waiting \<Rightarrow> action \<Rightarrow>
   ('w, operation_result + checkpoint_record \<times> manifest_id option) act" where
  "choose_checkpoint deps wait act =
     seq (measured deps (ensureIdle deps)) (\<lambda>idleReady.
     seq (measured deps (waitForCheckpoint deps wait)) (\<lambda>checkpointReady.
     if \<not> idleReady \<or> \<not> checkpointReady then
       seq (check deps Operation_scope) (\<lambda>_. ret (Inl (result_of RC_idle_timeout 0)))
     else look (\<lambda>s.
       if ct_locked s then seq (recoveryResult 0) (\<lambda>r. ret (Inl r))
       else if ct_historyPaused s then ret (Inl (result_of RC_history_paused 0))
       else if ct_disposed s then ret (Inl (result_of RC_busy 0))
       else
         (case (if act = Undo then if ct_undoStack s = [] then None else Some (last (ct_undoStack s), None)
                else if ct_redoStack s = [] then None
                else Some (re_checkpoint (last (ct_redoStack s)), Some (re_targetManifestId (last (ct_redoStack s))))) of
            None \<Rightarrow> ret (Inl (result_of RC_noop 0))
          | Some chosen \<Rightarrow>
              catching (seq (measured deps (call (cd_acquireWorkspaceLock deps))) (\<lambda>_. ret (Inr chosen)))
                (\<lambda>e. if operationFailure e \<noteq> None \<or> isUnconfirmedExit e then throw e
                     else ret (Inl (result_of RC_busy 0)))))))"

text \<open>
  An error in an operation: compensate if it was cancelled before its cursor was durable, and lock in
  every other case.
\<close>

definition handle_error :: "'w controller_deps \<Rightarrow> exn \<Rightarrow> ('w, operation_result) act" where
  "handle_error deps e =
     seq (recordUnsafeExit deps Operation_scope e) (\<lambda>unsafe.
     if unsafe then recoveryResult 0
     else look (\<lambda>s.
       let durable = (case ct_transaction s of None \<Rightarrow> False | Some t \<Rightarrow> tr_cursorDurable t) in
       case operationFailure e of
         Some f \<Rightarrow>
           if durable then seq (change (lock ''operation_failed'')) (\<lambda>_. recoveryResult 0)
           else (case ct_transaction s of
                   None \<Rightarrow> ret (result_of (failure_result f) 0)
                 | Some t \<Rightarrow>
                     seq (case tr_manifests t of
                            Some (rollback, target) \<Rightarrow> compensate deps (tr_descriptor t) rollback target 0
                          | None \<Rightarrow> compensateSessionOnly deps (tr_descriptor t)) (\<lambda>recovered.
                     ret (if or_code recovered = RC_recovery_required then recovered else result_of (failure_result f) 0)))
       | None \<Rightarrow> seq (change (lock ''operation_failed'')) (\<lambda>_. recoveryResult 0)))"

definition finish_operation :: "'w controller_deps \<Rightarrow> bool \<Rightarrow> ('w, unit) act" where
  "finish_operation deps lease =
     seq (check_exit deps Operation_scope) (\<lambda>_.
     seq (look (\<lambda>s. if lease \<and> \<not> ct_unsafeExit s then release_lock deps else ret ())) (\<lambda>_.
     change (\<lambda>s. s\<lparr>ct_operationAction := None, ct_promptDeferral := False, ct_operationInFlight := False\<rparr>)))"

text \<open>The operation under the lock, with its \<open>catch\<close> and its \<open>finally\<close>.\<close>

definition conduct ::
  "'w controller_deps \<Rightarrow> action \<Rightarrow> checkpoint_record \<Rightarrow> manifest_id option \<Rightarrow> ('w, operation_result) act" where
  "conduct deps act cp targetManifestId =
     ending (catching (carry_out deps act cp targetManifestId) (handle_error deps)) (finish_operation deps True)"

definition performOperation :: "'w controller_deps \<Rightarrow> 'w waiting \<Rightarrow> action \<Rightarrow> ('w, operation_result) act" where
  "performOperation deps wait act = look (\<lambda>s0.
     if ct_locked s0 then recoveryResult 0
     else if ct_operationInFlight s0 then ret (result_of RC_busy 0)
     else
       seq (change (\<lambda>s. s\<lparr>ct_operationInFlight := True, ct_operationAction := Some act, ct_promptDeferral := True,
                          ct_lastSafety := None\<rparr>)) (\<lambda>_ s1.
       case choose_checkpoint deps wait act s1 of
         (Inl e, s) \<Rightarrow> ending (handle_error deps e) (finish_operation deps False) s
       | (Inr (Inl r), s) \<Rightarrow> ending (ret r) (finish_operation deps False) s
       | (Inr (Inr (cp, targetManifestId)), s) \<Rightarrow> conduct deps act cp targetManifestId s))"

definition runOperation :: "'w controller_deps \<Rightarrow> 'w waiting \<Rightarrow> action \<Rightarrow> ('w, operation_result) act" where
  "runOperation deps wait act = look (\<lambda>s.
     if ct_disposed s \<or> ct_operationInFlight s \<or> ct_operationId s \<noteq> None then ret (result_of RC_busy 0)
     else
       seq (operation_id deps) (\<lambda>opId.
       seq (change (\<lambda>s. s\<lparr>ct_operationId := Some opId, ct_marked := filter (\<lambda>c. c \<noteq> Operation_scope) (ct_marked s)\<rparr>)) (\<lambda>_.
       ending (performOperation deps wait act)
         (change (\<lambda>s. s\<lparr>ct_transaction := None, ct_operationId := None\<rparr>)))))"

definition undo :: "'w controller_deps \<Rightarrow> 'w waiting \<Rightarrow> ('w, operation_result) act" where
  "undo deps wait = look (\<lambda>s.
     if ct_locked s then recoveryResult 0
     else if ct_historyPaused s then ret (result_of RC_history_paused 0)
     else runOperation deps wait Undo)"

definition redo :: "'w controller_deps \<Rightarrow> 'w waiting \<Rightarrow> ('w, operation_result) act" where
  "redo deps wait = look (\<lambda>s.
     if ct_locked s then recoveryResult 0
     else if ct_historyPaused s then ret (result_of RC_history_paused 0)
     else if ct_redoStack s = [] then ret (result_of RC_noop 0)
     else runOperation deps wait Redo)"

definition cancelOperation :: "'w ctl \<Rightarrow> bool" where
  "cancelOperation s \<longleftrightarrow>
     ct_operationId s \<noteq> None \<and> (case ct_transaction s of None \<Rightarrow> True | Some t \<Rightarrow> \<not> tr_cursorDurable t)"

section \<open>Inputs and runs\<close>

definition isTransientCaptureFailure :: "exn \<Rightarrow> bool" where
  "isTransientCaptureFailure e \<longleftrightarrow>
     (case e of
        [] \<Rightarrow> False
      | v # _ \<Rightarrow> eo_name v = Some ''SnapshotStoreError'' \<and> eo_code v = Some ''capture_failed'' \<or>
                 eo_name v = Some ''WorkspaceLockError'' \<and> eo_code v = Some ''lock_timeout'')"

definition with_workspace_lock :: "'w controller_deps \<Rightarrow> ('w, 'a) act \<Rightarrow> ('w, 'a) act" where
  "with_workspace_lock deps body =
     seq (call (cd_acquireWorkspaceLock deps)) (\<lambda>_.
     ending
       (catching body (\<lambda>e. seq (recordUnsafeExit deps Background_scope e) (\<lambda>_. throw e)))
       (look (\<lambda>s. if ct_unsafeExit s then ret () else call (cd_release deps))))"

definition captureWithWorkspaceLock :: "'w controller_deps \<Rightarrow> ('w, snapshot_manifest) act" where
  "captureWithWorkspaceLock deps = with_workspace_lock deps (call (cd_capture deps None))"

definition captureBaselineWithWorkspaceLock :: "'w controller_deps \<Rightarrow> snapshot_manifest \<Rightarrow> ('w, snapshot_manifest) act" where
  "captureBaselineWithWorkspaceLock deps baseline =
     (case cd_captureBaseline deps of
        None \<Rightarrow> captureWithWorkspaceLock deps
      | Some f \<Rightarrow> with_workspace_lock deps (call (f baseline)))"

definition captureSettledBaselineWithRetry :: "'w controller_deps \<Rightarrow> snapshot_manifest \<Rightarrow> ('w, snapshot_manifest) act" where
  "captureSettledBaselineWithRetry deps baseline =
     catching (captureBaselineWithWorkspaceLock deps baseline)
       (\<lambda>e. case rethrowOperationFailure e of
          Inl e' \<Rightarrow> throw e'
        | Inr _ \<Rightarrow> if isTransientCaptureFailure e then captureBaselineWithWorkspaceLock deps baseline else throw e)"

text \<open>The warm-up is consumed by the first capture after it.\<close>

definition warmUp :: "'w controller_deps \<Rightarrow> ('w, unit) act" where
  "warmUp deps = look (\<lambda>s.
     if ct_disposed s \<or> ct_locked s \<or> ct_warmUp s then ret ()
     else runBackground deps
       (catching
         (seq (captureWithWorkspaceLock deps) (\<lambda>m.
          change (\<lambda>s. s\<lparr>ct_warmUpManifest := Some m, ct_warmUp := True\<rparr>)))
         (\<lambda>e. seq (recordUnsafeExit deps Background_scope e) (\<lambda>_. ret ()))))"

definition captureInputBaseline :: "'w controller_deps \<Rightarrow> ('w, snapshot_manifest) act" where
  "captureInputBaseline deps = look (\<lambda>s0.
     seq (change (\<lambda>s. s\<lparr>ct_warmUpManifest := None, ct_warmUp := False\<rparr>)) (\<lambda>_.
     let capture = (case ct_warmUpManifest s0 of
           Some m \<Rightarrow> if cd_captureBaseline deps \<noteq> None then captureBaselineWithWorkspaceLock deps m
                     else captureWithWorkspaceLock deps
         | None \<Rightarrow> captureWithWorkspaceLock deps)
     in catching capture
          (\<lambda>e. if isTransientCaptureFailure e then seq (check deps Background_scope) (\<lambda>_. capture) else throw e)))"

definition stageInput :: "'w controller_deps \<Rightarrow> string \<Rightarrow> snapshot_manifest \<Rightarrow> 'w ctl \<Rightarrow> 'w ctl" where
  "stageInput deps prompt before s =
     s\<lparr>ct_captureFailure := None, ct_historyPaused := False,
       ct_staged := Some \<lparr>sg_rawPrompt = prompt, sg_before = before, sg_sourceLogicalLeaf = leaf_now deps s,
                          sg_startEntryId = None\<rparr>\<rparr>"

definition message_of :: "exn \<Rightarrow> string" where
  "message_of e = (case e of [] \<Rightarrow> [] | v # _ \<Rightarrow> eo_message v)"

definition recordCaptureFailure :: "'w controller_deps \<Rightarrow> exn \<Rightarrow> ('w, unit) act" where
  "recordCaptureFailure deps e =
     seq (recordUnsafeExit deps Background_scope e) (\<lambda>_.
     change (\<lambda>s. s\<lparr>ct_captureFailure := Some (truncateReason (message_of e))\<rparr>))"

definition beginRun :: "'w ctl \<Rightarrow> 'w ctl" where
  "beginRun s =
     s\<lparr>ct_runCompletion := Some \<lparr>rn_id = ct_counter s, rn_started = False\<rparr>, ct_counter := ct_counter s + 1\<rparr>"

definition finishRun :: "nat option \<Rightarrow> 'w ctl \<Rightarrow> 'w ctl" where
  "finishRun run s =
     (if map_option rn_id (ct_runCompletion s) = run then s\<lparr>ct_runCompletion := None\<rparr> else s)"

definition current_run :: "'w ctl \<Rightarrow> nat option" where
  "current_run s = map_option rn_id (ct_runCompletion s)"

text \<open>What both ways to begin an input check first; \<open>None\<close> goes on.\<close>

definition input_gate :: "bool \<Rightarrow> string \<Rightarrow> 'w ctl \<Rightarrow> input_result option" where
  "input_gate streaming prompt s =
     (if ct_disposed s \<or> ct_unsafeExit s \<or> ct_promptDeferral s then Some Input_defer
      else if ct_locked s then Some Input_continue
      else if ct_operationInFlight s then Some Input_defer
      else if streaming \<or> prompt = [] then Some Input_continue
      else if (case ct_runCompletion s of Some run \<Rightarrow> rn_started run | None \<Rightarrow> False) \<or> ct_settling s then Some Input_defer
      else None)"

definition prepareInput :: "'w controller_deps \<Rightarrow> string \<Rightarrow> bool \<Rightarrow> ('w, input_result) act" where
  "prepareInput deps prompt streaming = look (\<lambda>s.
     case input_gate streaming prompt s of
       Some r \<Rightarrow> ret r
     | None \<Rightarrow>
         seq (change beginRun) (\<lambda>_. look (\<lambda>s1.
         seq (catching
               (seq (runBackground deps (captureInputBaseline deps)) (\<lambda>before.
                change (\<lambda>s2. if current_run s2 = current_run s1 \<and> \<not> ct_disposed s2 then stageInput deps prompt before s2 else s2)))
               (recordCaptureFailure deps)) (\<lambda>_.
         ret Input_continue))))"

text \<open>The fast path: the capture runs on its own and is awaited by \<open>commitInput\<close>.\<close>

definition beginInput :: "string \<Rightarrow> bool \<Rightarrow> ('w, input_result) act" where
  "beginInput prompt streaming = look (\<lambda>s.
     case input_gate streaming prompt s of
       Some r \<Rightarrow> ret r
     | None \<Rightarrow>
         seq (change (\<lambda>s. let s = beginRun s in
            s\<lparr>ct_staged := None, ct_captureFailure := None, ct_deferAgentStart := True,
              ct_inputCapture := Some (ct_counter s), ct_counter := ct_counter s + 1\<rparr>)) (\<lambda>_. ret Input_continue))"

definition captureInputForToken :: "'w controller_deps \<Rightarrow> string \<Rightarrow> nat \<Rightarrow> ('w, unit) act" where
  "captureInputForToken deps prompt token =
     seq (runBackground deps
       (catching
         (seq (captureInputBaseline deps) (\<lambda>before.
          change (\<lambda>s. if ct_inputCapture s = Some token then stageInput deps prompt before s else s)))
         (\<lambda>e. look (\<lambda>s. if ct_inputCapture s = Some token then recordCaptureFailure deps e else ret ())))) (\<lambda>_.
     change (\<lambda>s. if ct_inputCapture s = Some token then s\<lparr>ct_inputCapture := None\<rparr> else s))"

definition barrier :: "'w controller_deps \<Rightarrow> string \<Rightarrow> ('w, unit) act" where
  "barrier deps reason =
     catching (seq (call (cd_appendControl deps (Barrier_entry reason))) (\<lambda>_. ret ())) (\<lambda>_. ret ())"

definition startAgentRun :: "'w controller_deps \<Rightarrow> ('w, unit) act" where
  "startAgentRun deps = look (\<lambda>s.
     case ct_staged s of
       None \<Rightarrow> change (\<lambda>s. finishRun (current_run s) s)
     | Some staged \<Rightarrow>
         if ct_locked s \<or> ct_disposed s then change (\<lambda>s. finishRun (current_run s) s)
         else if sg_startEntryId staged \<noteq> None then ret ()
         else
           seq (catching
             (seq (call (cd_appendControl deps
                    (Start_entry (sm_manifestId (sg_before staged)) (sg_sourceLogicalLeaf staged)))) (\<lambda>entry.
              seq (change (\<lambda>s. s\<lparr>ct_staged := Some (staged\<lparr>sg_startEntryId := Some entry\<rparr>)\<rparr>)) (\<lambda>_.
              if entry = None then
                seq (change (\<lambda>s. (finishRun (current_run s) (lock ''start_entry_missing'' s))\<lparr>ct_staged := None\<rparr>)) (\<lambda>_.
                seq (barrier deps ''start_entry_missing'') (\<lambda>_. ret False))
              else ret True)))
             (\<lambda>_. seq (change (\<lambda>s. (finishRun (current_run s) (lock ''start_entry_append_failed'' s))\<lparr>ct_staged := None\<rparr>)) (\<lambda>_.
                  ret False))) (\<lambda>started.
           if started then change (\<lambda>s. s\<lparr>ct_redoStack := []\<rparr>) else ret ()))"

definition start_run :: "'w ctl \<Rightarrow> 'w ctl" where
  "start_run s = s\<lparr>ct_runCompletion := map_option (\<lambda>run. run\<lparr>rn_started := True\<rparr>) (ct_runCompletion s)\<rparr>"

definition commitCapturedInput :: "'w controller_deps \<Rightarrow> ('w, unit) act" where
  "commitCapturedInput deps = look (\<lambda>s.
     if \<not> ct_deferAgentStart s \<or> ct_disposed s then ret ()
     else
       seq (change (\<lambda>s. (start_run s)\<lparr>ct_inputCapture := None, ct_deferAgentStart := False\<rparr>)) (\<lambda>_.
       startAgentRun deps))"

definition beforeAgentStart :: "'w controller_deps \<Rightarrow> ('w, unit) act" where
  "beforeAgentStart deps =
     seq (change start_run) (\<lambda>_. look (\<lambda>s. if ct_deferAgentStart s then ret () else startAgentRun deps))"

definition createCheckpoint ::
  "'w controller_deps \<Rightarrow> staged_run \<Rightarrow> snapshot_manifest \<Rightarrow> string list \<Rightarrow> string \<Rightarrow> string \<Rightarrow> ('w, checkpoint_record) act" where
  "createCheckpoint deps staged after changed userEntryId endLeafId s =
     (case cd_randomUUID deps (ct_world s) of (checkpointId, w1) \<Rightarrow>
      case cd_randomUUID deps w1 of (runId, w2) \<Rightarrow>
        let c = \<lparr>cp_checkpointId = checkpointId, cp_runId = runId, cp_sessionIdentity = cd_sessionIdentity deps,
                 cp_startEntryId = (case sg_startEntryId staged of Some (Some e) \<Rightarrow> e | _ \<Rightarrow> endLeafId),
                 cp_userEntryId = userEntryId, cp_endLeafId = endLeafId, cp_rawPrompt = sg_rawPrompt staged,
                 cp_beforeManifestId = sm_manifestId (sg_before staged), cp_afterManifestId = sm_manifestId after,
                 cp_changedPaths = sort_cmp compare_strings changed, cp_checksum = []\<rparr>
        in (Inr (c\<lparr>cp_checksum := content_checksum (cd_hash deps) (checkpoint_content c)\<rparr>), s\<lparr>ct_world := w2\<rparr>))"

definition record_run :: "'w controller_deps \<Rightarrow> staged_run \<Rightarrow> (snapshot_manifest \<times> int) option \<Rightarrow> string \<Rightarrow> string \<Rightarrow> ('w, unit) act" where
  "record_run deps staged applied startEntryId userEntryId = look (\<lambda>s0.
     let baseline = (case applied of
           Some (m, at) \<Rightarrow> if 2000 \<le> cd_now deps (ct_world s0) - at then m else sg_before staged
         | None \<Rightarrow> sg_before staged)
     in seq (captureSettledBaselineWithRetry deps baseline) (\<lambda>after.
        seq (call (cd_changedPaths deps (sg_before staged) after)) (\<lambda>changed. look (\<lambda>s.
        seq (createCheckpoint deps staged after changed userEntryId
               (case leaf_now deps s of Some l \<Rightarrow> l | None \<Rightarrow> startEntryId)) (\<lambda>checkpoint.
        seq (call (cd_appendControl deps (Checkpoint_entry checkpoint))) (\<lambda>entry.
        if entry = None then
          seq (change (lock ''checkpoint_entry_missing'')) (\<lambda>_. barrier deps ''checkpoint_entry_missing'')
        else change (\<lambda>s. s\<lparr>ct_undoStack := ct_undoStack s @ [checkpoint]\<rparr>)))))))"

definition settleRun :: "'w controller_deps \<Rightarrow> ('w, unit) act" where
  "settleRun deps = look (\<lambda>s.
     seq (change (\<lambda>s. s\<lparr>ct_staged := None, ct_lastApplied := None\<rparr>)) (\<lambda>_.
     case ct_staged s of
       None \<Rightarrow> ret ()
     | Some staged \<Rightarrow>
         if ct_disposed s \<or> ct_locked s then ret ()
         else (case sg_startEntryId staged of
            Some (Some startEntryId) \<Rightarrow>
              (case cd_findUserEntryAfter deps startEntryId (ct_world s) of
                 None \<Rightarrow> seq (change (lock ''user_entry_missing'')) (\<lambda>_. barrier deps ''user_entry_missing'')
               | Some userEntryId \<Rightarrow>
                   catching (record_run deps staged (ct_lastApplied s) startEntryId userEntryId)
                     (\<lambda>e. seq (recordUnsafeExit deps Background_scope e) (\<lambda>_.
                          seq (change (\<lambda>s. s\<lparr>ct_historyPaused := True, ct_undoStack := [], ct_redoStack := []\<rparr>)) (\<lambda>_.
                          barrier deps ''settled_capture_failed''))))
          | _ \<Rightarrow> seq (change (lock ''start_entry_missing'')) (\<lambda>_. barrier deps ''start_entry_missing''))))"

definition agentSettled :: "'w controller_deps \<Rightarrow> ('w, unit) act" where
  "agentSettled deps = look (\<lambda>s.
     if ct_disposed s \<or> ct_settling s then ret ()
     else
       seq (change (\<lambda>s. s\<lparr>ct_settling := True\<rparr>)) (\<lambda>_.
       ending (runBackground deps (settleRun deps))
         (change (\<lambda>s'. finishRun (current_run s) (s'\<lparr>ct_settling := False\<rparr>)))))"

section \<open>Navigation in the session tree\<close>

text \<open>The target of a navigation as the session reports it: the new leaf, and the target if it was given.\<close>

record session_tree_event =
  te_newLeafId :: "string option"
  te_navigationTargetLeafId :: "string option option"

definition end_tree :: "'w controller_deps \<Rightarrow> ('w, unit) act" where
  "end_tree deps =
     seq (look (\<lambda>s. if ct_unsafeExit s \<or> hasUnconfirmedExit deps Tree_scope s then ret () else release_lock deps)) (\<lambda>_.
     change (\<lambda>s. s\<lparr>ct_operationInFlight := False\<rparr>))"

definition cancelPreparedTree :: "'w controller_deps \<Rightarrow> ('w, unit) act" where
  "cancelPreparedTree deps = look (\<lambda>s.
     case ct_pendingTree s of
       None \<Rightarrow> ret ()
     | Some pending \<Rightarrow>
         let opId = od_opId (pt_descriptor pending) in
         seq (change (\<lambda>s. s\<lparr>ct_pendingTree := None\<rparr>)) (\<lambda>_.
         ending
           (catching
             (look (\<lambda>s.
                if leaf_now deps s \<noteq> od_fromLogicalLeaf (pt_descriptor pending) then
                  seq (change (lock ''tree_cancel_session_moved'')) (\<lambda>_. set_phase deps opId RECOVERY_REQUIRED)
                else seq (set_phase deps opId ABORTING) (\<lambda>_. set_phase deps opId ABORTED)))
             (\<lambda>e. seq (recordUnsafeExit deps Tree_scope e) (\<lambda>_. change (lock ''tree_cancel_failed''))))
           (end_tree deps)))"

text \<open>The plan is made without a scope. The result says whether the navigation is cancelled.\<close>

definition describe_tree :: "'w controller_deps \<Rightarrow> string option \<Rightarrow> ('w, bool) act" where
  "describe_tree deps targetLeafId =
     seq (call (cd_capture deps None)) (\<lambda>rollback.
     seq (check deps Tree_scope) (\<lambda>_.
     seq (call (cd_resolveTreeTarget deps targetLeafId)) (\<lambda>(toLeaf, targetId, undoStack).
     seq (call (cd_loadManifest deps targetId)) (\<lambda>target.
     seq (call (cd_planRestore deps rollback target None)) (\<lambda>p.
     seq (createDescriptor deps Tree rollback target p toLeaf) (\<lambda>d.
     seq (call (cd_prepare deps d p)) (\<lambda>_.
     seq (change (\<lambda>s. s\<lparr>ct_pendingTree := Some
            \<lparr>pt_descriptor = d, pt_rollback = rollback, pt_target = target, pt_plan = p, pt_undoStack = undoStack\<rparr>\<rparr>)) (\<lambda>_.
     look (\<lambda>s.
       if ct_treeCancelled s \<or> (case cd_context deps Tree_scope (ct_world s) of Some c \<Rightarrow> oc_aborted c \<noteq> None | None \<Rightarrow> False)
       then seq (withRecoveryBudget deps Tree_scope (cancelPreparedTree deps)) (\<lambda>_. ret True)
       else ret False)))))))))"

definition give_up_tree :: "'w controller_deps \<Rightarrow> bool \<Rightarrow> exn \<Rightarrow> ('w, bool) act" where
  "give_up_tree deps lease e =
     seq (recordUnsafeExit deps Tree_scope e) (\<lambda>_.
     seq (look (\<lambda>s. if lease \<and> \<not> ct_unsafeExit s then release_lock deps else ret ())) (\<lambda>_.
     seq (change (\<lambda>s. s\<lparr>ct_operationInFlight := False\<rparr>)) (\<lambda>_.
     ret True)))"

definition prepareTree :: "'w controller_deps \<Rightarrow> string option \<Rightarrow> ('w, bool) act" where
  "prepareTree deps targetLeafId = look (\<lambda>s.
     if ct_staged s \<noteq> None \<or> ct_inputCapture s \<noteq> None \<or> ct_runCompletion s \<noteq> None \<or> ct_settling s \<or> ct_disposed s then
       seq (call (cd_abortAgent deps)) (\<lambda>_. ret True)
     else if ct_locked s \<or> ct_historyPaused s \<or> ct_operationInFlight s \<or> ct_treeCancelled s then ret True
     else
       seq (change (\<lambda>s. s\<lparr>ct_operationInFlight := True\<rparr>)) (\<lambda>_ s1.
       case seq (check deps Tree_scope) (\<lambda>_. call (cd_acquireWorkspaceLock deps)) s1 of
         (Inl e, s) \<Rightarrow> give_up_tree deps False e s
       | (Inr _, s) \<Rightarrow> catching (describe_tree deps targetLeafId) (give_up_tree deps True) s))"

definition apply_tree :: "'w controller_deps \<Rightarrow> pending_tree \<Rightarrow> session_tree_event \<Rightarrow> ('w, unit) act" where
  "apply_tree deps pending event =
     (let d = pt_descriptor pending; opId = od_opId d;
          navigationTarget = (case te_navigationTargetLeafId event of Some l \<Rightarrow> l | None \<Rightarrow> te_newLeafId event)
      in if navigationTarget \<noteq> od_toLogicalLeaf d then
           seq (change (lock ''session_navigation_diverged'')) (\<lambda>_. set_phase deps opId RECOVERY_REQUIRED)
         else
           seq (setJournalPhases deps opId [(SESSION_MOVED, Some (te_newLeafId event)), (APPLYING, None)]) (\<lambda>_.
           seq (check deps Tree_scope) (\<lambda>_.
           seq (call (cd_applyRestore deps (pt_plan pending) (pt_target pending) opId)) (\<lambda>applied.
           if rr_code applied \<noteq> RC_ok then
             seq (change (lock ''restore_failed'')) (\<lambda>_. set_phase deps opId RECOVERY_REQUIRED)
           else
             seq (check deps Tree_scope) (\<lambda>_.
             seq (set_phase deps opId FILES_VERIFIED) (\<lambda>_.
             seq (call (cd_appendCursor deps
                   (createTreeCursor (cd_hash deps) d (te_newLeafId event) (pt_undoStack pending)))) (\<lambda>appended.
             case appended of
               Cursor_durable _ \<Rightarrow>
                 seq (set_phase deps opId CURSOR_COMMITTED) (\<lambda>_.
                 seq (call (cd_markCommitted deps opId)) (\<lambda>_.
                 change (\<lambda>s. s\<lparr>ct_undoStack := pt_undoStack pending, ct_redoStack := []\<rparr>)))
             | Cursor_recovery_required reason \<Rightarrow>
                 seq (change (lock reason)) (\<lambda>_. set_phase deps opId RECOVERY_REQUIRED)
             | Cursor_volatile _ \<Rightarrow>
                 seq (change (lock ''cursor_recovery_required'')) (\<lambda>_. set_phase deps opId RECOVERY_REQUIRED))))))))"

definition applyPreparedTree :: "'w controller_deps \<Rightarrow> session_tree_event \<Rightarrow> ('w, unit) act" where
  "applyPreparedTree deps event = look (\<lambda>s.
     case ct_pendingTree s of
       None \<Rightarrow> ret ()
     | Some pending \<Rightarrow>
         seq (change (\<lambda>s. s\<lparr>ct_pendingTree := None\<rparr>)) (\<lambda>_.
         ending
           (catching (apply_tree deps pending event)
             (\<lambda>e. seq (recordUnsafeExit deps Tree_scope e) (\<lambda>_. change (lock ''tree_recovery_failed''))))
           (end_tree deps)))"

definition cancelTree :: "'w controller_deps \<Rightarrow> ('w, unit) act" where
  "cancelTree deps =
     seq (change (\<lambda>s. s\<lparr>ct_treeCancelled := True\<rparr>)) (\<lambda>_. look (\<lambda>s.
     if ct_pendingTree s \<noteq> None then withRecoveryBudget deps Tree_scope (cancelPreparedTree deps) else ret ()))"

section \<open>Recovery\<close>

definition controller_recover :: "'w controller_deps \<Rightarrow> ('w, unit) act" where
  "controller_recover deps = look (\<lambda>s.
     if ct_recoveryCompleted s then ret ()
     else
       ending
         (catching
           (seq (call (cd_recoverPending deps)) (\<lambda>r. case r of
              None \<Rightarrow> ret ()
            | Some reason \<Rightarrow> change (lock (case reason of Some t \<Rightarrow> t | None \<Rightarrow> ''recovery_failed''))))
           (\<lambda>_. change (lock ''recovery_failed'')))
         (change (\<lambda>s. s\<lparr>ct_recoveryCompleted := True\<rparr>)))"

end
