(* ===== verification/Operations.thy ===== *)
theory Operations
  imports Controller
begin

text \<open>
  What the transactions of \<open>src/src/controller.ts\<close> guarantee. The calls an operation makes and their answers
  are written down in a log; \<open>lawful d log\<close> is the protocol of a transaction with the descriptor \<open>d\<close>:
  what must have happened before each call. The locale states how dependencies keep the log, and
  \<open>logged_deps\<close> turns any dependencies into such.
\<close>

section \<open>The protocol of a transaction\<close>

datatype ctl_event =
    Lg_thrown
  | Lg_locked
  | Lg_released
  | Lg_prepared operation_descriptor restore_plan
  | Lg_navigated bool "string option"
  | Lg_restored "string option" bool
  | Lg_planned snapshot_manifest snapshot_manifest "string list option" restore_plan
  | Lg_applied restore_plan snapshot_manifest string result_code
  | Lg_phase string journal_phase "string option option"
  | Lg_cursor cursor_state cursor_append
  | Lg_committed string

definition reached :: "operation_descriptor \<Rightarrow> ctl_event set \<Rightarrow> journal_phase \<Rightarrow> bool" where
  "reached d es ph \<longleftrightarrow> (\<exists>obs. Lg_phase (od_opId d) ph obs \<in> es)"

definition durable :: "ctl_event set \<Rightarrow> bool" where
  "durable es \<longleftrightarrow> (\<exists>c l. Lg_cursor c (Cursor_durable l) \<in> es)"

definition files_at :: "operation_descriptor \<Rightarrow> manifest_id \<Rightarrow> ctl_event set \<Rightarrow> bool" where
  "files_at d m es \<longleftrightarrow>
     od_scopePaths d = [] \<or> (\<exists>p target. Lg_applied p target (od_opId d) RC_ok \<in> es \<and> sm_manifestId target = m)"

definition session_back :: "operation_descriptor \<Rightarrow> ctl_event set \<Rightarrow> bool" where
  "session_back d es \<longleftrightarrow> Lg_restored (od_fromLogicalLeaf d) True \<in> es"

fun phase_allowed :: "operation_descriptor \<Rightarrow> ctl_event set \<Rightarrow> journal_phase \<Rightarrow> string option option \<Rightarrow> bool" where
  "phase_allowed d es SESSION_MOVED obs \<longleftrightarrow>
     Lg_navigated False (od_toLogicalLeaf d) \<in> es \<and> obs = Some (od_toLogicalLeaf d)"
| "phase_allowed d es APPLYING obs \<longleftrightarrow> reached d es SESSION_MOVED"
| "phase_allowed d es FILES_VERIFIED obs \<longleftrightarrow> reached d es APPLYING \<and> files_at d (od_targetManifestId d) es"
| "phase_allowed d es CURSOR_COMMITTED obs \<longleftrightarrow> durable es"
| "phase_allowed d es ABORTING obs \<longleftrightarrow> \<not> durable es"
| "phase_allowed d es ABORTED obs \<longleftrightarrow>
     reached d es ABORTING \<and> \<not> durable es \<and>
     ((\<exists>l. Lg_navigated True l \<in> es) \<or> session_back d es \<and> files_at d (od_rollbackManifestId d) es)"
| "phase_allowed d es RECOVERY_REQUIRED obs \<longleftrightarrow> True"
| "phase_allowed d es _ obs \<longleftrightarrow> False"

fun allowed :: "operation_descriptor \<Rightarrow> ctl_event set \<Rightarrow> ctl_event \<Rightarrow> bool" where
  "allowed d es (Lg_prepared d' p) \<longleftrightarrow> d' = d \<and> pl_planDigest p = od_planDigest d \<and> Lg_locked \<in> es"
| "allowed d es (Lg_navigated c l) \<longleftrightarrow> (\<exists>p. Lg_prepared d p \<in> es)"
| "allowed d es (Lg_restored l ok) \<longleftrightarrow> l = od_fromLogicalLeaf d \<and> reached d es ABORTING"
| "allowed d es (Lg_applied p target opId code) \<longleftrightarrow>
     opId = od_opId d \<and>
     (Lg_prepared d p \<in> es \<and> reached d es APPLYING \<and> sm_manifestId target = od_targetManifestId d \<or>
      session_back d es \<and> sm_manifestId target = od_rollbackManifestId d \<and>
        (\<exists>m. Lg_planned m target (Some (od_scopePaths d)) p \<in> es))"
| "allowed d es (Lg_phase opId ph obs) \<longleftrightarrow> opId = od_opId d \<and> phase_allowed d es ph obs"
| "allowed d es (Lg_cursor c r) \<longleftrightarrow>
     reached d es FILES_VERIFIED \<and> cu_opId c = od_opId d \<and> cu_toLogicalLeaf c = od_toLogicalLeaf d \<and>
     cu_descriptorChecksum c = od_checksum d"
| "allowed d es (Lg_committed opId) \<longleftrightarrow> opId = od_opId d \<and> reached d es CURSOR_COMMITTED"
| "allowed d es _ \<longleftrightarrow> True"

definition lawful :: "operation_descriptor \<Rightarrow> ctl_event list \<Rightarrow> bool" where
  "lawful d es \<longleftrightarrow> (\<forall>xs e ys. es = xs @ e # ys \<longrightarrow> allowed d (set xs) e)"

lemma lawful_Nil [simp]: "lawful d []"
  by (simp add: lawful_def)

lemma lawful_snoc [simp]: "lawful d (es @ [e]) \<longleftrightarrow> lawful d es \<and> allowed d (set es) e"
proof
  assume h: "lawful d (es @ [e])"
  have "allowed d (set xs) x" if "es = xs @ x # ys" for xs x ys
    using h that unfolding lawful_def by (metis append.assoc append_Cons)
  then show "lawful d es \<and> allowed d (set es) e" using h unfolding lawful_def by blast
next
  assume h: "lawful d es \<and> allowed d (set es) e"
  have "allowed d (set xs) x" if "es @ [e] = xs @ x # ys" for xs x ys
  proof (cases ys rule: rev_cases)
    case Nil
    then show ?thesis using h that by simp
  next
    case (snoc zs z)
    then have "es = xs @ x # zs" using that by simp
    then show ?thesis using h unfolding lawful_def by blast
  qed
  then show "lawful d (es @ [e])" unfolding lawful_def by blast
qed

section \<open>Dependencies that keep a log\<close>

definition logs :: "('v \<Rightarrow> ctl_event list) \<Rightarrow> ('v, 'a) dep \<Rightarrow> ('a \<Rightarrow> ctl_event list) \<Rightarrow> bool" where
  "logs lg c f \<longleftrightarrow>
     (\<forall>v. lg (snd (c v)) = lg v @ (case fst (c v) of Inl _ \<Rightarrow> [Lg_thrown] | Inr x \<Rightarrow> f x))"

definition noting :: "('a \<Rightarrow> ctl_event list) \<Rightarrow> ('w, 'a) dep \<Rightarrow> ('w \<times> ctl_event list, 'a) dep" where
  "noting f c v =
     (case c (fst v) of (r, w) \<Rightarrow> (r, (w, snd v @ (case r of Inl _ \<Rightarrow> [Lg_thrown] | Inr x \<Rightarrow> f x))))"

abbreviation silent :: "('w, 'a) dep \<Rightarrow> ('w \<times> ctl_event list, 'a) dep" where
  "silent \<equiv> noting (\<lambda>_. [])"

lemma logs_noting [simp]: "logs snd (noting f c) f"
  by (auto simp: logs_def noting_def split: prod.split)

definition phase_events :: "string \<Rightarrow> (journal_phase \<times> string option option) list \<Rightarrow> ctl_event list" where
  "phase_events opId ts = map (\<lambda>(ph, obs). Lg_phase opId ph obs) ts"

definition logged_deps :: "'w controller_deps \<Rightarrow> ('w \<times> ctl_event list) controller_deps" where
  "logged_deps deps =
     \<lparr>cd_hash = cd_hash deps, cd_workspaceIdentity = cd_workspaceIdentity deps, cd_sessionIdentity = cd_sessionIdentity deps,
      cd_isAgentIdle = (\<lambda>v. cd_isAgentIdle deps (fst v)),
      cd_abortAgent = silent (cd_abortAgent deps),
      cd_waitForIdle = (\<lambda>t. silent (cd_waitForIdle deps t)),
      cd_getLogicalLeafId = (\<lambda>v. cd_getLogicalLeafId deps (fst v)),
      cd_acquireWorkspaceLock = noting (\<lambda>_. [Lg_locked]) (cd_acquireWorkspaceLock deps),
      cd_release = noting (\<lambda>_. [Lg_released]) (cd_release deps),
      cd_findUserEntryAfter = (\<lambda>e v. cd_findUserEntryAfter deps e (fst v)),
      cd_resolveSessionTarget = (\<lambda>a c. silent (cd_resolveSessionTarget deps a c)),
      cd_navigateSession = (\<lambda>a c. noting (\<lambda>(b, l). [Lg_navigated b l]) (cd_navigateSession deps a c)),
      cd_restoreSessionLeaf = (\<lambda>l. noting (\<lambda>b. [Lg_restored l b]) (cd_restoreSessionLeaf deps l)),
      cd_resolveTreeTarget = (\<lambda>t. silent (cd_resolveTreeTarget deps t)),
      cd_appendControl = (\<lambda>e. silent (cd_appendControl deps e)),
      cd_appendCursor = (\<lambda>c. noting (\<lambda>r. [Lg_cursor c r]) (cd_appendCursor deps c)),
      cd_capture = (\<lambda>sc. silent (cd_capture deps sc)),
      cd_captureBaseline = map_option (\<lambda>f m. silent (f m)) (cd_captureBaseline deps),
      cd_captureSafety = map_option (\<lambda>f a b sc. silent (f a b sc)) (cd_captureSafety deps),
      cd_changedPaths = (\<lambda>a b. silent (cd_changedPaths deps a b)),
      cd_loadManifest = (\<lambda>m. silent (cd_loadManifest deps m)),
      cd_planRestore = (\<lambda>a b sc. noting (\<lambda>p. [Lg_planned a b sc p]) (cd_planRestore deps a b sc)),
      cd_applyRestore = (\<lambda>p t op. noting (\<lambda>r. [Lg_applied p t op (rr_code r)]) (cd_applyRestore deps p t op)),
      cd_recoverPending = silent (cd_recoverPending deps),
      cd_prepare = (\<lambda>d p. noting (\<lambda>_. [Lg_prepared d p]) (cd_prepare deps d p)),
      cd_setPhase = (\<lambda>op ph obs. noting (\<lambda>_. [Lg_phase op ph obs]) (cd_setPhase deps op ph obs)),
      cd_setPhases = map_option (\<lambda>f op ts. noting (\<lambda>_. phase_events op ts) (f op ts)) (cd_setPhases deps),
      cd_markCommitted = (\<lambda>op. noting (\<lambda>_. [Lg_committed op]) (cd_markCommitted deps op)),
      cd_now = (\<lambda>v. cd_now deps (fst v)),
      cd_context = (\<lambda>sc v. cd_context deps sc (fst v)),
      cd_exitUnconfirmed = (\<lambda>sc v. cd_exitUnconfirmed deps sc (fst v)),
      cd_randomUUID = (\<lambda>v. case cd_randomUUID deps (fst v) of (u, w) \<Rightarrow> (u, (w, snd v)))\<rparr>"

locale recorded =
  fixes lg :: "'v \<Rightarrow> ctl_event list" and deps :: "'v controller_deps"
  assumes acquires: "logs lg (cd_acquireWorkspaceLock deps) (\<lambda>_. [Lg_locked])"
    and releases: "logs lg (cd_release deps) (\<lambda>_. [Lg_released])"
    and aborts: "logs lg (cd_abortAgent deps) (\<lambda>_. [])"
    and idles: "logs lg (cd_waitForIdle deps t) (\<lambda>_. [])"
    and resolves: "logs lg (cd_resolveSessionTarget deps a cp) (\<lambda>_. [])"
    and navigates: "logs lg (cd_navigateSession deps a cp) (\<lambda>(b, l). [Lg_navigated b l])"
    and restores: "logs lg (cd_restoreSessionLeaf deps l) (\<lambda>b. [Lg_restored l b])"
    and appends: "logs lg (cd_appendCursor deps c) (\<lambda>r. [Lg_cursor c r])"
    and captures: "logs lg (cd_capture deps sc) (\<lambda>_. [])"
    and secures: "cd_captureSafety deps = Some f \<Longrightarrow> logs lg (f m1 m2 ps) (\<lambda>_. [])"
    and loads: "logs lg (cd_loadManifest deps m) (\<lambda>_. [])"
    and plans: "logs lg (cd_planRestore deps s1 s2 sc) (\<lambda>p. [Lg_planned s1 s2 sc p])"
    and applies: "logs lg (cd_applyRestore deps p s2 op) (\<lambda>r. [Lg_applied p s2 op (rr_code r)])"
    and prepares: "logs lg (cd_prepare deps d p) (\<lambda>_. [Lg_prepared d p])"
    and phases: "logs lg (cd_setPhase deps op ph obs) (\<lambda>_. [Lg_phase op ph obs])"
    and batches: "cd_setPhases deps = Some g \<Longrightarrow> logs lg (g op ts) (\<lambda>_. phase_events op ts)"
    and commits: "logs lg (cd_markCommitted deps op) (\<lambda>_. [Lg_committed op])"
    and names: "lg (snd (cd_randomUUID deps v)) = lg v"

interpretation lgd: recorded snd "logged_deps deps" for deps
  by unfold_locales (auto simp: logged_deps_def split: prod.split)

section \<open>Where an operation is\<close>

text \<open>
  A point of an operation with the descriptor \<open>d\<close>: the log is lawful and has the events \<open>X\<close>, the
  transaction of the controller is that of \<open>d\<close> with the flag \<open>f\<close>, no cursor is durable unless \<open>b\<close>, the
  history is \<open>st\<close>, and the controller is locked if \<open>L\<close>.
\<close>

type_synonym history = "checkpoint_record list \<times> controller_redo_entry list"

definition history_of :: "'w ctl \<Rightarrow> history" where
  "history_of s = (ct_undoStack s, ct_redoStack s)"

definition point ::
  "('v \<Rightarrow> ctl_event list) \<Rightarrow> operation_descriptor \<Rightarrow> (snapshot_manifest \<times> snapshot_manifest) option \<Rightarrow> history \<Rightarrow>
   bool \<Rightarrow> bool \<Rightarrow> bool \<Rightarrow> ctl_event set \<Rightarrow> 'v ctl \<Rightarrow> bool" where
  "point lg d ms st f b L X s \<longleftrightarrow>
     lawful d (lg (ct_world s)) \<and> X \<subseteq> set (lg (ct_world s)) \<and> (b \<or> \<not> durable (set (lg (ct_world s)))) \<and>
     ct_transaction s = Some \<lparr>tr_descriptor = d, tr_manifests = ms, tr_cursorDurable = f\<rparr> \<and>
     history_of s = st \<and> (L \<longrightarrow> ct_locked s)"

lemma point_weaken:
  "point lg d ms st f b L X s \<Longrightarrow> Y \<subseteq> X \<Longrightarrow> (L' \<longrightarrow> L) \<Longrightarrow> point lg d ms st f b L' Y s"
  unfolding point_def by blast

lemma result_of_code [simp]: "or_code (result_of c n) = c"
  by (simp add: result_of_def)

lemma reached_mono: "reached d X ph \<Longrightarrow> X \<subseteq> Y \<Longrightarrow> reached d Y ph"
  unfolding reached_def by blast

lemma files_at_mono: "files_at d m X \<Longrightarrow> X \<subseteq> Y \<Longrightarrow> files_at d m Y"
  unfolding files_at_def by blast

lemma point_update [simp]:
  "point lg d ms st f b L X (s\<lparr>ct_marked := cs\<rparr>) = point lg d ms st f b L X s"
  "point lg d ms st f b L X (s\<lparr>ct_unsafeExit := u\<rparr>) = point lg d ms st f b L X s"
  "point lg d ms st f b L X (s\<lparr>ct_lastSafety := m\<rparr>) = point lg d ms st f b L X s"
  "point lg d ms st f b L X (s\<lparr>ct_lastApplied := a\<rparr>) = point lg d ms st f b L X s"
  by (simp_all add: point_def history_of_def)

lemma point_lock: "point lg d ms st f b L X s \<Longrightarrow> point lg d ms st f b True X (lock r s)"
  by (simp add: point_def lock_def history_of_def)

lemma holds_check: "(\<And>e s. P s \<Longrightarrow> E e s) \<Longrightarrow> holds P (check deps sc) (\<lambda>_. P) E"
  by (rule holdsI) (auto simp: check_def outcome_def split: sum.split)

lemma holds_measured: "holds P m Q E \<Longrightarrow> (\<And>e s. P s \<Longrightarrow> E e s) \<Longrightarrow> holds P (measured deps m) Q E"
  unfolding measured_def by (rule holds_seq [OF holds_check])

lemma point_lock_step:
  "holds (point lg d ms st f b L X) (change (lock r)) (\<lambda>_. point lg d ms st f b True X) E"
  by (rule holds_change) (rule point_lock)

lemma recordUnsafeExit_point:
  "holds (point lg d ms st f b L X) (recordUnsafeExit deps sc e) (\<lambda>u. point lg d ms st f b (L \<or> u) X) E"
  unfolding recordUnsafeExit_def
  by (intro holds_look holds_if holds_seq [OF holds_change] holds_ret) (auto intro: point_lock [THEN point_weaken])

lemma recoveryResult_locked:
  "holds (point lg d ms st f b True X) (recoveryResult n)
     (\<lambda>r s. point lg d ms st f b True X s \<and> or_code r = RC_recovery_required) E"
  unfolding recoveryResult_def result_of_def by (intro holds_look holds_ret) auto

text \<open>A budget of its own changes nothing an operation relies on.\<close>

lemma withRecoveryBudget_point:
  assumes "holds (point lg d ms st f b L X) body Q (\<lambda>_. point lg d ms st f b False {})"
    and "\<And>x s. Q x s \<Longrightarrow> point lg d ms st f b False {} s"
  shows "holds (point lg d ms st f b L X) (withRecoveryBudget deps sc body) Q (\<lambda>_. point lg d ms st f b False {})"
proof -
  let ?E = "\<lambda>_ :: exn. point lg d ms st f b False {}"
  have weak: "point lg d ms st f b L X s \<Longrightarrow> point lg d ms st f b False {} s" for s
    by (erule point_weaken) auto
  have first: "holds (point lg d ms st f b L X)
      (look (\<lambda>s. if hasUnconfirmedExit deps sc s then check deps sc else ret ())) (\<lambda>_. point lg d ms st f b L X) ?E"
    by (intro holds_look holds_if holds_pre [OF holds_check] holds_ret) (auto intro: weak)
  have inner: "holds (point lg d ms st f b L X)
      (ending body (look (\<lambda>s. if hasUnconfirmedExit deps Budget_scope s then check deps Budget_scope else ret ()))) Q ?E"
  proof (rule holds_ending [OF assms(1)])
    show "holds (Q x) (look (\<lambda>s. if hasUnconfirmedExit deps Budget_scope s then check deps Budget_scope else ret ()))
        (\<lambda>_. Q x) ?E" for x
      by (intro holds_look holds_if holds_pre [OF holds_check] holds_ret) (auto intro: assms(2))
    show "holds (point lg d ms st f b False {})
        (look (\<lambda>s. if hasUnconfirmedExit deps Budget_scope s then check deps Budget_scope else ret ()))
        (\<lambda>_. point lg d ms st f b False {}) ?E"
      by (intro holds_look holds_if holds_pre [OF holds_check] holds_ret) auto
  qed
  have marks: "holds (point lg d ms st f b False {})
      (seq (if isUnconfirmedExit e then change (\<lambda>s. s\<lparr>ct_marked := sc # ct_marked s\<rparr>) else ret ()) (\<lambda>_. throw e)) Q ?E" for e
    by (rule holds_seq [where R = "\<lambda>_. point lg d ms st f b False {}"])
      (auto intro!: holds_if holds_change holds_ret holds_throw)
  have locks: "holds (point lg d ms st f b False {}) (seq (recordUnsafeExit deps sc e) (\<lambda>_. throw e)) Q ?E" for e
    by (rule holds_seq [OF recordUnsafeExit_point]) (auto intro!: holds_throw elim: point_weaken)
  have reset: "holds (point lg d ms st f b L X)
      (change (\<lambda>s. s\<lparr>ct_marked := filter (\<lambda>c. c \<noteq> Budget_scope) (ct_marked s)\<rparr>)) (\<lambda>_. point lg d ms st f b L X) ?E"
    by (rule holds_change) simp
  show ?thesis
    unfolding withRecoveryBudget_def
    by (rule holds_catching [OF holds_seq [OF first holds_seq [OF reset holds_catching [OF inner marks]]] locks])
qed

lemma durable_simps [simp]:
  "\<not> durable {}" "durable (A \<union> B) \<longleftrightarrow> durable A \<or> durable B"
  "durable (insert e A) \<longleftrightarrow> (\<exists>c l. e = Lg_cursor c (Cursor_durable l)) \<or> durable A"
  by (auto simp: durable_def)

lemma reached_insert [simp]:
  "reached d (insert (Lg_phase (od_opId d) ph obs) X) ph"
  by (auto simp: reached_def)

lemma phase_events_simps [simp]:
  "phase_events opId [] = []" "phase_events opId ((ph, obs) # ts) = Lg_phase opId ph obs # phase_events opId ts"
  by (simp_all add: phase_events_def)

lemma phase_events_not_durable [simp]: "\<not> durable (set (phase_events opId ts))"
  by (auto simp: durable_def phase_events_def)

text \<open>When a batch of phases may follow the events \<open>X\<close>.\<close>

fun phases_fit :: "operation_descriptor \<Rightarrow> bool \<Rightarrow> ctl_event set \<Rightarrow> (journal_phase \<times> string option option) list \<Rightarrow> bool" where
  "phases_fit d b X [] \<longleftrightarrow> True"
| "phases_fit d b X ((ph, obs) # ts) \<longleftrightarrow>
     (\<forall>es. X \<subseteq> es \<longrightarrow> (b \<or> \<not> durable es) \<longrightarrow> phase_allowed d es ph obs) \<and>
     phases_fit d b (insert (Lg_phase (od_opId d) ph obs) X) ts"

lemma phases_fit_lawful:
  "phases_fit d b X ts \<Longrightarrow> X \<subseteq> set es \<Longrightarrow> b \<or> \<not> durable (set es) \<Longrightarrow> lawful d es \<Longrightarrow>
   lawful d (es @ phase_events (od_opId d) ts)"
proof (induction ts arbitrary: X es)
  case (Cons t ts)
  obtain ph obs where t: "t = (ph, obs)" by fastforce
  have "lawful d ((es @ [Lg_phase (od_opId d) ph obs]) @ phase_events (od_opId d) ts)"
    using Cons.prems t by (intro Cons.IH [of "insert (Lg_phase (od_opId d) ph obs) X"]) auto
  then show ?case using t by simp
qed simp

context recorded
begin

abbreviation at where
  "at \<equiv> point lg"

abbreviation caught where
  "caught d ms st f b \<equiv> (\<lambda>_ :: exn. at d ms st f b False {})"

lemma call_point:
  assumes c: "logs lg c fx"
    and ok: "\<And>x es. X \<subseteq> set es \<Longrightarrow> b \<or> \<not> durable (set es) \<Longrightarrow> lawful d es \<Longrightarrow> lawful d (es @ fx x)"
    and nd: "\<And>x. \<not> b \<Longrightarrow> \<not> durable (set (fx x))"
  shows "holds (at d ms st f b L X) (call c) (\<lambda>x. at d ms st f b L (X \<union> set (fx x))) (caught d ms st f b)"
proof (rule holdsI)
  fix s r s' assume p: "at d ms st f b L X s" and "call c s = (r, s')"
  then obtain w where w: "c (ct_world s) = (r, w)" and s': "s' = s\<lparr>ct_world := w\<rparr>"
    by (auto simp: call_def split: prod.splits)
  have l: "lg w = lg (ct_world s) @ (case r of Inl _ \<Rightarrow> [Lg_thrown] | Inr x \<Rightarrow> fx x)"
    using c w unfolding logs_def by (metis fst_conv snd_conv)
  have h: "history_of s' = history_of s" using s' by (simp add: history_of_def)
  show "outcome (\<lambda>x. at d ms st f b L (X \<union> set (fx x))) (caught d ms st f b) (r, s')"
  proof (cases r)
    case (Inl e)
    then show ?thesis using p l h s' by (auto simp: point_def)
  next
    case (Inr x)
    then show ?thesis using p l h s' ok nd by (auto simp: point_def)
  qed
qed

lemma call_event:
  assumes "logs lg c (\<lambda>x. [ev x])"
    and "\<And>x es. X \<subseteq> es \<Longrightarrow> b \<or> \<not> durable es \<Longrightarrow> allowed d es (ev x)"
    and "\<And>x. \<not> b \<Longrightarrow> \<not> durable {ev x}"
  shows "holds (at d ms st f b L X) (call c) (\<lambda>x. at d ms st f b L (insert (ev x) X)) (caught d ms st f b)"
  using call_point [of c "\<lambda>x. [ev x]" X b d ms st f L] assms by simp

lemma call_silent:
  "logs lg c (\<lambda>_. []) \<Longrightarrow> holds (at d ms st f b L X) (call c) (\<lambda>_. at d ms st f b L X) (caught d ms st f b)"
  using call_point [of c "\<lambda>_. []" X b d ms st f L] by simp

lemma set_phase_point:
  assumes "\<And>es. X \<subseteq> es \<Longrightarrow> b \<or> \<not> durable es \<Longrightarrow> phase_allowed d es ph None"
  shows "holds (at d ms st f b L X) (set_phase deps (od_opId d) ph)
    (\<lambda>_. at d ms st f b L (insert (Lg_phase (od_opId d) ph None) X)) (caught d ms st f b)"
  unfolding set_phase_def by (rule call_event [OF phases]) (simp_all add: assms)

lemma each_phase_point:
  "phases_fit d b X ts \<Longrightarrow>
   holds (at d ms st f b L X) (each_phase deps (od_opId d) ts)
    (\<lambda>_. at d ms st f b L (X \<union> set (phase_events (od_opId d) ts))) (caught d ms st f b)"
proof (induction ts arbitrary: X)
  case Nil
  show ?case by (simp, rule holds_ret) simp
next
  case (Cons t ts)
  obtain ph obs where t: "t = (ph, obs)" by fastforce
  let ?X = "insert (Lg_phase (od_opId d) ph obs) X"
  have 1: "holds (at d ms st f b L X) (call (cd_setPhase deps (od_opId d) ph obs)) (\<lambda>_. at d ms st f b L ?X) (caught d ms st f b)"
    using Cons.prems t by (intro call_event [OF phases]) auto
  have 2: "holds (at d ms st f b L ?X) (each_phase deps (od_opId d) ts)
      (\<lambda>_. at d ms st f b L (?X \<union> set (phase_events (od_opId d) ts))) (caught d ms st f b)"
    using Cons.prems t by (intro Cons.IH) simp
  show ?case using holds_seq [OF 1 2] t by simp
qed

lemma setJournalPhases_point:
  assumes "phases_fit d b X ts"
  shows "holds (at d ms st f b L X) (setJournalPhases deps (od_opId d) ts)
    (\<lambda>_. at d ms st f b L (X \<union> set (phase_events (od_opId d) ts))) (caught d ms st f b)"
proof (cases "cd_setPhases deps")
  case None
  then show ?thesis using each_phase_point [OF assms] by (simp add: setJournalPhases_def)
next
  case (Some g)
  then show ?thesis
    using call_point [OF batches [OF Some], of X b d] phases_fit_lawful [OF assms]
    by (simp add: setJournalPhases_def)
qed

text \<open>The end of a compensation: aborted, or locked.\<close>

definition compensated :: "operation_descriptor \<Rightarrow> (snapshot_manifest \<times> snapshot_manifest) option \<Rightarrow> history \<Rightarrow>
    operation_result \<Rightarrow> 'v ctl \<Rightarrow> bool" where
  "compensated d ms st r s \<longleftrightarrow>
     at d ms st False False False {} s \<and>
     (or_code r = RC_restore_failed_safe \<and> reached d (set (lg (ct_world s))) ABORTED \<or>
      or_code r = RC_recovery_required \<and> ct_locked s)"

lemma compensated_locked:
  "at d ms st False False True X s \<Longrightarrow> or_code r = RC_recovery_required \<Longrightarrow> compensated d ms st r s"
  unfolding compensated_def by (auto simp: point_def)

lemma compensated_aborted:
  "at d ms st False False L (insert (Lg_phase (od_opId d) ABORTED obs) X) s \<Longrightarrow> or_code r = RC_restore_failed_safe \<Longrightarrow>
   compensated d ms st r s"
  unfolding compensated_def by (auto simp: point_def reached_def)

end

text \<open>What the descriptor says of the manifests of the transaction.\<close>

definition described :: "operation_descriptor \<Rightarrow> (snapshot_manifest \<times> snapshot_manifest) option \<Rightarrow> bool" where
  "described d ms \<longleftrightarrow>
     (case ms of
        None \<Rightarrow> od_scopePaths d = []
      | Some (rollback, target) \<Rightarrow>
          sm_manifestId rollback = od_rollbackManifestId d \<and> sm_manifestId target = od_targetManifestId d)"

lemma phase_in: "Lg_phase (od_opId d) ph obs \<in> X \<Longrightarrow> X \<subseteq> es \<Longrightarrow> reached d es ph"
  unfolding reached_def by blast

context recorded
begin

lemma require_recovery:
  "holds (at d ms st False False True X) (set_phase deps (od_opId d) RECOVERY_REQUIRED)
    (\<lambda>_. at d ms st False False True {}) (\<lambda>_. at d ms st False False True {})"
proof (rule holdsI)
  fix s r s' assume p: "at d ms st False False True X s" and r: "set_phase deps (od_opId d) RECOVERY_REQUIRED s = (r, s')"
  have "outcome (\<lambda>_. at d ms st False False True (insert (Lg_phase (od_opId d) RECOVERY_REQUIRED None) X))
      (caught d ms st False False) (r, s')"
    using holds_at [OF set_phase_point p, of RECOVERY_REQUIRED] r by simp
  moreover have "ct_locked s'" using p r by (auto simp: set_phase_def call_def point_def split: prod.splits)
  ultimately show "outcome (\<lambda>_. at d ms st False False True {}) (\<lambda>_. at d ms st False False True {}) (r, s')"
    by (cases r) (auto simp: point_def)
qed

lemma lock_and_report:
  "holds (at d ms st False False L X)
     (seq (change (lock reason)) (\<lambda>_. seq (ignoring (set_phase deps (od_opId d) RECOVERY_REQUIRED)) (\<lambda>_. recoveryResult n)))
     (compensated d ms st) E"
  by (rule holds_seq [OF point_lock_step], rule holds_seq [OF holds_ignoring [OF require_recovery]],
      rule holds_post [OF recoveryResult_locked], auto intro: compensated_locked)

lemma report_locked:
  "holds (at d ms st False False L X) (seq (change (lock reason)) (\<lambda>_. recoveryResult n)) (compensated d ms st) E"
  by (rule holds_seq [OF point_lock_step], rule holds_post [OF recoveryResult_locked]) (auto intro: compensated_locked)

text \<open>The first steps of both compensations: the session goes back.\<close>

definition back_events :: "operation_descriptor \<Rightarrow> ctl_event set" where
  "back_events d = {Lg_phase (od_opId d) ABORTING None, Lg_restored (od_fromLogicalLeaf d) True}"

lemma session_goes_back:
  assumes "holds (at d ms st False False L (X \<union> back_events d)) m Q (caught d ms st False False)"
  shows "holds (at d ms st False False L X)
     (seq (set_phase deps (od_opId d) ABORTING) (\<lambda>_.
      seq (call (cd_restoreSessionLeaf deps (od_fromLogicalLeaf d))) (\<lambda>restored.
      if \<not> restored then throw plain_error else m))) Q (caught d ms st False False)"
proof (rule holds_seq [OF set_phase_point], simp, rule holds_seq [OF call_event [OF restores]])
  show "allowed d es (Lg_restored (od_fromLogicalLeaf d) x)"
    if "insert (Lg_phase (od_opId d) ABORTING None) X \<subseteq> es" for x es
    using that by (auto intro: phase_in)
  show "holds (at d ms st False False L (insert (Lg_restored (od_fromLogicalLeaf d) restored) (insert (Lg_phase (od_opId d) ABORTING None) X)))
      (if \<not> restored then throw plain_error else m) Q (caught d ms st False False)" for restored
    by (cases restored)
      (auto intro!: holds_throw intro: point_weaken holds_pre [OF assms] simp: back_events_def insert_commute)
qed simp

lemma compensateSessionOnly_point:
  assumes "od_scopePaths d = []"
  shows "holds (at d ms st False False L X) (compensateSessionOnly deps d) (compensated d ms st) E"
proof -
  have abort: "holds (at d ms st False False L (X \<union> back_events d))
      (seq (set_phase deps (od_opId d) ABORTED) (\<lambda>_. ret (result_of RC_restore_failed_safe 0)))
      (compensated d ms st) (caught d ms st False False)"
  proof (rule holds_seq [OF set_phase_point])
    show "phase_allowed d es ABORTED None" if "X \<union> back_events d \<subseteq> es" "False \<or> \<not> durable es" for es
      using that assms by (auto simp: session_back_def files_at_def back_events_def intro: phase_in)
    show "holds (at d ms st False False L (insert (Lg_phase (od_opId d) ABORTED None) (X \<union> back_events d)))
        (ret (result_of RC_restore_failed_safe 0)) (compensated d ms st) (caught d ms st False False)"
      by (rule holds_ret) (auto intro: compensated_aborted simp: result_of_def)
  qed
  have body: "holds (at d ms st False False L X) (compensateSessionOnlyWithinBudget deps d)
      (compensated d ms st) (caught d ms st False False)"
    unfolding compensateSessionOnlyWithinBudget_def
    by (rule holds_catching [OF session_goes_back [OF abort] lock_and_report])
  show ?thesis
    unfolding compensateSessionOnly_def
    by (rule holds_catching [OF withRecoveryBudget_point [OF body] report_locked]) (simp add: compensated_def)
qed

lemma revert_files_point:
  assumes "sm_manifestId rollback = od_rollbackManifestId d"
  shows "holds (at d ms st False False L X) (revert_files deps d rollback target)
    (\<lambda>whole s. at d ms st False False False {} s \<and> (whole \<longrightarrow> reached d (set (lg (ct_world s))) ABORTED)) E"
proof -
  let ?P = "\<lambda>X. at d ms st False False L X"
  let ?C = "caught d ms st False False"
  let ?Q = "\<lambda>whole s. at d ms st False False False {} s \<and> (whole \<longrightarrow> reached d (set (lg (ct_world s))) ABORTED)"
  let ?X = "X \<union> back_events d"
  have revert: "holds (?P (insert (Lg_planned target rollback (Some (od_scopePaths d)) p) ?X))
      (seq (call (cd_applyRestore deps p rollback (od_opId d))) (\<lambda>reverted.
       if rr_code reverted = RC_ok then seq (set_phase deps (od_opId d) ABORTED) (\<lambda>_. ret True) else ret False)) ?Q ?C" for p
  proof (rule holds_seq [OF call_event [OF applies]])
    show "allowed d es (Lg_applied p rollback (od_opId d) (rr_code x))"
      if "insert (Lg_planned target rollback (Some (od_scopePaths d)) p) ?X \<subseteq> es" for x es
      using that assms by (auto simp: session_back_def back_events_def)
    let ?Y = "\<lambda>r. insert (Lg_applied p rollback (od_opId d) (rr_code r)) (insert (Lg_planned target rollback (Some (od_scopePaths d)) p) ?X)"
    show "holds (?P (?Y r)) (if rr_code r = RC_ok then seq (set_phase deps (od_opId d) ABORTED) (\<lambda>_. ret True) else ret False) ?Q ?C" for r
    proof (rule holds_if)
      assume ok: "rr_code r = RC_ok"
      show "holds (?P (?Y r)) (seq (set_phase deps (od_opId d) ABORTED) (\<lambda>_. ret True)) ?Q ?C"
      proof (rule holds_seq [OF set_phase_point])
        show "phase_allowed d es ABORTED None" if "?Y r \<subseteq> es" "False \<or> \<not> durable es" for es
          using that assms ok by (auto simp: session_back_def files_at_def back_events_def intro: phase_in)
        show "holds (?P (insert (Lg_phase (od_opId d) ABORTED None) (?Y r))) (ret True) ?Q ?C"
          by (rule holds_ret) (auto simp: point_def reached_def)
      qed
    qed (auto intro!: holds_ret intro: point_weaken)
  qed simp
  have files: "holds (?P ?X) (seq (call (cd_planRestore deps target rollback (Some (od_scopePaths d)))) (\<lambda>rollbackPlan.
       seq (call (cd_applyRestore deps rollbackPlan rollback (od_opId d))) (\<lambda>reverted.
       if rr_code reverted = RC_ok then seq (set_phase deps (od_opId d) ABORTED) (\<lambda>_. ret True) else ret False))) ?Q ?C"
    by (rule holds_seq [OF call_event [OF plans] revert]) simp_all
  have give_up: "holds (?C e) (seq (recordUnsafeExit deps Budget_scope e) (\<lambda>_. ret False)) ?Q E" for e
    by (rule holds_seq [OF recordUnsafeExit_point], rule holds_ret) (auto intro: point_weaken)
  show ?thesis
    unfolding revert_files_def by (rule holds_catching [OF session_goes_back [OF files] give_up])
qed

lemma compensate_point:
  assumes "sm_manifestId rollback = od_rollbackManifestId d"
  shows "holds (at d ms st False False L X) (compensate deps d rollback target n) (compensated d ms st) E"
proof -
  have body: "holds (at d ms st False False L X) (compensateWithinBudget deps d rollback target n)
      (compensated d ms st) (caught d ms st False False)"
    unfolding compensateWithinBudget_def
  proof (rule holds_seq [OF revert_files_point [OF assms]], rule holds_if)
    fix whole :: bool assume whole
    show "holds (\<lambda>s. at d ms st False False False {} s \<and> (whole \<longrightarrow> reached d (set (lg (ct_world s))) ABORTED))
        (ret (result_of RC_restore_failed_safe n)) (compensated d ms st) (caught d ms st False False)"
      by (rule holds_ret) (use \<open>whole\<close> in \<open>simp add: compensated_def result_of_def\<close>)
  next
    fix whole :: bool
    show "holds (\<lambda>s. at d ms st False False False {} s \<and> (whole \<longrightarrow> reached d (set (lg (ct_world s))) ABORTED))
        (seq (change (lock ''compensation_failed'')) (\<lambda>_.
         seq (ignoring (set_phase deps (od_opId d) RECOVERY_REQUIRED)) (\<lambda>_. recoveryResult n)))
        (compensated d ms st) (caught d ms st False False)"
      by (rule holds_pre [OF lock_and_report [where L = False and X = "{}"]]) simp
  qed
  show ?thesis
    unfolding compensate_def
    by (rule holds_catching [OF withRecoveryBudget_point [OF body] report_locked]) (simp add: compensated_def)
qed

end

lemma createCursor_fields [simp]:
  "cu_opId (createCursor H d act cp s) = od_opId d" "cu_toLogicalLeaf (createCursor H d act cp s) = od_toLogicalLeaf d"
  "cu_descriptorChecksum (createCursor H d act cp s) = od_checksum d"
  by (simp_all add: createCursor_def seal_cursor_def Let_def)

context recorded
begin

abbreviation broken where
  "broken d ms st \<equiv> (\<lambda>(_ :: exn) s. \<exists>b. at d ms st b b False {} s)"

lemma caught_broken: "holds P m Q (caught d ms st b b) \<Longrightarrow> holds P m Q (broken d ms st)"
  by (erule holds_post) auto

lemma measured_broken:
  "holds (at d ms st b b L X) m Q (broken d ms st) \<Longrightarrow> holds (at d ms st b b L X) (measured deps m) Q (broken d ms st)"
  by (erule holds_measured) (auto intro: point_weaken)

lemmas event_broken = call_event [THEN caught_broken]
lemmas silent_broken = call_silent [THEN caught_broken]
lemmas set_phase_broken = set_phase_point [THEN caught_broken]
lemmas setJournalPhases_broken = setJournalPhases_point [THEN caught_broken]

text \<open>The start of every transaction, up to the session at its target leaf.\<close>

lemma navigate_point:
  assumes start: "Lg_locked \<in> X" "pl_planDigest p = od_planDigest d"
    and moved: "holds (at d ms st False False L (X \<union> {Lg_prepared d p, Lg_navigated False (od_toLogicalLeaf d)}))
      (moved (od_toLogicalLeaf d)) Q (broken d ms st)"
    and Q: "\<And>r s. compensated d ms st r s \<Longrightarrow> Q r s"
  shows "holds (at d ms st False False L X) (navigate deps act cp d p moved) Q (broken d ms st)"
proof -
  let ?P = "\<lambda>X. at d ms st False False L X"
  let ?X1 = "insert (Lg_prepared d p) X"
  have prepare: "holds (?P X) (measured deps (call (cd_prepare deps d p))) (\<lambda>_. ?P ?X1) (broken d ms st)"
    by (intro measured_broken event_broken [OF prepares]) (use start in auto)
  have go: "holds (?P ?X1) (measured deps (call (cd_navigateSession deps act cp)))
      (\<lambda>(c, l). ?P (insert (Lg_navigated c l) ?X1)) (broken d ms st)"
  proof (rule measured_broken, rule holds_post [OF event_broken])
    show "logs lg (cd_navigateSession deps act cp) (\<lambda>x. [Lg_navigated (fst x) (snd x)])"
      using navigates by (simp add: case_prod_unfold)
  qed auto
  have abort: "holds (?P (insert (Lg_navigated True l) ?X1))
      (seq (measured deps (seq (set_phase deps (od_opId d) ABORTING) (\<lambda>_. set_phase deps (od_opId d) ABORTED))) (\<lambda>_.
       ret (result_of RC_restore_failed_safe 0))) Q (broken d ms st)" for l
  proof (rule holds_seq [OF measured_broken [OF holds_seq [OF set_phase_broken set_phase_broken]]])
    show "holds (?P (insert (Lg_phase (od_opId d) ABORTED None)
          (insert (Lg_phase (od_opId d) ABORTING None) (insert (Lg_navigated True l) ?X1))))
        (ret (result_of RC_restore_failed_safe 0)) Q (broken d ms st)"
      by (rule holds_ret, rule Q, erule compensated_aborted) simp
  qed (auto intro: phase_in)
  have diverge: "holds (?P (insert (Lg_navigated False l) ?X1))
      (seq (change (lock ''session_navigation_diverged'')) (\<lambda>_.
       seq (measured deps (set_phase deps (od_opId d) RECOVERY_REQUIRED)) (\<lambda>_.
       ret (result_of RC_recovery_required 0)))) Q (broken d ms st)" for l
    by (rule holds_seq [OF point_lock_step], rule holds_seq [OF measured_broken [OF set_phase_broken]], simp, rule holds_ret, rule Q, erule compensated_locked)
      simp
  have then_moved: "holds (?P (insert (Lg_navigated False l) ?X1)) (moved l) Q (broken d ms st)"
    if "l = od_toLogicalLeaf d" for l
    using moved that by (simp add: insert_commute)
  show ?thesis
    unfolding navigate_def
  proof (rule holds_seq [OF prepare], rule holds_seq [OF go])
    fix x :: "bool \<times> string option"
    obtain c l where x: "x = (c, l)" by fastforce
    show "holds (case x of (c, l) \<Rightarrow> ?P (insert (Lg_navigated c l) ?X1))
        (case x of (cancelled, leaf) \<Rightarrow>
           if cancelled then
             seq (measured deps (seq (set_phase deps (od_opId d) ABORTING) (\<lambda>_. set_phase deps (od_opId d) ABORTED))) (\<lambda>_.
             ret (result_of RC_restore_failed_safe 0))
           else if leaf \<noteq> od_toLogicalLeaf d then
             seq (change (lock ''session_navigation_diverged'')) (\<lambda>_.
             seq (measured deps (set_phase deps (od_opId d) RECOVERY_REQUIRED)) (\<lambda>_.
             ret (result_of RC_recovery_required 0)))
           else moved leaf) Q (broken d ms st)"
      using abort diverge then_moved by (cases c; cases "l = od_toLogicalLeaf d") (simp_all add: x)
  qed
qed

text \<open>The end of every transaction, from the verified files to the commit.\<close>

lemma commit_cursor_point:
  assumes verified: "reached d X FILES_VERIFIED"
    and undone: "holds (at d ms st False False L X) undone Q (broken d ms st)"
    and committed: "holds (at d ms st True True L (insert (Lg_committed (od_opId d)) X)) committed Q (broken d ms st)"
    and Q: "\<And>r s. compensated d ms st r s \<Longrightarrow> Q r s"
  shows "holds (at d ms st False False L X) (commit_cursor deps act cp d n undone committed) Q (broken d ms st)"
  unfolding commit_cursor_def
proof (rule holds_look)
  fix s0 :: "'v ctl"
  let ?c = "createCursor (cd_hash deps) d act cp s0"
  let ?R = "\<lambda>r. case r of Cursor_durable l \<Rightarrow> at d ms st False True L (insert (Lg_cursor ?c r) X)
                       | _ \<Rightarrow> at d ms st False False L X"
  have appended: "holds (at d ms st False False L X) (call (cd_appendCursor deps ?c)) ?R (broken d ms st)"
  proof (rule holdsI)
    fix s r s' assume p: "at d ms st False False L X s" and c: "call (cd_appendCursor deps ?c) s = (r, s')"
    then obtain w where w: "cd_appendCursor deps ?c (ct_world s) = (r, w)" and s': "s' = s\<lparr>ct_world := w\<rparr>"
      by (auto simp: call_def split: prod.splits)
    have l: "lg w = lg (ct_world s) @ (case r of Inl _ \<Rightarrow> [Lg_thrown] | Inr x \<Rightarrow> [Lg_cursor ?c x])"
      using appends w unfolding logs_def by (metis fst_conv snd_conv)
    have h: "history_of s' = history_of s" using s' by (simp add: history_of_def)
    have a: "allowed d (set (lg (ct_world s))) (Lg_cursor ?c x)" for x
      using p verified reached_mono by (auto simp: point_def)
    show "outcome ?R (broken d ms st) (r, s')"
    proof (cases r)
      case (Inl e)
      then have "at d ms st False False False {} s'" using p l h s' by (auto simp: point_def)
      then show ?thesis using Inl by auto
    next
      case (Inr x)
      then show ?thesis using p l h s' a by (cases x) (auto simp: point_def)
    qed
  qed
  have first: "holds (\<lambda>s. s = s0 \<and> at d ms st False False L X s) (measured deps (call (cd_appendCursor deps ?c))) ?R (broken d ms st)"
    by (rule holds_pre [OF measured_broken [OF appended]]) simp
  let ?Y = "\<lambda>l. insert (Lg_cursor ?c (Cursor_durable l)) X"
  have flag: "holds (at d ms st False True L (?Y l))
      (change (\<lambda>s. s\<lparr>ct_transaction := map_option (\<lambda>t. t\<lparr>tr_cursorDurable := True\<rparr>) (ct_transaction s)\<rparr>))
      (\<lambda>_. at d ms st True True L (?Y l)) (broken d ms st)" for l
    by (rule holds_change) (auto simp: point_def history_of_def)
  have phase: "holds (at d ms st True True L (?Y l)) (set_phase deps (od_opId d) CURSOR_COMMITTED)
      (\<lambda>_. at d ms st True True L (insert (Lg_phase (od_opId d) CURSOR_COMMITTED None) (?Y l))) (broken d ms st)" for l
    by (rule set_phase_broken) (auto simp: durable_def)
  have mark: "holds (at d ms st True True L (insert (Lg_phase (od_opId d) CURSOR_COMMITTED None) (?Y l)))
      (call (cd_markCommitted deps (od_opId d))) (\<lambda>_. at d ms st True True L (insert (Lg_committed (od_opId d)) X))
      (broken d ms st)" for l
    by (rule holds_post [OF event_broken [OF commits]]) (auto intro: phase_in point_weaken)
  have required: "holds (at d ms st False False L X)
      (seq (change (lock reason)) (\<lambda>_.
       seq (measured deps (ignoring (set_phase deps (od_opId d) RECOVERY_REQUIRED))) (\<lambda>_.
       ret (result_of RC_recovery_required n)))) Q (broken d ms st)" for reason
  proof (rule holds_seq [OF point_lock_step], rule holds_seq [OF measured_broken])
    show "holds (at d ms st False False True X) (ignoring (set_phase deps (od_opId d) RECOVERY_REQUIRED))
        (\<lambda>_. at d ms st False False True {}) (broken d ms st)"
      by (rule holds_ignoring [OF require_recovery])
    show "holds (at d ms st False False True {}) (ret (result_of RC_recovery_required n)) Q (broken d ms st)"
      by (rule holds_ret, rule Q, erule compensated_locked) simp
  qed
  show "holds (\<lambda>s. s = s0 \<and> at d ms st False False L X s)
      (seq (measured deps (call (cd_appendCursor deps ?c))) (\<lambda>appended.
       case appended of
         Cursor_recovery_required reason \<Rightarrow>
           seq (change (lock reason)) (\<lambda>_.
           seq (measured deps (ignoring (set_phase deps (od_opId d) RECOVERY_REQUIRED))) (\<lambda>_.
           ret (result_of RC_recovery_required n)))
       | Cursor_volatile _ \<Rightarrow> measured deps undone
       | Cursor_durable _ \<Rightarrow>
           seq (change (\<lambda>s. s\<lparr>ct_transaction := map_option (\<lambda>t. t\<lparr>tr_cursorDurable := True\<rparr>) (ct_transaction s)\<rparr>)) (\<lambda>_.
           seq (set_phase deps (od_opId d) CURSOR_COMMITTED) (\<lambda>_.
           seq (call (cd_markCommitted deps (od_opId d))) (\<lambda>_. committed))))) Q (broken d ms st)"
  proof (rule holds_seq [OF first])
    fix appended
    show "holds (?R appended)
        (case appended of
           Cursor_recovery_required reason \<Rightarrow>
             seq (change (lock reason)) (\<lambda>_.
             seq (measured deps (ignoring (set_phase deps (od_opId d) RECOVERY_REQUIRED))) (\<lambda>_.
             ret (result_of RC_recovery_required n)))
         | Cursor_volatile _ \<Rightarrow> measured deps undone
         | Cursor_durable _ \<Rightarrow>
             seq (change (\<lambda>s. s\<lparr>ct_transaction := map_option (\<lambda>t. t\<lparr>tr_cursorDurable := True\<rparr>) (ct_transaction s)\<rparr>)) (\<lambda>_.
             seq (set_phase deps (od_opId d) CURSOR_COMMITTED) (\<lambda>_.
             seq (call (cd_markCommitted deps (od_opId d))) (\<lambda>_. committed)))) Q (broken d ms st)"
      using holds_seq [OF flag holds_seq [OF phase holds_seq [OF mark committed]]]
        measured_broken [OF undone] required
      by (cases appended) simp_all
  qed
qed

end

section \<open>Whole operations\<close>

definition advanced :: "action \<Rightarrow> checkpoint_record \<Rightarrow> manifest_id \<Rightarrow> history \<Rightarrow> history" where
  "advanced act cp safety st =
     (if act = Undo
      then (butlast (fst st), snd st @ [\<lparr>re_checkpoint = cp, re_targetManifestId = safety\<rparr>])
      else (fst st @ [cp], butlast (snd st)))"

definition uneventful :: "ctl_event \<Rightarrow> bool" where
  "uneventful e \<longleftrightarrow> (case e of Lg_thrown \<Rightarrow> True | Lg_locked \<Rightarrow> True | Lg_released \<Rightarrow> True | Lg_planned _ _ _ _ \<Rightarrow> True | _ \<Rightarrow> False)"

lemma uneventful_simps [simp]:
  "uneventful Lg_thrown" "uneventful Lg_locked" "uneventful Lg_released" "uneventful (Lg_planned a b c p)"
  by (simp_all add: uneventful_def)

lemma uneventful_lawful:
  assumes "\<forall>e \<in> set es. uneventful e"
  shows "lawful d es \<and> \<not> durable (set es)"
proof
  have "allowed d xs e" if "uneventful e" for xs e using that by (cases e) (simp_all add: uneventful_def)
  then show "lawful d es" using assms by (auto simp: lawful_def)
  show "\<not> durable (set es)" using assms by (fastforce simp: durable_def uneventful_def)
qed

text \<open>How an operation with the descriptor \<open>d\<close> ends: committed and the history moved, or not moved and
  then aborted or locked.\<close>

definition concluded ::
  "('v \<Rightarrow> ctl_event list) \<Rightarrow> action \<Rightarrow> checkpoint_record \<Rightarrow> history \<Rightarrow> operation_descriptor \<Rightarrow> operation_result \<Rightarrow> 'v ctl \<Rightarrow> bool" where
  "concluded lg act cp st d r s \<longleftrightarrow>
     (let es = set (lg (ct_world s)) in
      lawful d (lg (ct_world s)) \<and>
      (if or_code r = RC_ok
       then Lg_committed (od_opId d) \<in> es \<and> history_of s = advanced act cp (od_rollbackManifestId d) st
       else history_of s = st \<and> (ct_locked s \<or> reached d es ABORTED \<and> \<not> durable es)))"

text \<open>Nothing of a transaction has happened.\<close>

definition calm :: "('v \<Rightarrow> ctl_event list) \<Rightarrow> ctl_event set \<Rightarrow> history \<Rightarrow> 'v ctl \<Rightarrow> bool" where
  "calm lg X st s \<longleftrightarrow>
     (\<forall>e \<in> set (lg (ct_world s)). uneventful e) \<and> X \<subseteq> set (lg (ct_world s)) \<and>
     ct_transaction s = None \<and> history_of s = st"

definition ended ::
  "('v \<Rightarrow> ctl_event list) \<Rightarrow> action \<Rightarrow> checkpoint_record \<Rightarrow> history \<Rightarrow> operation_result \<Rightarrow> 'v ctl \<Rightarrow> bool" where
  "ended lg act cp st r s \<longleftrightarrow>
     or_code r \<noteq> RC_ok \<and> history_of s = st \<and> (\<forall>e \<in> set (lg (ct_world s)). uneventful e) \<or>
     (\<exists>d. od_action d = act \<and> concluded lg act cp st d r s)"

lemma calm_begin: "calm lg {Lg_locked} st s \<Longrightarrow>
  point lg d ms st False False False {Lg_locked}
    (s\<lparr>ct_transaction := Some \<lparr>tr_descriptor = d, tr_manifests = ms, tr_cursorDurable = False\<rparr>\<rparr>)"
  using uneventful_lawful [of "lg (ct_world s)" d] by (auto simp: calm_def point_def history_of_def)

lemma calm_lock: "calm lg X st s \<Longrightarrow> calm lg X st (lock r s)"
  by (simp add: calm_def lock_def history_of_def)

lemma plan_scope_empty [simp]: "plan_scope (emptyRestorePlan H a b) = []"
  by (simp add: plan_scope_def emptyRestorePlan_def Let_def sort_cmp_def)

lemma make_descriptor_fields [simp]:
  "od_planDigest (make_descriptor deps i act rb tg p l to) = pl_planDigest p"
  "od_toLogicalLeaf (make_descriptor deps i act rb tg p l to) = to"
  "od_rollbackManifestId (make_descriptor deps i act rb tg p l to) = rb"
  "od_targetManifestId (make_descriptor deps i act rb tg p l to) = tg"
  "od_scopePaths (make_descriptor deps i act rb tg p l to) = plan_scope p"
  "od_action (make_descriptor deps i act rb tg p l to) = act"
  by (simp_all add: make_descriptor_def Let_def)

context recorded
begin

abbreviation calmly where
  "calmly \<equiv> calm lg {Lg_locked}"

lemma call_calm:
  assumes "logs lg c fx" "\<And>x. \<forall>e \<in> set (fx x). uneventful e"
  shows "holds (calm lg X st) (call c) (\<lambda>_. calm lg X st) (\<lambda>_. calm lg X st)"
proof (rule holdsI)
  fix s r s' assume p: "calm lg X st s" and "call c s = (r, s')"
  then obtain w where w: "c (ct_world s) = (r, w)" and s': "s' = s\<lparr>ct_world := w\<rparr>"
    by (auto simp: call_def split: prod.splits)
  have "lg w = lg (ct_world s) @ (case r of Inl _ \<Rightarrow> [Lg_thrown] | Inr x \<Rightarrow> fx x)"
    using assms(1) w unfolding logs_def by (metis fst_conv snd_conv)
  then show "outcome (\<lambda>_. calm lg X st) (\<lambda>_. calm lg X st) (r, s')"
    using p s' assms(2) by (cases r) (auto simp: calm_def history_of_def)
qed

lemma measured_calm: "holds (calm lg X st) m Q (\<lambda>_. calm lg X st) \<Longrightarrow> holds (calm lg X st) (measured deps m) Q (\<lambda>_. calm lg X st)"
  by (erule holds_measured)

lemma createDescriptor_calm:
  "holds (calmly st) (createDescriptorFromManifestIds deps act rb tg p to)
     (\<lambda>d s. (od_planDigest d = pl_planDigest p \<and> od_rollbackManifestId d = rb \<and> od_targetManifestId d = tg \<and>
             od_scopePaths d = plan_scope p \<and> od_action d = act) \<and> calmly st s) E"
proof (rule holdsI)
  fix s r s' assume p: "calmly st s" and c: "createDescriptorFromManifestIds deps act rb tg p to s = (r, s')"
  obtain u w where u: "cd_randomUUID deps (ct_world s) = (u, w)" by fastforce
  have "lg w = lg (ct_world s)" using names [of "ct_world s"] u by simp
  then show "outcome (\<lambda>d s. (od_planDigest d = pl_planDigest p \<and> od_rollbackManifestId d = rb \<and> od_targetManifestId d = tg \<and>
             od_scopePaths d = plan_scope p \<and> od_action d = act) \<and> calmly st s) E (r, s')"
    using p c u
    by (cases "ct_operationId s")
      (auto simp: createDescriptorFromManifestIds_def seq_def operation_id_def look_def ret_def calm_def history_of_def)
qed

lemma begin_point:
  "holds (calmly st) (begin_transaction d ms) (\<lambda>_. at d ms st False False False {Lg_locked}) E"
  unfolding begin_transaction_def by (rule holds_change) (rule calm_begin)

lemma compensated_concluded: "compensated d ms st r s \<Longrightarrow> concluded lg act cp st d r s"
  by (auto simp: compensated_def concluded_def point_def Let_def)

lemma advanceHistory_concluded:
  "holds (\<lambda>s. at d ms st True True L {Lg_committed (od_opId d)} s \<and> ct_lastSafety s = Some (od_rollbackManifestId d))
     (advanceHistory act cp (result_of RC_ok n)) (concluded lg act cp st d) E"
  by (rule holdsI)
    (auto simp: advanceHistory_def look_def seq_def change_def ret_def concluded_def point_def advanced_def Let_def
      history_of_def split: if_splits)

text \<open>How the code of a session-only operation ends before the history advances.\<close>

definition moved_only where
  "moved_only d st r s \<longleftrightarrow>
     (\<exists>ms. if or_code r = RC_ok
           then r = result_of RC_ok 0 \<and> at d ms st True True False {Lg_committed (od_opId d)} s \<and>
                ct_lastSafety s = Some (od_rollbackManifestId d)
           else compensated d ms st r s)"

lemma compensated_code: "compensated d ms st r s \<Longrightarrow> or_code r \<noteq> RC_ok"
  by (auto simp: compensated_def)

definition gone where
  "gone act st (e :: exn) s \<longleftrightarrow>
     calmly st s \<or> (\<exists>d ms b. od_action d = act \<and> described d ms \<and> at d ms st b b False {} s)"

lemma gone_calm: "calmly st s \<Longrightarrow> gone act st e s"
  and gone_broken: "described d ms \<Longrightarrow> od_action d = act \<Longrightarrow> broken d ms st e s \<Longrightarrow> gone act st e s"
  by (auto simp: gone_def)

end

lemma phase_events_reached:
  "(ph, obs) \<in> set ts \<Longrightarrow> reached d (X \<union> set (phase_events (od_opId d) ts)) ph"
  by (force simp: reached_def phase_events_def)

context recorded
begin

lemma session_transaction:
  assumes d: "od_scopePaths d = []" "od_rollbackManifestId d = rb" and p: "pl_planDigest p = od_planDigest d"
  shows "holds (at d None st False False False {Lg_locked})
    (navigate deps act cp d p (\<lambda>leaf.
      seq (measured deps (setJournalPhases deps (od_opId d)
            [(SESSION_MOVED, Some leaf), (APPLYING, None), (FILES_VERIFIED, None)])) (\<lambda>_.
      commit_cursor deps act cp d 0 (compensateSessionOnly deps d)
        (seq (change (\<lambda>s. s\<lparr>ct_lastSafety := Some rb\<rparr>)) (\<lambda>_. ret (result_of RC_ok 0))))))
    (moved_only d st) (broken d None st)"
proof (rule navigate_point [OF _ p])
  let ?X = "{Lg_locked} \<union> {Lg_prepared d p, Lg_navigated False (od_toLogicalLeaf d)}"
  let ?ts = "[(SESSION_MOVED, Some (od_toLogicalLeaf d)), (APPLYING, None), (FILES_VERIFIED, None)]"
  let ?Y = "?X \<union> set (phase_events (od_opId d) ?ts)"
  have fit: "phases_fit d False ?X ?ts"
    using d(1) by (auto simp: files_at_def intro: phase_in)
  have committed: "holds (at d None st True True False (insert (Lg_committed (od_opId d)) ?Y))
      (seq (change (\<lambda>s. s\<lparr>ct_lastSafety := Some rb\<rparr>)) (\<lambda>_. ret (result_of RC_ok 0))) (moved_only d st) (broken d None st)"
  proof (rule holds_seq [OF holds_change [where Q = "\<lambda>_ s. at d None st True True False {Lg_committed (od_opId d)} s \<and>
        ct_lastSafety s = Some rb"]])
    show "holds (\<lambda>s. at d None st True True False {Lg_committed (od_opId d)} s \<and> ct_lastSafety s = Some rb)
        (ret (result_of RC_ok 0)) (moved_only d st) (broken d None st)"
      by (rule holds_ret) (use d(2) in \<open>auto simp: moved_only_def\<close>)
  qed (auto intro: point_weaken)
  have undone: "holds (at d None st False False False ?Y) (compensateSessionOnly deps d) (moved_only d st) (broken d None st)"
    by (rule holds_post [OF compensateSessionOnly_point [OF d(1)]]) (auto simp: moved_only_def dest: compensated_code)
  have verified: "reached d ?Y FILES_VERIFIED" by (rule phase_events_reached) auto
  show "holds (at d None st False False False ?X)
      (seq (measured deps (setJournalPhases deps (od_opId d) ?ts)) (\<lambda>_.
       commit_cursor deps act cp d 0 (compensateSessionOnly deps d)
         (seq (change (\<lambda>s. s\<lparr>ct_lastSafety := Some rb\<rparr>)) (\<lambda>_. ret (result_of RC_ok 0)))))
      (moved_only d st) (broken d None st)"
    by (rule holds_seq [OF measured_broken [OF setJournalPhases_broken [OF fit]]],
        rule commit_cursor_point [OF verified undone committed])
      (auto simp: moved_only_def dest: compensated_code)
qed (auto simp: moved_only_def dest: compensated_code)

lemma runSessionOnly_point:
  "holds (calmly st) (runSessionOnlyOperation deps act cp tid)
     (\<lambda>r s. \<exists>d. od_action d = act \<and> moved_only d st r s) (gone act st)"
proof -
  let ?rb = "if act = Undo then cp_afterManifestId cp else cp_beforeManifestId cp"
  let ?tg = "case tid of Some m \<Rightarrow> m | None \<Rightarrow> if act = Undo then cp_beforeManifestId cp else cp_afterManifestId cp"
  let ?p = "emptyRestorePlan (cd_hash deps) ?rb ?tg"
  have resolve: "holds (calmly st) (call (cd_resolveSessionTarget deps act cp)) (\<lambda>_. calmly st) (gone act st)"
    by (rule holds_post [OF call_calm [OF resolves]]) (auto intro: gone_calm)
  show ?thesis
    unfolding runSessionOnlyOperation_def Let_def
  proof (rule holds_seq [OF resolve], rule holds_seq [OF createDescriptor_calm], rule holds_fact, rule holds_seq [OF begin_point])
    fix d :: operation_descriptor
    assume "od_planDigest d = pl_planDigest ?p \<and> od_rollbackManifestId d = ?rb \<and> od_targetManifestId d = ?tg \<and>
      od_scopePaths d = plan_scope ?p \<and> od_action d = act"
    then have d: "od_scopePaths d = []" "od_rollbackManifestId d = ?rb" "pl_planDigest ?p = od_planDigest d" "od_action d = act"
      "described d None"
      by (simp_all add: described_def)
    show "holds (at d None st False False False {Lg_locked})
      (navigate deps act cp d ?p (\<lambda>leaf.
        seq (measured deps (setJournalPhases deps (od_opId d)
              [(SESSION_MOVED, Some leaf), (APPLYING, None), (FILES_VERIFIED, None)])) (\<lambda>_.
        commit_cursor deps act cp d 0 (compensateSessionOnly deps d)
          (seq (change (\<lambda>s. s\<lparr>ct_lastSafety := Some ?rb\<rparr>)) (\<lambda>_. ret (result_of RC_ok 0))))))
      (\<lambda>r s. \<exists>d. od_action d = act \<and> moved_only d st r s) (gone act st)"
      by (rule holds_post [OF session_transaction [OF d(1,2,3)]]) (use d(4,5) gone_broken in blast)+
  qed
qed

lemma restore_files_point:
  assumes ms: "ms = Some (rollback, target)" and d: "described d ms" and p: "pl_planDigest p = od_planDigest d"
  shows "holds (at d ms st False False False {Lg_locked}) (restore_files deps act cp d rollback target p)
    (concluded lg act cp st d) (broken d ms st)"
  unfolding restore_files_def
proof (rule navigate_point [OF _ p])
  let ?X = "{Lg_locked} \<union> {Lg_prepared d p, Lg_navigated False (od_toLogicalLeaf d)}"
  let ?ts = "[(SESSION_MOVED, Some (od_toLogicalLeaf d)), (APPLYING, None)]"
  let ?Y = "?X \<union> set (phase_events (od_opId d) ?ts)"
  let ?P = "at d ms st False False False"
  have ids: "sm_manifestId rollback = od_rollbackManifestId d" "sm_manifestId target = od_targetManifestId d"
    using d ms by (simp_all add: described_def)
  have fit: "phases_fit d False ?X ?ts" by (auto intro: phase_in)
  have applying: "reached d ?Y APPLYING" by (rule phase_events_reached) auto
  have apply_call: "holds (?P ?Y) (measured deps (call (cd_applyRestore deps p target (od_opId d))))
      (\<lambda>r. ?P (insert (Lg_applied p target (od_opId d) (rr_code r)) ?Y)) (broken d ms st)"
  proof (rule measured_broken, rule event_broken [OF applies])
    show "allowed d es (Lg_applied p target (od_opId d) (rr_code x))" if "?Y \<subseteq> es" for x es
      using that ids reached_mono [OF applying that] by auto
  qed simp
  have failed: "holds (?P Z) (seq (compensate deps d rollback target n) (\<lambda>r.
       ret (case f of Some f \<Rightarrow> if or_code r = RC_restore_failed_safe then r\<lparr>or_code := failure_result f\<rparr> else r | None \<Rightarrow> r)))
      (concluded lg act cp st d) (broken d ms st)" for Z n f
  proof (rule holds_seq [OF compensate_point [OF ids(1)]], rule holds_ret)
    fix r :: operation_result and s assume c: "compensated d ms st r s"
    then have "concluded lg act cp st d r s" "or_code r \<noteq> RC_ok" by (rule compensated_concluded, rule compensated_code)
    moreover have "failure_result g \<noteq> RC_ok" for g by (cases g) (simp_all add: failure_result_def)
    ultimately show "concluded lg act cp st d
        (case f of Some f \<Rightarrow> if or_code r = RC_restore_failed_safe then r\<lparr>or_code := failure_result f\<rparr> else r | None \<Rightarrow> r) s"
      by (auto simp: concluded_def split: option.split)
  qed
  have succeeded: "holds (?P (insert (Lg_applied p target (od_opId d) RC_ok) ?Y))
      (seq (measured deps (set_phase deps (od_opId d) FILES_VERIFIED)) (\<lambda>_.
       commit_cursor deps act cp d n (compensate deps d rollback target n)
         (seq (change (\<lambda>s. s\<lparr>ct_lastSafety := Some (sm_manifestId rollback),
                             ct_lastApplied := Some (target, cd_now deps (ct_world s))\<rparr>)) (\<lambda>_.
          advanceHistory act cp (result_of RC_ok n))))) (concluded lg act cp st d) (broken d ms st)" for n
  proof (rule holds_seq [OF measured_broken [OF set_phase_broken]])
    let ?Z = "insert (Lg_phase (od_opId d) FILES_VERIFIED None) (insert (Lg_applied p target (od_opId d) RC_ok) ?Y)"
    show "phase_allowed d es FILES_VERIFIED None" if "insert (Lg_applied p target (od_opId d) RC_ok) ?Y \<subseteq> es" for es
      using that ids reached_mono [OF applying] by (auto simp: files_at_def)
    have undone: "holds (?P ?Z) (compensate deps d rollback target n) (concluded lg act cp st d) (broken d ms st)"
      by (rule holds_post [OF compensate_point [OF ids(1)]]) (auto intro: compensated_concluded)
    have committed: "holds (at d ms st True True False (insert (Lg_committed (od_opId d)) ?Z))
        (seq (change (\<lambda>s. s\<lparr>ct_lastSafety := Some (sm_manifestId rollback),
                            ct_lastApplied := Some (target, cd_now deps (ct_world s))\<rparr>)) (\<lambda>_.
         advanceHistory act cp (result_of RC_ok n))) (concluded lg act cp st d) (broken d ms st)"
      by (rule holds_seq [OF holds_change advanceHistory_concluded [where L = False and ms = ms]])
        (use ids(1) in \<open>auto intro: point_weaken\<close>)
    show "holds (?P ?Z) (commit_cursor deps act cp d n (compensate deps d rollback target n)
         (seq (change (\<lambda>s. s\<lparr>ct_lastSafety := Some (sm_manifestId rollback),
                             ct_lastApplied := Some (target, cd_now deps (ct_world s))\<rparr>)) (\<lambda>_.
          advanceHistory act cp (result_of RC_ok n)))) (concluded lg act cp st d) (broken d ms st)"
      by (rule commit_cursor_point [OF _ undone committed]) (auto simp: reached_def intro: compensated_concluded)
  qed
  show "holds (?P ?X)
      (seq (measured deps (setJournalPhases deps (od_opId d) ?ts)) (\<lambda>_.
       seq (measured deps (call (cd_applyRestore deps p target (od_opId d)))) (\<lambda>applied.
       if rr_code applied \<noteq> RC_ok then
         seq (compensate deps d rollback target (rr_verifiedPaths applied)) (\<lambda>r.
         ret (case rr_failureCode applied of
                Some f \<Rightarrow> if or_code r = RC_restore_failed_safe then r\<lparr>or_code := failure_result f\<rparr> else r
              | None \<Rightarrow> r))
       else
         seq (measured deps (set_phase deps (od_opId d) FILES_VERIFIED)) (\<lambda>_.
         commit_cursor deps act cp d (rr_verifiedPaths applied) (compensate deps d rollback target (rr_verifiedPaths applied))
           (seq (change (\<lambda>s. s\<lparr>ct_lastSafety := Some (sm_manifestId rollback),
                               ct_lastApplied := Some (target, cd_now deps (ct_world s))\<rparr>)) (\<lambda>_.
            advanceHistory act cp (result_of RC_ok (rr_verifiedPaths applied))))))))
      (concluded lg act cp st d) (broken d ms st)"
  proof (rule holds_seq [OF measured_broken [OF setJournalPhases_broken [OF fit]]], rule holds_seq [OF apply_call], rule holds_if)
    fix applied :: restore_result assume "\<not> rr_code applied \<noteq> RC_ok"
    then have ok: "rr_code applied = RC_ok" by simp
    show "holds (?P (insert (Lg_applied p target (od_opId d) (rr_code applied)) ?Y))
      (seq (measured deps (set_phase deps (od_opId d) FILES_VERIFIED)) (\<lambda>_.
       commit_cursor deps act cp d (rr_verifiedPaths applied) (compensate deps d rollback target (rr_verifiedPaths applied))
         (seq (change (\<lambda>s. s\<lparr>ct_lastSafety := Some (sm_manifestId rollback),
                             ct_lastApplied := Some (target, cd_now deps (ct_world s))\<rparr>)) (\<lambda>_.
          advanceHistory act cp (result_of RC_ok (rr_verifiedPaths applied))))))
      (concluded lg act cp st d) (broken d ms st)"
      unfolding ok by (rule succeeded)
  qed (rule failed)
qed (auto intro: compensated_concluded)

end

context recorded
begin

lemma calm_ended: "calmly st s \<Longrightarrow> or_code r \<noteq> RC_ok \<Longrightarrow> ended lg act cp st r s"
  by (simp add: calm_def ended_def)

lemma concluded_ended: "concluded lg act cp st d r s \<Longrightarrow> od_action d = act \<Longrightarrow> ended lg act cp st r s"
  by (auto simp: ended_def)

lemma failure_not_ok [simp]: "failure_result f \<noteq> RC_ok"
  by (cases f) (simp_all add: failure_result_def)

lemma giving_up_calm:
  assumes "holds (calmly st) m (\<lambda>x s. T x \<and> calmly st s) (\<lambda>_. calmly st)" "code \<noteq> RC_ok"
    and "\<And>x. T x \<Longrightarrow> holds (calmly st) (f x) (ended lg act cp st) (gone act st)"
  shows "holds (calmly st) (giving_up m code f) (ended lg act cp st) (gone act st)"
  unfolding giving_up_def
proof (rule holds_seq)
  show "holds (calmly st)
      (catching (seq m (\<lambda>x. ret (Some x)))
        (\<lambda>e. if operationFailure e \<noteq> None \<or> isUnconfirmedExit e then throw e else ret None))
      (\<lambda>x s. (case x of None \<Rightarrow> True | Some y \<Rightarrow> T y) \<and> calmly st s) (gone act st)"
  proof (rule holds_catching [OF holds_seq [OF assms(1)]])
    show "holds (\<lambda>s. T x \<and> calmly st s) (ret (Some x)) (\<lambda>x s. (case x of None \<Rightarrow> True | Some y \<Rightarrow> T y) \<and> calmly st s)
        (\<lambda>_. calmly st)" for x
      by (rule holds_ret) simp
    show "holds (calmly st) (if operationFailure e \<noteq> None \<or> isUnconfirmedExit e then throw e else ret None)
        (\<lambda>x s. (case x of None \<Rightarrow> True | Some y \<Rightarrow> T y) \<and> calmly st s) (gone act st)" for e
      by (rule holds_if; (rule holds_throw, erule gone_calm | rule holds_ret, simp))
  qed
  show "holds (\<lambda>s. (case x of None \<Rightarrow> True | Some y \<Rightarrow> T y) \<and> calmly st s)
      (case x of None \<Rightarrow> ret (result_of code 0) | Some y \<Rightarrow> f y) (ended lg act cp st) (gone act st)" for x
    by (cases x; rule holds_fact) (auto intro!: holds_ret calm_ended assms(3) simp: assms(2))
qed

lemma calm_always: "holds (calmly st) m (\<lambda>_. calmly st) E \<Longrightarrow> holds (calmly st) m (\<lambda>x s. True \<and> calmly st s) E"
  by simp

lemma restore_checkpoint_point:
  "holds (calmly st) (restore_checkpoint deps act cp tid) (ended lg act cp st) (gone act st)"
  unfolding restore_checkpoint_def Let_def
proof (rule giving_up_calm [OF calm_always])
  let ?tg = "case tid of Some m \<Rightarrow> m | None \<Rightarrow> if act = Undo then cp_beforeManifestId cp else cp_afterManifestId cp"
  show "holds (calmly st) (measured deps (safety_capture deps m ?tg (cp_changedPaths cp))) (\<lambda>_. calmly st) (\<lambda>_. calmly st)" for m
    unfolding safety_capture_def
    by (rule measured_calm, rule holds_option) (auto intro: call_calm [OF captures] call_calm [OF secures])
  fix rollback
  show "holds (calmly st)
      (giving_up
        (seq (measured deps (call (cd_loadManifest deps ?tg))) (\<lambda>target.
         seq (measured deps (call (cd_planRestore deps rollback target (Some (cp_changedPaths cp))))) (\<lambda>p.
         seq (call (cd_resolveSessionTarget deps act cp)) (\<lambda>toLeaf. ret (target, p, toLeaf)))))
        RC_restore_failed_safe (\<lambda>(target, p, toLeaf).
         seq (createDescriptor deps act rollback target p toLeaf) (\<lambda>d.
         seq (begin_transaction d (Some (rollback, target))) (\<lambda>_.
         restore_files deps act cp d rollback target p)))) (ended lg act cp st) (gone act st)"
  proof (rule giving_up_calm [OF calm_always])
    show "holds (calmly st)
        (seq (measured deps (call (cd_loadManifest deps ?tg))) (\<lambda>target.
         seq (measured deps (call (cd_planRestore deps rollback target (Some (cp_changedPaths cp))))) (\<lambda>p.
         seq (call (cd_resolveSessionTarget deps act cp)) (\<lambda>toLeaf. ret (target, p, toLeaf)))))
        (\<lambda>_. calmly st) (\<lambda>_. calmly st)"
      by (rule holds_seq [OF measured_calm [OF call_calm [OF loads]]], simp,
          rule holds_seq [OF measured_calm [OF call_calm [OF plans]]], simp,
          rule holds_seq [OF call_calm [OF resolves]], simp, rule holds_ret)
  next
    fix x :: "snapshot_manifest \<times> restore_plan \<times> string option"
    obtain target p toLeaf where x: "x = (target, p, toLeaf)" using prod_cases3 by blast
    have "holds (calmly st)
        (seq (createDescriptor deps act rollback target p toLeaf) (\<lambda>d.
         seq (begin_transaction d (Some (rollback, target))) (\<lambda>_.
         restore_files deps act cp d rollback target p))) (ended lg act cp st) (gone act st)"
      unfolding createDescriptor_def
    proof (rule holds_seq [OF createDescriptor_calm], rule holds_fact, rule holds_seq [OF begin_point])
      fix d :: operation_descriptor
      assume d: "od_planDigest d = pl_planDigest p \<and> od_rollbackManifestId d = sm_manifestId rollback \<and>
        od_targetManifestId d = sm_manifestId target \<and> od_scopePaths d = plan_scope p \<and> od_action d = act"
      then have "described d (Some (rollback, target))" by (simp add: described_def)
      then show "holds (at d (Some (rollback, target)) st False False False {Lg_locked})
          (restore_files deps act cp d rollback target p) (ended lg act cp st) (gone act st)"
        using d by (intro holds_post [OF restore_files_point [OF refl]]) (auto intro: concluded_ended gone_broken)
    qed
    then show "holds (calmly st)
        (case x of (target, p, toLeaf) \<Rightarrow>
         seq (createDescriptor deps act rollback target p toLeaf) (\<lambda>d.
         seq (begin_transaction d (Some (rollback, target))) (\<lambda>_.
         restore_files deps act cp d rollback target p))) (ended lg act cp st) (gone act st)"
      by (simp add: x)
  qed simp
qed simp

lemma moved_only_advance:
  "holds (\<lambda>s. \<exists>d. od_action d = act \<and> moved_only d st r s) (advanceHistory act cp r) (ended lg act cp st) E"
proof (rule holdsI)
  fix s x s' assume "\<exists>d. od_action d = act \<and> moved_only d st r s" and x: "advanceHistory act cp r s = (x, s')"
  then obtain d ms where d: "od_action d = act"
    and m: "if or_code r = RC_ok
           then r = result_of RC_ok 0 \<and> at d ms st True True False {Lg_committed (od_opId d)} s \<and>
                ct_lastSafety s = Some (od_rollbackManifestId d)
           else compensated d ms st r s"
    unfolding moved_only_def by blast
  show "outcome (ended lg act cp st) E (x, s')"
  proof (cases "or_code r = RC_ok")
    case True
    then have "outcome (concluded lg act cp st d) E (advanceHistory act cp r s)"
      using m holds_at [OF advanceHistory_concluded [of d ms st False act cp 0 E], of s] by auto
    then show ?thesis using x d by (cases x) (auto intro: concluded_ended)
  next
    case False
    then have "x = Inr r" "s' = s" using x by (simp_all add: advanceHistory_def look_def ret_def)
    then show ?thesis using m False d by (auto intro: concluded_ended compensated_concluded)
  qed
qed

lemma carry_out_point:
  "holds (calmly st) (carry_out deps act cp tid) (ended lg act cp st) (gone act st)"
  unfolding carry_out_def
  by (rule holds_if, rule holds_seq [OF runSessionOnly_point moved_only_advance], rule restore_checkpoint_point)

end

lemma holds_Ex: "(\<And>x. holds (P x) m Q E) \<Longrightarrow> holds (\<lambda>s. \<exists>x. P x s) m Q E"
  unfolding holds_outcome by blast

lemma holds_disj: "holds P m Q E \<Longrightarrow> holds P' m Q E \<Longrightarrow> holds (\<lambda>s. P s \<or> P' s) m Q E"
  unfolding holds_outcome by blast

lemma concluded_code: "concluded lg act cp st d r s \<Longrightarrow> or_code r \<noteq> RC_ok \<Longrightarrow> or_code r' \<noteq> RC_ok \<Longrightarrow> concluded lg act cp st d r' s"
  by (simp add: concluded_def)

context recorded
begin

definition still where
  "still st r s \<longleftrightarrow>
     or_code r \<noteq> RC_ok \<and> history_of s = st \<and> (\<forall>e \<in> set (lg (ct_world s)). uneventful e)"

lemma still_calm: "calm lg X st s \<Longrightarrow> or_code r \<noteq> RC_ok \<Longrightarrow> still st r s"
  by (simp add: calm_def still_def)

lemma handle_still: "holds (calm lg X st) (handle_error deps e) (still st) E"
proof -
  have record_exit: "holds (calm lg X st) (recordUnsafeExit deps sc e) (\<lambda>_. calm lg X st) E" for sc
    unfolding recordUnsafeExit_def
    by (intro holds_look holds_if holds_seq [OF holds_change] holds_ret)
      (auto intro: calm_lock simp: calm_def lock_def history_of_def)
  have report: "holds (calm lg X st) (recoveryResult n) (still st) E" for n
    unfolding recoveryResult_def by (intro holds_look holds_ret) (auto intro: still_calm simp: result_of_def)
  have locks: "holds (calm lg X st) (seq (change (lock m)) (\<lambda>_. recoveryResult 0)) (still st) E" for m
    by (rule holds_seq [OF holds_change report]) (rule calm_lock)
  have plain: "holds (calm lg X st) (ret (result_of (failure_result f) 0)) (still st) E" for f
    by (rule holds_ret) (simp add: still_calm)
  show ?thesis
    unfolding handle_error_def Let_def
  proof (rule holds_seq [OF record_exit], rule holds_if, rule report, rule holds_look)
    fix s0 :: "'v ctl"
    let ?d = "case ct_transaction s0 of None \<Rightarrow> False | Some t \<Rightarrow> tr_cursorDurable t"
    show "holds (\<lambda>s. s = s0 \<and> calm lg X st s)
       (case operationFailure e of
          None \<Rightarrow> seq (change (lock ''operation_failed'')) (\<lambda>_. recoveryResult 0)
        | Some f \<Rightarrow>
            if ?d then seq (change (lock ''operation_failed'')) (\<lambda>_. recoveryResult 0)
            else (case ct_transaction s0 of
                    None \<Rightarrow> ret (result_of (failure_result f) 0)
                  | Some t \<Rightarrow>
                      seq (case tr_manifests t of
                             None \<Rightarrow> compensateSessionOnly deps (tr_descriptor t)
                           | Some (rollback, target) \<Rightarrow> compensate deps (tr_descriptor t) rollback target 0) (\<lambda>recovered.
                      ret (if or_code recovered = RC_recovery_required then recovered else result_of (failure_result f) 0))))
       (still st) E"
    proof (cases "ct_transaction s0")
      case None
      then show ?thesis
        by (intro holds_option holds_if) (auto intro: holds_pre [OF locks] holds_pre [OF plain])
    next
      case (Some t)
      then show ?thesis by (simp add: holds_outcome calm_def)
    qed
  qed
qed

lemma handle_calm: "holds (calm lg X st) (handle_error deps e) (ended lg act cp st) E"
  by (rule holds_post [OF handle_still]) (auto simp: still_def ended_def)

lemma handle_broken:
  assumes d: "od_action d = act" "described d ms"
  shows "holds (at d ms st b b False {}) (handle_error deps e) (ended lg act cp st) E"
proof -
  have locked: "ended lg act cp st r s" if "at d ms st b b True {} s" "or_code r = RC_recovery_required" for r s
    using that d(1) by (intro concluded_ended [of _ _ _ d]) (auto simp: concluded_def point_def Let_def)
  have locks: "holds (at d ms st b b L {}) (seq (change (lock m)) (\<lambda>_. recoveryResult 0)) (ended lg act cp st) E" for m L
    by (rule holds_seq [OF point_lock_step], rule holds_post [OF recoveryResult_locked]) (auto intro: locked)
  have undone: "holds (at d ms st False False L {})
      (seq (case ms of None \<Rightarrow> compensateSessionOnly deps d | Some (rollback, target) \<Rightarrow> compensate deps d rollback target 0)
        (\<lambda>recovered. ret (if or_code recovered = RC_recovery_required then recovered else result_of (failure_result f) 0)))
      (ended lg act cp st) E" for f L
  proof (rule holds_seq [where R = "compensated d ms st"])
    show "holds (at d ms st False False L {})
        (case ms of None \<Rightarrow> compensateSessionOnly deps d | Some (rollback, target) \<Rightarrow> compensate deps d rollback target 0)
        (compensated d ms st) E"
    proof (cases ms)
      case None
      then have "od_scopePaths d = []" using d(2) by (simp add: described_def)
      then show ?thesis using None by (simp add: compensateSessionOnly_point)
    next
      case (Some m)
      obtain rollback target where m: "m = (rollback, target)" by fastforce
      then have "sm_manifestId rollback = od_rollbackManifestId d" using Some d(2) by (simp add: described_def)
      then show ?thesis using Some m by (simp add: compensate_point)
    qed
    show "holds (compensated d ms st r)
        (ret (if or_code r = RC_recovery_required then r else result_of (failure_result f) 0)) (ended lg act cp st) E" for r
      by (rule holds_ret) (auto intro!: concluded_ended [OF _ d(1)] intro: compensated_concluded concluded_code
          dest: compensated_code compensated_concluded)
  qed
  show ?thesis
    unfolding handle_error_def Let_def
  proof (rule holds_seq [OF recordUnsafeExit_point], rule holds_if)
    fix u assume u
    show "holds (at d ms st b b (False \<or> u) {}) (recoveryResult 0) (ended lg act cp st) E"
      using \<open>u\<close> by (intro holds_post [OF holds_pre [OF recoveryResult_locked]]) (auto intro: locked)
  next
    fix u :: bool
    show "holds (at d ms st b b (False \<or> u) {}) (look (\<lambda>s.
       case operationFailure e of
          None \<Rightarrow> seq (change (lock ''operation_failed'')) (\<lambda>_. recoveryResult 0)
        | Some f \<Rightarrow>
            if case ct_transaction s of None \<Rightarrow> False | Some t \<Rightarrow> tr_cursorDurable t
            then seq (change (lock ''operation_failed'')) (\<lambda>_. recoveryResult 0)
            else (case ct_transaction s of
                    None \<Rightarrow> ret (result_of (failure_result f) 0)
                  | Some t \<Rightarrow>
                      seq (case tr_manifests t of
                             None \<Rightarrow> compensateSessionOnly deps (tr_descriptor t)
                           | Some (rollback, target) \<Rightarrow> compensate deps (tr_descriptor t) rollback target 0) (\<lambda>recovered.
                      ret (if or_code recovered = RC_recovery_required then recovered else result_of (failure_result f) 0)))))
       (ended lg act cp st) E"
    proof (rule holds_look)
      fix s0 :: "'v ctl"
      show "holds (\<lambda>s. s = s0 \<and> at d ms st b b (False \<or> u) {} s)
       (case operationFailure e of
          None \<Rightarrow> seq (change (lock ''operation_failed'')) (\<lambda>_. recoveryResult 0)
        | Some f \<Rightarrow>
            if case ct_transaction s0 of None \<Rightarrow> False | Some t \<Rightarrow> tr_cursorDurable t
            then seq (change (lock ''operation_failed'')) (\<lambda>_. recoveryResult 0)
            else (case ct_transaction s0 of
                    None \<Rightarrow> ret (result_of (failure_result f) 0)
                  | Some t \<Rightarrow>
                      seq (case tr_manifests t of
                             None \<Rightarrow> compensateSessionOnly deps (tr_descriptor t)
                           | Some (rollback, target) \<Rightarrow> compensate deps (tr_descriptor t) rollback target 0) (\<lambda>recovered.
                      ret (if or_code recovered = RC_recovery_required then recovered else result_of (failure_result f) 0))))
       (ended lg act cp st) E"
      proof (cases "ct_transaction s0 = Some \<lparr>tr_descriptor = d, tr_manifests = ms, tr_cursorDurable = b\<rparr>")
        case True
        have "holds (\<lambda>s. s = s0 \<and> at d ms st False False (False \<or> u) {} s)
            (seq (case ms of None \<Rightarrow> compensateSessionOnly deps d | Some (rollback, target) \<Rightarrow> compensate deps d rollback target 0)
              (\<lambda>recovered. ret (if or_code recovered = RC_recovery_required then recovered else result_of (failure_result f) 0)))
            (ended lg act cp st) E" for f
          by (rule holds_pre [OF undone]) simp
        moreover have "holds (\<lambda>s. s = s0 \<and> at d ms st b b (False \<or> u) {} s)
            (seq (change (lock m)) (\<lambda>_. recoveryResult 0)) (ended lg act cp st) E" for m
          by (rule holds_pre [OF locks]) simp
        ultimately show ?thesis
          using True by (cases b; cases "operationFailure e") (simp_all cong: option.case_cong prod.case_cong)
      next
        case False
        then show ?thesis by (auto simp: holds_outcome point_def)
      qed
    qed
  qed
qed

lemma handle_error_point: "holds (gone act st e) (handle_error deps e) (ended lg act cp st) E"
proof (rule holdsI)
  fix s r s' assume g: "gone act st e s" and h: "handle_error deps e s = (r, s')"
  from g consider "calmly st s"
    | d ms b where "od_action d = act" "described d ms" "at d ms st b b False {} s"
    unfolding gone_def by blast
  then show "outcome (ended lg act cp st) E (r, s')"
  proof cases
    case 1
    then show ?thesis using holds_at [OF handle_calm 1] h by metis
  next
    case 2
    then show ?thesis using holds_at [OF handle_broken [OF 2(1,2)] 2(3)] h by metis
  qed
qed

text \<open>Releasing the lock and clearing the flags change nothing of the outcome.\<close>

lemma concluded_release:
  assumes "concluded lg act cp st d r s" "lg w = lg (ct_world s) @ [e]" "e \<in> {Lg_thrown, Lg_released}"
  shows "concluded lg act cp st d r (s\<lparr>ct_world := w\<rparr>)"
  using assms by (auto simp: concluded_def Let_def history_of_def reached_def)

lemma ended_changes:
  "ended lg act cp st r s \<Longrightarrow> ended lg act cp st r (lock m s)"
  "ended lg act cp st r s \<Longrightarrow> ended lg act cp st r (s\<lparr>ct_unsafeExit := u\<rparr>)"
  "ended lg act cp st r s \<Longrightarrow> ended lg act cp st r (s\<lparr>ct_operationAction := oa, ct_promptDeferral := pd, ct_operationInFlight := fl\<rparr>)"
  "ended lg act cp st r s \<Longrightarrow> ended lg act cp st r (s\<lparr>ct_transaction := t, ct_operationId := i\<rparr>)"
  by (auto simp: ended_def concluded_def lock_def history_of_def Let_def)

lemma ended_release:
  assumes p: "ended lg act cp st r s" and e: "lg w = lg (ct_world s) @ [e]" "e \<in> {Lg_thrown, Lg_released}"
  shows "ended lg act cp st r (s\<lparr>ct_world := w\<rparr>)"
proof (cases "\<exists>d. od_action d = act \<and> concluded lg act cp st d r s")
  case True
  then obtain d where d: "od_action d = act" "concluded lg act cp st d r s" by blast
  have "concluded lg act cp st d r (s\<lparr>ct_world := w\<rparr>)" by (rule concluded_release [OF d(2) e])
  then show ?thesis using d(1) by (rule concluded_ended)
next
  case False
  then have "or_code r \<noteq> RC_ok \<and> history_of s = st \<and> (\<forall>e \<in> set (lg (ct_world s)). uneventful e)"
    using p unfolding ended_def by blast
  moreover have "uneventful e" using e(2) by auto
  ultimately show ?thesis using e(1) by (simp add: ended_def history_of_def)
qed

lemma finish_keeps:
  assumes locks: "\<And>s m. P s \<Longrightarrow> P (lock m s)" and unsafe: "\<And>s u. P s \<Longrightarrow> P (s\<lparr>ct_unsafeExit := u\<rparr>)"
    and flags: "\<And>s oa pd fl. P s \<Longrightarrow> P (s\<lparr>ct_operationAction := oa, ct_promptDeferral := pd, ct_operationInFlight := fl\<rparr>)"
    and released: "\<And>s w e. P s \<Longrightarrow> lg w = lg (ct_world s) @ [e] \<Longrightarrow> e \<in> {Lg_thrown, Lg_released} \<Longrightarrow> P (s\<lparr>ct_world := w\<rparr>)"
  shows "holds P (finish_operation deps lease) (\<lambda>_. P) E"
proof -
  have 1: "holds P (check_exit deps sc) (\<lambda>_. P) E" for sc
    by (rule holdsI)
      (auto simp: check_exit_def recordUnsafeExit_def look_def seq_def change_def ret_def intro!: locks unsafe split: if_splits)
  have "holds P (call (cd_release deps)) (\<lambda>_. P) (\<lambda>_. P)"
  proof (rule holdsI)
    fix s x s' assume p: "P s" and "call (cd_release deps) s = (x, s')"
    then obtain w where w: "cd_release deps (ct_world s) = (x, w)" and s': "s' = s\<lparr>ct_world := w\<rparr>"
      by (auto simp: call_def split: prod.splits)
    have "lg w = lg (ct_world s) @ (case x of Inl _ \<Rightarrow> [Lg_thrown] | Inr x \<Rightarrow> [Lg_released])"
      using releases w unfolding logs_def by (metis fst_conv snd_conv)
    then have "P s'" using released [OF p, of w] s' by (cases x) auto
    then show "outcome (\<lambda>_. P) (\<lambda>_. P) (x, s')" by (cases x) simp_all
  qed
  then have "holds P (release_lock deps) (\<lambda>_. P) E"
    unfolding release_lock_def by (rule holds_catching) (rule holds_change, rule locks)
  then have 2: "holds P (look (\<lambda>s. if lease \<and> \<not> ct_unsafeExit s then release_lock deps else ret ())) (\<lambda>_. P) E"
    by (intro holds_look holds_if holds_ret) (auto elim: holds_pre)
  show ?thesis
    unfolding finish_operation_def by (rule holds_seq [OF 1 holds_seq [OF 2 holds_change]]) (rule flags)
qed

lemma finish_ended: "holds (ended lg act cp st r) (finish_operation deps lease) (\<lambda>_. ended lg act cp st r) E"
  by (rule finish_keeps) (auto intro: ended_changes ended_release)

lemma conduct_point: "holds (calmly st) (conduct deps act cp tid) (ended lg act cp st) (\<lambda>_ _. False)"
  unfolding conduct_def
  by (rule holds_ending [OF holds_catching [OF carry_out_point handle_error_point [where E = "\<lambda>_ _. False"]] finish_ended])
    (simp add: holds_outcome)

end

text \<open>What the other handlers may do while an operation waits: no call of a transaction.\<close>

definition considerate :: "('v \<Rightarrow> ctl_event list) \<Rightarrow> 'v waiting \<Rightarrow> bool" where
  "considerate lg wait \<longleftrightarrow>
     (\<forall>s. ct_transaction (snd (wait s)) = ct_transaction s \<and>
        (\<exists>es. lg (ct_world (snd (wait s))) = lg (ct_world s) @ es \<and> (\<forall>e \<in> set es. uneventful e)))"

definition choice :: "action \<Rightarrow> history \<Rightarrow> checkpoint_record \<Rightarrow> bool" where
  "choice act st cp \<longleftrightarrow>
     (if act = Undo then fst st \<noteq> [] \<and> cp = last (fst st) else snd st \<noteq> [] \<and> cp = re_checkpoint (last (snd st)))"

definition quiet :: "('v \<Rightarrow> ctl_event list) \<Rightarrow> 'v ctl \<Rightarrow> bool" where
  "quiet lg s \<longleftrightarrow> (\<forall>e \<in> set (lg (ct_world s)). uneventful e) \<and> ct_transaction s = None"

lemma quiet_calm: "quiet lg s \<longleftrightarrow> calm lg {} (history_of s) s"
  by (simp add: quiet_def calm_def)

lemma calm_quiet: "calm lg X st s \<Longrightarrow> quiet lg s"
  by (simp add: quiet_def calm_def)

lemma quiet_changes [simp]:
  "quiet lg (s\<lparr>ct_staged := a\<rparr>) = quiet lg s" "quiet lg (s\<lparr>ct_deferAgentStart := b\<rparr>) = quiet lg s"
  "quiet lg (s\<lparr>ct_runCompletion := c\<rparr>) = quiet lg s" "quiet lg (s\<lparr>ct_operationInFlight := i\<rparr>) = quiet lg s"
  "quiet lg (s\<lparr>ct_operationAction := oa\<rparr>) = quiet lg s" "quiet lg (s\<lparr>ct_promptDeferral := pd\<rparr>) = quiet lg s"
  "quiet lg (s\<lparr>ct_lastSafety := m\<rparr>) = quiet lg s" "quiet lg (s\<lparr>ct_operationId := oi\<rparr>) = quiet lg s"
  "quiet lg (s\<lparr>ct_marked := ms\<rparr>) = quiet lg s"
  by (simp_all add: quiet_def)

context recorded
begin

lemma call_quiet:
  assumes "logs lg c fx" "\<And>x. \<forall>e \<in> set (fx x). uneventful e"
  shows "holds (quiet lg) (call c) (\<lambda>_. quiet lg) (\<lambda>_. quiet lg)"
proof (rule holdsI)
  fix s r s' assume "quiet lg s" "call c s = (r, s')"
  then have "outcome (\<lambda>_. calm lg {} (history_of s)) (\<lambda>_. calm lg {} (history_of s)) (r, s')"
    using holds_at [OF call_calm [OF assms, of "{}" "history_of s"], of s] by (simp add: quiet_calm)
  then show "outcome (\<lambda>_. quiet lg) (\<lambda>_. quiet lg) (r, s')" by (cases r) (auto intro: calm_quiet)
qed

lemma measured_quiet: "holds (quiet lg) m Q (\<lambda>_. quiet lg) \<Longrightarrow> holds (quiet lg) (measured deps m) Q (\<lambda>_. quiet lg)"
  by (erule holds_measured)

lemma ensureIdle_quiet: "holds (quiet lg) (ensureIdle deps) (\<lambda>_. quiet lg) (\<lambda>_. quiet lg)"
proof -
  have idle: "holds (quiet lg) (seq (call (cd_abortAgent deps)) (\<lambda>_. look (\<lambda>s. call (cd_waitForIdle deps (cd_now deps (ct_world s) + 30000)))))
      (\<lambda>_. quiet lg) (\<lambda>_. quiet lg)"
    by (rule holds_seq [OF call_quiet [OF aborts]], simp, rule holds_look, rule holds_pre [OF call_quiet [OF idles]]) auto
  have "holds (\<lambda>s. s = s0 \<and> quiet lg s)
      (if cd_isAgentIdle deps (ct_world s0) then ret True
       else catching (seq (call (cd_abortAgent deps)) (\<lambda>_. look (\<lambda>s. call (cd_waitForIdle deps (cd_now deps (ct_world s) + 30000)))))
         (\<lambda>e. case rethrowOperationFailure e of Inl e' \<Rightarrow> throw e' | Inr _ \<Rightarrow> ret False)) (\<lambda>_. quiet lg) (\<lambda>_. quiet lg)" for s0
    by (rule holds_pre [of "quiet lg"], rule holds_if, rule holds_ret, assumption, rule holds_catching [OF idle])
      (auto split: sum.split intro: holds_ret holds_throw)
  then show ?thesis unfolding ensureIdle_def by (rule holds_look)
qed

lemma wait_task_quiet:
  assumes "considerate lg wait"
  shows "holds (quiet lg) (wait_task deps wait) (\<lambda>_. quiet lg) (\<lambda>_. quiet lg)"
proof -
  have "quiet lg (snd (wait s))" if "quiet lg s" for s
  proof -
    obtain es where "lg (ct_world (snd (wait s))) = lg (ct_world s) @ es" "\<forall>e \<in> set es. uneventful e"
      "ct_transaction (snd (wait s)) = ct_transaction s"
      using assms unfolding considerate_def by blast
    then show ?thesis using that by (auto simp: quiet_def)
  qed
  then have "holds (quiet lg) (\<lambda>s. case wait s of (completed, s') \<Rightarrow> (Inr completed, s')) (\<lambda>_. quiet lg) (\<lambda>_. quiet lg)"
    by (simp add: holds_outcome case_prod_unfold)
  from holds_seq [OF holds_check this] show ?thesis unfolding wait_task_def by simp
qed

lemma wait_tasks_quiet:
  "considerate lg wait \<Longrightarrow> holds (quiet lg) (wait_tasks deps wait n) (\<lambda>_. quiet lg) (\<lambda>_. quiet lg)"
proof (induction n)
  case 0
  show ?case by (simp, rule holds_ret)
next
  case (Suc n)
  have "holds (quiet lg) (if completed then wait_tasks deps wait n else ret False) (\<lambda>_. quiet lg) (\<lambda>_. quiet lg)" for completed
    by (rule holds_if [OF Suc.IH [OF Suc.prems] holds_ret])
  then show ?case unfolding wait_tasks.simps by (rule holds_seq [OF wait_task_quiet [OF Suc.prems]])
qed

lemma waitForCheckpoint_quiet:
  assumes "considerate lg wait"
  shows "holds (quiet lg) (waitForCheckpoint deps wait) (\<lambda>_. quiet lg) (\<lambda>_. quiet lg)"
proof -
  have "holds (quiet lg)
      (seq (change (\<lambda>s. s\<lparr>ct_staged := None, ct_deferAgentStart := False, ct_runCompletion := None\<rparr>)) (\<lambda>_. ret True))
      (\<lambda>_. quiet lg) (\<lambda>_ :: exn. quiet lg)"
    by (rule holds_seq [OF holds_change holds_ret]) auto
  moreover have "holds (quiet lg)
      (seq (change (\<lambda>s. s\<lparr>ct_staged := None, ct_deferAgentStart := False\<rparr>)) (\<lambda>_. ret True)) (\<lambda>_. quiet lg) (\<lambda>_ :: exn. quiet lg)"
    by (rule holds_seq [OF holds_change holds_ret]) auto
  ultimately have each: "holds (quiet lg) (case run of
            Some run \<Rightarrow> if rn_started run then wait_task deps wait
                        else seq (change (\<lambda>s. s\<lparr>ct_staged := None, ct_deferAgentStart := False, ct_runCompletion := None\<rparr>)) (\<lambda>_. ret True)
          | None \<Rightarrow> seq (change (\<lambda>s. s\<lparr>ct_staged := None, ct_deferAgentStart := False\<rparr>)) (\<lambda>_. ret True))
      (\<lambda>_. quiet lg) (\<lambda>_. quiet lg)" for run
    using wait_task_quiet [OF assms] by (cases run) simp_all
  have last: "holds (quiet lg) (look (\<lambda>s. case ct_runCompletion s of
            Some run \<Rightarrow> if rn_started run then wait_task deps wait
                        else seq (change (\<lambda>s. s\<lparr>ct_staged := None, ct_deferAgentStart := False, ct_runCompletion := None\<rparr>)) (\<lambda>_. ret True)
          | None \<Rightarrow> seq (change (\<lambda>s. s\<lparr>ct_staged := None, ct_deferAgentStart := False\<rparr>)) (\<lambda>_. ret True)))
      (\<lambda>_. quiet lg) (\<lambda>_. quiet lg)"
    by (rule holds_look, rule holds_pre [OF each]) simp
  show ?thesis
    unfolding waitForCheckpoint_def
    by (rule holds_look, rule holds_pre [of "quiet lg"], rule holds_seq [OF wait_tasks_quiet [OF assms]],
        rule holds_if, rule holds_ret, assumption, rule last) simp
qed

lemma recoveryResult_quiet: "holds (quiet lg) (recoveryResult n) (\<lambda>r s. quiet lg s \<and> or_code r \<noteq> RC_ok) E"
  unfolding recoveryResult_def by (intro holds_look holds_ret) (auto simp: result_of_def)

definition may_begin where
  "may_begin act x s \<longleftrightarrow>
     (case x of
        Inl r \<Rightarrow> or_code r \<noteq> RC_ok \<and> quiet lg s
      | Inr (cp, tid) \<Rightarrow> \<exists>st. choice act st cp \<and> calmly st s)"

lemma acquire_begins:
  assumes "choice act st cp"
  shows "holds (calm lg {} st)
    (catching (seq (measured deps (call (cd_acquireWorkspaceLock deps))) (\<lambda>_. ret (Inr (cp, tid))))
       (\<lambda>e. if operationFailure e \<noteq> None \<or> isUnconfirmedExit e then throw e else ret (Inl (result_of RC_busy 0))))
    (may_begin act) (\<lambda>_. quiet lg)"
proof -
  have "holds (calm lg {} st) (call (cd_acquireWorkspaceLock deps)) (\<lambda>_. calmly st) (\<lambda>_. calm lg {} st)"
  proof (rule holdsI)
    fix s r s' assume p: "calm lg {} st s" and c: "call (cd_acquireWorkspaceLock deps) s = (r, s')"
    then obtain w where w: "cd_acquireWorkspaceLock deps (ct_world s) = (r, w)" and s': "s' = s\<lparr>ct_world := w\<rparr>"
      by (auto simp: call_def split: prod.splits)
    have "lg w = lg (ct_world s) @ (case r of Inl _ \<Rightarrow> [Lg_thrown] | Inr x \<Rightarrow> [Lg_locked])"
      using acquires w unfolding logs_def by (metis fst_conv snd_conv)
    then show "outcome (\<lambda>_. calmly st) (\<lambda>_. calm lg {} st) (r, s')"
      using p s' by (cases r) (auto simp: calm_def history_of_def)
  qed
  then have "holds (calm lg {} st) (measured deps (call (cd_acquireWorkspaceLock deps))) (\<lambda>_. calmly st) (\<lambda>_. calm lg {} st)"
    by (rule measured_calm)
  then show ?thesis
    by (rule holds_catching [OF holds_seq])
      (auto intro!: holds_ret holds_throw holds_if exI [of _ st] dest: calm_quiet simp: may_begin_def assms
       simp del: split_paired_Ex)
qed

lemma choose_point:
  assumes "considerate lg wait"
  shows "holds (quiet lg) (choose_checkpoint deps wait act) (may_begin act) (\<lambda>_. quiet lg)"
  unfolding choose_checkpoint_def
proof (rule holds_seq [OF measured_quiet [OF ensureIdle_quiet]],
    rule holds_seq [OF measured_quiet [OF waitForCheckpoint_quiet [OF assms]]], rule holds_if)
  show "holds (quiet lg) (seq (check deps Operation_scope) (\<lambda>_. ret (Inl (result_of RC_idle_timeout 0)))) (may_begin act) (\<lambda>_. quiet lg)"
    by (rule holds_seq [OF holds_check holds_ret]) (auto simp: may_begin_def)
  have now: "holds (quiet lg) (seq (recoveryResult 0) (\<lambda>r. ret (Inl r))) (may_begin act) (\<lambda>_. quiet lg)"
    by (rule holds_seq [OF recoveryResult_quiet holds_ret]) (simp add: may_begin_def)
  have stop: "holds (quiet lg) (ret (Inl (result_of c 0))) (may_begin act) (\<lambda>_. quiet lg)" if "c \<noteq> RC_ok" for c
    by (rule holds_ret) (simp add: may_begin_def that)
  show "holds (quiet lg) (look (\<lambda>s.
       if ct_locked s then seq (recoveryResult 0) (\<lambda>r. ret (Inl r))
       else if ct_historyPaused s then ret (Inl (result_of RC_history_paused 0))
       else if ct_disposed s then ret (Inl (result_of RC_busy 0))
       else
         (case (if act = Undo then if ct_undoStack s = [] then None else Some (last (ct_undoStack s), None)
                else if ct_redoStack s = [] then None
                else Some (re_checkpoint (last (ct_redoStack s)), Some (re_targetManifestId (last (ct_redoStack s))))) of
            None \<Rightarrow> ret (Inl (result_of RC_noop 0))
          | Some chosen \<Rightarrow>
              catching (seq (measured deps (call (cd_acquireWorkspaceLock deps))) (\<lambda>_. ret (Inr chosen)))
                (\<lambda>e. if operationFailure e \<noteq> None \<or> isUnconfirmedExit e then throw e
                     else ret (Inl (result_of RC_busy 0)))))) (may_begin act) (\<lambda>_. quiet lg)"
  proof (rule holds_look, intro holds_if holds_option)
    fix s0 :: "'v ctl" and y :: "checkpoint_record \<times> manifest_id option"
    assume y: "(if act = Undo then if ct_undoStack s0 = [] then None else Some (last (ct_undoStack s0), None)
                else if ct_redoStack s0 = [] then None
                else Some (re_checkpoint (last (ct_redoStack s0)), Some (re_targetManifestId (last (ct_redoStack s0))))) = Some y"
    obtain cp tid where cp: "y = (cp, tid)" by fastforce
    then have "choice act (history_of s0) cp" using y by (auto simp: choice_def history_of_def split: if_splits)
    from acquire_begins [OF this, of tid]
    show "holds (\<lambda>s. s = s0 \<and> quiet lg s)
        (catching (seq (measured deps (call (cd_acquireWorkspaceLock deps))) (\<lambda>_. ret (Inr y)))
                (\<lambda>e. if operationFailure e \<noteq> None \<or> isUnconfirmedExit e then throw e
                     else ret (Inl (result_of RC_busy 0)))) (may_begin act) (\<lambda>_. quiet lg)"
      unfolding cp by (rule holds_pre) (auto simp: quiet_calm)
  qed (auto intro: holds_pre [OF now] holds_pre [OF stop])
qed

end

definition closed ::
  "('v \<Rightarrow> ctl_event list) \<Rightarrow> action \<Rightarrow> operation_result \<Rightarrow> 'v ctl \<Rightarrow> bool" where
  "closed lg act r s \<longleftrightarrow>
     or_code r \<noteq> RC_ok \<and> (\<forall>e \<in> set (lg (ct_world s)). uneventful e) \<or>
     (\<exists>st cp d. choice act st cp \<and> od_action d = act \<and> concluded lg act cp st d r s)"

lemma concluded_reset:
  "concluded lg act cp st d r (s\<lparr>ct_transaction := t, ct_operationId := i\<rparr>) = concluded lg act cp st d r s"
  by (simp add: concluded_def history_of_def)

lemma closed_reset: "closed lg act r s \<Longrightarrow> closed lg act r (s\<lparr>ct_transaction := t, ct_operationId := i\<rparr>)"
  unfolding closed_def concluded_reset by simp

context recorded
begin

lemma ended_closed: "ended lg act cp st r s \<Longrightarrow> choice act st cp \<Longrightarrow> closed lg act r s"
  unfolding ended_def closed_def by blast

lemma quiet_closed: "quiet lg s \<Longrightarrow> or_code r \<noteq> RC_ok \<Longrightarrow> closed lg act r s"
  by (simp add: quiet_def closed_def)

lemma performOperation_point:
  assumes "considerate lg wait"
  shows "holds (quiet lg) (performOperation deps wait act) (closed lg act) (\<lambda>_ _. False)"
proof -
  let ?F = "\<lambda>(_ :: exn) (_ :: 'v ctl). False"
  let ?out = "\<lambda>r s. or_code r \<noteq> RC_ok \<and> (\<forall>e \<in> set (lg (ct_world s)). uneventful e)"
  have finish: "holds (?out r) (finish_operation deps lease) (\<lambda>_. ?out r) ?F" for r lease
    by (rule finish_keeps) (auto simp: lock_def)
  have out: "closed lg act r s" if "?out r s" for r s using that by (simp add: closed_def)
  have failed: "holds (quiet lg) (ending (handle_error deps e) (finish_operation deps False)) (closed lg act) ?F" for e
  proof (rule holdsI)
    fix s r s' assume q: "quiet lg s" and h: "ending (handle_error deps e) (finish_operation deps False) s = (r, s')"
    have "holds (calm lg {} (history_of s)) (handle_error deps e) ?out ?F"
      by (rule holds_post [OF handle_still]) (auto simp: still_def)
    then have "holds (calm lg {} (history_of s)) (ending (handle_error deps e) (finish_operation deps False)) ?out ?F"
      by (rule holds_ending [OF _ finish]) (simp add: holds_outcome)
    from holds_at [OF this, of s] q h show "outcome (closed lg act) ?F (r, s')"
      by (cases r) (auto simp: closed_def quiet_calm)
  qed
  have early: "holds (quiet lg) (ending (ret r) (finish_operation deps False)) (closed lg act) ?F" if "or_code r \<noteq> RC_ok" for r
  proof -
    have "holds (quiet lg) (ret r) (\<lambda>x s. x = r \<and> ?out r s) ?F"
      by (rule holds_ret) (use that in \<open>auto simp: quiet_def\<close>)
    then have "holds (quiet lg) (ending (ret r) (finish_operation deps False)) (\<lambda>x s. x = r \<and> ?out r s) ?F"
    proof (rule holds_ending)
      show "holds (\<lambda>s. x = r \<and> ?out r s) (finish_operation deps False) (\<lambda>_ s. x = r \<and> ?out r s) ?F" for x
        by (rule holds_fact) (rule holds_post [OF finish], auto)
    qed (simp add: holds_outcome)
    then show ?thesis by (rule holds_post) (auto simp: closed_def)
  qed
  have conducted: "holds (calmly st) (conduct deps act cp tid) (closed lg act) ?F" if "choice act st cp" for st cp tid
    by (rule holds_post [OF conduct_point]) (use that ended_closed in auto)
  let ?rest = "\<lambda>s1. case choose_checkpoint deps wait act s1 of
         (Inl e, s) \<Rightarrow> ending (handle_error deps e) (finish_operation deps False) s
       | (Inr (Inl r), s) \<Rightarrow> ending (ret r) (finish_operation deps False) s
       | (Inr (Inr (cp, tid)), s) \<Rightarrow> conduct deps act cp tid s"
  have rest: "holds (quiet lg) ?rest (closed lg act) ?F"
  proof (rule holdsI)
    fix s r s' assume q: "quiet lg s" and h: "?rest s = (r, s')"
    from choose_point [OF assms, of act] q show "outcome (closed lg act) ?F (r, s')"
    proof (cases rule: holdsE)
      case (1 x t)
      show ?thesis
      proof (cases x)
        case (Inl y)
        then show ?thesis using 1 h holds_at [OF early, of y t] by (simp add: may_begin_def)
      next
        case (Inr y)
        obtain cp tid where y: "y = (cp, tid)" by fastforce
        obtain st where "choice act st cp" "calmly st t"
          using 1(2) Inr y unfolding may_begin_def by (simp del: split_paired_Ex) blast
        then show ?thesis using 1(1) Inr y h holds_at [OF conducted, of st cp t tid] by simp
      qed
    next
      case (2 e t)
      then show ?thesis using h holds_at [OF failed, of t e] by simp
    qed
  qed
  have enter: "holds (quiet lg) (change (\<lambda>s. s\<lparr>ct_operationInFlight := True, ct_operationAction := Some act,
      ct_promptDeferral := True, ct_lastSafety := None\<rparr>)) (\<lambda>_. quiet lg) ?F"
    by (rule holds_change) simp
  have report: "holds (quiet lg) (recoveryResult 0) (closed lg act) ?F"
    by (rule holds_post [OF recoveryResult_quiet]) (auto intro: quiet_closed)
  show ?thesis
    unfolding performOperation_def
    by (rule holds_look, rule holds_pre [of "quiet lg"], rule holds_if, rule report, rule holds_if, rule holds_ret,
        rule quiet_closed, assumption, simp, rule holds_seq [OF enter rest]) simp
qed

lemma runOperation_point:
  assumes "considerate lg wait"
  shows "holds (quiet lg) (runOperation deps wait act) (closed lg act) (\<lambda>_ _. False)"
proof -
  let ?F = "\<lambda>(_ :: exn) (_ :: 'v ctl). False"
  have name: "holds (quiet lg) (operation_id deps) (\<lambda>_. quiet lg) ?F"
  proof (rule holdsI)
    fix s r s' assume "quiet lg s" "operation_id deps s = (r, s')"
    then show "outcome (\<lambda>_. quiet lg) ?F (r, s')"
      using names [of "ct_world s"] by (auto simp: operation_id_def quiet_def split: option.splits prod.splits)
  qed
  have set_id: "holds (quiet lg)
      (change (\<lambda>s. s\<lparr>ct_operationId := Some opId, ct_marked := filter (\<lambda>c. c \<noteq> Operation_scope) (ct_marked s)\<rparr>))
      (\<lambda>_. quiet lg) ?F" for opId
    by (rule holds_change) simp
  have operation: "holds (quiet lg) (ending (performOperation deps wait act)
      (change (\<lambda>s. s\<lparr>ct_transaction := None, ct_operationId := None\<rparr>))) (closed lg act) ?F"
    by (rule holds_ending [OF performOperation_point [OF assms] holds_change]) (auto intro: closed_reset simp: holds_outcome)
  show ?thesis
    unfolding runOperation_def
    by (rule holds_look, rule holds_pre [of "quiet lg"], rule holds_if, rule holds_ret, rule quiet_closed, assumption, simp,
        rule holds_seq [OF name holds_seq [OF set_id operation]]) simp
qed

lemma undo_redo_point:
  assumes "considerate lg wait"
  shows "holds (quiet lg) (if act = Undo then undo deps wait else redo deps wait)
    (closed lg (if act = Undo then Undo else Redo)) (\<lambda>_ _. False)"
proof -
  let ?F = "\<lambda>(_ :: exn) (_ :: 'v ctl). False"
  have report: "holds (quiet lg) (recoveryResult 0) (closed lg a) ?F" for a
    by (rule holds_post [OF recoveryResult_quiet]) (auto intro: quiet_closed)
  have stop: "holds (quiet lg) (ret (result_of c 0)) (closed lg a) ?F" if "c \<noteq> RC_ok" for c a
    by (rule holds_ret) (simp add: quiet_closed that)
  have "holds (quiet lg) (undo deps wait) (closed lg Undo) ?F"
    unfolding undo_def
    by (rule holds_look, rule holds_pre [of "quiet lg"], rule holds_if, rule report, rule holds_if, rule stop, simp,
        rule runOperation_point [OF assms]) simp
  moreover have "holds (quiet lg) (redo deps wait) (closed lg Redo) ?F"
    unfolding redo_def
    by (rule holds_look, rule holds_pre [of "quiet lg"], rule holds_if, rule report, rule holds_if, rule stop, simp,
        rule holds_if, rule stop, simp, rule runOperation_point [OF assms]) simp
  ultimately show ?thesis by simp
qed

end

section \<open>What operations guarantee\<close>

lemma logged_closed:
  assumes "considerate snd wait" "ct_transaction s = None" "snd (ct_world s) = []"
    and "(if act = Undo then undo (logged_deps deps) wait else redo (logged_deps deps) wait) s = (r, s')"
  shows "\<exists>res. r = Inr res \<and> closed snd (if act = Undo then Undo else Redo) res s'"
proof -
  have "quiet snd s" using assms by (simp add: quiet_def)
  from holds_at [OF lgd.undo_redo_point [OF assms(1), of act deps] this]
  have "outcome (closed snd (if act = Undo then Undo else Redo)) (\<lambda>_ _. False) (r, s')"
    using assms(4) by metis
  then show ?thesis by (cases r) auto
qed

text \<open>C2 (operation_protocol): Whatever the dependencies answer or throw, all transaction calls of an undo or a redo
  belong to one descriptor and follow the protocol: the session moves only after the journal has the
  prepared transaction, files change only after the journal says so, the cursor is written only after the
  files are verified, the transaction is committed only after a durable cursor, and it is aborted
  only without one and after the session and the files are back, or the session never moved.\<close>

theorem operation_protocol:
  assumes "considerate snd wait" "ct_transaction s = None" "snd (ct_world s) = []"
    and "(if act = Undo then undo (logged_deps deps) wait else redo (logged_deps deps) wait) s = (r, s')"
  shows "\<exists>d. lawful d (snd (ct_world s'))"
proof -
  from logged_closed [OF assms] obtain res where "closed snd (if act = Undo then Undo else Redo) res s'" by blast
  then show ?thesis
    unfolding closed_def concluded_def Let_def using uneventful_lawful by blast
qed



text \<open>C22 (cursor_is_history): The cursor that an operation makes durable, before it commits and moves its own stacks, describes the history as it
  will be then: its head is the last checkpoint that can be undone, its list are the checkpoints that can be redone.\<close>

theorem cursor_is_history:
  assumes "choice act (history_of s) cp"
  shows "cu_undoHead (createCursor H d act cp s) =
      (case fst (advanced act cp safety (history_of s)) of [] \<Rightarrow> None | c # cs \<Rightarrow> Some (cp_checkpointId (last (c # cs)))) \<and>
    cu_redoStack (createCursor H d act cp s) =
      map (\<lambda>e. cp_checkpointId (re_checkpoint e)) (snd (advanced act cp safety (history_of s)))"
proof -
  have last2: "butlast xs \<noteq> [] \<Longrightarrow> last (butlast xs) = xs ! (length xs - 2)" for xs :: "checkpoint_record list"
    by (cases xs rule: rev_cases) (simp_all add: last_conv_nth nth_append numeral_2_eq_2)
  have two: "butlast xs = [] \<longleftrightarrow> \<not> 2 \<le> length xs" for xs :: "checkpoint_record list"
    by (cases xs rule: rev_cases) (auto simp: Suc_le_eq)
  have head: "(case ys of [] \<Rightarrow> None | c # cs \<Rightarrow> Some (cp_checkpointId (last (c # cs)))) =
      (if ys = [] then None else Some (cp_checkpointId (last ys)))" for ys :: "checkpoint_record list"
    by (cases ys) auto
  show ?thesis
    unfolding head using last2 [of "ct_undoStack s"] two [of "ct_undoStack s"]
    by (auto simp: createCursor_def seal_cursor_def Let_def advanced_def history_of_def)
qed

section \<open>The descriptor of an operation\<close>

lemma strictly_ascending_sort: "strictly_ascending (sort_cmp compare_strings xs) \<longleftrightarrow> distinct xs"
proof -
  have d: "distinct (sort_cmp compare_strings xs) \<longleftrightarrow> distinct xs"
    using mset_eq_imp_distinct_iff [OF strings.mset_sort_cmp] .
  show ?thesis
    unfolding strictly_ascending_sorted d [symmetric]
    by (auto simp: strict_sorted_iff sorted_compare_strings intro: sorted_strict_distinct)
qed

lemma make_descriptor_sealed:
  "checksum_json (cd_hash deps) (JObj (descriptor_content (make_descriptor deps opId act rb tg p l to))) =
     Some (od_checksum (make_descriptor deps opId act rb tg p l to))"
proof -
  let ?d = "make_descriptor deps opId act rb tg p l to"
  have "json_ok (JObj (descriptor_content ?d))" by (rule json_ok_descriptor_content)
  moreover have "od_checksum ?d = content_checksum (cd_hash deps) (descriptor_content ?d)"
    by (simp add: make_descriptor_def Let_def descriptor_content_def)
  ultimately show ?thesis by (simp add: content_checksum_json)
qed

definition plan_paths :: "restore_plan \<Rightarrow> string list" where
  "plan_paths p = (case pl_scopePaths p of Some ps \<Rightarrow> ps | None \<Rightarrow> pl_deletePaths p @ pl_writePaths p)"

text \<open>C39 (descriptor_accepted): The descriptor that the controller makes passes the validation of the journal exactly if its parts
  are well formed and no path occurs twice in the scope of the plan.\<close>

theorem descriptor_accepted:
  assumes "digest (cd_hash deps)"
  shows "assertOperationDescriptor (cd_hash deps) (json_of_descriptor (make_descriptor deps opId act rb tg p l to)) =
      Inr (json_of_descriptor (make_descriptor deps opId act rb tg p l to)) \<longleftrightarrow>
    op_id_ok opId \<and> identity_ok (cd_sessionIdentity deps) \<and> cd_workspaceIdentity deps \<noteq> [] \<and> Encoding.leaf_ok l \<and> Encoding.leaf_ok to \<and>
    is_checksum tg \<and> is_checksum rb \<and> is_checksum (pl_planDigest p) \<and>
    (\<forall>q \<in> set (plan_paths p). isCanonicalRoot q) \<and> distinct (plan_paths p)"
proof -
  let ?d = "make_descriptor deps opId act rb tg p l to"
  obtain k where k: "checksum_json (cd_hash deps) (jstrs (plan_scope p)) = Some k"
    using checksum_json_ok [OF json_ok_jstrs] by blast
  have kh: "is_checksum k" using digest.checksum_json_hex [OF assms k] .
  have ch: "is_checksum (od_checksum ?d)"
    using digest.checksum_json_hex [OF assms make_descriptor_sealed] .
  have f: "od_opId ?d = opId" "od_sessionIdentity ?d = cd_sessionIdentity deps" "od_workspaceIdentity ?d = cd_workspaceIdentity deps"
      "od_fromLogicalLeaf ?d = l" "od_coverage ?d = ''paths:'' @ k"
    by (simp_all add: make_descriptor_def Let_def scope_coverage_def k)
  have s: "plan_scope p = sort_cmp compare_strings (plan_paths p)" by (simp add: plan_scope_def plan_paths_def)
  have a: "list_all isCanonicalRoot (sort_cmp compare_strings (plan_paths p)) \<longleftrightarrow> (\<forall>q \<in> set (plan_paths p). isCanonicalRoot q)"
    by (simp add: list_all_iff strings.set_sort_cmp)
  have c: "coverage_ok (''paths:'' @ k) False" "starts_with ''paths:'' (''paths:'' @ k)"
    using kh by (simp_all add: coverage_ok_def starts_with_prefix)
  show ?thesis
    unfolding descriptor_valid_iff descriptor_fields_ok_def f make_descriptor_fields s a strictly_ascending_sort
    using make_descriptor_sealed ch c k by (auto simp: s)
qed

text \<open>C23 (tree_change_refused): A navigation in the session tree makes its plan without a scope. If a path is of different kinds before and
  after, the plan both deletes and writes it, so the scope of the descriptor has it twice and the journal
  refuses to prepare the transaction: such a navigation can never be carried out.\<close>

theorem tree_change_refused:
  assumes "plan (cd_hash deps) cwd ws store current target None = Inr p"
    and "readOwnedPaths cwd ws store current None = Inr cur" "readOwnedPaths cwd ws store target None = Inr tgt"
    and "kind_at (workspace_of cur) q = Some k" "kind_at (workspace_of tgt) q = Some k'" "k \<noteq> k'"
  shows "\<exists>e. prepare (cd_hash deps) env
    (json_of_descriptor (make_descriptor deps opId Tree (sm_manifestId current) (sm_manifestId target) p fromLeaf toLeaf))
    (json_of_plan p) st = (Inl e, st, [])"
proof -
  let ?d = "make_descriptor deps opId Tree (sm_manifestId current) (sm_manifestId target) p fromLeaf toLeaf"
  have sc: "pl_scopePaths p = None" by (rule planE [OF assms(1)]) simp
  note l = plan_lists [OF assms(1), unfolded sc, OF assms(2,3), unfolded in_scope_def, simplified]
  have "q \<in> set (pl_deletePaths p)" "q \<in> set (pl_writePaths p)"
    using assms(4-6) unfolding l(2,5) by (auto simp: deletes_def writes_def kind_at_def split: option.splits)
  then have "\<not> distinct (plan_paths p)" by (auto simp: plan_paths_def sc)
  then have "\<not> strictly_ascending (od_scopePaths ?d)"
    by (simp add: plan_scope_def strictly_ascending_sort plan_paths_def)
  then have "assertOperationDescriptor (cd_hash deps) (json_of_descriptor ?d) \<noteq> Inr v" for v
    unfolding descriptor_valid_iff by (simp add: descriptor_fields_ok_def)
  then obtain e where e: "assertOperationDescriptor (cd_hash deps) (json_of_descriptor ?d) = Inl e"
    by (cases "assertOperationDescriptor (cd_hash deps) (json_of_descriptor ?d)") auto
  show ?thesis by (simp add: prepare_def e validated_def)
qed

section \<open>A controller at work\<close>

text \<open>One checkpoint that changed \<open>f\<close>; the session goes from \<open>b\<close> back to \<open>a\<close>.\<close>

definition demo_step :: checkpoint_record where
  "demo_step =
     \<lparr>cp_checkpointId = ''c'', cp_runId = ''r'', cp_sessionIdentity = od_sessionIdentity demo_descriptor, cp_startEntryId = ''s'',
      cp_userEntryId = ''u'', cp_endLeafId = ''b'', cp_rawPrompt = ''p'', cp_beforeManifestId = hex_id ''51'',
      cp_afterManifestId = hex_id ''54'', cp_changedPaths = [''f''], cp_checksum = []\<rparr>"

definition demo_controller :: "unit controller_deps" where
  "demo_controller =
     \<lparr>cd_hash = zero_digest, cd_workspaceIdentity = ''w'', cd_sessionIdentity = od_sessionIdentity demo_descriptor,
      cd_isAgentIdle = (\<lambda>_. True), cd_abortAgent = ret (), cd_waitForIdle = (\<lambda>_. ret True),
      cd_getLogicalLeafId = (\<lambda>_. Some ''b''), cd_acquireWorkspaceLock = ret (), cd_release = ret (),
      cd_findUserEntryAfter = (\<lambda>_ _. None), cd_resolveSessionTarget = (\<lambda>_ _. ret (Some ''a'')),
      cd_navigateSession = (\<lambda>_ _. ret (False, Some ''a'')), cd_restoreSessionLeaf = (\<lambda>_. ret True),
      cd_resolveTreeTarget = (\<lambda>_. throw plain_error), cd_appendControl = (\<lambda>_. ret (Some ''e'')),
      cd_appendCursor = (\<lambda>_. ret (Cursor_durable None)), cd_capture = (\<lambda>_. ret (sample_manifest [''k''])),
      cd_captureBaseline = None, cd_captureSafety = None, cd_changedPaths = (\<lambda>_ _. ret [''f'']),
      cd_loadManifest = (\<lambda>_. ret (sample_manifest [])),
      cd_planRestore = (\<lambda>a b _. ret (emptyRestorePlan zero_digest (sm_manifestId a) (sm_manifestId b))),
      cd_applyRestore = (\<lambda>_ _ _. ret \<lparr>rr_code = RC_ok, rr_verifiedPaths = 1, rr_failureCode = None\<rparr>),
      cd_recoverPending = ret None, cd_prepare = (\<lambda>_ _. ret ()), cd_setPhase = (\<lambda>_ _ _. ret ()), cd_setPhases = None,
      cd_markCommitted = (\<lambda>_. ret ()), cd_now = (\<lambda>_. 0), cd_context = (\<lambda>_ _. None),
      cd_exitUnconfirmed = (\<lambda>_ _. False), cd_randomUUID = (\<lambda>w. (''1'', w))\<rparr>"

definition demo_start :: "(unit \<times> ctl_event list) ctl" where
  "demo_start =
     \<lparr>ct_world = ((), []), ct_undoStack = [demo_step], ct_redoStack = [], ct_staged = None, ct_pendingTree = None,
      ct_locked = False, ct_lockedReason = None, ct_historyPaused = False, ct_operationInFlight = False,
      ct_operationAction = None, ct_promptDeferral = False, ct_lastSafety = None, ct_lastApplied = None,
      ct_captureFailure = None, ct_warmUp = False, ct_warmUpManifest = None, ct_inputCapture = None,
      ct_inputCommit = False, ct_deferAgentStart = False, ct_runCompletion = None, ct_settling = False,
      ct_treeCancelled = False, ct_disposed = False, ct_unsafeExit = False, ct_marked = [], ct_operationId = None,
      ct_transaction = None, ct_recoveryCompleted = True, ct_counter = 0\<rparr>"

definition demo_wait :: "'v waiting" where
  "demo_wait s = (True, s)"

lemma demo_considerate: "considerate lg demo_wait"
  by (simp add: considerate_def demo_wait_def)

lemmas run_simps =
  undo_def redo_def look_def ret_def throw_def seq_def change_def catching_def ending_def call_def runOperation_def operation_id_def
  performOperation_def choose_checkpoint_def measured_def check_def checkOperation_def hasUnconfirmedExit_def ensureIdle_def
  waitForCheckpoint_def conduct_def carry_out_def restore_checkpoint_def giving_up_def safety_capture_def
  createDescriptor_def createDescriptorFromManifestIds_def begin_transaction_def restore_files_def navigate_def set_phase_def
  setJournalPhases_def commit_cursor_def advanceHistory_def finish_operation_def check_exit_def release_lock_def
  noting_def logged_deps_def

lemma demo_undoes:
  "\<exists>s'. undo (logged_deps demo_controller) demo_wait demo_start =
     (Inr ((result_of RC_ok 1)\<lparr>or_refillPrompt := Some ''p''\<rparr>), s')"
  by (simp add: run_simps demo_controller_def demo_start_def demo_step_def Let_def demo_wait_def)

lemma demo_start_fresh: "ct_transaction demo_start = None" "snd (ct_world demo_start) = []"
  by (simp_all add: demo_start_def)

theorem operation_protocol_witness:
  "\<exists>r s' d. undo (logged_deps demo_controller) demo_wait demo_start = (r, s') \<and> lawful d (snd (ct_world s'))"
proof -
  obtain s' where u: "undo (logged_deps demo_controller) demo_wait demo_start =
      (Inr ((result_of RC_ok 1)\<lparr>or_refillPrompt := Some ''p''\<rparr>), s')"
    using demo_undoes by blast
  then have "(if Undo = Undo then undo (logged_deps demo_controller) demo_wait else redo (logged_deps demo_controller) demo_wait) demo_start =
      (Inr ((result_of RC_ok 1)\<lparr>or_refillPrompt := Some ''p''\<rparr>), s')"
    by simp
  from operation_protocol [OF demo_considerate demo_start_fresh this] u show ?thesis by blast
qed


text \<open>The same, but the session refuses to move.\<close>

definition demo_refusing :: "unit controller_deps" where
  "demo_refusing = demo_controller\<lparr>cd_navigateSession := (\<lambda>_ _. ret (True, None))\<rparr>"

lemma demo_aborts:
  "\<exists>s' d p. undo (logged_deps demo_refusing) demo_wait demo_start = (Inr (result_of RC_restore_failed_safe 0), s') \<and>
     \<not> ct_locked s' \<and> Lg_prepared d p \<in> set (snd (ct_world s'))"
  by (simp add: run_simps demo_refusing_def demo_controller_def demo_start_def demo_step_def Let_def demo_wait_def)


theorem cursor_is_history_witness:
  "cu_redoStack (createCursor zero_digest demo_descriptor Undo demo_step demo_start) = [''c''] \<and>
   cu_undoHead (createCursor zero_digest demo_descriptor Undo demo_step demo_start) = None"
proof -
  have "choice Undo (history_of demo_start) demo_step" by (simp add: choice_def history_of_def demo_start_def)
  from cursor_is_history [OF this, of zero_digest demo_descriptor demo_hex] show ?thesis
    by (simp add: advanced_def history_of_def demo_start_def demo_step_def)
qed

theorem descriptor_accepted_witness:
  "assertOperationDescriptor zero_digest
     (json_of_descriptor (make_descriptor demo_controller ''op'' Undo demo_hex demo_hex
        (emptyRestorePlan zero_digest demo_hex demo_hex) (Some ''b'') (Some ''a''))) =
   Inr (json_of_descriptor (make_descriptor demo_controller ''op'' Undo demo_hex demo_hex
        (emptyRestorePlan zero_digest demo_hex demo_hex) (Some ''b'') (Some ''a'')))"
proof -
  have H: "cd_hash demo_controller = zero_digest" by (simp add: demo_controller_def)
  have d: "digest (cd_hash demo_controller)" using zero_digest_hex by (simp add: H)
  have "is_checksum (pl_planDigest (emptyRestorePlan zero_digest demo_hex demo_hex))"
    using zero_digest_hex
    by (simp add: emptyRestorePlan_def Let_def plan_content_def content_checksum_hex)
  moreover have "op_id_ok ''op''" "identity_ok (cd_sessionIdentity demo_controller)" "cd_workspaceIdentity demo_controller \<noteq> []"
    by (simp_all add: op_id_ok_def identity_ok_def demo_controller_def demo_descriptor_def has_char_def)
  ultimately show ?thesis
    using descriptor_accepted [OF d, of "''op''" Undo demo_hex demo_hex "emptyRestorePlan zero_digest demo_hex demo_hex" "Some ''b''" "Some ''a''"]
    by (simp add: H Encoding.leaf_ok_def plan_paths_def emptyRestorePlan_def Let_def)
qed

theorem tree_change_refused_witness:
  "\<exists>e. prepare length_digest demo_env
    (json_of_descriptor (make_descriptor (demo_controller\<lparr>cd_hash := length_digest\<rparr>) ''op'' Tree
      (sm_manifestId (sample_manifest [])) (sm_manifestId (sample_manifest [''k''])) (sample_plan None) (Some ''b'') (Some ''a'')))
    (json_of_plan (sample_plan None)) None = (Inl e, None, [])"
proof -
  let ?deps = "demo_controller\<lparr>cd_hash := length_digest\<rparr>"
  have H: "cd_hash ?deps = length_digest" by simp
  have k: "kind_at (workspace_of (sample_paths [] None)) ''d'' = Some Directory"
      "kind_at (workspace_of (sample_paths [''k''] None)) ''d'' = Some File"
    by (simp_all add: sample_paths_None kind_at_def workspace_of_def sample_entry_def entry_key_def)
  from tree_change_refused [of ?deps, unfolded H, OF sample_planned(1) _ _ k] show ?thesis
    by (auto simp: sample_read)
qed

end
