(* ===== verification/Quarantine.thy ===== *)
theory Quarantine
  imports Effects MutationJournal PathSafety OperationContext
begin

unbundle bit_operations_syntax

text \<open>
  \<open>src/src/quarantine.ts\<close>: one path of the workspace is replaced or deleted without ever overwriting
  what somebody else put there. The old leaf is linked to a source artifact beside it before its name
  is removed, the new leaf is written to a target artifact and linked to the name, and the mutation
  journal says how far the mutation is, so that it can be undone or finished later.

  The world has the tree of the workspace (its leaves by their relative path, and the inodes the
  regular files among them share), the root the requested root now resolves to, and the journal. Every system call counts
  up and may fail: \<open>qe_fault\<close> says whether and with which error the call of that number fails. A call
  that fails does nothing, except that a failing write or append leaves any part of its bytes. A crash is a call after which
  every other fails, so what holds when an operation throws also holds after a crash.
\<close>

section \<open>The world\<close>

datatype leaf = Regular nat | Symlink_to string | Folder | Special

record inode =
  in_mode :: nat
  in_bytes :: string

record tree =
  tr_leaves :: "string \<rightharpoonup> leaf"
  tr_inodes :: "nat \<rightharpoonup> inode"
  tr_next :: nat

record quarantine_world =
  qw_tree :: tree
  qw_identity :: string
  qw_journal :: mutation_journal
  qw_disk :: mutation_disk
  qw_calls :: nat

datatype quarantine_code = External_concurrency | Fingerprint_mismatch | Unsafe_artifact

datatype quarantine_exn =
    Quarantine_error quarantine_code | Errno errno | Path_error path_error | Journal_error journal_error
  | Stopped exn | Plain_error string

type_synonym 'a q_eff = "(quarantine_world, quarantine_exn, 'a) eff"

text \<open>
  The manager and what surrounds it: the digest, the root it was made for, the context
  \<open>checkOperation\<close> sees at each call, the failures, the nonces, and the hooks of its options.
\<close>

record quarantine_env =
  qe_hash :: hash
  qe_cwd :: string
  qe_root :: string
  qe_win32 :: bool
  qe_context :: "nat \<Rightarrow> bool \<times> op_context option \<times> int"
  qe_fault :: "nat \<Rightarrow> errno option"
  qe_torn :: "nat \<Rightarrow> nat"
  qe_nonce :: "nat \<Rightarrow> string"
  qe_beforeSourceCapture :: "unit q_eff option"
  qe_beforeSourceRemove :: "unit q_eff option"
  qe_beforeRestoreInstall :: "unit q_eff option"
  qe_beforeRestoreSourceCleanup :: "unit q_eff option"
  qe_afterRestoreSourceCleanup :: "unit q_eff option"
  qe_beforeTargetCreate :: "unit q_eff option"
  qe_syncTargetArtifacts :: bool

text \<open>Effects one after the other, and a hook, which may be missing.\<close>

primrec in_order :: "('s, 'e, unit) eff list \<Rightarrow> ('s, 'e, unit) eff" where
  "in_order [] = ret ()"
| "in_order (m # ms) = seq m (\<lambda>_. in_order ms)"

declare in_order.simps [simp del]

definition hook :: "('s, 'e, unit) eff option \<Rightarrow> ('s, 'e, unit) eff" where
  "hook h = (case h of None \<Rightarrow> ret () | Some m \<Rightarrow> m)"

definition require :: "bool \<Rightarrow> 'e \<Rightarrow> ('s, 'e, unit) eff" where
  "require b e = (if b then ret () else throw e)"

definition lift_result :: "('x \<Rightarrow> 'e) \<Rightarrow> 'x + 'a \<Rightarrow> ('s, 'e, 'a) eff" where
  "lift_result f r = (case r of Inl e \<Rightarrow> throw (f e) | Inr x \<Rightarrow> ret x)"

section \<open>System calls\<close>

definition syscall :: "quarantine_env \<Rightarrow> (tree \<Rightarrow> errno + 'a \<times> tree) \<Rightarrow> 'a q_eff" where
  "syscall q f w =
     (let w' = w\<lparr>qw_calls := Suc (qw_calls w)\<rparr> in
      case qe_fault q (qw_calls w) of
        Some e \<Rightarrow> (Inl (Errno e), w')
      | None \<Rightarrow> (case f (qw_tree w) of Inl e \<Rightarrow> (Inl (Errno e), w') | Inr (x, t) \<Rightarrow> (Inr x, w'\<lparr>qw_tree := t\<rparr>)))"

definition idle_call :: "quarantine_env \<Rightarrow> unit q_eff" where
  "idle_call q = syscall q (\<lambda>t. Inr ((), t))"

definition parent_exists :: "tree \<Rightarrow> string \<Rightarrow> bool" where
  "parent_exists t p \<longleftrightarrow> \<not> has_char (CHR ''/'') p \<or> tr_leaves t (workspaceParent p) = Some Folder"

definition set_leaf :: "string \<Rightarrow> leaf option \<Rightarrow> tree \<Rightarrow> tree" where
  "set_leaf p l t = t\<lparr>tr_leaves := (tr_leaves t)(p := l)\<rparr>"

definition lstat_leaf :: "quarantine_env \<Rightarrow> string \<Rightarrow> leaf q_eff" where
  "lstat_leaf q p = syscall q (\<lambda>t.
     case tr_leaves t p of None \<Rightarrow> Inl ''ENOENT'' | Some l \<Rightarrow> Inr (l, t))"

definition readlink_leaf :: "quarantine_env \<Rightarrow> string \<Rightarrow> string q_eff" where
  "readlink_leaf q p = syscall q (\<lambda>t.
     case tr_leaves t p of None \<Rightarrow> Inl ''ENOENT'' | Some (Symlink_to text) \<Rightarrow> Inr (text, t) | Some _ \<Rightarrow> Inl ''EINVAL'')"

text \<open>\<open>open\<close> with \<open>O_NOFOLLOW\<close>, \<open>stat\<close> and \<open>readFile\<close> of the handle; \<open>None\<close> if it is no regular file.\<close>

definition open_nofollow :: "quarantine_env \<Rightarrow> string \<Rightarrow> inode option q_eff" where
  "open_nofollow q p = syscall q (\<lambda>t.
     case tr_leaves t p of
       None \<Rightarrow> Inl ''ENOENT''
     | Some (Regular i) \<Rightarrow> Inr (tr_inodes t i, t)
     | Some (Symlink_to text) \<Rightarrow> Inl ''ELOOP''
     | Some Folder \<Rightarrow> Inr (None, t)
     | Some Special \<Rightarrow> Inr (None, t))"

definition new_name :: "tree \<Rightarrow> string \<Rightarrow> errno + unit" where
  "new_name t p = (if tr_leaves t p \<noteq> None then Inl ''EEXIST'' else guard (parent_exists t p) ''ENOENT'')"

definition link_leaf :: "quarantine_env \<Rightarrow> string \<Rightarrow> string \<Rightarrow> unit q_eff" where
  "link_leaf q old new = syscall q (\<lambda>t.
     case tr_leaves t old of
       None \<Rightarrow> Inl ''ENOENT''
     | Some Folder \<Rightarrow> Inl ''EPERM''
     | Some l \<Rightarrow> rbind (new_name t new) (\<lambda>_. Inr ((), set_leaf new (Some l) t)))"

definition symlink_leaf :: "quarantine_env \<Rightarrow> string \<Rightarrow> string \<Rightarrow> unit q_eff" where
  "symlink_leaf q text p = syscall q (\<lambda>t.
     rbind (new_name t p) (\<lambda>_. Inr ((), set_leaf p (Some (Symlink_to text)) t)))"

definition unlink_leaf :: "quarantine_env \<Rightarrow> string \<Rightarrow> unit q_eff" where
  "unlink_leaf q p = syscall q (\<lambda>t.
     case tr_leaves t p of
       None \<Rightarrow> Inl ''ENOENT''
     | Some Folder \<Rightarrow> Inl ''EISDIR''
     | Some l \<Rightarrow> Inr ((), set_leaf p None t))"

text \<open>\<open>fsyncDirectory\<close>: the directory is opened and synced; some errors of the sync are tolerated.\<close>

definition sync_directory :: "quarantine_env \<Rightarrow> string \<Rightarrow> unit q_eff" where
  "sync_directory q p =
     (if qe_win32 q then ret ()
      else in_order
        [idle_call q,
         catching (idle_call q)
           (\<lambda>e. case e of Errno x \<Rightarrow> if isToleratedDirFsyncError x then ret () else throw e | _ \<Rightarrow> throw e)])"

text \<open>
  \<open>writeBytesExclusive\<close> without syncing the directory. A write that fails has written the first
  \<open>qe_torn\<close> bytes. Closing the handle cannot fail.
\<close>

definition create_file :: "quarantine_env \<Rightarrow> string \<Rightarrow> nat \<Rightarrow> nat q_eff" where
  "create_file q p mode = syscall q (\<lambda>t.
     rbind (new_name t p) (\<lambda>_.
     Inr (tr_next t, set_leaf p (Some (Regular (tr_next t)))
       (t\<lparr>tr_inodes := (tr_inodes t)(tr_next t \<mapsto> \<lparr>in_mode = mode, in_bytes = []\<rparr>), tr_next := Suc (tr_next t)\<rparr>))))"

definition fill_file :: "nat \<Rightarrow> string \<Rightarrow> nat \<Rightarrow> quarantine_world \<Rightarrow> quarantine_world" where
  "fill_file i bytes mode w = w\<lparr>qw_calls := Suc (qw_calls w),
     qw_tree := qw_tree w\<lparr>tr_inodes := (tr_inodes (qw_tree w))(i \<mapsto> \<lparr>in_mode = mode, in_bytes = bytes\<rparr>)\<rparr>\<rparr>"

definition write_file :: "quarantine_env \<Rightarrow> nat \<Rightarrow> string \<Rightarrow> nat \<Rightarrow> unit q_eff" where
  "write_file q i bytes mode w =
     (case qe_fault q (qw_calls w) of
        Some e \<Rightarrow> (Inl (Errno e), fill_file i (take (qe_torn q (qw_calls w)) bytes) mode w)
      | None \<Rightarrow> (Inr (), fill_file i bytes mode w))"

definition write_exclusive :: "quarantine_env \<Rightarrow> string \<Rightarrow> string \<Rightarrow> nat \<Rightarrow> bool \<Rightarrow> unit q_eff" where
  "write_exclusive q p bytes mode syncFile =
     seq (create_file q p mode) (\<lambda>i.
     in_order ([write_file q i bytes mode, idle_call q] @ (if syncFile then [idle_call q] else [])))"

text \<open>A call of the mutation journal. An append that fails leaves any part of its lines.\<close>

definition torn_append :: "hash \<Rightarrow> nat \<Rightarrow> mutation_record list \<Rightarrow> mutation_journal \<Rightarrow> mutation_disk \<Rightarrow> mutation_journal \<times> mutation_disk" where
  "torn_append H k rs j d =
     (case current_records H j d of
        (Inl e, j1) \<Rightarrow> (j1, d)
      | (Inr cur, j1) \<Rightarrow>
          (j1, \<lparr>md_bytes = Some (kept_bytes cur d @ take k (record_lines rs)), md_stamp = Suc (md_stamp d)\<rparr>))"

definition journal_state :: "mutation_journal \<times> mutation_disk \<Rightarrow> quarantine_world \<Rightarrow> quarantine_world" where
  "journal_state jd w = w\<lparr>qw_journal := fst jd, qw_disk := snd jd, qw_calls := Suc (qw_calls w)\<rparr>"

definition journal_write :: "quarantine_env \<Rightarrow> wal_op \<Rightarrow> mutation_record list q_eff" where
  "journal_write q op w =
     (case wal_run (qe_hash q) op (qw_journal w) (qw_disk w) of
        (Inl e, jd) \<Rightarrow> (Inl (Journal_error e), journal_state jd w)
      | (Inr rs, jd) \<Rightarrow>
          (case qe_fault q (qw_calls w) of
             None \<Rightarrow> (Inr rs, journal_state jd w)
           | Some e \<Rightarrow>
               (Inl (Errno e),
                journal_state (torn_append (qe_hash q) (qe_torn q (qw_calls w)) rs (qw_journal w) (qw_disk w)) w)))"

definition journal_read :: "quarantine_env \<Rightarrow> (mutation_journal \<Rightarrow> mutation_disk \<Rightarrow> 'a mj_result) \<Rightarrow> 'a q_eff" where
  "journal_read q f w =
     (case qe_fault q (qw_calls w) of
        Some e \<Rightarrow> (Inl (Errno e), w\<lparr>qw_calls := Suc (qw_calls w)\<rparr>)
      | None \<Rightarrow>
          (case f (qw_journal w) (qw_disk w) of
             (Inl e, jd) \<Rightarrow> (Inl (Journal_error e), journal_state jd w)
           | (Inr x, jd) \<Rightarrow> (Inr x, journal_state jd w)))"

section \<open>Fingerprints\<close>

definition fingerprintBytes :: "hash \<Rightarrow> string \<Rightarrow> string \<Rightarrow> nat \<Rightarrow> string" where
  "fingerprintBytes H path bytes mode = content_checksum H
     [(''path'', JStr path), (''kind'', JStr ''file''),
      (''mode'', jint (if mode AND 73 = 0 then 420 else 493)), (''content'', JStr (H bytes))]"

definition fingerprintSymlink :: "hash \<Rightarrow> string \<Rightarrow> string \<Rightarrow> string" where
  "fingerprintSymlink H path linkText = content_checksum H
     [(''path'', JStr path), (''kind'', JStr ''symlink''), (''linkText'', JStr linkText)]"

definition fingerprintAbsent :: "hash \<Rightarrow> string \<Rightarrow> string" where
  "fingerprintAbsent H path = content_checksum H [(''path'', JStr path), (''kind'', JStr ''absent'')]"

definition fingerprintFile :: "quarantine_env \<Rightarrow> string \<Rightarrow> string \<Rightarrow> string q_eff" where
  "fingerprintFile q p logical =
     seq (open_nofollow q p) (\<lambda>f. case f of
       None \<Rightarrow> throw (Plain_error ''not a regular file'')
     | Some n \<Rightarrow> ret (fingerprintBytes (qe_hash q) logical (in_bytes n) (in_mode n)))"

definition is_missing :: "quarantine_exn \<Rightarrow> bool" where
  "is_missing e \<longleftrightarrow> e = Errno ''ENOENT'' \<or> e = Errno ''ENOTDIR''"

definition lstat_or_none :: "quarantine_env \<Rightarrow> string \<Rightarrow> leaf option q_eff" where
  "lstat_or_none q p =
     catching (seq (lstat_leaf q p) (\<lambda>l. ret (Some l))) (\<lambda>e. if is_missing e then ret None else throw e)"

definition fingerprintLeaf :: "quarantine_env \<Rightarrow> string \<Rightarrow> string \<Rightarrow> string q_eff" where
  "fingerprintLeaf q p logical =
     seq (lstat_or_none q p) (\<lambda>m. case m of
       None \<Rightarrow> ret (fingerprintAbsent (qe_hash q) logical)
     | Some l \<Rightarrow> (case l of
         Symlink_to _ \<Rightarrow> seq (readlink_leaf q p) (\<lambda>t. ret (fingerprintSymlink (qe_hash q) logical t))
       | Regular _ \<Rightarrow> fingerprintFile q p logical
       | _ \<Rightarrow> throw (Plain_error ''not a supported leaf'')))"

definition exists_leaf :: "quarantine_env \<Rightarrow> string \<Rightarrow> bool q_eff" where
  "exists_leaf q p = seq (lstat_or_none q p) (\<lambda>m. ret (m \<noteq> None))"

section \<open>Checks\<close>

abbreviation refuse :: "quarantine_code \<Rightarrow> quarantine_exn" where
  "refuse c \<equiv> Quarantine_error c"

definition assertNotGitMetadata :: "string \<Rightarrow> unit q_eff" where
  "assertNotGitMetadata p =
     require (\<not> has_git_component p) (refuse Unsafe_artifact)"

definition assertFingerprintValue :: "string \<Rightarrow> unit q_eff" where
  "assertFingerprintValue v = require (is_checksum v) (Plain_error ''invalid fingerprint'')"

definition assertMode :: "nat \<Rightarrow> unit q_eff" where
  "assertMode mode = require (mode = 420 \<or> mode = 493) (Plain_error ''invalid mode'')"

definition check_here :: "quarantine_env \<Rightarrow> unit q_eff" where
  "check_here q = look (\<lambda>w. case qe_context q (qw_calls w) of
     (unsafe, context, now) \<Rightarrow> lift_result Stopped (checkOperation unsafe context now))"

definition assertWorkspaceIdentity :: "quarantine_env \<Rightarrow> unit q_eff" where
  "assertWorkspaceIdentity q = in_order
     [check_here q,
      idle_call q,
      look (\<lambda>w. require (qw_identity w = qe_root q) (refuse Unsafe_artifact))]"

text \<open>\<open>lstat\<close> of an absolute path, from its components; the root and its parents are directories.\<close>

definition tree_lstat :: "quarantine_env \<Rightarrow> tree \<Rightarrow> lstat" where
  "tree_lstat q t components =
     (let root = absolute_parts (qe_cwd q) (qe_root q) in
      if take (length root) components = root \<and> length root < length components then
        (case tr_leaves t (join_with ''/'' (drop (length root) components)) of
           None \<Rightarrow> Inl ''ENOENT''
         | Some (Symlink_to _) \<Rightarrow> Inr StatSymlink
         | Some Folder \<Rightarrow> Inr StatDirectory
         | Some _ \<Rightarrow> Inr StatOther)
      else Inr StatDirectory)"

definition assertPath :: "quarantine_env \<Rightarrow> string \<Rightarrow> unit q_eff" where
  "assertPath q p = in_order
     [assertNotGitMetadata p,
      seq (lift_result Path_error (relativeSafePath (qe_cwd q) (qe_root q) p)) (\<lambda>_. ret ()),
      seq (syscall q (\<lambda>t. Inr (tree_lstat q t, t))) (\<lambda>lstat.
        lift_result Path_error (assertNoSymlinkEscape (qe_cwd q) lstat (qe_root q) p))]"

definition assertMutationPaths :: "quarantine_env \<Rightarrow> string list \<Rightarrow> unit q_eff" where
  "assertMutationPaths q paths = in_order (assertWorkspaceIdentity q # map (assertPath q) paths)"

definition is_nonce :: "string \<Rightarrow> bool" where
  "is_nonce s \<longleftrightarrow> length s = 32 \<and> list_all is_hex_digit s"

definition is_artifact_name :: "string \<Rightarrow> bool" where
  "is_artifact_name s \<longleftrightarrow>
     take 12 s = ''.pi-undo-q1-'' \<and> is_nonce (take 32 (drop 12 s)) \<and> drop 44 s \<in> set [''-source'', ''-target'']"

definition dirname :: "string \<Rightarrow> string" where
  "dirname p = (if has_char (CHR ''/'') p then workspaceParent p else ''.'')"

definition assertArtifactPath :: "quarantine_env \<Rightarrow> string \<Rightarrow> string \<Rightarrow> unit q_eff" where
  "assertArtifactPath q p artifact = in_order
     [assertPath q artifact,
      require (dirname p = dirname artifact \<and> is_artifact_name (last (split_on (CHR ''/'') artifact))) (refuse Unsafe_artifact)]"

definition assertFingerprint :: "quarantine_env \<Rightarrow> string \<Rightarrow> string \<Rightarrow> string \<Rightarrow> unit q_eff" where
  "assertFingerprint q p logical expected =
     seq (fingerprintLeaf q p logical) (\<lambda>actual. require (actual = expected) (refuse Fingerprint_mismatch))"

definition same_inode :: "leaf \<Rightarrow> leaf \<Rightarrow> bool" where
  "same_inode a b \<longleftrightarrow> (case (a, b) of (Regular i, Regular j) \<Rightarrow> i = j | _ \<Rightarrow> False)"

definition assertSameFileIdentity :: "quarantine_env \<Rightarrow> string \<Rightarrow> string \<Rightarrow> unit q_eff" where
  "assertSameFileIdentity q original artifact =
     seq (lstat_leaf q original) (\<lambda>a. seq (lstat_leaf q artifact) (\<lambda>b.
     require (same_inode a b) (refuse External_concurrency)))"

definition immutableMutation :: "mutation_record \<Rightarrow> string option" where
  "immutableMutation r = immutablePayload r"

definition assertOwnedRecord :: "quarantine_env \<Rightarrow> mutation_record \<Rightarrow> mutation_record q_eff" where
  "assertOwnedRecord q r =
     seq (assertWorkspaceIdentity q) (\<lambda>_.
     seq (journal_read q (loadOrdinal (qe_hash q) (mr_ordinal r))) (\<lambda>found. case found of
       None \<Rightarrow> throw (refuse Unsafe_artifact)
     | Some owned \<Rightarrow>
         seq (in_order
           ([require (immutableMutation owned = immutableMutation r) (refuse Unsafe_artifact),
             assertPath q (mr_path owned),
             assertArtifactPath q (mr_path owned) (mr_sourceArtifact owned)] @
            (case mr_targetArtifact owned of
               None \<Rightarrow> [] | Some t \<Rightarrow> [assertArtifactPath q (mr_path owned) t]))) (\<lambda>_. ret owned)))"

section \<open>Allocating the artifacts\<close>

definition in_parent :: "string \<Rightarrow> string \<Rightarrow> string" where
  "in_parent p name = (let parent = workspaceParent p in if parent = [] then name else parent @ ''/'' @ name)"

definition artifact_name :: "string \<Rightarrow> string \<Rightarrow> string" where
  "artifact_name nonce role = ''.pi-undo-q1-'' @ nonce @ ''-'' @ role"

fun allocate_artifacts :: "quarantine_env \<Rightarrow> string \<Rightarrow> bool \<Rightarrow> nat \<Rightarrow> (string \<times> string option) q_eff" where
  "allocate_artifacts q p withTarget 0 = throw (refuse Unsafe_artifact)"
| "allocate_artifacts q p withTarget (Suc attempts) = look (\<lambda>w.
     let nonce = qe_nonce q (qw_calls w);
         source = in_parent p (artifact_name nonce ''source'');
         target = in_parent p (artifact_name nonce ''target'')
     in if \<not> is_nonce nonce then throw (Plain_error ''invalid nonce'')
        else seq (exists_leaf q source) (\<lambda>taken.
          if taken then allocate_artifacts q p withTarget attempts
          else if \<not> withTarget then ret (source, None)
          else seq (exists_leaf q target) (\<lambda>taken.
            if taken then allocate_artifacts q p withTarget attempts else ret (source, Some target))))"

definition artifactPaths :: "quarantine_env \<Rightarrow> string \<Rightarrow> bool \<Rightarrow> (string \<times> string option) q_eff" where
  "artifactPaths q p withTarget = allocate_artifacts q p withTarget 128"

section \<open>Taking the source away\<close>

definition no_clobber :: "unit q_eff \<Rightarrow> unit q_eff" where
  "no_clobber m = catching m (\<lambda>e. throw (if e = Errno ''EEXIST'' then refuse External_concurrency else e))"

text \<open>The end of \<open>quarantineSource\<close>, from what the path was: its \<open>lstat\<close> and the text of the link.\<close>

definition move_source :: "quarantine_env \<Rightarrow> mutation_record \<Rightarrow> leaf \<Rightarrow> string option \<Rightarrow> unit q_eff" where
  "move_source q r metadata linkText =
     (let original = mr_path r; source = mr_sourceArtifact r in in_order
       [require (case metadata of Regular _ \<Rightarrow> True | Symlink_to _ \<Rightarrow> True | _ \<Rightarrow> False) (refuse Unsafe_artifact),
        hook (qe_beforeSourceCapture q),
        assertMutationPaths q [original, source],
        no_clobber (case linkText of None \<Rightarrow> link_leaf q original source | Some t \<Rightarrow> symlink_leaf q t source),
        sync_directory q original,
        hook (qe_beforeSourceRemove q),
        assertMutationPaths q [original, source],
        assertFingerprint q source original (mr_sourceFingerprint r),
        assertFingerprint q original original (mr_sourceFingerprint r),
        (if linkText = None then
           seq (lstat_leaf q source) (\<lambda>a. seq (lstat_leaf q original) (\<lambda>b.
             require (same_inode a b) (refuse External_concurrency)))
         else ret ()),
        unlink_leaf q original,
        assertFingerprint q source original (mr_sourceFingerprint r)])"

definition quarantineSource :: "quarantine_env \<Rightarrow> mutation_record \<Rightarrow> unit q_eff" where
  "quarantineSource q r =
     (let original = mr_path r; source = mr_sourceArtifact r in
      seq (assertFingerprint q original original (mr_sourceFingerprint r)) (\<lambda>_.
      if mr_sourceFingerprint r = fingerprintAbsent (qe_hash q) original then
        seq (exists_leaf q source) (\<lambda>taken. in_order
          [require (\<not> taken) (refuse Unsafe_artifact),
           assertFingerprint q original original (mr_sourceFingerprint r)])
      else
        seq (lstat_leaf q original) (\<lambda>metadata.
        seq (case metadata of Symlink_to _ \<Rightarrow> seq (readlink_leaf q original) (\<lambda>t. ret (Some t)) | _ \<Rightarrow> ret None)
          (move_source q r metadata))))"

section \<open>Replacing and deleting one path\<close>

record replace_file =
  rf_path :: string
  rf_targetBytes :: string
  rf_targetMode :: nat
  rf_sourceFingerprint :: string
  rf_targetFingerprint :: string
  rf_beforeInstall :: "unit q_eff option"

record replace_symlink =
  rs_path :: string
  rs_targetLinkText :: string
  rs_sourceFingerprint :: string
  rs_targetFingerprint :: string
  rs_beforeInstall :: "unit q_eff option"

record delete_leaf =
  dl_path :: string
  dl_sourceFingerprint :: string
  dl_targetFingerprint :: string

definition to_verified :: "mutation_state list" where
  "to_verified = [SOURCE_QUARANTINED, SOURCE_VERIFIED, TARGET_INSTALLED, TARGET_VERIFIED]"

text \<open>\<open>journal.begin\<close>, and \<open>(await journal.advanceMany(...)).at(-1)\<close>.\<close>

definition begin_mutation ::
  "quarantine_env \<Rightarrow> mutation_kind \<Rightarrow> string \<Rightarrow> string \<Rightarrow> string option \<Rightarrow> string \<Rightarrow> string \<Rightarrow> mutation_record q_eff" where
  "begin_mutation q kind path source target sourceFingerprint targetFingerprint =
     seq (journal_write q (Begin
       [\<lparr>mi_kind = kind, mi_path = path, mi_sourceArtifact = source, mi_targetArtifact = target,
         mi_sourceFingerprint = sourceFingerprint, mi_targetFingerprint = targetFingerprint\<rparr>])) (\<lambda>rs. ret (hd rs))"

definition advance_mutation :: "quarantine_env \<Rightarrow> nat \<Rightarrow> mutation_state list \<Rightarrow> mutation_record q_eff" where
  "advance_mutation q ordinal states =
     seq (journal_write q (Advance [\<lparr>ma_ordinal = ordinal, ma_states = states\<rparr>])) (\<lambda>rs. ret (last rs))"

definition replaceFile :: "quarantine_env \<Rightarrow> replace_file \<Rightarrow> mutation_record q_eff" where
  "replaceFile q r =
     (let path = rf_path r; fingerprint = rf_targetFingerprint r in
      seq (in_order
        [assertWorkspaceIdentity q, assertPath q path, assertFingerprintValue (rf_sourceFingerprint r),
         assertFingerprintValue fingerprint, assertMode (rf_targetMode r)]) (\<lambda>_.
      seq (artifactPaths q path True) (\<lambda>(source, targetArtifact).
      seq (begin_mutation q Write path source targetArtifact (rf_sourceFingerprint r) fingerprint) (\<lambda>intent.
      let target = the targetArtifact in
      seq (in_order
        [hook (qe_beforeTargetCreate q),
         assertMutationPaths q [path, target],
         write_exclusive q target (rf_targetBytes r) (rf_targetMode r) (qe_syncTargetArtifacts q),
         assertFingerprint q target path fingerprint,
         quarantineSource q intent,
         hook (rf_beforeInstall r),
         assertMutationPaths q [path, target],
         assertFingerprint q target path fingerprint,
         no_clobber (link_leaf q target path),
         sync_directory q path,
         assertFingerprint q path path fingerprint,
         assertArtifactPath q path target]) (\<lambda>_.
      seq (advance_mutation q (mr_ordinal intent) to_verified) (\<lambda>verified.
      seq (unlink_leaf q target) (\<lambda>_. ret verified)))))))"

definition replaceSymlink :: "quarantine_env \<Rightarrow> replace_symlink \<Rightarrow> mutation_record q_eff" where
  "replaceSymlink q r =
     (let path = rs_path r; fingerprint = rs_targetFingerprint r in
      seq (in_order
        [assertWorkspaceIdentity q, assertPath q path, assertFingerprintValue (rs_sourceFingerprint r),
         assertFingerprintValue fingerprint,
         require (fingerprintSymlink (qe_hash q) path (rs_targetLinkText r) = fingerprint) (refuse Fingerprint_mismatch)]) (\<lambda>_.
      seq (artifactPaths q path False) (\<lambda>(source, targetArtifact).
      seq (begin_mutation q Symlink path source targetArtifact (rs_sourceFingerprint r) fingerprint) (\<lambda>intent.
      seq (in_order
        [quarantineSource q intent,
         hook (rs_beforeInstall r),
         assertMutationPaths q [path],
         no_clobber (symlink_leaf q (rs_targetLinkText r) path),
         sync_directory q path,
         assertFingerprint q path path fingerprint]) (\<lambda>_.
      advance_mutation q (mr_ordinal intent) to_verified)))))"

definition deleteLeaf :: "quarantine_env \<Rightarrow> delete_leaf \<Rightarrow> mutation_record q_eff" where
  "deleteLeaf q r =
     (let path = dl_path r; fingerprint = dl_targetFingerprint r in
      seq (in_order
        [assertWorkspaceIdentity q, assertPath q path, assertFingerprintValue (dl_sourceFingerprint r),
         assertFingerprintValue fingerprint,
         require (fingerprint = fingerprintAbsent (qe_hash q) path) (refuse Fingerprint_mismatch)]) (\<lambda>_.
      seq (artifactPaths q path False) (\<lambda>(source, targetArtifact).
      seq (begin_mutation q Delete path source targetArtifact (dl_sourceFingerprint r) fingerprint) (\<lambda>intent.
      seq (in_order
        [quarantineSource q intent,
         assertFingerprint q path path fingerprint]) (\<lambda>_.
      advance_mutation q (mr_ordinal intent) to_verified)))))"

section \<open>Undoing, finishing and cleaning up a mutation\<close>

definition remove_checked :: "quarantine_env \<Rightarrow> string \<Rightarrow> string \<Rightarrow> string \<Rightarrow> unit q_eff" where
  "remove_checked q path artifact fingerprint =
     seq (exists_leaf q artifact) (\<lambda>there.
       if \<not> there then ret ()
       else in_order
         [assertArtifactPath q path artifact, assertFingerprint q artifact path fingerprint,
          unlink_leaf q artifact, sync_directory q artifact])"

definition cleanupRollbackTarget :: "quarantine_env \<Rightarrow> mutation_record \<Rightarrow> unit q_eff" where
  "cleanupRollbackTarget q r =
     (case mr_targetArtifact r of None \<Rightarrow> ret () | Some t \<Rightarrow> remove_checked q (mr_path r) t (mr_targetFingerprint r))"

definition assertTargetArtifactAbsent :: "quarantine_env \<Rightarrow> mutation_record \<Rightarrow> unit q_eff" where
  "assertTargetArtifactAbsent q r =
     (case mr_targetArtifact r of
        None \<Rightarrow> ret ()
      | Some t \<Rightarrow> seq (exists_leaf q t) (\<lambda>there. require (\<not> there) (refuse Unsafe_artifact)))"

definition assertRollbackTargetOwned :: "quarantine_env \<Rightarrow> mutation_record \<Rightarrow> unit q_eff" where
  "assertRollbackTargetOwned q r =
     (case mr_targetArtifact r of
        None \<Rightarrow> ret ()
      | Some t \<Rightarrow> seq (exists_leaf q t) (\<lambda>there.
          if \<not> there then ret ()
          else in_order
            [assertArtifactPath q (mr_path r) t, assertFingerprint q t (mr_path r) (mr_targetFingerprint r),
             assertSameFileIdentity q (mr_path r) t]))"

definition mark_cleaned :: "quarantine_env \<Rightarrow> mutation_record \<Rightarrow> unit q_eff" where
  "mark_cleaned q r = seq (journal_write q (RollbackCleaned (mr_ordinal r))) (\<lambda>_. ret ())"

text \<open>The target that was installed is removed, if it is still the one of the mutation.\<close>

definition remove_installed :: "quarantine_env \<Rightarrow> mutation_record \<Rightarrow> unit q_eff" where
  "remove_installed q r = in_order
     [assertRollbackTargetOwned q r,
      assertFingerprint q (mr_path r) (mr_path r) (mr_targetFingerprint r),
      unlink_leaf q (mr_path r),
      sync_directory q (mr_path r)]"

text \<open>The source artifact is linked to the name again, which must be free.\<close>

definition reinstall_source :: "quarantine_env \<Rightarrow> mutation_record \<Rightarrow> unit q_eff" where
  "reinstall_source q r =
     (let source = mr_sourceArtifact r; original = mr_path r in
      seq (lstat_leaf q source) (\<lambda>metadata.
      no_clobber (case metadata of
          Symlink_to _ \<Rightarrow> seq (readlink_leaf q source) (\<lambda>t. symlink_leaf q t original)
        | Regular _ \<Rightarrow> link_leaf q source original
        | _ \<Rightarrow> throw (refuse Unsafe_artifact))))"

text \<open>
  \<open>restoreMutation\<close>, from the fingerprint of the path and whether the source artifact is there: if there
  was no source, if it is at its path, if it is in its artifact.
\<close>

definition restore_absent :: "quarantine_env \<Rightarrow> mutation_record \<Rightarrow> string \<Rightarrow> bool \<Rightarrow> unit q_eff" where
  "restore_absent q r originalFingerprint sourceExists = in_order
     [require (\<not> sourceExists) (refuse Unsafe_artifact),
      (if originalFingerprint = mr_targetFingerprint r then remove_installed q r
       else require (originalFingerprint = mr_sourceFingerprint r) (refuse External_concurrency)),
      cleanupRollbackTarget q r, mark_cleaned q r]"

definition restore_in_place :: "quarantine_env \<Rightarrow> mutation_record \<Rightarrow> bool \<Rightarrow> unit q_eff" where
  "restore_in_place q r sourceExists =
     (let source = mr_sourceArtifact r; original = mr_path r in in_order
       [(if sourceExists then in_order
           [assertFingerprint q source original (mr_sourceFingerprint r), assertArtifactPath q original source,
            unlink_leaf q source, sync_directory q source]
         else ret ()),
        cleanupRollbackTarget q r, mark_cleaned q r])"

definition put_back :: "quarantine_env \<Rightarrow> mutation_record \<Rightarrow> unit q_eff" where
  "put_back q r =
     (let source = mr_sourceArtifact r; original = mr_path r in in_order
       [hook (qe_beforeRestoreInstall q),
        assertMutationPaths q [original, source],
        assertFingerprint q source original (mr_sourceFingerprint r),
        reinstall_source q r,
        sync_directory q original,
        assertFingerprint q original original (mr_sourceFingerprint r),
        assertFingerprint q source original (mr_sourceFingerprint r),
        hook (qe_beforeRestoreSourceCleanup q),
        assertMutationPaths q [original, source],
        unlink_leaf q source,
        sync_directory q source,
        hook (qe_afterRestoreSourceCleanup q),
        cleanupRollbackTarget q r, mark_cleaned q r])"

definition restore_moved :: "quarantine_env \<Rightarrow> mutation_record \<Rightarrow> string \<Rightarrow> bool \<Rightarrow> unit q_eff" where
  "restore_moved q r originalFingerprint sourceExists =
     (let source = mr_sourceArtifact r; original = mr_path r; absent = fingerprintAbsent (qe_hash q) original in in_order
       [require sourceExists (refuse External_concurrency),
        assertFingerprint q source original (mr_sourceFingerprint r),
        (if originalFingerprint \<noteq> absent \<and> originalFingerprint = mr_targetFingerprint r
         then in_order [assertMutationPaths q [original, source], remove_installed q r]
         else require (originalFingerprint = absent) (refuse External_concurrency)),
        put_back q r])"

definition restore_owned :: "quarantine_env \<Rightarrow> mutation_record \<Rightarrow> string \<Rightarrow> bool \<Rightarrow> unit q_eff" where
  "restore_owned q r originalFingerprint sourceExists =
     (let sourceWasAbsent = (mr_sourceFingerprint r = fingerprintAbsent (qe_hash q) (mr_path r)) in
      if mr_state r = CLEANED then in_order
        [require (originalFingerprint = mr_sourceFingerprint r \<and> \<not> sourceExists) (refuse External_concurrency),
         assertTargetArtifactAbsent q r]
      else if mr_state r = TARGET_VERIFIED \<and> \<not> sourceWasAbsent \<and> \<not> sourceExists \<and>
              originalFingerprint = mr_targetFingerprint r then in_order
        [cleanupRollbackTarget q r, mark_cleaned q r]
      else if sourceWasAbsent then restore_absent q r originalFingerprint sourceExists
      else if originalFingerprint = mr_sourceFingerprint r then restore_in_place q r sourceExists
      else restore_moved q r originalFingerprint sourceExists)"

definition restoreMutation :: "quarantine_env \<Rightarrow> mutation_record \<Rightarrow> unit q_eff" where
  "restoreMutation q r =
     seq (assertOwnedRecord q r) (\<lambda>owned.
     seq (assertMutationPaths q [mr_path owned, mr_sourceArtifact owned]) (\<lambda>_.
     seq (fingerprintLeaf q (mr_path owned) (mr_path owned)) (\<lambda>originalFingerprint.
     seq (exists_leaf q (mr_sourceArtifact owned)) (\<lambda>sourceExists.
     restore_owned q owned originalFingerprint sourceExists))))"

text \<open>The four steps of \<open>rollForwardMutation\<close>; each is taken if the record has reached its state.\<close>

definition forward_intent :: "quarantine_env \<Rightarrow> mutation_record \<Rightarrow> mutation_record q_eff" where
  "forward_intent q owned =
     (let source = mr_sourceArtifact owned; original = mr_path owned;
          absent = fingerprintAbsent (qe_hash q) original in
      seq (fingerprintLeaf q original original) (\<lambda>originalFingerprint.
      seq (if mr_sourceFingerprint owned = absent then
             seq (exists_leaf q source) (\<lambda>there.
               require (\<not> (there \<or> originalFingerprint \<noteq> mr_sourceFingerprint owned)) (refuse External_concurrency))
           else in_order
             [assertFingerprint q source original (mr_sourceFingerprint owned),
              (if originalFingerprint = mr_sourceFingerprint owned then in_order
                 [seq (lstat_leaf q source) (\<lambda>a. seq (lstat_leaf q original) (\<lambda>b.
                    require (case a of Regular _ \<Rightarrow> same_inode a b | _ \<Rightarrow> True) (refuse External_concurrency))),
                  unlink_leaf q original, sync_directory q original]
               else require (originalFingerprint = absent) (refuse External_concurrency))]) (\<lambda>_.
      advance_mutation q (mr_ordinal owned) [SOURCE_QUARANTINED, SOURCE_VERIFIED])))"

definition forward_quarantined :: "quarantine_env \<Rightarrow> mutation_record \<Rightarrow> mutation_record q_eff" where
  "forward_quarantined q owned =
     seq (if mr_sourceFingerprint owned = fingerprintAbsent (qe_hash q) (mr_path owned) then
            seq (exists_leaf q (mr_sourceArtifact owned)) (\<lambda>there. require (\<not> there) (refuse Unsafe_artifact))
          else assertFingerprint q (mr_sourceArtifact owned) (mr_path owned) (mr_sourceFingerprint owned)) (\<lambda>_.
     advance_mutation q (mr_ordinal owned) [SOURCE_VERIFIED])"

definition forward_verified :: "quarantine_env \<Rightarrow> mutation_record \<Rightarrow> mutation_record q_eff" where
  "forward_verified q owned =
     (let path = mr_path owned; fingerprint = mr_targetFingerprint owned in
      seq (if mr_kind owned = Write \<and> mr_targetArtifact owned \<noteq> None then
             (let target = the (mr_targetArtifact owned) in in_order
               [assertMutationPaths q [path, target],
                assertFingerprint q target path fingerprint,
                catching (link_leaf q target path)
                  (\<lambda>e. if e \<noteq> Errno ''EEXIST'' then throw e
                       else catching (assertFingerprint q path path fingerprint) (\<lambda>_. throw (refuse External_concurrency))),
                sync_directory q path])
           else if mr_kind owned = Delete then assertFingerprint q path path fingerprint
           else throw (refuse Unsafe_artifact)) (\<lambda>_.
      advance_mutation q (mr_ordinal owned) [TARGET_INSTALLED]))"

definition forward_installed :: "quarantine_env \<Rightarrow> mutation_record \<Rightarrow> unit q_eff" where
  "forward_installed q owned =
     seq (in_order
       [assertFingerprint q (mr_path owned) (mr_path owned) (mr_targetFingerprint owned),
        (case mr_targetArtifact owned of None \<Rightarrow> ret () | Some t \<Rightarrow> remove_checked q (mr_path owned) t (mr_targetFingerprint owned))]) (\<lambda>_.
     seq (advance_mutation q (mr_ordinal owned) [TARGET_VERIFIED]) (\<lambda>_. ret ()))"

definition rollForwardMutation :: "quarantine_env \<Rightarrow> mutation_record \<Rightarrow> unit q_eff" where
  "rollForwardMutation q r =
     seq (assertOwnedRecord q r) (\<lambda>owned.
     seq (if mr_state owned = INTENT then forward_intent q owned else ret owned) (\<lambda>owned.
     seq (if mr_state owned = SOURCE_QUARANTINED then forward_quarantined q owned else ret owned) (\<lambda>owned.
     seq (if mr_state owned = SOURCE_VERIFIED then forward_verified q owned else ret owned) (\<lambda>owned.
     if mr_state owned = TARGET_INSTALLED then forward_installed q owned
     else require (mr_state owned = TARGET_VERIFIED \<or> mr_state owned = CLEANED) (refuse Unsafe_artifact)))))"

definition cleanupVerifiedArtifacts :: "quarantine_env \<Rightarrow> mutation_record \<Rightarrow> unit q_eff" where
  "cleanupVerifiedArtifacts q owned = in_order
     [require (mr_state owned = TARGET_VERIFIED) (refuse Unsafe_artifact),
      assertFingerprint q (mr_path owned) (mr_path owned) (mr_targetFingerprint owned),
      remove_checked q (mr_path owned) (mr_sourceArtifact owned) (mr_sourceFingerprint owned),
      (case mr_targetArtifact owned of
         None \<Rightarrow> ret () | Some t \<Rightarrow> remove_checked q (mr_path owned) t (mr_targetFingerprint owned))]"

definition cleanupMutation :: "quarantine_env \<Rightarrow> mutation_record \<Rightarrow> unit q_eff" where
  "cleanupMutation q r =
     seq (assertOwnedRecord q r) (\<lambda>owned.
     if mr_state owned = CLEANED then ret ()
     else seq (cleanupVerifiedArtifacts q owned) (\<lambda>_.
       seq (advance_mutation q (mr_ordinal owned) [CLEANED]) (\<lambda>_. ret ())))"

record quarantine_artifact =
  qa_path :: string
  qa_source :: bool
  qa_fingerprint :: string
  qa_ordinal :: nat

fun inspect_each :: "quarantine_env \<Rightarrow> (mutation_record \<times> bool \<times> string) list \<Rightarrow> quarantine_artifact list q_eff" where
  "inspect_each q [] = ret []"
| "inspect_each q ((r, isSource, path) # rest) =
     seq (assertArtifactPath q (mr_path r) path) (\<lambda>_.
     seq (exists_leaf q path) (\<lambda>there.
     seq (if there then seq (fingerprintLeaf q path (mr_path r)) (\<lambda>f.
            ret [\<lparr>qa_path = path, qa_source = isSource, qa_fingerprint = f, qa_ordinal = mr_ordinal r\<rparr>])
          else ret []) (\<lambda>here.
     seq (inspect_each q rest) (\<lambda>others. ret (here @ others)))))"

definition inspectArtifacts :: "quarantine_env \<Rightarrow> quarantine_artifact list q_eff" where
  "inspectArtifacts q =
     seq (journal_read q (load_records (qe_hash q))) (\<lambda>rs.
     inspect_each q (concat (map (\<lambda>r.
       if mr_state r = CLEANED then []
       else (r, True, mr_sourceArtifact r) #
         (case mr_targetArtifact r of None \<Rightarrow> [] | Some t \<Rightarrow> [(r, False, t)])) rs)))"

end
