(* ===== verification/QuarantineTriples.thy ===== *)
theory QuarantineTriples
  imports Quarantine
begin

text \<open>
  Reasoning about the quarantine of \<open>src/src/quarantine.ts\<close>: triples of its effects, what each check
  reads from the world, what each changing call does to the tree, and what a journal call does to the
  log, failing calls included.
\<close>

section \<open>Triples\<close>

text \<open>
  \<open>tri E P m Q\<close>: if \<open>P\<close> is true of the world, then \<open>Q\<close> is after \<open>m\<close> returned and \<open>E\<close> after it threw;
  none of them looks at the number of calls. As every call may fail, an \<open>E\<close> proved without assuming
  a healthy system is true of every world that \<open>m\<close> goes through; and \<open>m\<close> does return if \<open>E\<close> is false.
\<close>

definition calm_view :: "quarantine_world \<Rightarrow> quarantine_world" where
  "calm_view w = w\<lparr>qw_calls := 0\<rparr>"

definition tri ::
  "(quarantine_world \<Rightarrow> bool) \<Rightarrow> (quarantine_world \<Rightarrow> bool) \<Rightarrow> 'a q_eff \<Rightarrow> ('a \<Rightarrow> quarantine_world \<Rightarrow> bool) \<Rightarrow> bool" where
  "tri E P m Q \<longleftrightarrow> holds (\<lambda>w. P (calm_view w)) m (\<lambda>x w. Q x (calm_view w)) (\<lambda>_ w. E (calm_view w))"

definition troubled :: "quarantine_env \<Rightarrow> bool" where
  "troubled q \<longleftrightarrow> (\<exists>n. qe_fault q n \<noteq> None) \<or>
     (\<exists>n. case qe_context q n of (unsafe, context, now) \<Rightarrow> checkOperation unsafe context now \<noteq> Inr ())"

text \<open>
  Failures are failures of the system: the codes that the code takes as an answer (there is no such
  name, the name is taken) come from the tree.
\<close>

definition sane :: "quarantine_env \<Rightarrow> bool" where
  "sane q \<longleftrightarrow> (\<forall>n. qe_fault q n \<notin> {Some ''ENOENT'', Some ''ENOTDIR'', Some ''EEXIST''})"

abbreviation leaf_at :: "quarantine_world \<Rightarrow> string \<Rightarrow> leaf option" where
  "leaf_at w \<equiv> tr_leaves (qw_tree w)"

definition put :: "string \<Rightarrow> leaf option \<Rightarrow> quarantine_world \<Rightarrow> quarantine_world" where
  "put p l w = w\<lparr>qw_tree := set_leaf p l (qw_tree w)\<rparr>"

definition with_journal :: "mutation_journal \<times> mutation_disk \<Rightarrow> quarantine_world \<Rightarrow> quarantine_world" where
  "with_journal jd w = w\<lparr>qw_journal := fst jd, qw_disk := snd jd\<rparr>"

text \<open>An effect that changes the number of calls only.\<close>

definition still :: "'a q_eff \<Rightarrow> bool" where
  "still m \<longleftrightarrow> (\<forall>w. calm_view (snd (m w)) = calm_view w)"

named_theorems still_intros \<open>effects that leave the world alone\<close>

lemma tri_seq: "tri E P m R \<Longrightarrow> (\<And>x. tri E (R x) (f x) Q) \<Longrightarrow> tri E P (seq m f) Q"
  unfolding tri_def by (rule holds_seq)

lemma tri_ret: "(\<And>w. P w \<Longrightarrow> Q x w) \<Longrightarrow> tri E P (ret x) Q"
  unfolding tri_def by (rule holds_ret)

lemma tri_throw: "(\<And>w. P w \<Longrightarrow> E w) \<Longrightarrow> tri E P (throw e) Q"
  unfolding tri_def by (rule holds_throw)

lemma tri_pre: "tri E P m Q \<Longrightarrow> (\<And>w. P' w \<Longrightarrow> P w) \<Longrightarrow> tri E P' m Q"
  unfolding tri_def by (erule holds_pre) simp

lemma tri_post: "tri E P m Q \<Longrightarrow> (\<And>x w. Q x w \<Longrightarrow> Q' x w) \<Longrightarrow> tri E P m Q'"
  unfolding tri_def by (erule holds_post)

lemma tri_if: "(b \<Longrightarrow> tri E P m Q) \<Longrightarrow> (\<not> b \<Longrightarrow> tri E P n Q) \<Longrightarrow> tri E P (if b then m else n) Q"
  by simp

lemma tri_fact: "(b \<Longrightarrow> tri E P m Q) \<Longrightarrow> tri E (\<lambda>w. b \<and> P w) m Q"
  unfolding tri_def by (rule holds_fact)

lemma tri_each: "(\<And>w0. P w0 \<Longrightarrow> tri E (\<lambda>w. w = w0) m Q) \<Longrightarrow> tri E P m Q"
  unfolding tri_def holds_def by simp

lemma tri_catching: "tri F P m Q \<Longrightarrow> (\<And>e. tri E F (h e) Q) \<Longrightarrow> tri E P (catching m h) Q"
  unfolding tri_def by (rule holds_catching)

lemma tri_Nil: "(\<And>w. P w \<Longrightarrow> Q w) \<Longrightarrow> tri E P (in_order []) (\<lambda>_. Q)"
  by (simp add: in_order.simps tri_ret)

lemma tri_Cons: "tri E P m (\<lambda>_. R) \<Longrightarrow> tri E R (in_order ms) (\<lambda>_. Q) \<Longrightarrow> tri E P (in_order (m # ms)) (\<lambda>_. Q)"
  unfolding in_order.simps by (erule tri_seq)

lemma tri_require:
  "(\<And>w. \<not> b \<Longrightarrow> P w \<Longrightarrow> E w) \<Longrightarrow> (\<And>w. b \<Longrightarrow> P w \<Longrightarrow> Q w) \<Longrightarrow> tri E P (require b e) (\<lambda>_. Q)"
  by (auto simp: require_def intro: tri_ret tri_throw)

lemma tri_no_clobber: "tri E P m Q \<Longrightarrow> tri E P (no_clobber m) Q"
  unfolding no_clobber_def by (erule tri_catching) (simp add: tri_throw)

lemma tri_hook: "(\<And>w. h = None \<Longrightarrow> P w \<Longrightarrow> Q w) \<Longrightarrow> (\<And>m. h = Some m \<Longrightarrow> tri E P m (\<lambda>_. Q)) \<Longrightarrow> tri E P (hook h) (\<lambda>_. Q)"
  by (cases h) (simp_all add: hook_def tri_ret)

text \<open>A still effect that throws in trouble, or if \<open>b\<close> is not true of the world it runs in.\<close>

definition checks :: "quarantine_env \<Rightarrow> (quarantine_world \<Rightarrow> 'a option) \<Rightarrow> 'a q_eff \<Rightarrow> bool" where
  "checks q b m \<longleftrightarrow> still m \<and> (\<forall>w x. fst (m w) = Inr x \<longrightarrow> b (calm_view w) = Some x) \<and>
     (\<forall>w e. fst (m w) = Inl e \<longrightarrow> troubled q \<or> b (calm_view w) = None)"

lemma tri_checks:
  assumes "checks q b m" "\<And>w. P w \<Longrightarrow> troubled q \<Longrightarrow> E w" "\<And>w. P w \<Longrightarrow> b w = None \<Longrightarrow> E w"
    "\<And>w x. P w \<Longrightarrow> b w = Some x \<Longrightarrow> Q x w"
  shows "tri E P m Q"
  unfolding tri_def
proof (rule holdsI)
  fix w r w' assume a: "P (calm_view w)" "m w = (r, w')"
  have w': "calm_view w' = calm_view w"
    using assms(1) a(2) unfolding checks_def still_def by (metis snd_conv)
  show "outcome (\<lambda>x w. Q x (calm_view w)) (\<lambda>_ w. E (calm_view w)) (r, w')"
  proof (cases r)
    case (Inl e)
    then have "troubled q \<or> b (calm_view w) = None" using assms(1) a(2) unfolding checks_def by (metis fst_conv)
    then show ?thesis using a(1) assms(2,3) by (auto simp: Inl w')
  next
    case (Inr x)
    then have "b (calm_view w) = Some x" using assms(1) a(2) unfolding checks_def by (metis fst_conv)
    then show ?thesis using a(1) assms(4) by (simp add: Inr w')
  qed
qed

lemma tri_still: "still m \<Longrightarrow> (\<And>w. P w \<Longrightarrow> E w) \<Longrightarrow> (\<And>w. P w \<Longrightarrow> Q w) \<Longrightarrow> tri E P m (\<lambda>_. Q)"
  unfolding tri_def holds_outcome outcome_def still_def by (auto simp: case_prod_unfold split: sum.split)

named_theorems checks_intros \<open>effects that only check\<close>

lemma checks_seq:
  assumes "checks q b m" "\<And>x. checks q (c x) (f x)"
  shows "checks q (\<lambda>w. case b w of None \<Rightarrow> None | Some x \<Rightarrow> c x w) (seq m f)"
proof -
  have m: "calm_view (snd (m w)) = calm_view w" "fst (m w) = Inr x \<Longrightarrow> b (calm_view w) = Some x"
    "fst (m w) = Inl e \<Longrightarrow> troubled q \<or> b (calm_view w) = None" for w x e
    using assms(1) by (auto simp: checks_def still_def)
  have f: "calm_view (snd (f x w)) = calm_view w" "fst (f x w) = Inr y \<Longrightarrow> c x (calm_view w) = Some y"
    "fst (f x w) = Inl e \<Longrightarrow> troubled q \<or> c x (calm_view w) = None" for w x y e
    using assms(2) [of x] by (auto simp: checks_def still_def)
  show ?thesis
    unfolding checks_def still_def
  proof (intro conjI allI)
    fix w
    obtain r w' where mw: "m w = (r, w')" by fastforce
    note [simp] = m(1) [of w, unfolded mw snd_conv]
    show "calm_view (snd (seq m f w)) = calm_view w"
      by (cases r) (simp_all add: seq_def mw f)
    show "fst (seq m f w) = Inr y \<longrightarrow> (case b (calm_view w) of None \<Rightarrow> None | Some x \<Rightarrow> c x (calm_view w)) = Some y" for y
      using m(2) [of w] f(2) [of _ w'] by (cases r) (auto simp: seq_def mw)
    show "fst (seq m f w) = Inl e \<longrightarrow> troubled q \<or> (case b (calm_view w) of None \<Rightarrow> None | Some x \<Rightarrow> c x (calm_view w)) = None" for e
      using m(2,3) [of w] f(3) [of _ w'] by (cases r) (auto simp: seq_def mw)
  qed
qed

lemma checks_ret: "checks q (\<lambda>_. Some x) (ret x)" "checks q (\<lambda>_. None) (throw e)"
  by (simp_all add: checks_def still_def ret_def throw_def)

lemma checks_require: "checks q (\<lambda>_. if b then Some () else None) (require b e)"
  by (simp add: require_def checks_ret)

lemma checks_lift: "checks q (\<lambda>_. case r of Inl _ \<Rightarrow> None | Inr x \<Rightarrow> Some x) (lift_result f r)"
  by (cases r) (simp_all add: lift_result_def checks_ret)

lemma checks_eq: "checks q b m \<Longrightarrow> (\<And>w. b w = c w) \<Longrightarrow> checks q c m"
  unfolding checks_def by simp

lemma checks_syscall:
  assumes "\<And>t. f t = (case b t of None \<Rightarrow> Inl (g t) | Some x \<Rightarrow> Inr (x, t))"
  shows "checks q (\<lambda>w. b (qw_tree w)) (syscall q f)"
  unfolding checks_def still_def
  using assms by (auto simp: syscall_def calm_view_def troubled_def Let_def split: option.split)

lemma checks_still: "checks q b m \<Longrightarrow> still m"
  by (simp add: checks_def)

lemma checks_in_order:
  "checks q (\<lambda>_. Some ()) (in_order [])"
  "checks q b m \<Longrightarrow> checks q c (in_order ms) \<Longrightarrow> checks q (\<lambda>w. case b w of None \<Rightarrow> None | Some _ \<Rightarrow> c w) (in_order (m # ms))"
  by (simp_all add: in_order.simps checks_ret checks_seq)

lemma checks_idle: "checks q (\<lambda>_. Some ()) (idle_call q)"
  unfolding idle_call_def by (rule checks_syscall) simp

lemma checks_look: "(\<And>w. f w = g (calm_view w)) \<Longrightarrow> (\<And>v. checks q (b v) (g v)) \<Longrightarrow> checks q (\<lambda>w. b w w) (look f)"
  by (simp add: checks_def still_def look_def)

lemma checks_lstat: "checks q (\<lambda>w. leaf_at w p) (lstat_leaf q p)"
  unfolding lstat_leaf_def by (rule checks_syscall [where b = "\<lambda>t. tr_leaves t p" and g = "\<lambda>_. ''ENOENT''"]) (auto split: option.split)

definition link_text :: "leaf option \<Rightarrow> string option" where
  "link_text l = (case l of Some (Symlink_to text) \<Rightarrow> Some text | _ \<Rightarrow> None)"

lemma checks_readlink: "checks q (\<lambda>w. link_text (leaf_at w p)) (readlink_leaf q p)"
  unfolding readlink_leaf_def
  by (rule checks_syscall [where b = "\<lambda>t. link_text (tr_leaves t p)" and g = "\<lambda>t. if tr_leaves t p = None then ''ENOENT'' else ''EINVAL''"])
    (auto simp: link_text_def split: option.split leaf.split)

lemma checks_lstat_or_none: "sane q \<Longrightarrow> checks q (\<lambda>w. Some (leaf_at w p)) (lstat_or_none q p)"
  by (auto simp: checks_def still_def lstat_or_none_def catching_def seq_def lstat_leaf_def syscall_def Let_def ret_def throw_def
      is_missing_def sane_def calm_view_def troubled_def split: option.splits)

lemma checks_exists:
  assumes "sane q"
  shows "checks q (\<lambda>w. Some (leaf_at w p \<noteq> None)) (exists_leaf q p)"
  unfolding exists_leaf_def
  by (rule checks_eq [OF checks_seq [OF checks_lstat_or_none [OF assms] checks_ret(1)]]) simp

text \<open>The fingerprint of what a path names; \<open>None\<close> if it has none.\<close>

definition leaf_fp :: "hash \<Rightarrow> string \<Rightarrow> string \<Rightarrow> tree \<Rightarrow> string option" where
  "leaf_fp H p logical t =
     (case tr_leaves t p of
        None \<Rightarrow> Some (fingerprintAbsent H logical)
      | Some (Symlink_to text) \<Rightarrow> Some (fingerprintSymlink H logical text)
      | Some (Regular i) \<Rightarrow> map_option (\<lambda>n. fingerprintBytes H logical (in_bytes n) (in_mode n)) (tr_inodes t i)
      | Some _ \<Rightarrow> None)"

lemma checks_fingerprint:
  assumes "sane q"
  shows "checks q (\<lambda>w. leaf_fp (qe_hash q) p logical (qw_tree w)) (fingerprintLeaf q p logical)"
proof -
  have m: "checks q (\<lambda>w. Some (leaf_at w p)) (lstat_or_none q p)" by (rule checks_lstat_or_none [OF assms])
  let ?f = "\<lambda>n. fingerprintBytes (qe_hash q) logical (in_bytes n) (in_mode n)"
  have fil: "checks q (\<lambda>w. case leaf_at w p of Some (Regular i) \<Rightarrow> map_option ?f (tr_inodes (qw_tree w) i) | _ \<Rightarrow> None) (fingerprintFile q p logical)"
    by (auto simp: checks_def still_def fingerprintFile_def open_nofollow_def seq_def syscall_def Let_def calm_view_def troubled_def
        ret_def throw_def split: option.splits leaf.splits)
  have link: "checks q (\<lambda>w. map_option (fingerprintSymlink (qe_hash q) logical) (link_text (leaf_at w p)))
      (seq (readlink_leaf q p) (\<lambda>t. ret (fingerprintSymlink (qe_hash q) logical t)))"
    by (rule checks_eq [OF checks_seq [OF checks_readlink checks_ret(1)]]) (auto split: option.split)
  let ?c = "\<lambda>m w. case m of None \<Rightarrow> Some (fingerprintAbsent (qe_hash q) logical)
    | Some (Symlink_to _) \<Rightarrow> map_option (fingerprintSymlink (qe_hash q) logical) (link_text (leaf_at w p))
    | Some (Regular _) \<Rightarrow> (case leaf_at w p of Some (Regular i) \<Rightarrow> map_option ?f (tr_inodes (qw_tree w) i) | _ \<Rightarrow> None)
    | Some _ \<Rightarrow> None"
  have rest: "checks q (?c x) (case x of None \<Rightarrow> ret (fingerprintAbsent (qe_hash q) logical)
     | Some l \<Rightarrow> (case l of
         Symlink_to _ \<Rightarrow> seq (readlink_leaf q p) (\<lambda>t. ret (fingerprintSymlink (qe_hash q) logical t))
       | Regular _ \<Rightarrow> fingerprintFile q p logical
       | _ \<Rightarrow> throw (Plain_error ''not a supported leaf'')))" for x
    by (auto simp: fil link checks_ret split: option.split leaf.split)
  show ?thesis
    unfolding fingerprintLeaf_def
    by (rule checks_eq [OF checks_seq [OF m rest]]) (auto simp: leaf_fp_def link_text_def split: option.split leaf.split)
qed

definition only_if :: "bool \<Rightarrow> unit option" where
  "only_if b = (if b then Some () else None)"

lemma only_if_simps [simp]: "only_if b = None \<longleftrightarrow> \<not> b" "only_if b = Some u \<longleftrightarrow> b"
  by (simp_all add: only_if_def)

lemma checks_assertFingerprint:
  "sane q \<Longrightarrow> checks q (\<lambda>w. only_if (leaf_fp (qe_hash q) p logical (qw_tree w) = Some f)) (assertFingerprint q p logical f)"
  unfolding assertFingerprint_def
  by (rule checks_eq [OF checks_seq [OF checks_fingerprint checks_require]]) (auto simp: only_if_def split: option.split)

lemma checks_assertSameFileIdentity:
  "checks q (\<lambda>w. only_if (\<exists>i. leaf_at w p = Some (Regular i) \<and> leaf_at w a = Some (Regular i))) (assertSameFileIdentity q p a)"
  unfolding assertSameFileIdentity_def
  by (rule checks_eq [OF checks_seq [OF checks_lstat checks_seq [OF checks_lstat checks_require]]])
    (auto simp: only_if_def same_inode_def split: option.split leaf.split)

lemma checks_sync: "checks q (\<lambda>_. Some ()) (sync_directory q p)"
proof -
  have c: "checks q (\<lambda>_. Some ()) (catching (idle_call q)
      (\<lambda>e. case e of Errno x \<Rightarrow> if isToleratedDirFsyncError x then ret () else throw e | _ \<Rightarrow> throw e))"
    by (auto simp: checks_def still_def catching_def idle_call_def syscall_def Let_def ret_def throw_def calm_view_def troubled_def
        split: option.split)
  have "checks q (\<lambda>_. Some ()) (in_order [idle_call q, catching (idle_call q)
      (\<lambda>e. case e of Errno x \<Rightarrow> if isToleratedDirFsyncError x then ret () else throw e | _ \<Rightarrow> throw e)])"
    by (rule checks_eq [OF checks_in_order(2) [OF checks_idle checks_in_order(2) [OF c checks_in_order(1)]]]) simp
  then show ?thesis by (simp add: sync_directory_def checks_ret)
qed

definition path_ok :: "quarantine_env \<Rightarrow> tree \<Rightarrow> string \<Rightarrow> bool" where
  "path_ok q t p \<longleftrightarrow> \<not> has_git_component p \<and> (\<exists>s. relativeSafePath (qe_cwd q) (qe_root q) p = Inr s) \<and>
     assertNoSymlinkEscape (qe_cwd q) (tree_lstat q t) (qe_root q) p = Inr ()"

lemma checks_assertPath: "checks q (\<lambda>w. only_if (path_ok q (qw_tree w) p)) (assertPath q p)"
proof -
  have s: "checks q (\<lambda>w. Some (tree_lstat q (qw_tree w))) (syscall q (\<lambda>t. Inr (tree_lstat q t, t)))"
    by (rule checks_syscall [where b = "\<lambda>t. Some (tree_lstat q t)"]) simp
  show ?thesis
    unfolding assertPath_def assertNotGitMetadata_def
    by (rule checks_eq [OF checks_in_order(2) [OF checks_require checks_in_order(2) [OF checks_seq [OF checks_lift checks_ret(1)]
          checks_in_order(2) [OF checks_seq [OF s checks_lift] checks_in_order(1)]]]])
      (auto simp: only_if_def path_ok_def split: option.split sum.split)
qed

lemma checks_assertWorkspaceIdentity:
  "checks q (\<lambda>w. only_if (qw_identity w = qe_root q)) (assertWorkspaceIdentity q)"
proof -
  have c: "checks q (\<lambda>_. Some ()) (check_here q)"
    by (auto simp: checks_def still_def check_here_def look_def lift_result_def ret_def throw_def troubled_def split: prod.splits sum.splits)
      (metis old.sum.simps(3) prod.case sum.distinct(1))
  have l: "checks q (\<lambda>w. only_if (qw_identity w = qe_root q)) (look (\<lambda>w. require (qw_identity w = qe_root q) (refuse Unsafe_artifact)))"
    by (rule checks_eq [OF checks_look [OF _ checks_require]]) (auto simp: only_if_def calm_view_def)
  show ?thesis
    unfolding assertWorkspaceIdentity_def
    by (rule checks_eq [OF checks_in_order(2) [OF c checks_in_order(2) [OF checks_idle checks_in_order(2) [OF l checks_in_order(1)]]]])
      (auto simp: only_if_def)
qed

lemma checks_assertPaths:
  "checks q (\<lambda>w. only_if (\<forall>p \<in> set ps. path_ok q (qw_tree w) p)) (in_order (map (assertPath q) ps))"
proof (induction ps)
  case Nil
  show ?case unfolding list.map by (rule checks_eq [OF checks_in_order(1)]) (simp add: only_if_def)
next
  case (Cons p ps)
  show ?case
    unfolding list.map
    by (rule checks_eq [OF checks_in_order(2) [OF checks_assertPath Cons.IH]]) (auto simp: only_if_def)
qed

lemma checks_assertMutationPaths:
  "checks q (\<lambda>w. only_if (qw_identity w = qe_root q \<and> (\<forall>p \<in> set ps. path_ok q (qw_tree w) p))) (assertMutationPaths q ps)"
  unfolding assertMutationPaths_def
  by (rule checks_eq [OF checks_in_order(2) [OF checks_assertWorkspaceIdentity checks_assertPaths]]) (auto simp: only_if_def)

definition artifact_of :: "string \<Rightarrow> string \<Rightarrow> bool" where
  "artifact_of p a \<longleftrightarrow> dirname p = dirname a \<and> is_artifact_name (last (split_on (CHR ''/'') a))"

lemma checks_assertArtifactPath:
  "checks q (\<lambda>w. only_if (path_ok q (qw_tree w) a \<and> artifact_of p a)) (assertArtifactPath q p a)"
  unfolding assertArtifactPath_def
  by (rule checks_eq [OF checks_in_order(2) [OF checks_assertPath checks_in_order(2) [OF checks_require checks_in_order(1)]]])
    (auto simp: only_if_def artifact_of_def)


section \<open>The calls that change the tree\<close>

lemma calm_view_fields [simp]:
  "qw_tree (calm_view w) = qw_tree w" "qw_journal (calm_view w) = qw_journal w" "qw_disk (calm_view w) = qw_disk w"
  "calm_view (w\<lparr>qw_tree := t\<rparr>) = (calm_view w)\<lparr>qw_tree := t\<rparr>" "calm_view (w\<lparr>qw_calls := n\<rparr>) = calm_view w"
  "calm_view (w\<lparr>qw_calls := n, qw_tree := t\<rparr>) = (calm_view w)\<lparr>qw_tree := t\<rparr>"
  "calm_view (journal_state jd w) = with_journal jd (calm_view w)"
  by (cases w; simp add: calm_view_def journal_state_def with_journal_def)+

lemma tri_syscall:
  assumes "\<And>w. P w \<Longrightarrow> troubled q \<Longrightarrow> E w" "\<And>w e. P w \<Longrightarrow> f (qw_tree w) = Inl e \<Longrightarrow> E w"
    "\<And>w x t. P w \<Longrightarrow> f (qw_tree w) = Inr (x, t) \<Longrightarrow> Q x (w\<lparr>qw_tree := t\<rparr>)"
  shows "tri E P (syscall q f) Q"
  unfolding tri_def
proof (rule holdsI)
  fix w r w' assume a: "P (calm_view w)" "syscall q f w = (r, w')"
  show "outcome (\<lambda>x w. Q x (calm_view w)) (\<lambda>_ w. E (calm_view w)) (r, w')"
  proof (cases "qe_fault q (qw_calls w)")
    case None
    then show ?thesis
      using a assms(2,3) [OF a(1)]
      by (cases "f (qw_tree w)") (auto simp: syscall_def Let_def)
  next
    case (Some e)
    then have "troubled q" by (auto simp: troubled_def)
    then have "E (calm_view w)" using assms(1) a(1) by simp
    then show ?thesis using a(2) Some by (auto simp: syscall_def Let_def)
  qed
qed

lemma tri_unlink:
  assumes "\<And>w. P w \<Longrightarrow> troubled q \<Longrightarrow> E w" "\<And>w. P w \<Longrightarrow> leaf_at w p = None \<or> leaf_at w p = Some Folder \<Longrightarrow> E w"
    "\<And>w l. P w \<Longrightarrow> leaf_at w p = Some l \<Longrightarrow> l \<noteq> Folder \<Longrightarrow> Q (put p None w)"
  shows "tri E P (unlink_leaf q p) (\<lambda>_. Q)"
  unfolding unlink_leaf_def
  by (rule tri_syscall) (auto intro: assms(1,2) dest: assms(3) simp: put_def split: option.splits leaf.splits)

lemma tri_link:
  assumes "\<And>w. P w \<Longrightarrow> troubled q \<Longrightarrow> E w"
    "\<And>w. P w \<Longrightarrow> leaf_at w old = None \<or> leaf_at w old = Some Folder \<or> leaf_at w new \<noteq> None \<or> \<not> parent_exists (qw_tree w) new \<Longrightarrow> E w"
    "\<And>w l. P w \<Longrightarrow> leaf_at w old = Some l \<Longrightarrow> l \<noteq> Folder \<Longrightarrow> leaf_at w new = None \<Longrightarrow> Q (put new (Some l) w)"
  shows "tri E P (link_leaf q old new) (\<lambda>_. Q)"
  unfolding link_leaf_def
  by (rule tri_syscall)
    (auto intro: assms(1,2) dest: assms(3) simp: put_def new_name_def rbind_guard guard_def split: option.splits leaf.splits if_splits)

lemma tri_symlink:
  assumes "\<And>w. P w \<Longrightarrow> troubled q \<Longrightarrow> E w"
    "\<And>w. P w \<Longrightarrow> leaf_at w p \<noteq> None \<or> \<not> parent_exists (qw_tree w) p \<Longrightarrow> E w"
    "\<And>w. P w \<Longrightarrow> leaf_at w p = None \<Longrightarrow> Q (put p (Some (Symlink_to text)) w)"
  shows "tri E P (symlink_leaf q text p) (\<lambda>_. Q)"
  unfolding symlink_leaf_def
  by (rule tri_syscall) (auto intro: assms(1,2) dest: assms(3) simp: put_def new_name_def rbind_guard guard_def split: if_splits)

text \<open>A new file beside the others.\<close>

definition new_file :: "string \<Rightarrow> inode \<Rightarrow> tree \<Rightarrow> tree" where
  "new_file p n t = set_leaf p (Some (Regular (tr_next t)))
     (t\<lparr>tr_inodes := (tr_inodes t)(tr_next t \<mapsto> n), tr_next := Suc (tr_next t)\<rparr>)"

definition put_file :: "string \<Rightarrow> inode \<Rightarrow> quarantine_world \<Rightarrow> quarantine_world" where
  "put_file p n w = w\<lparr>qw_tree := new_file p n (qw_tree w)\<rparr>"

lemma tri_write_file:
  assumes "\<And>w bs. P w \<Longrightarrow> troubled q \<Longrightarrow> E (w\<lparr>qw_tree := qw_tree w\<lparr>tr_inodes := (tr_inodes (qw_tree w))(i \<mapsto> \<lparr>in_mode = mode, in_bytes = bs\<rparr>)\<rparr>\<rparr>)"
    "\<And>w. P w \<Longrightarrow> Q (w\<lparr>qw_tree := qw_tree w\<lparr>tr_inodes := (tr_inodes (qw_tree w))(i \<mapsto> \<lparr>in_mode = mode, in_bytes = bytes\<rparr>)\<rparr>\<rparr>)"
  shows "tri E P (write_file q i bytes mode) (\<lambda>_. Q)"
  unfolding tri_def holds_outcome using assms(1) [of "calm_view _"] assms(2) [of "calm_view _"]
  by (auto simp: write_file_def fill_file_def outcome_def troubled_def split: option.split)

lemma tri_write_exclusive:
  assumes "\<And>w. P w \<Longrightarrow> troubled q \<Longrightarrow> E w" "\<And>w. P w \<Longrightarrow> leaf_at w p \<noteq> None \<or> \<not> parent_exists (qw_tree w) p \<Longrightarrow> E w"
    "\<And>w n. P w \<Longrightarrow> leaf_at w p = None \<Longrightarrow> troubled q \<Longrightarrow> E (put_file p n w)"
    "\<And>w. P w \<Longrightarrow> leaf_at w p = None \<Longrightarrow> Q (put_file p \<lparr>in_mode = mode, in_bytes = bytes\<rparr> w)"
  shows "tri E P (write_exclusive q p bytes mode syn) (\<lambda>_. Q)"
proof -
  let ?R = "\<lambda>i w. \<exists>w0 n. P w0 \<and> leaf_at w0 p = None \<and> w = put_file p n w0 \<and> i = tr_next (qw_tree w0)"
  have 1: "tri E P (create_file q p mode) ?R"
    unfolding create_file_def
    by (rule tri_syscall) (auto simp: assms(1,2) new_name_def guard_def rbind_guard new_file_def put_file_def split: if_splits)
  have fill: "(put_file p n w0)\<lparr>qw_tree := qw_tree (put_file p n w0)\<lparr>tr_inodes :=
      (tr_inodes (qw_tree (put_file p n w0)))(tr_next (qw_tree w0) \<mapsto> n')\<rparr>\<rparr> = put_file p n' w0" for n n' w0
    by (simp add: put_file_def new_file_def set_leaf_def)
  have 2: "tri E (?R i) (write_file q i bytes mode) (\<lambda>_ w. Q w \<and> (troubled q \<longrightarrow> E w))" for i
    by (rule tri_write_file) (auto simp: fill assms)
  have 3: "checks q (\<lambda>_. Some ()) (in_order (idle_call q # (if syn then [idle_call q] else [])))"
    by (cases syn) (auto intro!: checks_eq [OF checks_in_order(2) [OF checks_idle checks_in_order(1)]]
        checks_eq [OF checks_in_order(2) [OF checks_idle checks_in_order(2) [OF checks_idle checks_in_order(1)]]])
  show ?thesis
    unfolding write_exclusive_def append_Cons append_Nil
    by (rule tri_seq [OF 1], rule tri_Cons [OF 2], rule tri_checks [OF 3]) auto
qed

lemma tri_journal_write:
  assumes "\<And>w e jd. P w \<Longrightarrow> wal_run (qe_hash q) op (qw_journal w) (qw_disk w) = (Inl e, jd) \<Longrightarrow> E (with_journal jd w)"
    "\<And>w rs jd k. P w \<Longrightarrow> wal_run (qe_hash q) op (qw_journal w) (qw_disk w) = (Inr rs, jd) \<Longrightarrow> troubled q \<Longrightarrow>
       E (with_journal (torn_append (qe_hash q) k rs (qw_journal w) (qw_disk w)) w)"
    "\<And>w rs jd. P w \<Longrightarrow> wal_run (qe_hash q) op (qw_journal w) (qw_disk w) = (Inr rs, jd) \<Longrightarrow> Q rs (with_journal jd w)"
  shows "tri E P (journal_write q op) Q"
  unfolding tri_def
proof (rule holdsI)
  fix w r w' assume a: "P (calm_view w)" "journal_write q op w = (r, w')"
  obtain x jd where x: "wal_run (qe_hash q) op (qw_journal w) (qw_disk w) = (x, jd)" by (rule prod.exhaust)
  show "outcome (\<lambda>x w. Q x (calm_view w)) (\<lambda>_ w. E (calm_view w)) (r, w')"
  proof (cases x)
    case (Inl e)
    then show ?thesis using a assms(1) [OF a(1)] x by (auto simp: journal_write_def)
  next
    case (Inr rs)
    show ?thesis
    proof (cases "qe_fault q (qw_calls w)")
      case None
      then show ?thesis using a assms(3) [OF a(1)] x Inr by (auto simp: journal_write_def)
    next
      case (Some e)
      then have "troubled q" by (auto simp: troubled_def)
      then show ?thesis using a assms(2) [OF a(1)] x Inr Some by (auto simp: journal_write_def)
    qed
  qed
qed

lemma tri_journal_read:
  assumes "\<And>w. P w \<Longrightarrow> troubled q \<Longrightarrow> E w" "\<And>w e jd. P w \<Longrightarrow> f (qw_journal w) (qw_disk w) = (Inl e, jd) \<Longrightarrow> E (with_journal jd w)"
    "\<And>w x jd. P w \<Longrightarrow> f (qw_journal w) (qw_disk w) = (Inr x, jd) \<Longrightarrow> Q x (with_journal jd w)"
  shows "tri E P (journal_read q f) Q"
  unfolding tri_def
proof (rule holdsI)
  fix w r w' assume a: "P (calm_view w)" "journal_read q f w = (r, w')"
  obtain x jd where x: "f (qw_journal w) (qw_disk w) = (x, jd)" by (rule prod.exhaust)
  show "outcome (\<lambda>x w. Q x (calm_view w)) (\<lambda>_ w. E (calm_view w)) (r, w')"
  proof (cases "qe_fault q (qw_calls w)")
    case None
    then show ?thesis
      using a assms(2,3) [OF a(1)] x by (cases x) (auto simp: journal_read_def)
  next
    case (Some e)
    then have "troubled q" by (auto simp: troubled_def)
    then have "E (calm_view w)" using assms(1) a(1) by simp
    then show ?thesis using a Some by (auto simp: journal_read_def)
  qed
qed

section \<open>The log\<close>

text \<open>The journal and its disk hold the records \<open>latest\<close>, each of them valid.\<close>

definition sound :: "hash \<Rightarrow> mutation_record list \<Rightarrow> quarantine_world \<Rightarrow> bool" where
  "sound H latest w \<longleftrightarrow> coherent H (qw_journal w) (qw_disk w) \<and>
     (\<exists>cur. journal_view H (mj_opId (qw_journal w)) (qw_disk w) = Inr cur \<and> jr_latest cur = latest \<and>
        list_all (record_valid H) latest \<and> (\<forall>t. jr_tail cur = Some t \<longrightarrow> record_valid H t))"

lemma with_journal_fields [simp]:
  "qw_journal (with_journal jd w) = fst jd" "qw_disk (with_journal jd w) = snd jd"
  "qw_tree (with_journal jd w) = qw_tree w" "qw_identity (with_journal jd w) = qw_identity w"
  by (simp_all add: with_journal_def)

lemma valid_set_latest:
  assumes "list_all (record_valid H) latest" "record_valid H r" "read_record opId latest tail r = Inr ()"
  shows "list_all (record_valid H) (set_latest latest r)"
proof (cases "latest_at latest (mr_ordinal r)")
  case None
  then have "mr_ordinal r = length latest + 1"
    using assms(3) by (auto simp: read_record_def res_simps split: if_splits)
  then show ?thesis using assms(1,2) by (simp add: set_latest_next)
next
  case (Some p)
  then show ?thesis
    using assms(1,2) set_update_subset_insert [of latest "mr_ordinal r - 1" r]
    unfolding set_latest_at [OF Some] list_all_iff by blast
qed

lemma valid_replay:
  assumes "list_all (record_valid H) latest" "\<forall>r \<in> set rs. record_valid H r" "replay opId latest tail rs = Inr ()"
  shows "list_all (record_valid H) (foldl set_latest latest rs)"
  using assms
proof (induction rs arbitrary: latest tail)
  case (Cons r rs)
  then have r: "read_record opId latest tail r = Inr ()" "replay opId (set_latest latest r) (Some r) rs = Inr ()"
    by (cases "read_record opId latest tail r"; simp)+
  show ?case
    unfolding foldl.simps
    by (rule Cons.IH [OF valid_set_latest [OF Cons.prems(1) _ r(1)] _ r(2)]) (use Cons.prems(2) in simp_all)
qed simp

lemma valid_tail:
  "\<forall>t. tail = Some t \<longrightarrow> record_valid H t \<Longrightarrow> \<forall>r \<in> set rs. record_valid H r \<Longrightarrow>
   last_record tail rs = Some t \<Longrightarrow> record_valid H t"
  by (auto simp: last_record_def split: if_splits)

lemma torn_parse:
  assumes "parse_journal H opId bytes = Inr cur"
    and "\<forall>r \<in> set rs. record_valid H r" "replay opId (jr_latest cur) (jr_tail cur) rs = Inr ()"
  shows "\<exists>m cur'. parse_journal H opId (durable_part bytes @ take k (record_lines rs)) = Inr cur' \<and>
    jr_latest cur' = foldl set_latest (jr_latest cur) (take m rs) \<and> jr_tail cur' = last_record (jr_tail cur) (take m rs)"
proof -
  obtain m where m: "m \<le> length rs"
    "durable_lines (take k (record_lines rs)) = map (\<lambda>r. butlast (record_line r)) (take m rs)"
    using durable_lines_torn by blast
  have r: "read_lines H opId [] None (durable_lines bytes) = Inr (jr_latest cur, jr_tail cur)"
    using assms(1) by (auto simp: parse_journal_def)
  have "\<forall>r \<in> set (take m rs). record_valid H r" using assms(2) in_set_takeD by metis
  from read_lines_replay [OF this replay_take [OF assms(3)]] show ?thesis
    using r m by (auto simp: parse_journal_def durable_lines_durable_part read_lines_append)
qed

text \<open>What an operation of the journal builds from the records it reads.\<close>

definition wal_build :: "hash \<Rightarrow> wal_op \<Rightarrow> string \<Rightarrow> journal_records \<Rightarrow> journal_error + mutation_record list" where
  "wal_build H op opId cur =
     (case op of
        Begin intents \<Rightarrow> make_intents H opId (length (jr_latest cur) + 1) (jr_tail cur) intents
      | Advance advances \<Rightarrow> make_advances H (jr_latest cur) (jr_tail cur) (flatten_advances advances)
      | RollbackCleaned n \<Rightarrow> make_rollback_cleaned H n cur)"

definition wal_idle :: "wal_op \<Rightarrow> bool" where
  "wal_idle op \<longleftrightarrow> (case op of Begin is \<Rightarrow> is = [] | Advance as \<Rightarrow> as = [] \<or> list_ex (\<lambda>a. ma_states a = []) as | _ \<Rightarrow> False)"

lemma wal_run_batch: "\<not> wal_idle op \<Longrightarrow> wal_run H op j d = append_batch H (wal_build H op (mj_opId j)) j d"
  by (cases op) (simp_all add: wal_run_def wal_idle_def wal_build_def [abs_def] beginMany_def advanceBatch_def markRollbackCleaned_def)

lemma wal_run_idle: "wal_idle op \<Longrightarrow> wal_run H op j d = (Inl MJ_empty_batch, j, d)"
  by (cases op) (simp_all add: wal_run_def wal_idle_def beginMany_def advanceBatch_def)

lemma wal_build_ok: "batch_ok H opId (wal_build H op opId)"
  unfolding wal_build_def [abs_def]
  by (cases op) (simp_all add: batch_ok_begin [simplified] batch_ok_advance batch_ok_clean)

lemma sound_failed:
  assumes "sound H latest w" "wal_run H op (qw_journal w) (qw_disk w) = (Inl e, jd)"
  shows "sound H latest (with_journal jd w)"
proof (cases "wal_idle op")
  case True
  then show ?thesis using assms by (auto simp: wal_run_idle sound_def)
next
  case False
  have c: "coherent H (qw_journal w) (qw_disk w)" using assms(1) by (simp add: sound_def)
  show ?thesis
  proof (cases rule: append_batch_cases [OF c, of "wal_build H op (mj_opId (qw_journal w))"])
    case (1 e')
    then have "jd = (snd (current_records H (qw_journal w) (qw_disk w)), qw_disk w)"
      using assms(2) by (simp add: wal_run_batch [OF False])
    then show ?thesis using assms(1) current_records_view [OF c] by (auto simp: sound_def)
  next
    case (2 cur rs)
    then show ?thesis using assms(2) by (simp add: wal_run_batch [OF False])
  qed
qed

lemma sound_written:
  assumes "sound H latest w" "wal_run H op (qw_journal w) (qw_disk w) = (Inr rs, jd)"
  obtains cur where "journal_view H (mj_opId (qw_journal w)) (qw_disk w) = Inr cur" "jr_latest cur = latest"
    "wal_build H op (mj_opId (qw_journal w)) cur = Inr rs"
    "sound H (foldl set_latest latest rs) (with_journal jd w)" "mj_opId (fst jd) = mj_opId (qw_journal w)"
    "\<And>k. \<exists>m. sound H (foldl set_latest latest (take m rs)) (with_journal (torn_append H k rs (qw_journal w) (qw_disk w)) w)"
proof -
  let ?j = "qw_journal w" and ?d = "qw_disk w"
  let ?b = "case md_bytes ?d of None \<Rightarrow> [] | Some b \<Rightarrow> b" and ?build = "wal_build H op (mj_opId ?j)"
  obtain cur where c: "coherent H ?j ?d" "journal_view H (mj_opId ?j) ?d = Inr cur" "jr_latest cur = latest"
    "list_all (record_valid H) latest" "\<forall>t. jr_tail cur = Some t \<longrightarrow> record_valid H t"
    using assms(1) by (auto simp: sound_def)
  have live: "\<not> wal_idle op" using assms(2) wal_run_idle by force
  obtain j1 where j1: "current_records H ?j ?d = (Inr cur, j1)" "coherent H j1 ?d" "mj_opId j1 = mj_opId ?j"
    using current_records_view [OF c(1)] c(2) by (cases "current_records H ?j ?d") auto
  have b: "?build cur = Inr rs" "append_records rs cur j1 ?d = jd"
    using assms(2) unfolding wal_run_batch [OF live] append_batch_def j1(1)
    by (auto split: sum.splits prod.splits)
  note ok = batch_okD [OF wal_build_ok b(1) log_ok_view [OF c(2)]]
  note v = append_records_view [OF c(1,2) b(1) wal_build_ok, of j1 "fst jd" "snd jd"]
  obtain c' where c': "parse_journal H (mj_opId ?j) ?b = Inr c'" "jr_latest c' = jr_latest cur"
    "jr_tail c' = jr_tail cur" "jr_durableEnd c' = jr_durableEnd cur"
    using view_parse [OF c(2)] .
  have d: "md_bytes (snd jd) = Some (durable_part ?b @ record_lines rs)"
    using b(2) kept_bytes_view [OF c(2)] by (auto simp: append_records_def Let_def)
  have r: "replay (mj_opId ?j) (jr_latest c') (jr_tail c') rs = Inr ()" using ok(2) c' by simp
  have s: "sound H (foldl set_latest latest rs) (with_journal jd w)"
  proof -
    have "parse_journal H (mj_opId ?j) (durable_part ?b @ record_lines rs) = Inr
      \<lparr>jr_latest = foldl set_latest (jr_latest c') rs, jr_tail = last_record (jr_tail c') rs,
       jr_durableEnd = jr_durableEnd c' + length (record_lines rs), jr_hasNonDurableTail = False, jr_fileExisted = True\<rparr>"
      by (rule append_parse [OF c'(1) ok(1) r])
    then show ?thesis
      using v(1,2) b(2) j1(3) d c' c(3) valid_replay [OF c(4) ok(1)] ok(2) valid_tail [OF c(5) ok(1)]
      by (auto simp: sound_def journal_view_def)
  qed
  have t: "\<exists>m. sound H (foldl set_latest latest (take m rs)) (with_journal (torn_append H k rs ?j ?d) w)" for k
  proof -
    obtain m cur' where m: "parse_journal H (mj_opId ?j) (durable_part ?b @ take k (record_lines rs)) = Inr cur'"
      "jr_latest cur' = foldl set_latest (jr_latest c') (take m rs)" "jr_tail cur' = last_record (jr_tail c') (take m rs)"
      using torn_parse [OF c'(1) ok(1) r] by blast
    have rv: "\<forall>r \<in> set (take m rs). record_valid H r" using ok(1) in_set_takeD by metis
    have a: "torn_append H k rs ?j ?d = (j1, \<lparr>md_bytes = Some (durable_part ?b @ take k (record_lines rs)), md_stamp = Suc (md_stamp ?d)\<rparr>)"
      by (simp add: torn_append_def j1(1) kept_bytes_view [OF c(2)])
    show ?thesis
      using m c' c(3) valid_replay [OF c(4) rv replay_take] ok(2) valid_tail [OF c(5) rv] coherent_later [OF j1(2)] j1(3)
      by (intro exI [of _ m]) (auto simp: sound_def journal_view_def a)
  qed
  show thesis by (rule that [OF c(2,3) b(1) s _ t]) (use v(1) b(2) j1(3) in simp)
qed


section \<open>One mutation in the log\<close>

text \<open>Two records of the same mutation.\<close>

definition same_mutation :: "mutation_record \<Rightarrow> mutation_record \<Rightarrow> bool" where
  "same_mutation p r \<longleftrightarrow>
     r = p\<lparr>mr_state := mr_state r, mr_previousChecksum := mr_previousChecksum r, mr_checksum := mr_checksum r\<rparr>"

lemma same_mutation_refl [simp]: "same_mutation p p"
  by (simp add: same_mutation_def)

lemma same_mutationD:
  assumes "same_mutation p r"
  shows "mr_opId r = mr_opId p" "mr_ordinal r = mr_ordinal p" "mr_kind r = mr_kind p" "mr_path r = mr_path p"
    "mr_sourceArtifact r = mr_sourceArtifact p" "mr_targetArtifact r = mr_targetArtifact p"
    "mr_sourceFingerprint r = mr_sourceFingerprint p" "mr_targetFingerprint r = mr_targetFingerprint p"
    "immutablePayload r = immutablePayload p"
proof -
  obtain st pc cs where r: "r = p\<lparr>mr_state := st, mr_previousChecksum := pc, mr_checksum := cs\<rparr>"
    using assms unfolding same_mutation_def by blast
  show "mr_opId r = mr_opId p" "mr_ordinal r = mr_ordinal p" "mr_kind r = mr_kind p" "mr_path r = mr_path p"
    "mr_sourceArtifact r = mr_sourceArtifact p" "mr_targetArtifact r = mr_targetArtifact p"
    "mr_sourceFingerprint r = mr_sourceFingerprint p" "mr_targetFingerprint r = mr_targetFingerprint p"
    "immutablePayload r = immutablePayload p"
    by (simp_all add: r immutablePayload_def)
qed

lemma same_mutation_next: "same_mutation p (next_record p st t\<lparr>mr_checksum := c\<rparr>)"
  by (simp add: same_mutation_def next_record_def)

lemma same_mutation_trans: "same_mutation p r \<Longrightarrow> same_mutation r s \<Longrightarrow> same_mutation p s"
proof -
  assume pr: "same_mutation p r" and "same_mutation r s"
  then obtain st pc cs st' pc' cs' where
    "r = p\<lparr>mr_state := st, mr_previousChecksum := pc, mr_checksum := cs\<rparr>"
    "s = r\<lparr>mr_state := st', mr_previousChecksum := pc', mr_checksum := cs'\<rparr>"
    unfolding same_mutation_def by blast
  then show ?thesis by (simp add: same_mutation_def)
qed

lemma latest_at_set_latest:
  assumes "latest_at latest n = Some p" "mr_ordinal r = n"
  shows "latest_at (set_latest latest r) n = Some r"
  using assms set_latest_at [of latest r p] by (auto simp: latest_at_Some)

lemma latest_at_foldl:
  assumes "latest_at latest n = Some p" "\<forall>r \<in> set rs. mr_ordinal r = n"
  shows "latest_at (foldl set_latest latest rs) n = Some (if rs = [] then p else last rs)"
  using assms
proof (induction rs arbitrary: latest p)
  case (Cons r rs)
  have "latest_at (set_latest latest r) n = Some r"
    using latest_at_set_latest [OF Cons.prems(1)] Cons.prems(2) by simp
  from Cons.IH [OF this] Cons.prems(2) show ?case by simp
qed simp

lemma make_advances_one:
  assumes "make_advances H latest tail (map (Pair n) states) = Inr rs" "latest_at latest n = Some p" "mr_ordinal p = n"
  shows "map mr_state rs = states \<and> (\<forall>r \<in> set rs. same_mutation p r)"
  using assms
proof (induction states arbitrary: latest tail rs p)
  case (Cons st states)
  from Cons.prems(1,2) obtain r qs where
    r: "seal_record H (next_record p st tail) = Inr r" and
    qs: "make_advances H (put_at latest (n - 1) r) (Some r) (map (Pair n) states) = Inr qs" and rs: "rs = r # qs"
    by (cases "seal_record H (next_record p st tail)") (auto simp: res_simps split: if_splits)
  have s: "same_mutation p r" unfolding seal_record_Inr(1) [OF r] by (rule same_mutation_next)
  have st: "mr_state r = st" by (simp add: seal_record_Inr(1) [OF r] next_record_def)
  have o: "mr_ordinal r = n" using same_mutationD(2) [OF s] Cons.prems(3) by simp
  have "latest_at (put_at latest (n - 1) r) n = Some r"
    using latest_at_set_latest [OF Cons.prems(2) o] by (simp add: set_latest_def o)
  from Cons.IH [OF qs this o] show ?case
    using s st rs same_mutation_trans [OF s] by auto
qed simp

lemma make_advances_missing: "make_advances H latest tail (map (Pair n) (st # states)) = Inr rs \<Longrightarrow> latest_at latest n \<noteq> None"
  by (auto split: option.splits)

text \<open>The log has the mutation, in one of the states.\<close>

definition listed :: "hash \<Rightarrow> mutation_record \<Rightarrow> mutation_state set \<Rightarrow> quarantine_world \<Rightarrow> bool" where
  "listed H p S w \<longleftrightarrow> (\<exists>latest r. sound H latest w \<and> latest_at latest (mr_ordinal p) = Some r \<and>
     same_mutation p r \<and> mr_state r \<in> S)"

lemma listed_mono: "listed H p S w \<Longrightarrow> S \<subseteq> S' \<Longrightarrow> listed H p S' w"
  by (auto simp: listed_def)

lemma seal_ok:
  assumes H: "digest H" and "\<And>c. mutation_fields_ok (r\<lparr>mr_checksum := c\<rparr>) \<longleftrightarrow> is_checksum c"
  shows "\<exists>s. seal_record H r = Inr s"
proof -
  let ?s = "r\<lparr>mr_checksum := content_checksum H (mutation_content r)\<rparr>"
  have ok: "json_ok (JObj (mutation_content r))"
    using json_ok_mutation [of r] by (simp add: json_of_mutation_def)
  then have "mutation_fields_ok ?s" using assms(2) content_checksum_hex [OF H ok] by blast
  then have "assertMutationRecord H (json_of_mutation ?s) = Inr (json_of_mutation ?s)"
    using content_checksum_json [OF ok] by (subst mutation_record_valid_iff) simp
  then show ?thesis by (simp add: seal_record_def Let_def)
qed

primrec one_by_one :: "mutation_state \<Rightarrow> mutation_state list \<Rightarrow> bool" where
  "one_by_one s [] = True"
| "one_by_one s (x # xs) = (state_index x = state_index s + 1 \<and> one_by_one x xs)"

lemma tail_checksum:
  "\<forall>t. tail = Some t \<longrightarrow> record_valid H t \<Longrightarrow> p \<in> set_option (map_option mr_checksum tail) \<Longrightarrow> is_checksum p"
  by (auto simp: record_valid_def mutation_record_valid_iff mutation_fields_ok_def)

lemma seal_next:
  assumes "digest H" "record_valid H x" "\<forall>t. tail = Some t \<longrightarrow> record_valid H t"
  shows "\<exists>s. seal_record H (next_record x st tail) = Inr s"
  using assms(2) tail_checksum [OF assms(3)]
  by (intro seal_ok [OF assms(1)]) (auto simp: mutation_fields_ok_def next_record_def record_valid_def mutation_record_valid_iff)

lemma make_advances_ok:
  assumes "digest H" "latest_at latest n = Some p" "mr_ordinal p = n" "record_valid H p" "\<forall>t. tail = Some t \<longrightarrow> record_valid H t"
    "one_by_one (mr_state p) states"
  shows "\<exists>rs. make_advances H latest tail (map (Pair n) states) = Inr rs"
  using assms(2-)
proof (induction states arbitrary: latest tail p)
  case (Cons st states)
  obtain r where r: "seal_record H (next_record p st tail) = Inr r"
    using seal_next [OF assms(1) Cons.prems(3,4)] by blast
  have s: "mr_state r = st" "mr_ordinal r = n" "record_valid H r"
    using seal_record_Inr [OF r] Cons.prems(2) by (simp_all add: next_record_def)
  have "latest_at (put_at latest (n - 1) r) n = Some r"
    using latest_at_set_latest [OF Cons.prems(1) s(2)] by (simp add: set_latest_def s)
  from Cons.IH [OF this s(2,3)] obtain rs where "make_advances H (put_at latest (n - 1) r) (Some r) (map (Pair n) states) = Inr rs"
    using s Cons.prems(5) by auto
  then show ?case using r Cons.prems(1,5) by (simp add: res_simps)
qed simp

text \<open>An operation of the log whose records can be built is not refused.\<close>

lemma wal_run_ok:
  assumes "sound H latest w" "\<not> wal_idle op"
    and "\<And>cur. jr_latest cur = latest \<Longrightarrow> list_all (record_valid H) latest \<Longrightarrow> \<forall>t. jr_tail cur = Some t \<longrightarrow> record_valid H t \<Longrightarrow>
      \<exists>rs. wal_build H op (mj_opId (qw_journal w)) cur = Inr rs"
  shows "wal_run H op (qw_journal w) (qw_disk w) \<noteq> (Inl e, jd)"
proof -
  obtain cur where c: "coherent H (qw_journal w) (qw_disk w)"
    "journal_view H (mj_opId (qw_journal w)) (qw_disk w) = Inr cur" "jr_latest cur = latest"
    "list_all (record_valid H) latest" "\<forall>t. jr_tail cur = Some t \<longrightarrow> record_valid H t"
    using assms(1) by (auto simp: sound_def)
  have "fst (current_records H (qw_journal w) (qw_disk w)) = Inr cur" using current_records_view(1) [OF c(1)] c(2) by simp
  then obtain j1 where "current_records H (qw_journal w) (qw_disk w) = (Inr cur, j1)" by (metis prod.collapse)
  then show ?thesis
    using assms(3) [OF c(3-5)] by (auto simp: wal_run_batch [OF assms(2)] append_batch_def split: prod.splits)
qed

lemma tri_advance:
  assumes other: "\<And>w jd. P (with_journal jd w) = P w" and states: "states \<noteq> []"
    and T: "troubled q \<Longrightarrow> T" "T \<or> digest (qe_hash q) \<and> (\<forall>s \<in> S. one_by_one s states)"
    and E: "\<And>w. P w \<Longrightarrow> listed (qe_hash q) p (S \<union> set states) w \<Longrightarrow> T \<Longrightarrow> E w"
    and Q: "\<And>w r. P w \<Longrightarrow> listed (qe_hash q) p {last states} w \<Longrightarrow> same_mutation p r \<Longrightarrow> mr_state r = last states \<Longrightarrow> Q r w"
  shows "tri E (\<lambda>w. P w \<and> listed (qe_hash q) p S w) (advance_mutation q (mr_ordinal p) states) Q"
proof -
  let ?H = "qe_hash q" and ?op = "Advance [\<lparr>ma_ordinal = mr_ordinal p, ma_states = states\<rparr>]"
  let ?R = "\<lambda>rs w. P w \<and> listed ?H p {last states} w \<and> same_mutation p (last rs) \<and> mr_state (last rs) = last states"
  have "tri E (\<lambda>w. P w \<and> listed ?H p S w) (journal_write q ?op) ?R"
  proof (rule tri_each, rule tri_journal_write)
    fix w0 w e jd
    assume a: "P w0 \<and> listed ?H p S w0" "w = w0" "wal_run ?H ?op (qw_journal w) (qw_disk w) = (Inl e, jd)"
    then obtain latest r where l: "sound ?H latest w" "latest_at latest (mr_ordinal p) = Some r" "same_mutation p r" "mr_state r \<in> S"
      by (auto simp: listed_def)
    have T
    proof (rule ccontr)
      assume "\<not> T"
      then have ok: "digest ?H" "one_by_one (mr_state r) states" using T(2) l(4) by auto
      have "wal_run ?H ?op (qw_journal w) (qw_disk w) \<noteq> (Inl e, jd)"
      proof (rule wal_run_ok [OF l(1)])
        fix cur :: journal_records assume c: "jr_latest cur = latest" "list_all (record_valid ?H) latest" "\<forall>t. jr_tail cur = Some t \<longrightarrow> record_valid ?H t"
        have "record_valid ?H r" using l(2) c(2) by (auto simp: latest_at_Some list_all_iff)
        then show "\<exists>rs. wal_build ?H ?op (mj_opId (qw_journal w)) cur = Inr rs"
          using make_advances_ok [OF ok(1) l(2) same_mutationD(2) [OF l(3)] _ c(3) ok(2)] c(1)
          by (simp add: wal_build_def flatten_advances_def)
      qed (use states in \<open>simp add: wal_idle_def\<close>)
      then show False using a(3) by simp
    qed
    then show "E (with_journal jd w)"
      using a l sound_failed [OF l(1) a(3)] by (intro E) (auto simp: other listed_def)
  next
    fix w0 w rs jd k
    assume a: "P w0 \<and> listed ?H p S w0" "w = w0" "wal_run ?H ?op (qw_journal w) (qw_disk w) = (Inr rs, jd)"
    then obtain latest r where l: "sound ?H latest w" "latest_at latest (mr_ordinal p) = Some r" "same_mutation p r" "mr_state r \<in> S"
      by (auto simp: listed_def)
    obtain cur where c: "jr_latest cur = latest" "wal_build ?H ?op (mj_opId (qw_journal w)) cur = Inr rs"
      "sound ?H (foldl set_latest latest rs) (with_journal jd w)"
      "\<And>k. \<exists>m. sound ?H (foldl set_latest latest (take m rs)) (with_journal (torn_append ?H k rs (qw_journal w) (qw_disk w)) w)"
      using sound_written [OF l(1) a(3)] by metis
    have b: "make_advances ?H latest (jr_tail cur) (map (Pair (mr_ordinal p)) states) = Inr rs"
      using c(1,2) by (simp add: wal_build_def flatten_advances_def)
    have o: "mr_ordinal r = mr_ordinal p" by (rule same_mutationD(2) [OF l(3)])
    note m = make_advances_one [OF b l(2) o]
    have s: "\<forall>x \<in> set rs. same_mutation p x \<and> mr_ordinal x = mr_ordinal p \<and> mr_state x \<in> set states"
      using m same_mutation_trans [OF l(3)] same_mutationD(2) o
      by (metis image_eqI list.set_map)
    have rs0: "rs \<noteq> []" using m states by auto
    then have rs: "rs \<noteq> []" "mr_state (last rs) = last states" using m last_map [OF rs0, of mr_state] by simp_all
    show "E (with_journal (torn_append ?H k rs (qw_journal w) (qw_disk w)) w)" if "troubled q"
    proof -
      obtain i where i: "sound ?H (foldl set_latest latest (take i rs)) (with_journal (torn_append ?H k rs (qw_journal w) (qw_disk w)) w)"
        using c(4) by blast
      have t: "\<forall>x \<in> set (take i rs). same_mutation p x \<and> mr_ordinal x = mr_ordinal p \<and> mr_state x \<in> set states"
        using s in_set_takeD by metis
      have "latest_at (foldl set_latest latest (take i rs)) (mr_ordinal p) = Some (if take i rs = [] then r else last (take i rs))"
        by (rule latest_at_foldl [OF l(2)]) (use t in blast)
      then show ?thesis
        using i t l(3,4) a(1,2) last_in_set [of "take i rs"]
        by (intro E) (auto simp: other listed_def T(1) that split: if_splits)
    qed
    show "?R rs (with_journal jd w)"
      using c(3) latest_at_foldl [OF l(2), of rs] s rs a(1,2) last_in_set [OF rs(1)]
      by (auto simp: other listed_def)
  qed
  then show ?thesis
    unfolding advance_mutation_def by (rule tri_seq) (auto intro: tri_ret Q)
qed

text \<open>What the log asks of the arguments of a new mutation.\<close>

definition mutation_shape_ok :: "mutation_kind \<Rightarrow> string \<Rightarrow> string \<Rightarrow> string option \<Rightarrow> string \<Rightarrow> string \<Rightarrow> bool" where
  "mutation_shape_ok kind path source target f g \<longleftrightarrow>
     (kind = Write \<longrightarrow> target \<noteq> None) \<and> workspace_path_ok path \<and> workspace_path_ok source \<and>
     workspaceParent source = workspaceParent path \<and>
     (\<forall>t \<in> set_option target. workspace_path_ok t \<and> workspaceParent t = workspaceParent path) \<and>
     is_checksum f \<and> is_checksum g"

text \<open>The record \<open>journal.begin\<close> makes of its arguments.\<close>

definition intends ::
  "mutation_kind \<Rightarrow> string \<Rightarrow> string \<Rightarrow> string option \<Rightarrow> string \<Rightarrow> string \<Rightarrow> mutation_record \<Rightarrow> bool" where
  "intends kind path source target f g r \<longleftrightarrow>
     mr_kind r = kind \<and> mr_path r = path \<and> mr_sourceArtifact r = source \<and> mr_targetArtifact r = target \<and>
     mr_sourceFingerprint r = f \<and> mr_targetFingerprint r = g \<and> mr_state r = INTENT \<and> mutation_fields_ok r"

lemma tri_begin:
  assumes other: "\<And>w jd. P (with_journal jd w) = P w"
    and T: "troubled q \<Longrightarrow> T" "T \<or> digest (qe_hash q) \<and> mutation_shape_ok kind path source target f g"
    and E: "\<And>w. P w \<Longrightarrow> sound (qe_hash q) latest w \<Longrightarrow> T \<Longrightarrow> E w"
    and Q: "\<And>w r. P w \<Longrightarrow> listed (qe_hash q) r {INTENT} w \<Longrightarrow> intends kind path source target f g r \<Longrightarrow>
      mr_ordinal r = Suc (length latest) \<Longrightarrow> (T \<longrightarrow> E w) \<and> Q r w"
  shows "tri E (\<lambda>w. P w \<and> sound (qe_hash q) latest w \<and> (T \<or> op_id_ok (mj_opId (qw_journal w)))) (begin_mutation q kind path source target f g) Q"
proof -
  let ?H = "qe_hash q"
  let ?i = "\<lparr>mi_kind = kind, mi_path = path, mi_sourceArtifact = source, mi_targetArtifact = target,
    mi_sourceFingerprint = f, mi_targetFingerprint = g\<rparr>"
  let ?R = "\<lambda>rs w. \<exists>r. rs = [r] \<and> Q r w"
  have "tri E (\<lambda>w. P w \<and> sound ?H latest w \<and> (T \<or> op_id_ok (mj_opId (qw_journal w)))) (journal_write q (Begin [?i])) ?R"
  proof (rule tri_each, rule tri_journal_write)
    fix w0 w e jd
    assume a: "P w0 \<and> sound ?H latest w0 \<and> (T \<or> op_id_ok (mj_opId (qw_journal w0)))" "w = w0" "wal_run ?H (Begin [?i]) (qw_journal w) (qw_disk w) = (Inl e, jd)"
    have T
    proof (rule ccontr)
      assume n: "\<not> T"
      have "wal_run ?H (Begin [?i]) (qw_journal w) (qw_disk w) \<noteq> (Inl e, jd)"
      proof (rule wal_run_ok [of _ latest])
        fix cur :: journal_records assume c: "jr_latest cur = latest" "\<forall>t. jr_tail cur = Some t \<longrightarrow> record_valid ?H t"
        have "\<exists>s. seal_record ?H (intent_record (mj_opId (qw_journal w)) (Suc (length latest)) (jr_tail cur) ?i) = Inr s"
          using T(2) n a(1,2) tail_checksum [OF c(2)]
          by (intro seal_ok) (auto simp: mutation_fields_ok_def intent_record_def mutation_shape_ok_def)
        then show "\<exists>rs. wal_build ?H (Begin [?i]) (mj_opId (qw_journal w)) cur = Inr rs"
          by (auto simp: wal_build_def res_simps c(1))
      qed (use a in \<open>simp_all add: wal_idle_def\<close>)
      then show False using a(3) by simp
    qed
    with a show "E (with_journal jd w)"
      using sound_failed [of ?H latest w] by (intro E) (auto simp: other)
  next
    fix w0 w rs jd k
    assume a: "P w0 \<and> sound ?H latest w0 \<and> (T \<or> op_id_ok (mj_opId (qw_journal w0)))" "w = w0" "wal_run ?H (Begin [?i]) (qw_journal w) (qw_disk w) = (Inr rs, jd)"
    then have l: "sound ?H latest w" by simp
    obtain cur where c: "journal_view ?H (mj_opId (qw_journal w)) (qw_disk w) = Inr cur" "jr_latest cur = latest"
      "wal_build ?H (Begin [?i]) (mj_opId (qw_journal w)) cur = Inr rs"
      "sound ?H (foldl set_latest latest rs) (with_journal jd w)"
      "\<And>k. \<exists>m. sound ?H (foldl set_latest latest (take m rs)) (with_journal (torn_append ?H k rs (qw_journal w) (qw_disk w)) w)"
      using sound_written [OF l a(3)] by metis
    obtain r where r: "seal_record ?H (intent_record (mj_opId (qw_journal w)) (Suc (length latest)) (jr_tail cur) ?i) = Inr r" "rs = [r]"
      using c(2,3) by (auto simp: wal_build_def res_simps)
    have o: "mr_ordinal r = Suc (length latest)" and int: "intends kind path source target f g r"
      using seal_record_Inr [OF r(1)] mutation_record_valid_iff
      by (auto simp: intends_def intent_record_def record_valid_def)
    have next_: "set_latest latest r = latest @ [r]" by (simp add: set_latest_next o)
    have at: "latest_at (latest @ [r]) (Suc (length latest)) = Some r" by (simp add: latest_at_Some nth_append)
    have st: "mr_state r = INTENT" using int by (simp add: intends_def)
    show "E (with_journal (torn_append ?H k rs (qw_journal w) (qw_disk w)) w)" if "troubled q"
    proof -
      obtain i where i: "sound ?H (foldl set_latest latest (take i rs)) (with_journal (torn_append ?H k rs (qw_journal w) (qw_disk w)) w)"
        using c(5) by blast
      show ?thesis
      proof (cases i)
        case 0
        then show ?thesis using i a(1,2) by (intro E) (simp_all add: other T(1) that)
      next
        case (Suc n)
        then have "listed ?H r {INTENT} (with_journal (torn_append ?H k rs (qw_journal w) (qw_disk w)) w)"
          using i at o st r(2) next_ by (auto simp: listed_def)
        then show ?thesis using Q [OF _ _ int o] a(1,2) T(1) [OF that] by (simp add: other)
      qed
    qed
    have "listed ?H r {INTENT} (with_journal jd w)"
      using c(4) at o st r(2) next_ by (auto simp: listed_def)
    then show "?R rs (with_journal jd w)" using Q [OF _ _ int o] a(1,2) r(2) by (simp add: other)
  qed
  then show ?thesis
    unfolding begin_mutation_def
    by (rule tri_seq) (auto intro!: tri_ret)
qed

definition paths_ok :: "quarantine_env \<Rightarrow> mutation_record \<Rightarrow> tree \<Rightarrow> bool" where
  "paths_ok q r t \<longleftrightarrow> path_ok q t (mr_path r) \<and>
     path_ok q t (mr_sourceArtifact r) \<and> artifact_of (mr_path r) (mr_sourceArtifact r) \<and>
     (\<forall>a \<in> set_option (mr_targetArtifact r). path_ok q t a \<and> artifact_of (mr_path r) a)"

lemma paths_ok_same: "same_mutation p r \<Longrightarrow> paths_ok q r t = paths_ok q p t"
  by (simp add: paths_ok_def same_mutationD)

lemma tri_loadOrdinal:
  assumes other: "\<And>w jd. P (with_journal jd w) = P w"
    and E: "\<And>w. P w \<Longrightarrow> listed (qe_hash q) p S w \<Longrightarrow> troubled q \<Longrightarrow> E w"
    and Q: "\<And>w r. P w \<Longrightarrow> listed (qe_hash q) p {mr_state r} w \<Longrightarrow> same_mutation p r \<Longrightarrow> mr_state r \<in> S \<Longrightarrow> Q (Some r) w"
  shows "tri E (\<lambda>w. P w \<and> listed (qe_hash q) p S w) (journal_read q (loadOrdinal (qe_hash q) (mr_ordinal p))) Q"
proof -
  let ?H = "qe_hash q"
  have read: "\<exists>r jd. loadOrdinal ?H (mr_ordinal p) (qw_journal w) (qw_disk w) = (Inr (Some r), jd) \<and>
      same_mutation p r \<and> mr_state r \<in> S \<and> listed ?H p {mr_state r} (with_journal jd w)"
    if listed: "listed ?H p S w" for w
  proof -
    let ?j = "qw_journal w" and ?d = "qw_disk w"
    obtain latest r where l: "sound ?H latest w" "latest_at latest (mr_ordinal p) = Some r" "same_mutation p r" "mr_state r \<in> S"
      using listed by (auto simp: listed_def)
    then obtain cur where c: "coherent ?H ?j ?d" "journal_view ?H (mj_opId ?j) ?d = Inr cur" "jr_latest cur = latest"
      by (auto simp: sound_def)
    obtain j1 where j1: "current_records ?H ?j ?d = (Inr cur, j1)" "coherent ?H j1 ?d" "mj_opId j1 = mj_opId ?j"
      using current_records_view [OF c(1)] c(2) by (cases "current_records ?H ?j ?d") auto
    have "loadOrdinal ?H (mr_ordinal p) ?j ?d = (Inr (Some r), j1, ?d)"
    proof -
      have "\<not> mr_ordinal p < 1" using l(2) by (simp add: latest_at_Some)
      then show ?thesis
        using l(2) same_mutationD(2) [OF l(3)] by (simp add: loadOrdinal_def load_records_def j1(1) c(3))
    qed
    moreover have "sound ?H latest (with_journal (j1, ?d) w)"
      using l(1) j1 c by (auto simp: sound_def)
    ultimately show ?thesis using l by (auto simp: listed_def)
  qed
  show ?thesis
    by (rule tri_journal_read) (use read E Q other in \<open>fastforce+\<close>)
qed

lemma tri_assertOwnedRecord:
  assumes other: "\<And>w jd. P (with_journal jd w) = P w"
    and E: "\<And>w. P w \<Longrightarrow> listed (qe_hash q) p S w \<Longrightarrow> troubled q \<or> qw_identity w \<noteq> qe_root q \<or> \<not> paths_ok q p (qw_tree w) \<Longrightarrow> E w"
    and Q: "\<And>w r. P w \<Longrightarrow> listed (qe_hash q) p {mr_state r} w \<Longrightarrow> same_mutation p r \<Longrightarrow> mr_state r \<in> S \<Longrightarrow>
      qw_identity w = qe_root q \<Longrightarrow> paths_ok q p (qw_tree w) \<Longrightarrow> Q r w"
  shows "tri E (\<lambda>w. P w \<and> listed (qe_hash q) p S w) (assertOwnedRecord q p) Q"
proof -
  let ?H = "qe_hash q"
  let ?A = "\<lambda>w. (P w \<and> qw_identity w = qe_root q) \<and> listed ?H p S w"
  let ?B = "\<lambda>found w. \<exists>r. found = Some r \<and> same_mutation p r \<and> mr_state r \<in> S \<and>
    P w \<and> qw_identity w = qe_root q \<and> listed ?H p {mr_state r} w"
  have 1: "tri E (\<lambda>w. P w \<and> listed ?H p S w) (assertWorkspaceIdentity q) (\<lambda>_. ?A)"
    by (rule tri_checks [OF checks_assertWorkspaceIdentity]) (use E in auto)
  have 2: "tri E ?A (journal_read q (loadOrdinal ?H (mr_ordinal p))) ?B"
    by (rule tri_loadOrdinal) (use E in \<open>auto simp: other\<close>)
  have mono: "listed ?H p S w" if "listed ?H p {mr_state r} w" "mr_state r \<in> S" for r w
    by (rule listed_mono [OF that(1)]) (use that(2) in simp)
  have 3: "tri E (?B found) (case found of None \<Rightarrow> throw (refuse Unsafe_artifact)
     | Some owned \<Rightarrow>
         seq (in_order
           ([require (immutableMutation owned = immutableMutation p) (refuse Unsafe_artifact),
             assertPath q (mr_path owned),
             assertArtifactPath q (mr_path owned) (mr_sourceArtifact owned)] @
            (case mr_targetArtifact owned of
               None \<Rightarrow> [] | Some t \<Rightarrow> [assertArtifactPath q (mr_path owned) t]))) (\<lambda>_. ret owned)) Q" for found
  proof (cases found)
    case None
    then show ?thesis by (simp add: tri_def holds_def)
  next
    case (Some r)
    let ?checks = "[require (immutableMutation r = immutableMutation p) (refuse Unsafe_artifact :: quarantine_exn),
             assertPath q (mr_path r),
             assertArtifactPath q (mr_path r) (mr_sourceArtifact r)] @
            (case mr_targetArtifact r of None \<Rightarrow> [] | Some t \<Rightarrow> [assertArtifactPath q (mr_path r) t])"
    have c: "checks q (\<lambda>w. only_if (immutableMutation r = immutableMutation p \<and> paths_ok q r (qw_tree w))) (in_order ?checks)"
    proof (cases "mr_targetArtifact r")
      case None
      show ?thesis
        unfolding None option.case append_Nil2
        by (rule checks_eq [OF checks_in_order(2) [OF checks_require checks_in_order(2) [OF checks_assertPath
              checks_in_order(2) [OF checks_assertArtifactPath checks_in_order(1)]]]])
          (auto simp: only_if_def paths_ok_def None)
    next
      case t: (Some t)
      show ?thesis
        unfolding t option.case append_Cons append_Nil
        by (rule checks_eq [OF checks_in_order(2) [OF checks_require checks_in_order(2) [OF checks_assertPath
              checks_in_order(2) [OF checks_assertArtifactPath checks_in_order(2) [OF checks_assertArtifactPath checks_in_order(1)]]]]])
          (auto simp: only_if_def paths_ok_def t)
    qed
    show ?thesis
      unfolding Some option.case
    proof (rule tri_seq [where R = "\<lambda>_ w. paths_ok q p (qw_tree w) \<and> ?B (Some r) w"])
      show "tri E (?B (Some r)) (in_order ?checks) (\<lambda>_ w. paths_ok q p (qw_tree w) \<and> ?B (Some r) w)"
      proof (rule tri_checks [OF c])
        fix w assume b: "?B (Some r) w"
        then have m: "P w" "listed ?H p S w" "same_mutation p r" using mono by auto
        show "troubled q \<Longrightarrow> E w" by (rule E [OF m(1,2)]) simp
        show "only_if (immutableMutation r = immutableMutation p \<and> paths_ok q r (qw_tree w)) = None \<Longrightarrow> E w"
          using same_mutationD(9) [OF m(3)] paths_ok_same [OF m(3)] by (intro E [OF m(1,2)]) (simp add: immutableMutation_def)
        show "only_if (immutableMutation r = immutableMutation p \<and> paths_ok q r (qw_tree w)) = Some x \<Longrightarrow>
            paths_ok q p (qw_tree w) \<and> ?B (Some r) w" for x
          using b paths_ok_same [OF m(3)] by simp
      qed
      show "tri E (\<lambda>w. paths_ok q p (qw_tree w) \<and> ?B (Some r) w) (ret r) Q" for x :: unit
        by (rule tri_ret) (use Q in auto)
    qed
  qed
  show ?thesis
    unfolding assertOwnedRecord_def
    by (rule tri_seq [OF 1], rule tri_seq [OF 2], rule 3)
qed

lemma tri_mark_cleaned:
  assumes other: "\<And>w jd. P (with_journal jd w) = P w"
    and p: "same_mutation p r" and S: "CLEANED \<notin> S" and H: "digest (qe_hash q)"
    and E: "\<And>w. P w \<Longrightarrow> listed (qe_hash q) p (insert CLEANED S) w \<Longrightarrow> troubled q \<Longrightarrow> E w"
    and Q: "\<And>w. P w \<Longrightarrow> listed (qe_hash q) p {CLEANED} w \<Longrightarrow> Q w"
  shows "tri E (\<lambda>w. P w \<and> listed (qe_hash q) p S w) (mark_cleaned q r) (\<lambda>_. Q)"
proof -
  let ?H = "qe_hash q" and ?op = "RollbackCleaned (mr_ordinal p)"
  have build: "\<exists>x. wal_build ?H ?op opId cur = Inr [x] \<and> same_mutation p x \<and> mr_state x = CLEANED"
    if l: "latest_at (jr_latest cur) (mr_ordinal p) = Some x" "same_mutation p x" "mr_state x \<in> S"
      "list_all (record_valid ?H) (jr_latest cur)" "\<forall>t. jr_tail cur = Some t \<longrightarrow> record_valid ?H t" for opId cur x
  proof -
    have "record_valid ?H x" using l(1,4) by (auto simp: latest_at_Some list_all_iff)
    then obtain s where s: "seal_record ?H (next_record x CLEANED (jr_tail cur)) = Inr s"
      using seal_next [OF H _ l(5)] by blast
    note e = seal_record_Inr(1) [OF s]
    have "mr_state x \<noteq> CLEANED" using l(3) S by auto
    moreover have "same_mutation p s" unfolding e by (rule same_mutation_trans [OF l(2) same_mutation_next])
    moreover have "mr_state s = CLEANED" by (simp add: e next_record_def)
    ultimately show ?thesis
      using l(1) s by (auto simp: wal_build_def make_rollback_cleaned_def res_simps)
  qed
  have o: "mr_ordinal r = mr_ordinal p" by (rule same_mutationD(2) [OF p])
  have "tri E (\<lambda>w. P w \<and> listed ?H p S w) (journal_write q ?op) (\<lambda>_. Q)"
  proof (rule tri_each, rule tri_journal_write)
    fix w0 w e jd
    assume a: "P w0 \<and> listed ?H p S w0" "w = w0" "wal_run ?H ?op (qw_journal w) (qw_disk w) = (Inl e, jd)"
    then obtain latest x where l: "sound ?H latest w" "latest_at latest (mr_ordinal p) = Some x" "same_mutation p x" "mr_state x \<in> S"
      by (auto simp: listed_def)
    then obtain cur where c: "coherent ?H (qw_journal w) (qw_disk w)"
      "journal_view ?H (mj_opId (qw_journal w)) (qw_disk w) = Inr cur" "jr_latest cur = latest"
      "list_all (record_valid ?H) latest" "\<forall>t. jr_tail cur = Some t \<longrightarrow> record_valid ?H t"
      by (auto simp: sound_def)
    have live: "\<not> wal_idle ?op" by (simp add: wal_idle_def)
    have "fst (current_records ?H (qw_journal w) (qw_disk w)) = Inr cur" using current_records_view(1) [OF c(1)] c(2) by simp
    then obtain j1 where "current_records ?H (qw_journal w) (qw_disk w) = (Inr cur, j1)" by (metis prod.collapse)
    then show "E (with_journal jd w)"
      using a(3) build [of cur x "mj_opId (qw_journal w)"] c l
      by (auto simp: wal_run_batch [OF live] append_batch_def split: prod.splits)
  next
    fix w0 w rs jd k
    assume a: "P w0 \<and> listed ?H p S w0" "w = w0" "wal_run ?H ?op (qw_journal w) (qw_disk w) = (Inr rs, jd)"
    then obtain latest x where l: "sound ?H latest w" "latest_at latest (mr_ordinal p) = Some x" "same_mutation p x" "mr_state x \<in> S"
      by (auto simp: listed_def)
    obtain cur where c: "journal_view ?H (mj_opId (qw_journal w)) (qw_disk w) = Inr cur" "jr_latest cur = latest"
      "wal_build ?H ?op (mj_opId (qw_journal w)) cur = Inr rs"
      "sound ?H (foldl set_latest latest rs) (with_journal jd w)"
      "\<And>k. \<exists>m. sound ?H (foldl set_latest latest (take m rs)) (with_journal (torn_append ?H k rs (qw_journal w) (qw_disk w)) w)"
      using sound_written [OF l(1) a(3)] by metis
    have "list_all (record_valid ?H) (jr_latest cur)" "\<forall>t. jr_tail cur = Some t \<longrightarrow> record_valid ?H t"
      using l(1) c(1) by (auto simp: sound_def)
    then obtain y where y: "rs = [y]" "same_mutation p y" "mr_state y = CLEANED"
      using build [of cur x "mj_opId (qw_journal w)"] c(2,3) l by auto
    have at: "latest_at (set_latest latest y) (mr_ordinal p) = Some y"
      by (rule latest_at_set_latest [OF l(2) same_mutationD(2) [OF y(2)]])
    {
      assume "troubled q"
      obtain i where i: "sound ?H (foldl set_latest latest (take i rs)) (with_journal (torn_append ?H k rs (qw_journal w) (qw_disk w)) w)"
        using c(5) by blast
      have "listed ?H p (insert CLEANED S) (with_journal (torn_append ?H k rs (qw_journal w) (qw_disk w)) w)"
      proof (cases i)
        case 0
        then show ?thesis using i l by (auto simp: listed_def)
      next
        case (Suc m)
        then show ?thesis using i y at by (auto simp: listed_def)
      qed
      then show "E (with_journal (torn_append ?H k rs (qw_journal w) (qw_disk w)) w)"
        using a(1,2) \<open>troubled q\<close> by (intro E) (simp_all add: other)
    }
    have "listed ?H p {CLEANED} (with_journal jd w)" using c(4) y at by (auto simp: listed_def)
    then show "Q (with_journal jd w)" using a(1,2) by (intro Q) (simp_all add: other)
  qed
  then show ?thesis
    unfolding mark_cleaned_def o by (rule tri_seq) (rule tri_ret)
qed

section \<open>The paths of the artifacts\<close>

text \<open>Every directory on the way to a path is there.\<close>

definition grounded :: "tree \<Rightarrow> string \<Rightarrow> bool" where
  "grounded t p \<longleftrightarrow> (\<forall>i. 0 < i \<longrightarrow> i < length (split_on (CHR ''/'') p) \<longrightarrow>
     tr_leaves t (join_with ''/'' (take i (split_on (CHR ''/'') p))) = Some Folder)"

definition proper_path :: "quarantine_env \<Rightarrow> string \<Rightarrow> bool" where
  "proper_path q p \<longleftrightarrow> qe_root q \<noteq> [] \<and> CHR 0x00 \<notin> set (qe_root q) \<and> \<not> has_git_component p \<and> safe_candidate p \<and> p \<noteq> ''.''"

lemma walk_grounded:
  assumes "\<And>i. 0 < i \<Longrightarrow> i < length parts \<Longrightarrow> tr_leaves t (join_with ''/'' (pre @ take i parts)) = Some Folder"
  shows "walk_components (tree_lstat q t) (absolute_parts (qe_cwd q) (qe_root q) @ pre) parts = Inr ()"
  using assms
proof (induction parts arbitrary: pre)
  case (Cons x parts)
  let ?base = "absolute_parts (qe_cwd q) (qe_root q)"
  have l: "tree_lstat q t (?base @ pre @ [x]) =
      (case tr_leaves t (join_with ''/'' (pre @ [x])) of
         None \<Rightarrow> Inl ''ENOENT'' | Some (Symlink_to _) \<Rightarrow> Inr StatSymlink | Some Folder \<Rightarrow> Inr StatDirectory | Some _ \<Rightarrow> Inr StatOther)"
    by (simp add: tree_lstat_def Let_def)
  show ?case
  proof (cases "parts = []")
    case True
    then show ?thesis by (auto simp: l Let_def split: option.split leaf.split)
  next
    case False
    have f: "tr_leaves t (join_with ''/'' (pre @ [x])) = Some Folder" using Cons.prems [of 1] False by simp
    have "walk_components (tree_lstat q t) (?base @ (pre @ [x])) parts = Inr ()"
      by (rule Cons.IH) (use Cons.prems [of "Suc _"] in simp)
    then show ?thesis using False by (simp add: l f Let_def check_parent_def res_simps)
  qed
qed simp

lemma path_ok_grounded:
  assumes "proper_path q p" "grounded t p"
  shows "path_ok q t p"
proof -
  have "walk_components (tree_lstat q t) (absolute_parts (qe_cwd q) (qe_root q) @ []) (split_on (CHR ''/'') p) = Inr ()"
    by (rule walk_grounded) (use assms(2) in \<open>simp add: grounded_def\<close>)
  then show ?thesis
    using assms(1) by (auto simp: path_ok_def proper_path_def assertNoSymlinkEscape_def relativeSafePath_iff res_simps)
qed

lemma proper_parts: "proper_path q p \<Longrightarrow> list_all plain_part (split_on (CHR ''/'') p)"
  by (auto simp: proper_path_def safe_candidate_def)

lemma workspaceParent_append: "CHR ''/'' \<notin> set y \<Longrightarrow> workspaceParent (x @ CHR ''/'' # y) = x"
proof -
  assume y: "CHR ''/'' \<notin> set y"
  have "dropWhile (\<lambda>c. c \<noteq> CHR ''/'') (rev (x @ CHR ''/'' # y)) = CHR ''/'' # rev x"
    using y by (subst rev_append, subst rev.simps, subst append_assoc, subst dropWhile_append2) auto
  then show ?thesis by (simp add: workspaceParent_def has_char_def)
qed

text \<open>A path is a name, or a parent and a name.\<close>

lemma path_cases:
  obtains (top) "CHR ''/'' \<notin> set p" "workspaceParent p = []" "split_on (CHR ''/'') p = [p]"
  | (nested) x y where "p = x @ CHR ''/'' # y" "CHR ''/'' \<notin> set y" "workspaceParent p = x"
      "split_on (CHR ''/'') p = split_on (CHR ''/'') x @ [y]"
proof (cases "CHR ''/'' \<in> set p")
  case True
  then obtain x y where p: "p = x @ CHR ''/'' # y" "CHR ''/'' \<notin> set y" by (meson split_list_last)
  show thesis
    by (rule nested [OF p]) (simp_all add: p workspaceParent_append split_on_append split_on_no_sep)
next
  case False
  then show thesis by (intro top) (simp_all add: workspaceParent_def has_char_def split_on_no_sep)
qed

lemma in_parent_parts:
  assumes "proper_path q p" "CHR ''/'' \<notin> set name"
  shows "split_on (CHR ''/'') (in_parent p name) = butlast (split_on (CHR ''/'') p) @ [name]"
    "workspaceParent (in_parent p name) = workspaceParent p" "dirname (in_parent p name) = dirname p"
proof -
  have "split_on (CHR ''/'') (in_parent p name) = butlast (split_on (CHR ''/'') p) @ [name] \<and>
    workspaceParent (in_parent p name) = workspaceParent p \<and> dirname (in_parent p name) = dirname p"
  proof (cases rule: path_cases [of p])
    case top
    then show ?thesis
      using assms(2) by (simp add: in_parent_def split_on_no_sep workspaceParent_def has_char_def dirname_def)
  next
    case (nested x y)
    have "x \<noteq> []" using proper_parts [OF assms(1)] nested(4) by (auto simp: plain_part_def)
    then show ?thesis
      using nested assms(2) by (simp add: in_parent_def Let_def split_on_append split_on_no_sep workspaceParent_append dirname_def has_char_def)
  qed
  then show "split_on (CHR ''/'') (in_parent p name) = butlast (split_on (CHR ''/'') p) @ [name]"
    "workspaceParent (in_parent p name) = workspaceParent p" "dirname (in_parent p name) = dirname p" by simp_all
qed

lemma grounded_sibling:
  assumes "split_on (CHR ''/'') a = butlast (split_on (CHR ''/'') p) @ [name]"
  shows "grounded t a = grounded t p"
proof -
  have "length (split_on (CHR ''/'') a) = length (split_on (CHR ''/'') p)"
    "\<And>i. i < length (split_on (CHR ''/'') p) \<Longrightarrow> take i (split_on (CHR ''/'') a) = take i (split_on (CHR ''/'') p)"
    by (auto simp: assms take_butlast)
  then show ?thesis unfolding grounded_def by auto
qed

lemma nonce_chars:
  assumes "is_nonce n" "\<not> is_hex_digit c" "c \<notin> set ''.pi-undo-q1-''" "c \<notin> set role"
  shows "c \<notin> set (artifact_name n role)"
proof -
  have "c \<notin> set n" using assms(1,2) by (auto simp: is_nonce_def list_all_iff)
  moreover have "c \<noteq> CHR ''-''" using assms(3) by auto
  ultimately show ?thesis using assms(3,4) unfolding artifact_name_def set_append by simp
qed

lemma artifact_name_ok:
  assumes "is_nonce n" "role = ''source'' \<or> role = ''target''"
  shows "is_artifact_name (artifact_name n role)"
proof -
  have n: "length n = 32" using assms(1) by (simp add: is_nonce_def)
  define pre where "pre = ''.pi-undo-q1-''"
  have l: "length pre = 12" by (simp add: pre_def)
  have a: "artifact_name n role = pre @ n @ ''-'' @ role" by (simp add: artifact_name_def pre_def)
  have "take 12 (artifact_name n role) = pre" "drop 12 (artifact_name n role) = n @ ''-'' @ role"
    unfolding a by (simp_all add: l)
  moreover have "drop 44 (artifact_name n role) = drop 32 (drop 12 (artifact_name n role))" by simp
  ultimately show ?thesis
    using assms n by (auto simp: is_artifact_name_def pre_def [symmetric])
qed

lemma proper_artifact:
  assumes "proper_path q p" "is_nonce n" "role = ''source'' \<or> role = ''target''"
  shows "proper_path q (in_parent p (artifact_name n role))" "artifact_of p (in_parent p (artifact_name n role))"
    "grounded t (in_parent p (artifact_name n role)) = grounded t p" "in_parent p (artifact_name n role) \<noteq> p \<or> is_artifact_name (last (split_on (CHR ''/'') p))"
proof -
  let ?n = "artifact_name n role" and ?a = "in_parent p (artifact_name n role)"
  have no: "CHR ''/'' \<notin> set ?n" "CHR 0x00 \<notin> set ?n" "CHR 0x5C \<notin> set ?n"
    by (rule nonce_chars [OF assms(2)]; use assms(3) in \<open>auto simp: is_hex_digit_def\<close>)+
  note parts = in_parent_parts [OF assms(1) no(1)]
  obtain rest where hd: "?n = CHR ''.'' # CHR ''p'' # rest" by (simp add: artifact_name_def)
  have plain: "plain_part ?n" using no(1) by (simp add: plain_part_def hd)
  have g: "to_lower ?n \<noteq> ''.git''" by (simp add: hd to_lower_def lower_char_def)
  have comp: "set (split_on (CHR ''/'') ?a) \<subseteq> set (split_on (CHR ''/'') p) \<union> {?n}"
    unfolding parts by (auto dest: in_set_butlastD)
  have first: "\<not> drive_letter ?a \<and> CHR 0x00 \<notin> set ?a \<and> CHR 0x5C \<notin> set ?a \<and> ?a \<noteq> [] \<and> ?a \<noteq> ''.''"
  proof (cases rule: path_cases [of p])
    case top
    then show ?thesis using no by (simp add: in_parent_def hd drive_letter_def is_alpha_def)
  next
    case (nested x y)
    have x: "x \<noteq> []" using proper_parts [OF assms(1)] nested(4) by (auto simp: plain_part_def)
    then have a: "?a = x @ CHR ''/'' # ?n" by (simp add: in_parent_def nested(3) Let_def)
    have p: "\<not> drive_letter p" "CHR 0x00 \<notin> set p" "CHR 0x5C \<notin> set p"
      using assms(1) by (auto simp: proper_path_def safe_candidate_def)
    have "drive_letter (x @ CHR ''/'' # ?n) = drive_letter (x @ CHR ''/'' # y)"
      using x unfolding drive_letter_def by (cases x; cases "tl x") auto
    then have "\<not> drive_letter (x @ CHR ''/'' # ?n)" using p(1) nested(1) by simp
    moreover have "CHR 0x00 \<notin> set x" "CHR 0x5C \<notin> set x" using p(2,3) nested(1) by simp_all
    moreover have "x @ CHR ''/'' # ?n \<noteq> ''.''" by (cases x) auto
    ultimately show ?thesis using no unfolding a by simp
  qed
  show "proper_path q ?a"
    using assms(1) comp plain g first
    by (auto simp: proper_path_def safe_candidate_def has_git_component_def list_ex_iff list_all_iff)
  show "artifact_of p ?a"
    using artifact_name_ok [OF assms(2,3)] by (simp add: artifact_of_def parts)
  show "grounded t ?a = grounded t p" by (rule grounded_sibling [OF parts(1)])
  show "?a \<noteq> p \<or> is_artifact_name (last (split_on (CHR ''/'') p))"
    using artifact_name_ok [OF assms(2,3)] parts(1) by (metis last_snoc)
qed

lemma in_parent_inject: "in_parent p a = in_parent p b \<Longrightarrow> a = b"
  by (simp add: in_parent_def Let_def split: if_splits)

lemma grounded_parent: "grounded t p \<Longrightarrow> parent_exists t p"
proof (cases rule: path_cases [of p])
  case top
  then show ?thesis by (simp add: parent_exists_def has_char_def)
next
  case (nested x y)
  assume "grounded t p"
  then have "tr_leaves t (join_with ''/'' (take (length (split_on (CHR ''/'') x)) (split_on (CHR ''/'') p))) = Some Folder"
    unfolding grounded_def using nested(4) by (cases "split_on (CHR ''/'') x") auto
  then show ?thesis by (simp add: parent_exists_def nested(3,4))
qed

lemma proper_workspace:
  assumes "proper_path q p"
  shows "workspace_path_ok p"
proof -
  have parts: "list_all plain_part (split_on (CHR ''/'') p)" by (rule proper_parts [OF assms])
  have "\<not> ends_with ''/'' p"
  proof
    assume "ends_with ''/'' p"
    then obtain x where "p = x @ ''/''" by (cases p rule: rev_cases) (auto simp: ends_with_def starts_with_def)
    then have "split_on (CHR ''/'') p = split_on (CHR ''/'') x @ [[]]"
      using split_on_append [of "CHR ''/''" x "[]"] by simp
    then show False using parts by (simp add: plain_part_def)
  qed
  moreover have "\<not> starts_with ''/'' p"
    using parts by (cases p) (auto simp: starts_with_def plain_part_def)
  ultimately show ?thesis
    using assms parts
    by (auto simp: workspace_path_ok_def isCanonicalRoot_def proper_path_def safe_candidate_def has_char_def drive_prefix_def drive_letter_def
        plain_part_def list_all_iff)
qed

end
