(* ===== verification/QuarantineUndo.thy ===== *)
theory QuarantineUndo
  imports QuarantineTriples
begin

text \<open>
  Undoing a mutation of \<open>src/src/quarantine.ts\<close>: wherever the mutation stopped, \<open>restoreMutation\<close> brings
  the tree back, and may itself be stopped and started again any number of times.
\<close>

section \<open>A mutation that is under way\<close>

text \<open>No inode number is used twice.\<close>

definition numbered :: "tree \<Rightarrow> bool" where
  "numbered t \<longleftrightarrow> (\<forall>p i. tr_leaves t p = Some (Regular i) \<longrightarrow> i < tr_next t)"

lemma set_leaf_simps [simp]:
  "tr_leaves (set_leaf p x t) = (tr_leaves t)(p := x)" "tr_inodes (set_leaf p x t) = tr_inodes t"
  "tr_next (set_leaf p x t) = tr_next t"
  by (simp_all add: set_leaf_def)

lemma put_simps [simp]:
  "qw_tree (put p x w) = set_leaf p x (qw_tree w)" "qw_identity (put p x w) = qw_identity w"
  "qw_journal (put p x w) = qw_journal w" "qw_disk (put p x w) = qw_disk w"
  by (simp_all add: put_def)

lemma listed_put [simp]: "listed H r S (put p x w) = listed H r S w" "sound H l (put p x w) = sound H l w"
  by (simp_all add: listed_def sound_def)

lemma leaf_fp_other [simp]: "p' \<noteq> p \<Longrightarrow> leaf_fp H p' l (set_leaf p x t) = leaf_fp H p' l t"
  by (simp add: leaf_fp_def cong: option.case_cong leaf.case_cong)

text \<open>
  The tree \<open>t0\<close> before the mutation: its path has the source fingerprint, its artifacts do not exist
  yet, and the directory is there. The fingerprints of a leaf and of no leaf differ.
\<close>

definition site_ok :: "quarantine_env \<Rightarrow> tree \<Rightarrow> mutation_record \<Rightarrow> bool" where
  "site_ok q t0 r \<longleftrightarrow>
     (let p = mr_path r; s = mr_sourceArtifact r; H = qe_hash q in
      numbered t0 \<and> leaf_fp H p p t0 = Some (mr_sourceFingerprint r) \<and>
      (tr_leaves t0 p \<noteq> None \<longrightarrow> mr_sourceFingerprint r \<noteq> fingerprintAbsent H p) \<and>
      mr_targetFingerprint r \<noteq> mr_sourceFingerprint r \<and>
      s \<noteq> p \<and> tr_leaves t0 s = None \<and>
      (\<forall>a. mr_targetArtifact r = Some a \<longrightarrow> a \<noteq> p \<and> a \<noteq> s \<and> tr_leaves t0 a = None) \<and>
      grounded t0 p \<and> parent_exists t0 p \<and> proper_path q p \<and>
      (\<forall>a. a = s \<or> mr_targetArtifact r = Some a \<longrightarrow> proper_path q a \<and> artifact_of p a \<and> grounded t0 a))"

text \<open>
  How far the mutation can be: the source is at its path, with or without its artifact; it is in its
  artifact only; or the target is installed and the source is in its artifact.
\<close>

definition installed :: "hash \<Rightarrow> tree \<Rightarrow> mutation_record \<Rightarrow> tree \<Rightarrow> bool" where
  "installed H t0 r t \<longleftrightarrow>
     tr_leaves t (mr_sourceArtifact r) = tr_leaves t0 (mr_path r) \<and>
     tr_leaves t (mr_path r) \<noteq> None \<and> leaf_fp H (mr_path r) (mr_path r) t = Some (mr_targetFingerprint r) \<and>
     mr_targetFingerprint r \<noteq> fingerprintAbsent H (mr_path r) \<and>
     (\<forall>a. mr_targetArtifact r = Some a \<longrightarrow>
        (\<exists>i. tr_leaves t (mr_path r) = Some (Regular i)) \<and> (tr_leaves t a = None \<or> tr_leaves t a = tr_leaves t (mr_path r)))"

definition midway :: "hash \<Rightarrow> tree \<Rightarrow> mutation_record \<Rightarrow> tree \<Rightarrow> bool" where
  "midway H t0 r t \<longleftrightarrow>
     (let p = mr_path r; s = mr_sourceArtifact r in
      (\<forall>x. x \<noteq> p \<longrightarrow> x \<noteq> s \<longrightarrow> mr_targetArtifact r \<noteq> Some x \<longrightarrow> tr_leaves t x = tr_leaves t0 x) \<and>
      (\<forall>i < tr_next t0. tr_inodes t i = tr_inodes t0 i) \<and>
      (\<forall>a. mr_targetArtifact r = Some a \<longrightarrow> tr_leaves t a = None \<or> (\<exists>j. tr_leaves t a = Some (Regular j))) \<and>
      (tr_leaves t p = tr_leaves t0 p \<and> (tr_leaves t s = None \<or> tr_leaves t s = tr_leaves t0 p) \<or>
       tr_leaves t p = None \<and> tr_leaves t s = tr_leaves t0 p \<or>
       installed H t0 r t))"

text \<open>The target artifact is whole, if it is there.\<close>

definition whole :: "hash \<Rightarrow> mutation_record \<Rightarrow> tree \<Rightarrow> bool" where
  "whole H r t \<longleftrightarrow> (\<forall>a. mr_targetArtifact r = Some a \<longrightarrow> tr_leaves t a \<noteq> None \<longrightarrow>
     leaf_fp H a (mr_path r) t = Some (mr_targetFingerprint r))"

definition undone :: "tree \<Rightarrow> mutation_record \<Rightarrow> tree \<Rightarrow> bool" where
  "undone t0 r t \<longleftrightarrow> tr_leaves t (mr_path r) = tr_leaves t0 (mr_path r) \<and> tr_leaves t (mr_sourceArtifact r) = None \<and>
     (\<forall>a. mr_targetArtifact r = Some a \<longrightarrow> tr_leaves t a = None)"

lemma site_okD:
  assumes "site_ok q t0 r"
  shows "numbered t0" "leaf_fp (qe_hash q) (mr_path r) (mr_path r) t0 = Some (mr_sourceFingerprint r)"
    "tr_leaves t0 (mr_path r) \<noteq> None \<Longrightarrow> mr_sourceFingerprint r \<noteq> fingerprintAbsent (qe_hash q) (mr_path r)"
    "mr_targetFingerprint r \<noteq> mr_sourceFingerprint r" "mr_sourceArtifact r \<noteq> mr_path r"
    "tr_leaves t0 (mr_sourceArtifact r) = None"
    "mr_targetArtifact r = Some a \<Longrightarrow> a \<noteq> mr_path r \<and> a \<noteq> mr_sourceArtifact r \<and> tr_leaves t0 a = None"
    "grounded t0 (mr_path r)" "parent_exists t0 (mr_path r)" "proper_path q (mr_path r)"
    "x = mr_sourceArtifact r \<or> mr_targetArtifact r = Some x \<Longrightarrow> proper_path q x \<and> artifact_of (mr_path r) x \<and> grounded t0 x"
  using assms unfolding site_ok_def Let_def by blast+

lemma leaf_fp_None: "leaf_fp H p l t = Some f \<Longrightarrow> tr_leaves t p \<noteq> Some Folder"
  by (auto simp: leaf_fp_def)

lemma folders_kept:
  assumes "site_ok q t0 r" "midway H t0 r t" "tr_leaves t0 x = Some Folder"
  shows "tr_leaves t x = Some Folder"
proof -
  have "x \<noteq> mr_path r" "x \<noteq> mr_sourceArtifact r" "mr_targetArtifact r \<noteq> Some x"
    using assms(3) leaf_fp_None [OF site_okD(2) [OF assms(1)]] site_okD(6,7) [OF assms(1)] by auto
  then show ?thesis using assms(2,3) by (simp add: midway_def Let_def)
qed

lemma midway_paths:
  assumes "site_ok q t0 r" "midway H t0 r t"
  shows "paths_ok q r t" "parent_exists t (mr_path r)"
proof -
  have g: "grounded t x" if "grounded t0 x" for x
    using that folders_kept [OF assms] unfolding grounded_def by blast
  have ok: "path_ok q t x" if "proper_path q x" "grounded t0 x" for x
    by (rule path_ok_grounded [OF that(1) g [OF that(2)]])
  show "paths_ok q r t"
    using ok [OF site_okD(10,8) [OF assms(1)]] site_okD(11) [OF assms(1)] ok by (auto simp: paths_ok_def)
  show "parent_exists t (mr_path r)"
    using site_okD(9) [OF assms(1)] folders_kept [OF assms] unfolding parent_exists_def by blast
qed

lemma fp_original:
  assumes "site_ok q t0 r" "midway (qe_hash q) t0 r t" "tr_leaves t x = tr_leaves t0 (mr_path r)"
  shows "leaf_fp (qe_hash q) x (mr_path r) t = Some (mr_sourceFingerprint r)"
proof -
  have "\<And>i. tr_leaves t0 (mr_path r) = Some (Regular i) \<Longrightarrow> tr_inodes t i = tr_inodes t0 i"
    using assms(1,2) by (auto simp: midway_def Let_def site_ok_def numbered_def)
  then show ?thesis
    using site_okD(2) [OF assms(1)] assms(3) by (auto simp: leaf_fp_def split: option.splits leaf.splits)
qed


section \<open>Undoing it\<close>

definition amid :: "quarantine_env \<Rightarrow> tree \<Rightarrow> mutation_record \<Rightarrow> quarantine_world \<Rightarrow> bool" where
  "amid q t0 r w \<longleftrightarrow> midway (qe_hash q) t0 r (qw_tree w) \<and> whole (qe_hash q) r (qw_tree w) \<and> qw_identity w = qe_root q"

abbreviation open_states :: "mutation_state set" where
  "open_states \<equiv> - {CLEANED}"

definition pending :: "quarantine_env \<Rightarrow> tree \<Rightarrow> mutation_record \<Rightarrow> quarantine_world \<Rightarrow> bool" where
  "pending q t0 r w \<longleftrightarrow> amid q t0 r w \<and>
     (listed (qe_hash q) r open_states w \<or> listed (qe_hash q) r {CLEANED} w \<and> undone t0 r (qw_tree w))"

definition settled :: "quarantine_env \<Rightarrow> tree \<Rightarrow> mutation_record \<Rightarrow> quarantine_world \<Rightarrow> bool" where
  "settled q t0 r w \<longleftrightarrow> amid q t0 r w \<and> listed (qe_hash q) r {CLEANED} w \<and> undone t0 r (qw_tree w)"

lemma amid_journal [simp]: "amid q t0 r (with_journal jd w) = amid q t0 r w"
  by (simp add: amid_def)

lemma amid_paths:
  assumes "site_ok q t0 r" "amid q t0 r w"
  shows "paths_ok q r (qw_tree w)" "path_ok q (qw_tree w) (mr_path r)" "path_ok q (qw_tree w) (mr_sourceArtifact r)"
    "mr_targetArtifact r = Some a \<Longrightarrow> path_ok q (qw_tree w) a \<and> artifact_of (mr_path r) a"
    "artifact_of (mr_path r) (mr_sourceArtifact r)"
proof -
  show "paths_ok q r (qw_tree w)" using midway_paths(1) [OF assms(1)] assms(2) unfolding amid_def by blast
  then show "path_ok q (qw_tree w) (mr_path r)" "path_ok q (qw_tree w) (mr_sourceArtifact r)"
    "mr_targetArtifact r = Some a \<Longrightarrow> path_ok q (qw_tree w) a \<and> artifact_of (mr_path r) a"
    "artifact_of (mr_path r) (mr_sourceArtifact r)"
    by (auto simp: paths_ok_def)
qed

lemma amid_remove_target:
  assumes "site_ok q t0 r" "amid q t0 r w" "mr_targetArtifact r = Some a"
  shows "amid q t0 r (put a None w)"
  using assms(2,3) site_okD(7) [OF assms(1,3)]
  by (auto simp: amid_def midway_def whole_def installed_def Let_def)

lemma amid_remove_source:
  assumes "site_ok q t0 r" "amid q t0 r w" "leaf_at w (mr_path r) = tr_leaves t0 (mr_path r)"
  shows "amid q t0 r (put (mr_sourceArtifact r) None w)"
  using assms(2,3) site_okD(5) [OF assms(1)] site_okD(7) [OF assms(1)]
  by (auto simp: amid_def midway_def whole_def Let_def)

lemma amid_free_path:
  assumes "site_ok q t0 r" "amid q t0 r w" "leaf_at w (mr_sourceArtifact r) = tr_leaves t0 (mr_path r)"
  shows "amid q t0 r (put (mr_path r) None w)"
  using assms(2,3) site_okD(5) [OF assms(1)] site_okD(7) [OF assms(1)]
  by (auto simp: amid_def midway_def whole_def Let_def)

lemma amid_put_back:
  assumes "site_ok q t0 r" "amid q t0 r w" "leaf_at w (mr_sourceArtifact r) = tr_leaves t0 (mr_path r)" "tr_leaves t0 (mr_path r) = Some l"
  shows "amid q t0 r (put (mr_path r) (Some l) w)"
  using assms(2-) site_okD(5) [OF assms(1)] site_okD(7) [OF assms(1)]
  by (auto simp: amid_def midway_def whole_def Let_def)

lemma fp_amid:
  assumes "site_ok q t0 r" "amid q t0 r w" "leaf_at w x = tr_leaves t0 (mr_path r)"
  shows "leaf_fp (qe_hash q) x (mr_path r) (qw_tree w) = Some (mr_sourceFingerprint r)"
  using fp_original [OF assms(1) _ assms(3)] assms(2) by (simp add: amid_def)

text \<open>A check that passes leaves what is known of the world.\<close>

lemma tri_pass:
  assumes "checks q b m" "\<And>w. P w \<Longrightarrow> troubled q \<Longrightarrow> E w" "\<And>w. P w \<Longrightarrow> b w = None \<Longrightarrow> E w"
    "tri E P (in_order ms) (\<lambda>_. Q)"
  shows "tri E P (in_order (m # ms)) (\<lambda>_. Q)"
  by (rule tri_Cons [OF tri_checks [OF assms(1-3), where Q = "\<lambda>_. P"] assms(4)])

lemma tri_learn:
  assumes "checks q b m" "\<And>w. P w \<Longrightarrow> troubled q \<Longrightarrow> E w" "\<And>w. P w \<Longrightarrow> b w = None \<Longrightarrow> E w"
    "\<And>x. tri E (\<lambda>w. P w \<and> b w = Some x) (f x) Q"
  shows "tri E P (seq m f) Q"
proof (rule tri_seq [where R = "\<lambda>x w. P w \<and> b w = Some x"])
  show "tri E P m (\<lambda>x w. P w \<and> b w = Some x)" by (rule tri_checks [OF assms(1-3)]) simp_all
qed (rule assms(4))

text \<open>The target artifact is removed and the mutation is recorded as cleaned.\<close>

lemma restore_finish:
  assumes site: "site_ok q t0 r" and "sane q" "digest (qe_hash q)" and o: "same_mutation r owned"
  shows "tri (\<lambda>w. troubled q \<and> pending q t0 r w)
    (\<lambda>w. amid q t0 r w \<and> listed (qe_hash q) r open_states w \<and>
       leaf_at w (mr_path r) = tr_leaves t0 (mr_path r) \<and> leaf_at w (mr_sourceArtifact r) = None)
    (in_order [cleanupRollbackTarget q owned, mark_cleaned q owned]) (\<lambda>_. settled q t0 r)"
proof -
  let ?E = "\<lambda>w. troubled q \<and> pending q t0 r w" and ?H = "qe_hash q"
  let ?T = "\<lambda>w. leaf_at w (mr_path r) = tr_leaves t0 (mr_path r) \<and> leaf_at w (mr_sourceArtifact r) = None"
  let ?A = "\<lambda>w. amid q t0 r w \<and> listed ?H r open_states w \<and> ?T w"
  let ?B = "\<lambda>w. (amid q t0 r w \<and> undone t0 r (qw_tree w)) \<and> listed ?H r open_states w"
  have 1: "tri ?E ?A (cleanupRollbackTarget q owned) (\<lambda>_. ?B)"
  proof (cases "mr_targetArtifact r")
    case None
    then show ?thesis
      by (auto simp: cleanupRollbackTarget_def same_mutationD [OF o] undone_def intro!: tri_ret)
  next
    case (Some a)
    let ?A' = "\<lambda>w. ?A w \<and> leaf_at w a \<noteq> None"
    note s = site_okD(7) [OF site Some]
    have removed: "tri ?E ?A' (in_order
         [assertArtifactPath q (mr_path r) a, assertFingerprint q a (mr_path r) (mr_targetFingerprint r),
          unlink_leaf q a, sync_directory q a]) (\<lambda>_. ?B)"
    proof (rule tri_pass [OF checks_assertArtifactPath])
      show "tri ?E ?A' (in_order [assertFingerprint q a (mr_path r) (mr_targetFingerprint r), unlink_leaf q a, sync_directory q a]) (\<lambda>_. ?B)"
      proof (rule tri_pass [OF checks_assertFingerprint [OF assms(2)]])
        show "tri ?E ?A' (in_order [unlink_leaf q a, sync_directory q a]) (\<lambda>_. ?B)"
        proof (rule tri_Cons [where R = ?B], rule tri_unlink)
          show "tri ?E ?B (in_order [sync_directory q a]) (\<lambda>_. ?B)"
            by (rule tri_pass [OF checks_sync _ _ tri_Nil]) (auto simp: pending_def)
          show "troubled q \<and> pending q t0 r w" if "?A' w" "leaf_at w a = None \<or> leaf_at w a = Some Folder" for w
            using that Some by (auto simp: amid_def midway_def Let_def)
          show "?B (put a None w)" if "?A' w" for w l
            using that amid_remove_target [OF site _ Some] s by (auto simp: undone_def Some)
        qed (auto simp: pending_def)
      qed (auto simp: pending_def amid_def whole_def Some)
    qed (use amid_paths(4) [OF site _ Some] in \<open>auto simp: pending_def\<close>)
    show ?thesis
      unfolding cleanupRollbackTarget_def same_mutationD [OF o] Some option.case remove_checked_def
    proof (rule tri_learn [OF checks_exists [OF assms(2)]])
      show "tri ?E (\<lambda>w. ?A w \<and> Some (leaf_at w a \<noteq> None) = Some there)
        (if \<not> there then ret () else in_order [assertArtifactPath q (mr_path r) a,
           assertFingerprint q a (mr_path r) (mr_targetFingerprint r), unlink_leaf q a, sync_directory q a]) (\<lambda>_. ?B)" for there
      proof (rule tri_if)
        show "tri ?E (\<lambda>w. ?A w \<and> Some (leaf_at w a \<noteq> None) = Some there) (ret ()) (\<lambda>_. ?B)" if "\<not> there"
          by (rule tri_ret) (use that in \<open>auto simp: undone_def Some\<close>)
        show "tri ?E (\<lambda>w. ?A w \<and> Some (leaf_at w a \<noteq> None) = Some there) (in_order [assertArtifactPath q (mr_path r) a,
           assertFingerprint q a (mr_path r) (mr_targetFingerprint r), unlink_leaf q a, sync_directory q a]) (\<lambda>_. ?B)"
          if "\<not> \<not> there"
          by (rule tri_pre [OF removed]) (use that in auto)
      qed
    qed (auto simp: pending_def)
  qed
  have 2: "tri ?E ?B (mark_cleaned q owned) (\<lambda>_. settled q t0 r)"
  proof (rule tri_mark_cleaned [OF _ o _ assms(3)])
    show "troubled q \<and> pending q t0 r w"
      if "amid q t0 r w \<and> undone t0 r (qw_tree w)" "listed ?H r (insert CLEANED open_states) w" "troubled q" for w
      using that by (auto simp: pending_def listed_def)
  qed (auto simp: settled_def)
  show ?thesis by (rule tri_Cons [OF 1 tri_Cons [OF 2 tri_Nil]])
qed


lemma restore_remove_installed:
  assumes site: "site_ok q t0 r" and sane: "sane q" and o: "same_mutation r owned"
  shows "tri (\<lambda>w. troubled q \<and> pending q t0 r w)
    (\<lambda>w. amid q t0 r w \<and> listed (qe_hash q) r open_states w \<and> installed (qe_hash q) t0 r (qw_tree w))
    (remove_installed q owned)
    (\<lambda>_ w. amid q t0 r w \<and> listed (qe_hash q) r open_states w \<and>
       leaf_at w (mr_path r) = None \<and> leaf_at w (mr_sourceArtifact r) = tr_leaves t0 (mr_path r))"
proof -
  let ?E = "\<lambda>w. troubled q \<and> pending q t0 r w" and ?H = "qe_hash q" and ?p = "mr_path r"
  let ?A = "\<lambda>w. amid q t0 r w \<and> listed ?H r open_states w \<and> installed ?H t0 r (qw_tree w)"
  let ?B = "\<lambda>w. amid q t0 r w \<and> listed ?H r open_states w \<and>
    leaf_at w ?p = None \<and> leaf_at w (mr_sourceArtifact r) = tr_leaves t0 ?p"
  have 1: "tri ?E ?A (assertRollbackTargetOwned q owned) (\<lambda>_. ?A)"
  proof (cases "mr_targetArtifact r")
    case None
    then show ?thesis by (auto simp: assertRollbackTargetOwned_def same_mutationD [OF o] intro!: tri_ret)
  next
    case (Some a)
    have c: "tri ?E (\<lambda>w. ?A w \<and> leaf_at w a \<noteq> None) (in_order
        [assertArtifactPath q ?p a, assertFingerprint q a ?p (mr_targetFingerprint r), assertSameFileIdentity q ?p a]) (\<lambda>_. ?A)"
    proof (rule tri_pass [OF checks_assertArtifactPath])
      show "tri ?E (\<lambda>w. ?A w \<and> leaf_at w a \<noteq> None) (in_order
          [assertFingerprint q a ?p (mr_targetFingerprint r), assertSameFileIdentity q ?p a]) (\<lambda>_. ?A)"
      proof (rule tri_pass [OF checks_assertFingerprint [OF sane]])
        show "tri ?E (\<lambda>w. ?A w \<and> leaf_at w a \<noteq> None) (in_order [assertSameFileIdentity q ?p a]) (\<lambda>_. ?A)"
          by (rule tri_pass [OF checks_assertSameFileIdentity _ _ tri_Nil]) (auto simp: pending_def installed_def Some)
      qed (auto simp: pending_def amid_def whole_def Some)
    qed (use amid_paths(4) [OF site _ Some] in \<open>auto simp: pending_def\<close>)
    show ?thesis
      unfolding assertRollbackTargetOwned_def same_mutationD [OF o] Some option.case
    proof (rule tri_learn [OF checks_exists [OF sane]], goal_cases)
      case (3 there)
      show ?case
      proof (rule tri_if)
        show "tri ?E (\<lambda>w. ?A w \<and> Some (leaf_at w a \<noteq> None) = Some there) (ret ()) (\<lambda>_. ?A)"
          by (rule tri_ret) simp
        show "tri ?E (\<lambda>w. ?A w \<and> Some (leaf_at w a \<noteq> None) = Some there) (in_order [assertArtifactPath q ?p a,
           assertFingerprint q a ?p (mr_targetFingerprint r), assertSameFileIdentity q ?p a]) (\<lambda>_. ?A)"
          if "\<not> \<not> there"
          by (rule tri_pre [OF c]) (use that in auto)
      qed
    qed (auto simp: pending_def)
  qed
  show ?thesis
    unfolding remove_installed_def same_mutationD [OF o]
  proof (rule tri_Cons [OF 1], rule tri_pass [OF checks_assertFingerprint [OF sane]])
    show "tri ?E ?A (in_order [unlink_leaf q ?p, sync_directory q ?p]) (\<lambda>_. ?B)"
    proof (rule tri_Cons [where R = ?B], rule tri_unlink)
      show "tri ?E ?B (in_order [sync_directory q ?p]) (\<lambda>_. ?B)"
        by (rule tri_pass [OF checks_sync _ _ tri_Nil]) (auto simp: pending_def)
      show "?E w" if "?A w" "leaf_at w ?p = None \<or> leaf_at w ?p = Some Folder" for w
        using that by (auto simp: installed_def leaf_fp_def)
      show "?B (put ?p None w)" if "?A w" for w
        using that amid_free_path [OF site] site_okD(5) [OF site] by (auto simp: installed_def)
    qed (auto simp: pending_def)
  qed (auto simp: pending_def installed_def)
qed

lemma restore_put_back:
  assumes site: "site_ok q t0 r" and o: "same_mutation r owned"
  shows "tri (\<lambda>w. troubled q \<and> pending q t0 r w)
    (\<lambda>w. amid q t0 r w \<and> listed (qe_hash q) r open_states w \<and> leaf_at w (mr_path r) = None \<and>
       leaf_at w (mr_sourceArtifact r) = tr_leaves t0 (mr_path r) \<and> tr_leaves t0 (mr_path r) \<noteq> None)
    (reinstall_source q owned)
    (\<lambda>_ w. amid q t0 r w \<and> listed (qe_hash q) r open_states w \<and>
       leaf_at w (mr_path r) = tr_leaves t0 (mr_path r) \<and> leaf_at w (mr_sourceArtifact r) = tr_leaves t0 (mr_path r))"
proof -
  let ?E = "\<lambda>w. troubled q \<and> pending q t0 r w" and ?H = "qe_hash q" and ?p = "mr_path r" and ?s = "mr_sourceArtifact r"
  let ?A = "\<lambda>w. amid q t0 r w \<and> listed ?H r open_states w \<and> leaf_at w ?p = None \<and> leaf_at w ?s = tr_leaves t0 ?p"
  let ?B = "\<lambda>w. amid q t0 r w \<and> listed ?H r open_states w \<and> leaf_at w ?p = tr_leaves t0 ?p \<and> leaf_at w ?s = tr_leaves t0 ?p"
  have putb: "?B (put ?p (Some l) w)" if "?A w" "tr_leaves t0 ?p = Some l" for w l
    using that amid_put_back [OF site _ _ that(2)] site_okD(5) [OF site] by auto
  have par: "parent_exists (qw_tree w) ?p" if "?A w" for w
    using that midway_paths(2) [OF site] unfolding amid_def by blast
  have fol: "tr_leaves t0 ?p \<noteq> Some Folder" by (rule leaf_fp_None [OF site_okD(2) [OF site]])
  have spec: "tr_leaves t0 ?p \<noteq> Some Special" using site_okD(2) [OF site] by (auto simp: leaf_fp_def)
  show ?thesis
    unfolding reinstall_source_def same_mutationD [OF o] Let_def
  proof (rule tri_learn [OF checks_lstat], goal_cases)
    case (3 l)
    show ?case
    proof (rule tri_pre [where P = "\<lambda>w. tr_leaves t0 ?p = Some l \<and> ?A w"], rule tri_fact, rule tri_no_clobber)
      assume l: "tr_leaves t0 ?p = Some l"
      show "tri ?E ?A (case l of
          Symlink_to _ \<Rightarrow> seq (readlink_leaf q ?s) (\<lambda>t. symlink_leaf q t ?p)
        | Regular _ \<Rightarrow> link_leaf q ?s ?p
        | _ \<Rightarrow> throw (refuse Unsafe_artifact)) (\<lambda>_. ?B)"
      proof (cases l)
        case (Regular i)
        have "tri ?E ?A (link_leaf q ?s ?p) (\<lambda>_. ?B)"
          by (rule tri_link) (use l fol par putb in \<open>auto simp: pending_def\<close>)
        then show ?thesis by (simp add: Regular)
      next
        case (Symlink_to linked)
        have "tri ?E ?A (seq (readlink_leaf q ?s) (\<lambda>t. symlink_leaf q t ?p)) (\<lambda>_. ?B)"
        proof (rule tri_learn [OF checks_readlink], goal_cases)
          case (3 t)
          show ?case
          proof (rule tri_pre [where P = "\<lambda>w. t = linked \<and> ?A w"], rule tri_fact)
            assume "t = linked"
            then show "tri ?E ?A (symlink_leaf q t ?p) (\<lambda>_. ?B)"
              using l Symlink_to par putb by (intro tri_symlink) (auto simp: pending_def)
          qed (use l Symlink_to in \<open>auto simp: link_text_def\<close>)
        qed (use l Symlink_to in \<open>auto simp: pending_def link_text_def\<close>)
        then show ?thesis by (simp add: Symlink_to)
      qed (use l fol spec in auto)
    qed auto
  qed (auto simp: pending_def)
qed


lemma tri_never: "(\<And>w. P w \<Longrightarrow> False) \<Longrightarrow> tri E P m Q"
  by (auto simp: tri_def holds_def)

text \<open>The source artifact is removed once its leaf is at the path again.\<close>

lemma restore_drop_source:
  assumes site: "site_ok q t0 r" and sane: "sane q"
  shows "tri (\<lambda>w. troubled q \<and> pending q t0 r w)
    (\<lambda>w. amid q t0 r w \<and> listed (qe_hash q) r open_states w \<and> tr_leaves t0 (mr_path r) \<noteq> None \<and>
       leaf_at w (mr_path r) = tr_leaves t0 (mr_path r) \<and> leaf_at w (mr_sourceArtifact r) = tr_leaves t0 (mr_path r))
    (unlink_leaf q (mr_sourceArtifact r))
    (\<lambda>_ w. amid q t0 r w \<and> listed (qe_hash q) r open_states w \<and>
       leaf_at w (mr_path r) = tr_leaves t0 (mr_path r) \<and> leaf_at w (mr_sourceArtifact r) = None)"
  using amid_remove_source [OF site] site_okD(5) [OF site] leaf_fp_None [OF site_okD(2) [OF site]]
  by (intro tri_unlink) (auto simp: pending_def)

definition quiet_hooks :: "quarantine_env \<Rightarrow> bool" where
  "quiet_hooks q \<longleftrightarrow> qe_beforeRestoreInstall q = None \<and> qe_beforeRestoreSourceCleanup q = None \<and>
     qe_afterRestoreSourceCleanup q = None"

text \<open>The source is in its artifact only.\<close>

lemma restore_put_back_all:
  assumes site: "site_ok q t0 r" and sane: "sane q" and dig: "digest (qe_hash q)" and o: "same_mutation r owned"
    and hooks: "quiet_hooks q"
  shows "tri (\<lambda>w. troubled q \<and> pending q t0 r w)
    (\<lambda>w. amid q t0 r w \<and> listed (qe_hash q) r open_states w \<and> leaf_at w (mr_path r) = None \<and>
       leaf_at w (mr_sourceArtifact r) = tr_leaves t0 (mr_path r) \<and> tr_leaves t0 (mr_path r) \<noteq> None)
    (put_back q owned) (\<lambda>_. settled q t0 r)"
proof -
  let ?E = "\<lambda>w. troubled q \<and> pending q t0 r w" and ?H = "qe_hash q" and ?p = "mr_path r" and ?s = "mr_sourceArtifact r"
  let ?A = "\<lambda>w. amid q t0 r w \<and> listed ?H r open_states w \<and> leaf_at w ?p = None \<and> leaf_at w ?s = tr_leaves t0 ?p \<and> tr_leaves t0 ?p \<noteq> None"
  let ?B = "\<lambda>w. amid q t0 r w \<and> listed ?H r open_states w \<and> leaf_at w ?p = tr_leaves t0 ?p \<and> leaf_at w ?s = tr_leaves t0 ?p"
  let ?B' = "\<lambda>w. amid q t0 r w \<and> listed ?H r open_states w \<and> tr_leaves t0 ?p \<noteq> None \<and>
    leaf_at w ?p = tr_leaves t0 ?p \<and> leaf_at w ?s = tr_leaves t0 ?p"
  let ?C = "\<lambda>w. amid q t0 r w \<and> listed ?H r open_states w \<and> leaf_at w ?p = tr_leaves t0 ?p \<and> leaf_at w ?s = None"
  have nohook: "tri ?E P (in_order (hook None # ms)) (\<lambda>_. Q)" if "tri ?E P (in_order ms) (\<lambda>_. Q)" for P ms Q
    by (rule tri_Cons [OF _ that]) (simp add: hook_def tri_ret)
  have paths: "tri ?E P (in_order (assertMutationPaths q [?p, ?s] # ms)) (\<lambda>_. Q)"
    if "tri ?E P (in_order ms) (\<lambda>_. Q)" "\<And>w. P w \<Longrightarrow> amid q t0 r w \<and> listed ?H r open_states w" for P ms Q
    by (rule tri_pass [OF checks_assertMutationPaths _ _ that(1)])
      (use that(2) amid_paths [OF site] in \<open>auto simp: pending_def amid_def\<close>)
  have fp: "tri ?E P (in_order (assertFingerprint q x ?p (mr_sourceFingerprint r) # ms)) (\<lambda>_. Q)"
    if "tri ?E P (in_order ms) (\<lambda>_. Q)"
      "\<And>w. P w \<Longrightarrow> amid q t0 r w \<and> listed ?H r open_states w \<and> leaf_at w x = tr_leaves t0 ?p" for P ms Q x
    by (rule tri_pass [OF checks_assertFingerprint [OF sane] _ _ that(1)])
      (use that(2) fp_amid [OF site] in \<open>auto simp: pending_def\<close>)
  have sync: "tri ?E P (in_order (sync_directory q x # ms)) (\<lambda>_. Q)"
    if "tri ?E P (in_order ms) (\<lambda>_. Q)" "\<And>w. P w \<Longrightarrow> amid q t0 r w \<and> listed ?H r open_states w" for P ms Q x
    by (rule tri_pass [OF checks_sync _ _ that(1)]) (use that(2) in \<open>auto simp: pending_def\<close>)
  note h = hooks [unfolded quiet_hooks_def]
  have 3: "tri ?E ?C (in_order [cleanupRollbackTarget q owned, mark_cleaned q owned]) (\<lambda>_. settled q t0 r)"
    by (rule tri_pre [OF restore_finish [OF site sane dig o]]) simp
  have 2: "tri ?E ?B' (in_order
       [sync_directory q ?p, assertFingerprint q ?p ?p (mr_sourceFingerprint r),
        assertFingerprint q ?s ?p (mr_sourceFingerprint r), hook None, assertMutationPaths q [?p, ?s],
        unlink_leaf q ?s, sync_directory q ?s, hook None, cleanupRollbackTarget q owned, mark_cleaned q owned]) (\<lambda>_. settled q t0 r)"
    by (rule sync, rule fp, rule fp, rule nohook, rule paths, rule tri_Cons, rule restore_drop_source [OF site sane],
        rule sync, rule nohook, rule 3) auto
  have 1: "tri ?E ?A (reinstall_source q owned) (\<lambda>_. ?B')"
  proof (cases "tr_leaves t0 ?p = None")
    case True
    then show ?thesis by (intro tri_never) simp
  next
    case False
    show ?thesis by (rule tri_post [OF restore_put_back [OF site o]]) (use False in auto)
  qed
  show ?thesis
    unfolding put_back_def Let_def same_mutationD [OF o] h [THEN conjunct1] h [THEN conjunct2, THEN conjunct1] h [THEN conjunct2, THEN conjunct2]
    by (rule nohook, rule paths, rule fp, rule tri_Cons [OF 1 2]) auto
qed


text \<open>The whole of \<open>restoreMutation\<close>, for a mutation that is not yet cleaned.\<close>

lemma midway_cases:
  assumes "amid q t0 r w"
  obtains (there) "leaf_at w (mr_path r) = tr_leaves t0 (mr_path r)"
      "leaf_at w (mr_sourceArtifact r) = None \<or> leaf_at w (mr_sourceArtifact r) = tr_leaves t0 (mr_path r)"
  | (away) "leaf_at w (mr_path r) = None" "leaf_at w (mr_sourceArtifact r) = tr_leaves t0 (mr_path r)"
  | (installed) "installed (qe_hash q) t0 r (qw_tree w)" "leaf_at w (mr_sourceArtifact r) = tr_leaves t0 (mr_path r)"
      "leaf_fp (qe_hash q) (mr_path r) (mr_path r) (qw_tree w) = Some (mr_targetFingerprint r)"
      "mr_targetFingerprint r \<noteq> fingerprintAbsent (qe_hash q) (mr_path r)"
proof -
  have m: "midway (qe_hash q) t0 r (qw_tree w)" using assms by (simp add: amid_def)
  then consider "leaf_at w (mr_path r) = tr_leaves t0 (mr_path r) \<and>
      (leaf_at w (mr_sourceArtifact r) = None \<or> leaf_at w (mr_sourceArtifact r) = tr_leaves t0 (mr_path r))"
    | "leaf_at w (mr_path r) = None \<and> leaf_at w (mr_sourceArtifact r) = tr_leaves t0 (mr_path r)"
    | "installed (qe_hash q) t0 r (qw_tree w)"
    by (auto simp: midway_def Let_def)
  then show thesis
  proof cases
    case 3
    then show thesis using installed by (simp add: installed_def)
  qed (use that in simp_all)
qed

lemma fp_none: "leaf_at w p = None \<Longrightarrow> leaf_fp H p l (qw_tree w) = Some (fingerprintAbsent H l)"
  by (simp add: leaf_fp_def)

text \<open>What the fingerprint of the path and the existence of the source artifact say.\<close>

lemma midway_reading:
  assumes site: "site_ok q t0 r" and a: "amid q t0 r w"
    and fp: "leaf_fp (qe_hash q) (mr_path r) (mr_path r) (qw_tree w) = Some fp" and th: "there = (leaf_at w (mr_sourceArtifact r) \<noteq> None)"
  shows
    "mr_sourceFingerprint r = fingerprintAbsent (qe_hash q) (mr_path r) \<Longrightarrow>
       tr_leaves t0 (mr_path r) = None \<and> \<not> there \<and>
       (if fp = mr_targetFingerprint r then installed (qe_hash q) t0 r (qw_tree w)
        else fp = mr_sourceFingerprint r \<and> leaf_at w (mr_path r) = None)"
    "mr_sourceFingerprint r \<noteq> fingerprintAbsent (qe_hash q) (mr_path r) \<Longrightarrow> fp = mr_sourceFingerprint r \<Longrightarrow>
       tr_leaves t0 (mr_path r) \<noteq> None \<and> leaf_at w (mr_path r) = tr_leaves t0 (mr_path r) \<and>
       (there \<longrightarrow> leaf_at w (mr_sourceArtifact r) = tr_leaves t0 (mr_path r))"
    "mr_sourceFingerprint r \<noteq> fingerprintAbsent (qe_hash q) (mr_path r) \<Longrightarrow> fp \<noteq> mr_sourceFingerprint r \<Longrightarrow>
       tr_leaves t0 (mr_path r) \<noteq> None \<and> there \<and> leaf_at w (mr_sourceArtifact r) = tr_leaves t0 (mr_path r) \<and>
       (if fp \<noteq> fingerprintAbsent (qe_hash q) (mr_path r) \<and> fp = mr_targetFingerprint r
        then installed (qe_hash q) t0 r (qw_tree w)
        else fp = fingerprintAbsent (qe_hash q) (mr_path r) \<and> leaf_at w (mr_path r) = None)"
proof -
  let ?H = "qe_hash q" and ?p = "mr_path r"
  have src: "tr_leaves t0 ?p = None \<longleftrightarrow> mr_sourceFingerprint r = fingerprintAbsent ?H ?p"
    using site_okD(2,3) [OF site] by (cases "tr_leaves t0 ?p = None") (simp_all add: leaf_fp_def)
  have ne: "mr_targetFingerprint r \<noteq> mr_sourceFingerprint r" by (rule site_okD(4) [OF site])
  have orig: "leaf_at w ?p = tr_leaves t0 ?p \<Longrightarrow> fp = mr_sourceFingerprint r" using fp_amid [OF site a] fp by simp
  have gone: "leaf_at w ?p = None \<Longrightarrow> fp = fingerprintAbsent ?H ?p" using fp_none fp by fastforce
  show "mr_sourceFingerprint r = fingerprintAbsent (qe_hash q) (mr_path r) \<Longrightarrow>
       tr_leaves t0 (mr_path r) = None \<and> \<not> there \<and>
       (if fp = mr_targetFingerprint r then installed (qe_hash q) t0 r (qw_tree w)
        else fp = mr_sourceFingerprint r \<and> leaf_at w (mr_path r) = None)"
    by (cases rule: midway_cases [OF a]) (use src ne orig gone fp th in auto)
  show "mr_sourceFingerprint r \<noteq> fingerprintAbsent (qe_hash q) (mr_path r) \<Longrightarrow> fp = mr_sourceFingerprint r \<Longrightarrow>
       tr_leaves t0 (mr_path r) \<noteq> None \<and> leaf_at w (mr_path r) = tr_leaves t0 (mr_path r) \<and>
       (there \<longrightarrow> leaf_at w (mr_sourceArtifact r) = tr_leaves t0 (mr_path r))"
    by (cases rule: midway_cases [OF a]) (use src ne orig gone fp th in auto)
  show "mr_sourceFingerprint r \<noteq> fingerprintAbsent (qe_hash q) (mr_path r) \<Longrightarrow> fp \<noteq> mr_sourceFingerprint r \<Longrightarrow>
       tr_leaves t0 (mr_path r) \<noteq> None \<and> there \<and> leaf_at w (mr_sourceArtifact r) = tr_leaves t0 (mr_path r) \<and>
       (if fp \<noteq> fingerprintAbsent (qe_hash q) (mr_path r) \<and> fp = mr_targetFingerprint r
        then installed (qe_hash q) t0 r (qw_tree w)
        else fp = fingerprintAbsent (qe_hash q) (mr_path r) \<and> leaf_at w (mr_path r) = None)"
    by (cases rule: midway_cases [OF a]) (use src ne orig gone fp th in auto)
qed

lemma amid_fp: "site_ok q t0 r \<Longrightarrow> amid q t0 r w \<Longrightarrow> leaf_fp (qe_hash q) (mr_path r) (mr_path r) (qw_tree w) \<noteq> None"
proof -
  assume s: "site_ok q t0 r" and a: "amid q t0 r w"
  show ?thesis by (cases rule: midway_cases [OF a]) (use fp_amid [OF s a] fp_none in \<open>simp_all\<close>)
qed

text \<open>The three ways back.\<close>

abbreviation found :: "quarantine_env \<Rightarrow> tree \<Rightarrow> mutation_record \<Rightarrow> string \<Rightarrow> bool \<Rightarrow> quarantine_world \<Rightarrow> bool" where
  "found q t0 r fp there w \<equiv> amid q t0 r w \<and> listed (qe_hash q) r open_states w \<and>
     leaf_fp (qe_hash q) (mr_path r) (mr_path r) (qw_tree w) = Some fp \<and> there = (leaf_at w (mr_sourceArtifact r) \<noteq> None)"

lemma restore_finish_at:
  assumes "site_ok q t0 r" "sane q" "digest (qe_hash q)" "same_mutation r owned"
  shows "tri (\<lambda>w. troubled q \<and> pending q t0 r w)
    (\<lambda>w. amid q t0 r w \<and> listed (qe_hash q) r open_states w \<and> leaf_at w (mr_path r) = tr_leaves t0 (mr_path r) \<and>
       leaf_at w (mr_sourceArtifact r) = None)
    (in_order [cleanupRollbackTarget q owned, mark_cleaned q owned]) (\<lambda>_. settled q t0 r)"
  by (rule tri_pre [OF restore_finish [OF assms]]) simp

lemma restore_absent_back:
  assumes site: "site_ok q t0 r" and sane: "sane q" and dig: "digest (qe_hash q)" and o: "same_mutation r owned"
    and absent: "mr_sourceFingerprint r = fingerprintAbsent (qe_hash q) (mr_path r)"
  shows "tri (\<lambda>w. troubled q \<and> pending q t0 r w) (found q t0 r fp there) (restore_absent q owned fp there) (\<lambda>_. settled q t0 r)"
proof -
  let ?E = "\<lambda>w. troubled q \<and> pending q t0 r w" and ?H = "qe_hash q" and ?p = "mr_path r" and ?s = "mr_sourceArtifact r"
  let ?C = "found q t0 r fp there"
  let ?G = "\<lambda>w. amid q t0 r w \<and> listed ?H r open_states w \<and> leaf_at w ?p = tr_leaves t0 ?p \<and> leaf_at w ?s = None"
  have c: "tr_leaves t0 ?p = None \<and> \<not> there \<and> (if fp = mr_targetFingerprint r then installed ?H t0 r (qw_tree w)
      else fp = mr_sourceFingerprint r \<and> leaf_at w ?p = None)" if "?C w" for w
    using midway_reading(1) [OF site _ _ _ absent, of w fp there] that by blast
  have i: "tri ?E ?C (if fp = mr_targetFingerprint r then remove_installed q owned
      else require (fp = mr_sourceFingerprint r) (refuse External_concurrency)) (\<lambda>_. ?G)"
  proof (cases "tr_leaves t0 ?p = None")
    case False
    then show ?thesis by (intro tri_never) (erule notE, rule c [THEN conjunct1])
  next
    case True
    show ?thesis
    proof (rule tri_if)
      show "tri ?E ?C (remove_installed q owned) (\<lambda>_. ?G)" if "fp = mr_targetFingerprint r"
        by (rule tri_post [OF tri_pre [OF restore_remove_installed [OF site sane o]]]) (use c that True in auto)
      show "tri ?E ?C (require (fp = mr_sourceFingerprint r) (refuse External_concurrency)) (\<lambda>_. ?G)" if "fp \<noteq> mr_targetFingerprint r"
        by (rule tri_require) (use c that True in auto)
    qed
  qed
  show ?thesis
    unfolding restore_absent_def same_mutationD [OF o]
  proof (rule tri_Cons [where R = ?C], rule tri_require)
    show "tri ?E ?C (in_order [if fp = mr_targetFingerprint r then remove_installed q owned
         else require (fp = mr_sourceFingerprint r) (refuse External_concurrency),
       cleanupRollbackTarget q owned, mark_cleaned q owned]) (\<lambda>_. settled q t0 r)"
      by (rule tri_Cons [OF i restore_finish_at [OF site sane dig o]])
  qed (use c in blast)+
qed

lemma restore_in_place_back:
  assumes site: "site_ok q t0 r" and sane: "sane q" and dig: "digest (qe_hash q)" and o: "same_mutation r owned"
    and present: "mr_sourceFingerprint r \<noteq> fingerprintAbsent (qe_hash q) (mr_path r)" and fp: "fp = mr_sourceFingerprint r"
  shows "tri (\<lambda>w. troubled q \<and> pending q t0 r w) (found q t0 r fp there) (restore_in_place q owned there) (\<lambda>_. settled q t0 r)"
proof -
  let ?E = "\<lambda>w. troubled q \<and> pending q t0 r w" and ?H = "qe_hash q" and ?p = "mr_path r" and ?s = "mr_sourceArtifact r"
  let ?C = "found q t0 r fp there" and ?f = "mr_sourceFingerprint r"
  let ?G = "\<lambda>w. amid q t0 r w \<and> listed ?H r open_states w \<and> leaf_at w ?p = tr_leaves t0 ?p \<and> leaf_at w ?s = None"
  let ?F = "\<lambda>w. amid q t0 r w \<and> listed ?H r open_states w \<and> tr_leaves t0 ?p \<noteq> None \<and>
    leaf_at w ?p = tr_leaves t0 ?p \<and> leaf_at w ?s = tr_leaves t0 ?p"
  have c: "tr_leaves t0 ?p \<noteq> None \<and> leaf_at w ?p = tr_leaves t0 ?p \<and> (there \<longrightarrow> leaf_at w ?s = tr_leaves t0 ?p)"
    if "?C w" for w
    using midway_reading(2) [OF site _ _ _ present fp, of w there] that by blast
  have sync: "tri ?E ?G (in_order [sync_directory q ?s]) (\<lambda>_. ?G)"
    by (rule tri_pass [OF checks_sync _ _ tri_Nil]) (auto simp: pending_def)
  have drop: "tri ?E ?F (in_order [assertFingerprint q ?s ?p ?f, assertArtifactPath q ?p ?s, unlink_leaf q ?s, sync_directory q ?s]) (\<lambda>_. ?G)"
  proof (rule tri_pass [OF checks_assertFingerprint [OF sane]])
    show "tri ?E ?F (in_order [assertArtifactPath q ?p ?s, unlink_leaf q ?s, sync_directory q ?s]) (\<lambda>_. ?G)"
      by (rule tri_pass [OF checks_assertArtifactPath _ _ tri_Cons [OF restore_drop_source [OF site sane] sync]])
        (use amid_paths(3,5) [OF site] in \<open>auto simp: pending_def\<close>)
  qed (use fp_amid [OF site] in \<open>auto simp: pending_def\<close>)
  show ?thesis
    unfolding restore_in_place_def Let_def same_mutationD [OF o]
  proof (rule tri_Cons [OF _ restore_finish_at [OF site sane dig o]], rule tri_if)
    show "tri ?E ?C (in_order [assertFingerprint q ?s ?p ?f, assertArtifactPath q ?p ?s, unlink_leaf q ?s, sync_directory q ?s]) (\<lambda>_. ?G)"
      if there by (rule tri_pre [OF drop]) (use c that in auto)
    show "tri ?E ?C (ret ()) (\<lambda>_. ?G)" if "\<not> there" by (rule tri_ret) (use c that in auto)
  qed
qed

lemma restore_moved_back:
  assumes site: "site_ok q t0 r" and sane: "sane q" and dig: "digest (qe_hash q)" and o: "same_mutation r owned" and hooks: "quiet_hooks q"
    and present: "mr_sourceFingerprint r \<noteq> fingerprintAbsent (qe_hash q) (mr_path r)" and fp: "fp \<noteq> mr_sourceFingerprint r"
  shows "tri (\<lambda>w. troubled q \<and> pending q t0 r w) (found q t0 r fp there) (restore_moved q owned fp there) (\<lambda>_. settled q t0 r)"
proof -
  let ?E = "\<lambda>w. troubled q \<and> pending q t0 r w" and ?H = "qe_hash q" and ?p = "mr_path r" and ?s = "mr_sourceArtifact r"
  let ?C = "found q t0 r fp there" and ?f = "mr_sourceFingerprint r" and ?g = "mr_targetFingerprint r"
  let ?absent = "fingerprintAbsent (qe_hash q) (mr_path r)"
  let ?D = "\<lambda>w. amid q t0 r w \<and> listed ?H r open_states w \<and> leaf_at w ?p = None \<and>
    leaf_at w ?s = tr_leaves t0 ?p \<and> tr_leaves t0 ?p \<noteq> None"
  let ?J = "in_order [assertMutationPaths q [?p, ?s], remove_installed q owned]"
  have c: "tr_leaves t0 ?p \<noteq> None \<and> there \<and> leaf_at w ?s = tr_leaves t0 ?p \<and>
      (if fp \<noteq> ?absent \<and> fp = ?g then installed ?H t0 r (qw_tree w) else fp = ?absent \<and> leaf_at w ?p = None)"
    if "?C w" for w
    using midway_reading(3) [OF site _ _ _ present fp, of w there] that by blast
  have t: "tri ?E ?C (if fp \<noteq> ?absent \<and> fp = ?g then ?J else require (fp = ?absent) (refuse External_concurrency)) (\<lambda>_. ?D)"
  proof (cases "tr_leaves t0 ?p = None")
    case True
    show ?thesis by (rule tri_never) (rule notE [OF c [THEN conjunct1] True])
  next
    case False
    show ?thesis
    proof (rule tri_if)
      assume b: "fp \<noteq> ?absent \<and> fp = ?g"
      let ?I = "\<lambda>w. amid q t0 r w \<and> listed ?H r open_states w \<and> installed ?H t0 r (qw_tree w)"
      have "tri ?E ?I ?J (\<lambda>_. ?D)"
      proof (rule tri_pass [OF checks_assertMutationPaths])
        show "tri ?E ?I (in_order [remove_installed q owned]) (\<lambda>_. ?D)"
          by (rule tri_Cons [OF restore_remove_installed [OF site sane o] tri_Nil]) (use False in auto)
      qed (use amid_paths [OF site] in \<open>auto simp: pending_def amid_def\<close>)
      then show "tri ?E ?C ?J (\<lambda>_. ?D)" by (rule tri_pre) (use c b in auto)
    next
      assume b: "\<not> (fp \<noteq> ?absent \<and> fp = ?g)"
      show "tri ?E ?C (require (fp = ?absent) (refuse External_concurrency)) (\<lambda>_. ?D)"
        by (rule tri_require) (use c b in auto)
    qed
  qed
  show ?thesis
    unfolding restore_moved_def Let_def same_mutationD [OF o]
  proof (rule tri_Cons [where R = ?C], rule tri_require, goal_cases)
    case 3
    show ?case
    proof (rule tri_pass [OF checks_assertFingerprint [OF sane]], goal_cases)
      case 3
      show ?case by (rule tri_Cons [OF t tri_Cons [OF restore_put_back_all [OF site sane dig o hooks] tri_Nil]])
    qed (use c fp_amid [OF site] in \<open>auto simp: pending_def\<close>)
  qed (use c in blast)+
qed

lemma restore_owned_back:
  assumes site: "site_ok q t0 r" and sane: "sane q" and dig: "digest (qe_hash q)" and o: "same_mutation r owned" and hooks: "quiet_hooks q"
    and live: "mr_state owned \<noteq> CLEANED"
  shows "tri (\<lambda>w. troubled q \<and> pending q t0 r w) (found q t0 r fp there) (restore_owned q owned fp there) (\<lambda>_. settled q t0 r)"
proof -
  have early: "\<not> (mr_sourceFingerprint r \<noteq> fingerprintAbsent (qe_hash q) (mr_path r) \<and> \<not> there \<and> fp = mr_targetFingerprint r)"
    if "found q t0 r fp there w" for w
    using midway_reading(3) [OF site, of w fp there] site_okD(4) [OF site] that by auto
  show ?thesis
    unfolding restore_owned_def Let_def same_mutationD [OF o] if_not_P [OF live]
    by (rule tri_if, rule tri_never, use early in blast, rule tri_if, rule restore_absent_back [OF site sane dig o], assumption,
        rule tri_if, rule restore_in_place_back [OF site sane dig o], assumption+,
        rule restore_moved_back [OF site sane dig o hooks], assumption+)
qed

lemma restore_open:
  assumes site: "site_ok q t0 r" and sane: "sane q" and dig: "digest (qe_hash q)" and hooks: "quiet_hooks q"
  shows "tri (\<lambda>w. troubled q \<and> pending q t0 r w) (\<lambda>w. amid q t0 r w \<and> listed (qe_hash q) r open_states w)
    (restoreMutation q r) (\<lambda>_. settled q t0 r)"
proof -
  let ?E = "\<lambda>w. troubled q \<and> pending q t0 r w" and ?H = "qe_hash q"
  let ?A = "\<lambda>w. amid q t0 r w \<and> listed ?H r open_states w"
  have own: "tri ?E ?A (assertOwnedRecord q r) (\<lambda>x w. (same_mutation r x \<and> mr_state x \<noteq> CLEANED) \<and> ?A w)"
  proof (rule tri_assertOwnedRecord)
    show "(same_mutation r x \<and> mr_state x \<noteq> CLEANED) \<and> ?A w"
      if "amid q t0 r w" "listed ?H r {mr_state x} w" "same_mutation r x" "mr_state x \<in> open_states" for x w
      using that listed_mono [OF that(2), of open_states] by simp
    show "?E w" if "amid q t0 r w" "listed ?H r open_states w"
      "troubled q \<or> qw_identity w \<noteq> qe_root q \<or> \<not> paths_ok q r (qw_tree w)" for w
      using that amid_paths(1) [OF site] by (auto simp: pending_def amid_def)
  qed simp
  show ?thesis
    unfolding restoreMutation_def
  proof (rule tri_seq [OF own], rule tri_fact, goal_cases)
    case (1 owned)
    then have o: "same_mutation r owned" "mr_state owned \<noteq> CLEANED" by simp_all
    show ?case
      unfolding same_mutationD [OF o(1)]
    proof (rule tri_learn [OF checks_assertMutationPaths], goal_cases)
      case (3 u)
      show ?case
      proof (rule tri_learn [OF checks_fingerprint [OF sane]], goal_cases)
        case (3 fp)
        show ?case
        proof (rule tri_learn [OF checks_exists [OF sane]], goal_cases)
          case (3 there)
          show ?case by (rule tri_pre [OF restore_owned_back [OF site sane dig o(1) hooks o(2)]]) auto
        qed (auto simp: pending_def)
      qed (use amid_fp [OF site] in \<open>auto simp: pending_def\<close>)
    qed (use amid_paths [OF site] in \<open>auto simp: pending_def amid_def\<close>)
  qed
qed

text \<open>A mutation that is cleaned is left alone.\<close>

lemma restore_cleaned:
  assumes site: "site_ok q t0 r" and sane: "sane q"
  shows "tri (\<lambda>w. troubled q \<and> pending q t0 r w) (settled q t0 r) (restoreMutation q r) (\<lambda>_. settled q t0 r)"
proof -
  let ?E = "\<lambda>w. troubled q \<and> pending q t0 r w" and ?H = "qe_hash q" and ?p = "mr_path r" and ?s = "mr_sourceArtifact r"
  let ?A = "\<lambda>w. (amid q t0 r w \<and> undone t0 r (qw_tree w)) \<and> listed ?H r {CLEANED} w"
  have e: "troubled q \<Longrightarrow> ?A w \<Longrightarrow> ?E w" for w by (simp add: pending_def)
  have own: "tri ?E ?A (assertOwnedRecord q r) (\<lambda>x w. (same_mutation r x \<and> mr_state x = CLEANED) \<and> ?A w)"
    by (rule tri_assertOwnedRecord) (use amid_paths(1) [OF site] in \<open>auto simp: pending_def amid_def\<close>)
  have absent: "tri ?E ?A (assertTargetArtifactAbsent q x) (\<lambda>_. settled q t0 r)" if x: "same_mutation r x" for x
  proof (cases "mr_targetArtifact r")
    case None
    then show ?thesis by (auto simp: assertTargetArtifactAbsent_def same_mutationD [OF x] settled_def intro!: tri_ret)
  next
    case (Some a)
    show ?thesis
      unfolding assertTargetArtifactAbsent_def same_mutationD [OF x] Some option.case
    proof (rule tri_learn [OF checks_exists [OF sane]], goal_cases)
      case (3 there)
      show ?case by (rule tri_require) (use Some in \<open>auto simp: undone_def settled_def\<close>)
    qed (use e in auto)
  qed
  have owned: "tri ?E (\<lambda>w. ?A w \<and> fp = mr_sourceFingerprint r \<and> \<not> there) (restore_owned q x fp there) (\<lambda>_. settled q t0 r)"
    if "same_mutation r x \<and> mr_state x = CLEANED" for x fp there
  proof -
    have x: "same_mutation r x" "mr_state x = CLEANED" using that by simp_all
    show ?thesis
      unfolding restore_owned_def Let_def same_mutationD [OF x(1)] if_P [OF x(2)]
    proof (rule tri_Cons [where R = ?A])
      show "tri ?E (\<lambda>w. ?A w \<and> fp = mr_sourceFingerprint r \<and> \<not> there)
        (require (fp = mr_sourceFingerprint r \<and> \<not> there) (refuse External_concurrency)) (\<lambda>_. ?A)"
        by (rule tri_require) auto
      show "tri ?E ?A (in_order [assertTargetArtifactAbsent q x]) (\<lambda>_. settled q t0 r)"
        by (rule tri_Cons [OF absent [OF x(1)] tri_Nil])
    qed
  qed
  have "tri ?E ?A (restoreMutation q r) (\<lambda>_. settled q t0 r)"
    unfolding restoreMutation_def
  proof (rule tri_seq [OF own], rule tri_fact, goal_cases)
    case (1 x)
    then have o: "same_mutation r x" by simp
    show ?case
      unfolding same_mutationD [OF o]
    proof (rule tri_learn [OF checks_assertMutationPaths], goal_cases)
      case (3 u)
      show ?case
      proof (rule tri_learn [OF checks_fingerprint [OF sane]], goal_cases)
        case (3 fp)
        show ?case
        proof (rule tri_learn [OF checks_exists [OF sane]], goal_cases)
          case (3 there)
          show ?case by (rule tri_pre [OF owned [OF 1]]) (use fp_amid [OF site] in \<open>auto simp: undone_def\<close>)
        qed (use e in auto)
      qed (use e amid_fp [OF site] in auto)
    qed (use e amid_paths [OF site] in \<open>auto simp: amid_def\<close>)
  qed
  then show ?thesis by (rule tri_pre) (simp add: settled_def)
qed

lemma restore_pending:
  assumes "site_ok q t0 r" "sane q" "digest (qe_hash q)" "quiet_hooks q"
  shows "tri (\<lambda>w. troubled q \<and> pending q t0 r w) (pending q t0 r) (restoreMutation q r) (\<lambda>_. settled q t0 r)"
  unfolding tri_def holds_outcome
proof (intro allI impI)
  fix w assume p: "pending q t0 r (calm_view w)"
  note both = restore_open [OF assms] restore_cleaned [OF assms(1,2)]
  show "outcome (\<lambda>x w. settled q t0 r (calm_view w)) (\<lambda>_ w. troubled q \<and> pending q t0 r (calm_view w)) (restoreMutation q r w)"
    using p both [unfolded tri_def holds_outcome] unfolding pending_def settled_def by blast
qed

lemma sane_healthy: "\<not> troubled q \<Longrightarrow> sane q"
  by (auto simp: troubled_def sane_def)

lemma settled_tree:
  assumes "site_ok q t0 r" "settled q t0 r w"
  shows "tr_leaves (qw_tree w) = tr_leaves t0"
proof
  fix x show "leaf_at w x = tr_leaves t0 x"
    using assms(2) site_okD(6,7) [OF assms(1)] unfolding settled_def amid_def midway_def undone_def Let_def
    by (cases "x = mr_path r \<or> x = mr_sourceArtifact r \<or> mr_targetArtifact r = Some x") auto
qed

end
