(* ===== verification/QuarantineDo.thy ===== *)
theory QuarantineDo
  imports QuarantineUndo
begin

text \<open>
  The mutations of \<open>src/src/quarantine.ts\<close> themselves: where \<open>replaceFile\<close>, \<open>replaceSymlink\<close> and
  \<open>deleteLeaf\<close> can stop, what they leave when they return, and when they return. \<open>T\<close> stands for
  "something may go wrong"; every rule below lets an exception through only under \<open>T\<close>.
\<close>

section \<open>Doing it\<close>

text \<open>The mutation is in the log and in the tree as far as it got; its target may be torn.\<close>

definition begun :: "quarantine_env \<Rightarrow> tree \<Rightarrow> mutation_record \<Rightarrow> quarantine_world \<Rightarrow> bool" where
  "begun q t0 r w \<longleftrightarrow> midway (qe_hash q) t0 r (qw_tree w) \<and> qw_identity w = qe_root q \<and> listed (qe_hash q) r open_states w"

lemma begun_paths:
  assumes "site_ok q t0 r" "begun q t0 r w"
  shows "path_ok q (qw_tree w) (mr_path r)" "path_ok q (qw_tree w) (mr_sourceArtifact r)"
    "mr_targetArtifact r = Some a \<Longrightarrow> path_ok q (qw_tree w) a \<and> artifact_of (mr_path r) a"
  using midway_paths(1) [OF assms(1)] assms(2) by (auto simp: begun_def paths_ok_def)

lemma begun_put_source:
  assumes "site_ok q t0 r" "begun q t0 r w" "leaf_at w (mr_path r) = tr_leaves t0 (mr_path r)" "tr_leaves t0 (mr_path r) = Some l"
  shows "begun q t0 r (put (mr_sourceArtifact r) (Some l) w)"
  using assms(2-) site_okD(5) [OF assms(1)] site_okD(7) [OF assms(1)]
  by (auto simp: begun_def midway_def Let_def)

lemma begun_free_path:
  assumes "site_ok q t0 r" "begun q t0 r w" "leaf_at w (mr_sourceArtifact r) = tr_leaves t0 (mr_path r)"
  shows "begun q t0 r (put (mr_path r) None w)"
  using assms(2-) site_okD(5) [OF assms(1)] site_okD(7) [OF assms(1)]
  by (auto simp: begun_def midway_def Let_def)

lemma fp_begun:
  assumes "site_ok q t0 r" "begun q t0 r w" "leaf_at w x = tr_leaves t0 (mr_path r)"
  shows "leaf_fp (qe_hash q) x (mr_path r) (qw_tree w) = Some (mr_sourceFingerprint r)"
  using fp_original [OF assms(1) _ assms(3)] assms(2) by (simp add: begun_def)

lemma begun_identity: "begun q t0 r w \<Longrightarrow> qw_identity w = qe_root q"
  by (simp add: begun_def)

lemma begun_parent:
  assumes "site_ok q t0 r" "begun q t0 r w" "x = mr_path r \<or> x = mr_sourceArtifact r \<or> mr_targetArtifact r = Some x"
  shows "parent_exists (qw_tree w) x"
proof -
  have "grounded t0 x" using site_okD(8,11) [OF assms(1)] assms(3) by blast
  then have "grounded (qw_tree w) x"
    using folders_kept [OF assms(1)] assms(2) unfolding begun_def grounded_def by blast
  then show ?thesis by (rule grounded_parent)
qed

text \<open>A step that only checks what is known goes on, unless the system fails.\<close>

lemma tri_go:
  assumes "tri E P (in_order ms) (\<lambda>_. Q)" "checks q b m" "\<And>w. P w \<Longrightarrow> troubled q \<Longrightarrow> E w" "\<And>w. P w \<Longrightarrow> b w \<noteq> None"
  shows "tri E P (in_order (m # ms)) (\<lambda>_. Q)"
  by (rule tri_pass [OF assms(2,3) _ assms(1)]) (use assms(4) in blast)+

lemma tri_do:
  assumes "tri E R (in_order ms) (\<lambda>_. Q)" "tri E P m (\<lambda>_. R)"
  shows "tri E P (in_order (m # ms)) (\<lambda>_. Q)"
  by (rule tri_Cons [OF assms(2,1)])

text \<open>
  \<open>quarantineSource\<close>: the leaf is at its path, then also at its artifact, then only there. \<open>K\<close> is what
  else is known, which the two names do not matter for.
\<close>

lemma tri_quarantineSource:
  assumes site: "site_ok q t0 r" and sane: "sane q"
    and hooks: "qe_beforeSourceCapture q = None" "qe_beforeSourceRemove q = None"
    and K: "\<And>x w. K (put (mr_path r) x w) = K w" "\<And>x w. K (put (mr_sourceArtifact r) x w) = K w"
    and E: "\<And>w. begun q t0 r w \<Longrightarrow> K w \<Longrightarrow> troubled q \<Longrightarrow> E w"
  shows "tri E (\<lambda>w. begun q t0 r w \<and> K w \<and> leaf_at w (mr_path r) = tr_leaves t0 (mr_path r) \<and> leaf_at w (mr_sourceArtifact r) = None)
    (quarantineSource q r)
    (\<lambda>_ w. begun q t0 r w \<and> K w \<and> leaf_at w (mr_path r) = None \<and> leaf_at w (mr_sourceArtifact r) = tr_leaves t0 (mr_path r))"
proof -
  let ?H = "qe_hash q" and ?p = "mr_path r" and ?s = "mr_sourceArtifact r" and ?f = "mr_sourceFingerprint r"
  let ?A = "\<lambda>w. begun q t0 r w \<and> K w \<and> leaf_at w ?p = tr_leaves t0 ?p \<and> leaf_at w ?s = None"
  let ?B = "\<lambda>w. begun q t0 r w \<and> K w \<and> leaf_at w ?p = tr_leaves t0 ?p \<and> leaf_at w ?s = tr_leaves t0 ?p"
  let ?C = "\<lambda>w. begun q t0 r w \<and> K w \<and> leaf_at w ?p = None \<and> leaf_at w ?s = tr_leaves t0 ?p"
  have sp: "?s \<noteq> ?p" by (rule site_okD(5) [OF site])
  note ok = begun_identity begun_paths [OF site] fp_begun [OF site]
  have kind: "(\<exists>i. l = Regular i) \<or> (\<exists>s. l = Symlink_to s)" if "tr_leaves t0 ?p = Some l" for l
    using site_okD(2) [OF site] that by (cases l) (auto simp: leaf_fp_def)
  have folder: "tr_leaves t0 ?p \<noteq> Some Folder" using kind by blast
  have put: "?B (put ?s (Some l) w)" if "?A w" "leaf_at w ?p = Some l" for w l
  proof -
    have l: "tr_leaves t0 ?p = Some l" using that by simp
    have "begun q t0 r (put ?s (Some l) w)" by (rule begun_put_source [OF site _ _ l]) (use that in simp_all)
    then show ?thesis using that l sp K(2) by simp
  qed
  have unlink: "tri E ?B (unlink_leaf q ?p) (\<lambda>_. ?C)" if "tr_leaves t0 ?p \<noteq> None"
  proof (rule tri_unlink)
    show "?C (put ?p None w)" if "?B w" for w
    proof -
      have "begun q t0 r (put ?p None w)" by (rule begun_free_path [OF site]) (use that in simp_all)
      then show ?thesis using that sp K(1) by simp
    qed
  qed (use E that folder in auto)
  have capture: "tri E ?A (link_leaf q ?p ?s) (\<lambda>_. ?B)" if "tr_leaves t0 ?p \<noteq> None"
    by (rule tri_link) (use E folder begun_parent [OF site] put that in auto)
  have recapture: "tri E ?A (symlink_leaf q s ?s) (\<lambda>_. ?B)" if "tr_leaves t0 ?p = Some (Symlink_to s)" for s
    by (rule tri_symlink) (use E begun_parent [OF site] put that in auto)
  have move: "tri E (\<lambda>w. tr_leaves t0 ?p = Some l \<and> t = link_text (Some l) \<and> ?A w) (move_source q r l t) (\<lambda>_. ?C)" for l t
  proof (rule tri_fact, rule tri_fact)
    assume l: "tr_leaves t0 ?p = Some l" "t = link_text (Some l)"
    have m: "tri E ?A (no_clobber (case t of None \<Rightarrow> link_leaf q ?p ?s | Some t \<Rightarrow> symlink_leaf q t ?s)) (\<lambda>_. ?B)"
    proof (rule tri_no_clobber, cases "\<exists>s. l = Symlink_to s")
      case True
      then obtain s where s: "l = Symlink_to s" by blast
      show "tri E ?A (case t of None \<Rightarrow> link_leaf q ?p ?s | Some t \<Rightarrow> symlink_leaf q t ?s) (\<lambda>_. ?B)"
        using recapture [of s] l by (simp add: s link_text_def)
    next
      case False
      then have "link_text (Some l) = None" by (cases l) (auto simp: link_text_def)
      then show "tri E ?A (case t of None \<Rightarrow> link_leaf q ?p ?s | Some t \<Rightarrow> symlink_leaf q t ?s) (\<lambda>_. ?B)"
        using capture l by simp
    qed
    have same: "checks q (\<lambda>w. if t = None then (case leaf_at w ?s of None \<Rightarrow> None | Some a \<Rightarrow>
        (case leaf_at w ?p of None \<Rightarrow> None | Some b \<Rightarrow> only_if (same_inode a b))) else Some ())
      (if t = None then seq (lstat_leaf q ?s) (\<lambda>a. seq (lstat_leaf q ?p) (\<lambda>b. require (same_inode a b) (refuse External_concurrency)))
       else ret ())"
      by (cases t) (auto intro!: checks_ret checks_eq [OF checks_seq [OF checks_lstat checks_seq [OF checks_lstat checks_require]]]
          simp: only_if_def split: option.split)
    have u: "tri E ?B (unlink_leaf q ?p) (\<lambda>_. ?C)" by (rule unlink) (simp add: l)
    have i: "t = None \<Longrightarrow> same_inode l l" using kind [OF l(1)] by (auto simp: l(2) link_text_def same_inode_def)
    have k: "case l of Regular _ \<Rightarrow> True | Symlink_to _ \<Rightarrow> True | _ \<Rightarrow> False" using kind [OF l(1)] by auto
    show "tri E ?A (move_source q r l t) (\<lambda>_. ?C)"
      unfolding move_source_def Let_def hooks hook_def option.case
      by (rule tri_go [OF _ checks_require], rule tri_go [OF _ checks_ret(1)], rule tri_go [OF _ checks_assertMutationPaths],
          rule tri_do [OF _ m], rule tri_go [OF _ checks_sync], rule tri_go [OF _ checks_ret(1)],
          rule tri_go [OF _ checks_assertMutationPaths], rule tri_go [OF _ checks_assertFingerprint [OF sane]],
          rule tri_go [OF _ checks_assertFingerprint [OF sane]], rule tri_go [OF _ same], rule tri_do [OF _ u],
          rule tri_go [OF _ checks_assertFingerprint [OF sane]], rule tri_Nil) (use E ok i k l in auto)
  qed
  have read: "tri E (\<lambda>w. ?A w \<and> leaf_at w ?p = Some l)
      (case l of Symlink_to _ \<Rightarrow> seq (readlink_leaf q ?p) (\<lambda>t. ret (Some t)) | _ \<Rightarrow> ret None)
      (\<lambda>t w. tr_leaves t0 ?p = Some l \<and> t = link_text (Some l) \<and> ?A w)" for l
  proof (cases "\<exists>s. l = Symlink_to s")
    case True
    then obtain s where s: "l = Symlink_to s" by blast
    show ?thesis
      unfolding s leaf.case
    proof (rule tri_learn [OF checks_readlink], goal_cases)
      case (3 t)
      show ?case by (rule tri_ret) (auto simp: link_text_def split: option.splits leaf.splits)
    qed (use E in \<open>auto simp: link_text_def split: option.splits leaf.splits\<close>)
  next
    case False
    then have "(case l of Symlink_to _ \<Rightarrow> seq (readlink_leaf q ?p) (\<lambda>t. ret (Some t)) | _ \<Rightarrow> ret None) = ret None"
      "link_text (Some l) = None" by (cases l; simp add: link_text_def)+
    then show ?thesis by (auto intro: tri_ret)
  qed
  show ?thesis
    unfolding quarantineSource_def Let_def
  proof (rule tri_learn [OF checks_assertFingerprint [OF sane]], goal_cases)
    case (3 u)
    show ?case
    proof (rule tri_pre [where P = ?A], rule tri_if, goal_cases)
      case 1
      then have none: "tr_leaves t0 ?p = None" using site_okD(3) [OF site] by blast
      show ?case
      proof (rule tri_learn [OF checks_exists [OF sane]], goal_cases)
        case (3 taken)
        show ?case
        proof (cases taken)
          case True
          then show ?thesis by (auto intro: tri_never)
        next
          case False
          show ?thesis
            by (rule tri_pre [where P = ?A], rule tri_go [OF _ checks_require], rule tri_go [OF _ checks_assertFingerprint [OF sane]],
                rule tri_Nil) (use False none E ok in auto)
        qed
      qed (use E in auto)
    next
      case 2
      then have some: "tr_leaves t0 ?p \<noteq> None"
        using site_okD(2) [OF site] by (cases "tr_leaves t0 ?p") (auto simp: leaf_fp_def)
      show ?case
      proof (rule tri_learn [OF checks_lstat], goal_cases)
        case (3 l)
        show ?case by (rule tri_seq [OF read move])
      qed (use E some in auto)
    qed auto
  qed (use E ok in auto)
qed


section \<open>Starting it\<close>

text \<open>
  The path has its source, in a directory that is there; the path is not itself named like an
  artifact; and the fingerprints of source, target and nothing differ where the leaves do.
\<close>

definition start_ok :: "quarantine_env \<Rightarrow> string \<Rightarrow> string \<Rightarrow> string \<Rightarrow> tree \<Rightarrow> bool" where
  "start_ok q path f g t0 \<longleftrightarrow>
     numbered t0 \<and> leaf_fp (qe_hash q) path path t0 = Some f \<and>
     (tr_leaves t0 path \<noteq> None \<longrightarrow> f \<noteq> fingerprintAbsent (qe_hash q) path) \<and> g \<noteq> f \<and>
     grounded t0 path \<and> parent_exists t0 path \<and> proper_path q path \<and>
     \<not> is_artifact_name (last (split_on (CHR ''/'') path))"

text \<open>Two free names, of the same number.\<close>

definition allocated :: "string \<Rightarrow> bool \<Rightarrow> tree \<Rightarrow> string \<times> string option \<Rightarrow> bool" where
  "allocated path withTarget t sa \<longleftrightarrow> (\<exists>n. is_nonce n \<and>
     fst sa = in_parent path (artifact_name n ''source'') \<and> tr_leaves t (fst sa) = None \<and>
     (if withTarget then snd sa = Some (in_parent path (artifact_name n ''target'')) \<and> tr_leaves t (the (snd sa)) = None
      else snd sa = None))"

lemma tri_look: "(\<And>w. tri E P (f w) Q) \<Longrightarrow> tri E P (look f) Q"
  unfolding tri_def holds_def look_def by auto

lemma tri_allocate:
  assumes sane: "sane q" and E: "\<And>w. P w \<Longrightarrow> E w"
  shows "tri E P (allocate_artifacts q path b n) (\<lambda>sa w. P w \<and> allocated path b (qw_tree w) sa)"
proof (induction n)
  case 0
  show ?case by (auto intro!: tri_throw E)
next
  case (Suc n)
  show ?case
    unfolding allocate_artifacts.simps
  proof (rule tri_look, unfold Let_def, rule tri_if, goal_cases)
    case (1 w)
    show ?case by (rule tri_throw) (rule E)
  next
    case (2 w)
    let ?n = "qe_nonce q (qw_calls w)"
    let ?s = "in_parent path (artifact_name ?n ''source'')" and ?t = "in_parent path (artifact_name ?n ''target'')"
    have again: "tri E P' (allocate_artifacts q path b n) (\<lambda>sa w. P w \<and> allocated path b (qw_tree w) sa)"
      if "\<And>w. P' w \<Longrightarrow> P w" for P' by (rule tri_pre [OF Suc.IH that])
    show ?case
    proof (rule tri_learn [OF checks_exists [OF sane]], goal_cases)
      case (3 taken)
      show ?case
      proof (rule tri_if, rule again, simp, rule tri_if, goal_cases)
        case 1
        then show ?case using 2 by (auto intro!: tri_ret simp: allocated_def)
      next
        case c: 2
        show ?case
        proof (rule tri_learn [OF checks_exists [OF sane]], goal_cases)
          case (3 taken')
          show ?case
            by (rule tri_if, rule again, simp, rule tri_ret) (use 2 c in \<open>auto simp: allocated_def\<close>)
        qed (use E in auto)
      qed
    qed (use E in auto)
  qed
qed

text \<open>Every number the generator gives is well-formed and its names are free.\<close>

definition names_free :: "quarantine_env \<Rightarrow> string \<Rightarrow> tree \<Rightarrow> bool" where
  "names_free q path t \<longleftrightarrow> (\<forall>n. is_nonce (qe_nonce q n) \<and>
     tr_leaves t (in_parent path (artifact_name (qe_nonce q n) ''source'')) = None \<and>
     tr_leaves t (in_parent path (artifact_name (qe_nonce q n) ''target'')) = None)"

lemma tri_allocate_free:
  assumes sane: "sane q" and E: "\<And>w. P w \<Longrightarrow> troubled q \<Longrightarrow> E w" and free: "\<And>w. P w \<Longrightarrow> names_free q path (qw_tree w)"
  shows "tri E P (allocate_artifacts q path b (Suc n)) (\<lambda>sa w. P w \<and> allocated path b (qw_tree w) sa)"
  unfolding allocate_artifacts.simps
proof (rule tri_look, unfold Let_def, rule tri_if, goal_cases)
  case (1 w)
  then show ?case using free by (intro tri_never) (auto simp: names_free_def)
next
  case (2 w)
  let ?n = "qe_nonce q (qw_calls w)"
  have nonce: "is_nonce ?n" using 2 by simp
  have s: "\<And>w. P w \<Longrightarrow> leaf_at w (in_parent path (artifact_name ?n ''source'')) = None"
    and t: "\<And>w. P w \<Longrightarrow> leaf_at w (in_parent path (artifact_name ?n ''target'')) = None"
    using free by (auto simp: names_free_def)
  show ?case
  proof (rule tri_learn [OF checks_exists [OF sane]], goal_cases)
    case (3 taken)
    show ?case
    proof (rule tri_if, goal_cases)
      case 1
      then show ?case using s by (intro tri_never) auto
    next
      case n1: 2
      show ?case
      proof (rule tri_if, goal_cases)
        case 1
        then show ?case using s nonce by (intro tri_ret) (auto simp: allocated_def)
      next
        case b: 2
        show ?case
        proof (rule tri_learn [OF checks_exists [OF sane]], goal_cases)
          case (3 taken')
          show ?case
          proof (rule tri_if, goal_cases)
            case 1
            then show ?case using t by (intro tri_never) auto
          next
            case 2
            then show ?case using s t nonce b by (intro tri_ret) (auto simp: allocated_def)
          qed
        qed (use E in auto)
      qed
    qed
  qed (use E in auto)
qed


lemma site_start:
  assumes start: "start_ok q path f g t0" and alloc: "allocated path b t0 (source, target)"
    and r: "intends kind path source target f g r"
  shows "site_ok q t0 r"
proof -
  obtain n where n: "is_nonce n" "source = in_parent path (artifact_name n ''source'')" "tr_leaves t0 source = None"
    "if b then target = Some (in_parent path (artifact_name n ''target'')) \<and> tr_leaves t0 (the target) = None else target = None"
    using alloc unfolding allocated_def fst_conv snd_conv by blast
  have proper: "proper_path q path" and name: "\<not> is_artifact_name (last (split_on (CHR ''/'') path))" and ground: "grounded t0 path"
    using start by (auto simp: start_ok_def)
  note s = proper_artifact [OF proper n(1), of "''source''"] and a = proper_artifact [OF proper n(1), of "''target''"]
  have "artifact_name n ''source'' \<noteq> artifact_name n ''target''" by (simp add: artifact_name_def)
  then have ne: "in_parent path (artifact_name n ''target'') \<noteq> in_parent path (artifact_name n ''source'')"
    using in_parent_inject by metis
  have ta: "target = Some x \<Longrightarrow> x = in_parent path (artifact_name n ''target'') \<and> tr_leaves t0 x = None" for x
    using n(4) by (cases b) auto
  show ?thesis
    unfolding site_ok_def Let_def
    using start r s a name ne n(2,3) ta ground
    by (auto simp: start_ok_def intends_def)
qed


section \<open>Where an operation can stop\<close>

text \<open>Nothing was done, and nothing is in the log; or a mutation of that kind is under way.\<close>

definition untouched :: "quarantine_env \<Rightarrow> tree \<Rightarrow> mutation_record list \<Rightarrow> quarantine_world \<Rightarrow> bool" where
  "untouched q t0 latest w \<longleftrightarrow> qw_tree w = t0 \<and> sound (qe_hash q) latest w"

definition started :: "quarantine_env \<Rightarrow> tree \<Rightarrow> mutation_kind \<Rightarrow> string \<Rightarrow> string \<Rightarrow> string \<Rightarrow> mutation_record \<Rightarrow> bool" where
  "started q t0 kind path f g r \<longleftrightarrow> site_ok q t0 r \<and> mr_kind r = kind \<and> mr_path r = path \<and>
     mr_sourceFingerprint r = f \<and> mr_targetFingerprint r = g"

definition stopped ::
  "quarantine_env \<Rightarrow> tree \<Rightarrow> mutation_record list \<Rightarrow> mutation_kind \<Rightarrow> string \<Rightarrow> string \<Rightarrow> string \<Rightarrow> quarantine_world \<Rightarrow> bool" where
  "stopped q t0 latest kind path f g w \<longleftrightarrow> untouched q t0 latest w \<or>
     (\<exists>r. started q t0 kind path f g r \<and> begun q t0 r w)"

text \<open>Done: the target is at the path, the source in its artifact.\<close>

definition replaced :: "quarantine_env \<Rightarrow> tree \<Rightarrow> mutation_record \<Rightarrow> quarantine_world \<Rightarrow> bool" where
  "replaced q t0 r w \<longleftrightarrow> begun q t0 r w \<and> listed (qe_hash q) r {TARGET_VERIFIED} w \<and>
     leaf_fp (qe_hash q) (mr_path r) (mr_path r) (qw_tree w) = Some (mr_targetFingerprint r) \<and>
     leaf_at w (mr_sourceArtifact r) = tr_leaves t0 (mr_path r) \<and>
     (\<forall>a. mr_targetArtifact r = Some a \<longrightarrow> leaf_at w a = None)"

definition no_hooks :: "quarantine_env \<Rightarrow> bool" where
  "no_hooks q \<longleftrightarrow> qe_beforeSourceCapture q = None \<and> qe_beforeSourceRemove q = None \<and> qe_beforeTargetCreate q = None"

lemma begun_start: "site_ok q t0 r \<Longrightarrow> qw_tree w = t0 \<Longrightarrow> qw_identity w = qe_root q \<Longrightarrow> listed (qe_hash q) r {INTENT} w \<Longrightarrow> begun q t0 r w"
  using listed_mono [of "qe_hash q" r "{INTENT}" w open_states] site_okD(6,7)
  by (auto simp: begun_def midway_def Let_def)

lemma shape_start:
  assumes start: "start_ok q path f g t0" and alloc: "allocated path b t0 (source, target)"
    and "kind = Write \<Longrightarrow> b" "is_checksum f" "is_checksum g"
  shows "mutation_shape_ok kind path source target f g"
proof -
  obtain n where n: "is_nonce n" "source = in_parent path (artifact_name n ''source'')"
    "if b then target = Some (in_parent path (artifact_name n ''target'')) else target = None"
    using alloc unfolding allocated_def fst_conv snd_conv by (metis (full_types))
  have proper: "proper_path q path" using start by (simp add: start_ok_def)
  have "workspace_path_ok (in_parent path (artifact_name n role)) \<and>
      workspaceParent (in_parent path (artifact_name n role)) = workspaceParent path" if "role = ''source'' \<or> role = ''target''" for role
  proof
    show "workspace_path_ok (in_parent path (artifact_name n role))"
      by (rule proper_workspace [OF proper_artifact(1) [OF proper n(1) that]])
    have "CHR ''/'' \<notin> set (artifact_name n role)"
      by (rule nonce_chars [OF n(1)]; use that in \<open>auto simp: is_hex_digit_def\<close>)+
    then show "workspaceParent (in_parent path (artifact_name n role)) = workspaceParent path"
      by (rule in_parent_parts(2) [OF proper])
  qed
  then show ?thesis
    using n(2,3) assms(3-5) proper_workspace [OF proper] by (auto simp: mutation_shape_ok_def split: if_splits)
qed

definition ready :: "quarantine_env \<Rightarrow> quarantine_world \<Rightarrow> bool" where
  "ready q w \<longleftrightarrow> qw_identity w = qe_root q \<and> op_id_ok (mj_opId (qw_journal w))"

text \<open>
  The checks and the allocation before the journal is written, and the intent. \<open>T\<close> is that something
  may go wrong: if nothing does, every step succeeds.
\<close>

lemma tri_prelude:
  assumes start: "start_ok q path f g t0" and sane: "sane q" and pre: "checks q c (in_order pre)"
    and T: "troubled q \<Longrightarrow> T" "T \<or> digest (qe_hash q) \<and> names_free q path t0 \<and> is_checksum f \<and> is_checksum g \<and> (kind = Write \<longrightarrow> b) \<and>
      (\<forall>w. qw_tree w = t0 \<longrightarrow> c w \<noteq> None)"
    and Q: "\<And>source target intent. allocated path b t0 (source, target) \<Longrightarrow> intends kind path source target f g intent \<Longrightarrow>
      started q t0 kind path f g intent \<Longrightarrow> \<exists>w. c w \<noteq> None \<Longrightarrow>
      tri (\<lambda>w. T \<and> stopped q t0 latest kind path f g w) (\<lambda>w. begun q t0 intent w \<and> listed (qe_hash q) intent {INTENT} w \<and> qw_tree w = t0)
        (body source target intent) Q"
  shows "tri (\<lambda>w. T \<and> stopped q t0 latest kind path f g w) (\<lambda>w. untouched q t0 latest w \<and> (T \<or> ready q w))
    (seq (in_order (assertWorkspaceIdentity q # pre)) (\<lambda>_.
     seq (artifactPaths q path b) (\<lambda>(source, target).
     seq (begin_mutation q kind path source target f g) (\<lambda>intent. body source target intent)))) Q"
proof -
  let ?E = "\<lambda>w. T \<and> stopped q t0 latest kind path f g w" and ?H = "qe_hash q"
  let ?R = "\<lambda>w. T \<or> op_id_ok (mj_opId (qw_journal w))"
  let ?P = "\<lambda>w. (qw_tree w = t0 \<and> qw_identity w = qe_root q) \<and> sound ?H latest w \<and> ?R w"
  have e: "?P w \<Longrightarrow> T \<Longrightarrow> ?E w" for w by (simp add: stopped_def untouched_def)
  have 1: "tri ?E (\<lambda>w. untouched q t0 latest w \<and> (T \<or> ready q w)) (in_order (assertWorkspaceIdentity q # pre)) (\<lambda>_ w. (\<exists>w. c w \<noteq> None) \<and> ?P w)"
    by (rule tri_checks [OF checks_in_order(2) [OF checks_assertWorkspaceIdentity pre]])
      (use T in \<open>auto simp: untouched_def stopped_def ready_def split: option.splits\<close>)
  have 2: "tri ?E ?P (artifactPaths q path b) (\<lambda>sa w. allocated path b t0 sa \<and> ?P w)"
  proof (cases T)
    case True
    have "tri ?E ?P (artifactPaths q path b) (\<lambda>sa w. ?P w \<and> allocated path b (qw_tree w) sa)"
      unfolding artifactPaths_def by (rule tri_allocate [OF sane]) (use e True in blast)
    then show ?thesis by (rule tri_post) auto
  next
    case False
    then have "names_free q path t0" using T(2) by simp
    then have "tri ?E ?P (allocate_artifacts q path b (Suc 127)) (\<lambda>sa w. ?P w \<and> allocated path b (qw_tree w) sa)"
      by (intro tri_allocate_free [OF sane]) (use e T(1) in blast)+
    then have "tri ?E ?P (artifactPaths q path b) (\<lambda>sa w. ?P w \<and> allocated path b (qw_tree w) sa)" by (simp add: artifactPaths_def)
    then show ?thesis by (rule tri_post) auto
  qed
  have 3: "tri ?E ?P (begin_mutation q kind path source target f g)
      (\<lambda>r w. (intends kind path source target f g r \<and> started q t0 kind path f g r) \<and> begun q t0 r w \<and> listed ?H r {INTENT} w \<and> qw_tree w = t0)"
    if a: "allocated path b t0 (source, target)" for source target
  proof (rule tri_begin [where P = "\<lambda>w. qw_tree w = t0 \<and> qw_identity w = qe_root q" and T = T])
    fix w r assume w: "qw_tree w = t0 \<and> qw_identity w = qe_root q" "listed ?H r {INTENT} w" and r: "intends kind path source target f g r"
    have s: "started q t0 kind path f g r"
      using site_start [OF start that r] r by (simp add: started_def intends_def)
    then have "begun q t0 r w" using w begun_start by (simp add: started_def)
    then show "(T \<longrightarrow> ?E w) \<and> (intends kind path source target f g r \<and> started q t0 kind path f g r) \<and> begun q t0 r w \<and> listed ?H r {INTENT} w \<and> qw_tree w = t0"
      using s r w by (auto simp: stopped_def)
  next
    show "T \<or> digest ?H \<and> mutation_shape_ok kind path source target f g"
      using T(2) shape_start [OF start a] by blast
  qed (use T in \<open>auto simp: stopped_def untouched_def\<close>)
  show ?thesis
  proof (rule tri_seq [OF 1], rule tri_fact, rule tri_seq [OF 2])
    assume c: "\<exists>w. c w \<noteq> None"
    fix sa :: "string \<times> string option"
    obtain source target where sa: "sa = (source, target)" by (cases sa)
    show "tri ?E (\<lambda>w. allocated path b t0 sa \<and> ?P w)
      (case sa of (source, target) \<Rightarrow> seq (begin_mutation q kind path source target f g) (\<lambda>intent. body source target intent)) Q"
      unfolding sa prod.case
      by (rule tri_fact, rule tri_seq [OF 3], assumption, rule tri_fact, rule Q) (use c in auto)
  qed
qed

text \<open>The records of the transition to \<open>TARGET_VERIFIED\<close>.\<close>

lemma tri_verified:
  assumes r: "started q t0 kind path f g r" and T: "troubled q \<Longrightarrow> T" "T \<or> digest (qe_hash q)"
    and K: "\<And>w jd. K (with_journal jd w) = K w" "\<And>w. K w \<Longrightarrow> midway (qe_hash q) t0 r (qw_tree w) \<and> qw_identity w = qe_root q"
  shows "tri (\<lambda>w. T \<and> stopped q t0 latest kind path f g w) (\<lambda>w. K w \<and> listed (qe_hash q) r {INTENT} w)
    (advance_mutation q (mr_ordinal r) to_verified)
    (\<lambda>x w. same_mutation r x \<and> mr_state x = TARGET_VERIFIED \<and> K w \<and> listed (qe_hash q) r {TARGET_VERIFIED} w)"
proof (rule tri_advance [where T = T])
  show "T \<and> stopped q t0 latest kind path f g w" if "K w" "listed (qe_hash q) r ({INTENT} \<union> set to_verified) w" T for w
    using r K(2) [OF that(1)] listed_mono [OF that(2), of open_states] that(3) by (auto simp: stopped_def begun_def to_verified_def)
qed (use K(1) T in \<open>auto simp: to_verified_def\<close>)

lemma checks_hex: "checks q (\<lambda>_. only_if (is_checksum v)) (assertFingerprintValue v)"
  unfolding assertFingerprintValue_def by (rule checks_eq [OF checks_require]) (simp add: only_if_def)

lemma checks_mode: "checks q (\<lambda>_. only_if (mode = 420 \<or> mode = 493)) (assertMode mode)"
  unfolding assertMode_def by (rule checks_eq [OF checks_require]) (simp add: only_if_def)

lemma tri_moved:
  assumes r: "started q t0 kind path f g r" and sane: "sane q" and hooks: "no_hooks q"
    and K: "\<And>x w. K (put (mr_path r) x w) = K w" "\<And>x w. K (put (mr_sourceArtifact r) x w) = K w"
    and T: "troubled q \<Longrightarrow> T"
  shows "tri (\<lambda>w. T \<and> stopped q t0 latest kind path f g w)
    (\<lambda>w. begun q t0 r w \<and> K w \<and> leaf_at w path = tr_leaves t0 path \<and> leaf_at w (mr_sourceArtifact r) = None)
    (quarantineSource q r)
    (\<lambda>_ w. begun q t0 r w \<and> K w \<and> leaf_at w path = None \<and> leaf_at w (mr_sourceArtifact r) = tr_leaves t0 path)"
proof -
  have p: "path = mr_path r" and site: "site_ok q t0 r" using r by (simp_all add: started_def)
  have e: "begun q t0 r w \<Longrightarrow> troubled q \<Longrightarrow> T \<and> stopped q t0 latest kind path f g w" for w
    using r T by (auto simp: stopped_def)
  show ?thesis
    unfolding p
    by (rule tri_quarantineSource [OF site sane]) (use hooks K e [unfolded p] in \<open>auto simp: no_hooks_def\<close>)
qed


lemma checks_only: "checks q (\<lambda>_. only_if b) (require b e)"
  by (rule checks_eq [OF checks_require]) (simp add: only_if_def)

text \<open>The checks of a request.\<close>

lemma checks_request:
  assumes "checks q (\<lambda>_. only_if b) m"
  shows "checks q (\<lambda>w. only_if (path_ok q (qw_tree w) p \<and> is_checksum f \<and> is_checksum g \<and> b))
    (in_order [assertPath q p, assertFingerprintValue f, assertFingerprintValue g, m])"
  by (rule checks_eq [OF checks_in_order(2) [OF checks_assertPath checks_in_order(2) [OF checks_hex checks_in_order(2) [OF checks_hex
        checks_in_order(2) [OF assms checks_in_order(1)]]]]]) (auto simp: only_if_def)

lemma start_path_ok: "start_ok q path f g t0 \<Longrightarrow> path_ok q t0 path"
  by (simp add: start_ok_def path_ok_grounded)

text \<open>\<open>deleteLeaf\<close>.\<close>

lemma tri_deleteLeaf:
  assumes start: "start_ok q (dl_path d) (dl_sourceFingerprint d) (dl_targetFingerprint d) t0"
    and sane: "sane q" and hooks: "no_hooks q"
    and T: "troubled q \<Longrightarrow> T" "T \<or> digest (qe_hash q) \<and> names_free q (dl_path d) t0 \<and>
      is_checksum (dl_sourceFingerprint d) \<and> is_checksum (dl_targetFingerprint d) \<and> fingerprintAbsent (qe_hash q) (dl_path d) = dl_targetFingerprint d"
  shows "tri (\<lambda>w. T \<and> stopped q t0 latest Delete (dl_path d) (dl_sourceFingerprint d) (dl_targetFingerprint d) w)
    (\<lambda>w. untouched q t0 latest w \<and> (T \<or> ready q w))
    (deleteLeaf q d)
    (\<lambda>x w. \<exists>r. started q t0 Delete (dl_path d) (dl_sourceFingerprint d) (dl_targetFingerprint d) r \<and> same_mutation r x \<and>
       mr_state x = TARGET_VERIFIED \<and> replaced q t0 r w)"
proof -
  let ?p = "dl_path d" and ?f = "dl_sourceFingerprint d" and ?g = "dl_targetFingerprint d" and ?H = "qe_hash q"
  let ?E = "\<lambda>w. T \<and> stopped q t0 latest Delete ?p ?f ?g w"
  have pre: "checks q (\<lambda>w. only_if (path_ok q (qw_tree w) ?p \<and> is_checksum ?f \<and> is_checksum ?g \<and> (?g = fingerprintAbsent ?H ?p)))
     (in_order [assertPath q ?p, assertFingerprintValue ?f, assertFingerprintValue ?g, require (?g = fingerprintAbsent ?H ?p) (refuse Fingerprint_mismatch)])"
    by (rule checks_request [OF checks_only])
  have go: "T \<or> digest ?H \<and> names_free q ?p t0 \<and> is_checksum ?f \<and> is_checksum ?g \<and> (Delete = Write \<longrightarrow> False) \<and>
      (\<forall>w. qw_tree w = t0 \<longrightarrow> only_if (path_ok q (qw_tree w) ?p \<and> is_checksum ?f \<and> is_checksum ?g \<and> (?g = fingerprintAbsent ?H ?p)) \<noteq> None)"
    using T(2) start_path_ok [OF start] by auto
  show ?thesis
    unfolding deleteLeaf_def Let_def
  proof (rule tri_prelude [OF start sane pre T(1) go])
    fix source target and intent :: mutation_record
    assume a: "allocated ?p False t0 (source, target)" and r: "intends Delete ?p source target ?f ?g intent"
      and s: "started q t0 Delete ?p ?f ?g intent" and c: "\<exists>w. only_if (path_ok q (qw_tree w) ?p \<and> is_checksum ?f \<and> is_checksum ?g \<and> ?g = fingerprintAbsent ?H ?p) \<noteq> None"
    have site: "site_ok q t0 intent" and p: "mr_path intent = ?p" "mr_targetFingerprint intent = ?g" "mr_targetArtifact intent = None"
      using s r a by (auto simp: started_def intends_def allocated_def)
    let ?L = "listed ?H intent {INTENT}"
    let ?B = "\<lambda>w. begun q t0 intent w \<and> ?L w \<and> leaf_at w ?p = None \<and> leaf_at w (mr_sourceArtifact intent) = tr_leaves t0 ?p"
    let ?K = "\<lambda>w. midway ?H t0 intent (qw_tree w) \<and> qw_identity w = qe_root q \<and> leaf_fp ?H ?p ?p (qw_tree w) = Some ?g \<and>
      leaf_at w (mr_sourceArtifact intent) = tr_leaves t0 ?p"
    have e: "begun q t0 intent w \<Longrightarrow> troubled q \<Longrightarrow> ?E w" for w using s T(1) by (auto simp: stopped_def)
    have g: "leaf_fp ?H ?p ?p (qw_tree w) = Some ?g" if "leaf_at w ?p = None" for w
      using that c by (simp add: leaf_fp_def)
    have 1: "tri ?E (\<lambda>w. begun q t0 intent w \<and> ?L w \<and> qw_tree w = t0) (in_order
        [quarantineSource q intent, assertFingerprint q ?p ?p ?g]) (\<lambda>_. ?B)"
    proof (rule tri_do [OF _ tri_pre [OF tri_moved [OF s sane hooks, where K = ?L and T = T]]])
      show "tri ?E ?B (in_order [assertFingerprint q ?p ?p ?g]) (\<lambda>_. ?B)"
        by (rule tri_go [OF _ checks_assertFingerprint [OF sane]], rule tri_Nil) (use e g in auto)
    qed (use T site_okD(6) [OF site] in auto)
    have 2: "tri ?E (\<lambda>w. ?K w \<and> ?L w) (advance_mutation q (mr_ordinal intent) to_verified)
      (\<lambda>x w. same_mutation intent x \<and> mr_state x = TARGET_VERIFIED \<and> ?K w \<and> listed ?H intent {TARGET_VERIFIED} w)"
      by (rule tri_verified [OF s]) (use T in auto)
    show "tri ?E (\<lambda>w. begun q t0 intent w \<and> ?L w \<and> qw_tree w = t0)
      (seq (in_order [quarantineSource q intent, assertFingerprint q ?p ?p ?g])
         (\<lambda>_. advance_mutation q (mr_ordinal intent) to_verified))
      (\<lambda>x w. \<exists>r. started q t0 Delete ?p ?f ?g r \<and> same_mutation r x \<and> mr_state x = TARGET_VERIFIED \<and> replaced q t0 r w)"
    proof (rule tri_seq [OF 1], rule tri_post [OF tri_pre [OF 2]])
      show "\<exists>r. started q t0 Delete ?p ?f ?g r \<and> same_mutation r x \<and> mr_state x = TARGET_VERIFIED \<and> replaced q t0 r w"
        if "same_mutation intent x \<and> mr_state x = TARGET_VERIFIED \<and> ?K w \<and> listed ?H intent {TARGET_VERIFIED} w" for x w
        using that s p listed_mono [of ?H intent "{TARGET_VERIFIED}" w open_states]
        by (intro exI [of _ intent]) (auto simp: replaced_def begun_def)
    qed (use g in \<open>auto simp: begun_def\<close>)
  qed
qed


text \<open>\<open>replaceSymlink\<close>.\<close>

lemma tri_replaceSymlink:
  assumes start: "start_ok q (rs_path d) (rs_sourceFingerprint d) (rs_targetFingerprint d) t0"
    and real: "rs_targetFingerprint d \<noteq> fingerprintAbsent (qe_hash q) (rs_path d)"
    and sane: "sane q" and hooks: "no_hooks q" "rs_beforeInstall d = None"
    and T: "troubled q \<Longrightarrow> T" "T \<or> digest (qe_hash q) \<and> names_free q (rs_path d) t0 \<and>
      is_checksum (rs_sourceFingerprint d) \<and> is_checksum (rs_targetFingerprint d) \<and> fingerprintSymlink (qe_hash q) (rs_path d) (rs_targetLinkText d) = rs_targetFingerprint d"
  shows "tri (\<lambda>w. T \<and> stopped q t0 latest Symlink (rs_path d) (rs_sourceFingerprint d) (rs_targetFingerprint d) w)
    (\<lambda>w. untouched q t0 latest w \<and> (T \<or> ready q w))
    (replaceSymlink q d)
    (\<lambda>x w. \<exists>r. started q t0 Symlink (rs_path d) (rs_sourceFingerprint d) (rs_targetFingerprint d) r \<and> same_mutation r x \<and>
       mr_state x = TARGET_VERIFIED \<and> replaced q t0 r w)"
proof -
  let ?p = "rs_path d" and ?f = "rs_sourceFingerprint d" and ?g = "rs_targetFingerprint d" and ?H = "qe_hash q" and ?t = "rs_targetLinkText d"
  let ?E = "\<lambda>w. T \<and> stopped q t0 latest Symlink ?p ?f ?g w"
  have pre: "checks q (\<lambda>w. only_if (path_ok q (qw_tree w) ?p \<and> is_checksum ?f \<and> is_checksum ?g \<and> (fingerprintSymlink ?H ?p ?t = ?g)))
     (in_order [assertPath q ?p, assertFingerprintValue ?f, assertFingerprintValue ?g, require (fingerprintSymlink ?H ?p ?t = ?g) (refuse Fingerprint_mismatch)])"
    by (rule checks_request [OF checks_only])
  have go: "T \<or> digest ?H \<and> names_free q ?p t0 \<and> is_checksum ?f \<and> is_checksum ?g \<and> (Symlink = Write \<longrightarrow> False) \<and>
      (\<forall>w. qw_tree w = t0 \<longrightarrow> only_if (path_ok q (qw_tree w) ?p \<and> is_checksum ?f \<and> is_checksum ?g \<and> (fingerprintSymlink ?H ?p ?t = ?g)) \<noteq> None)"
    using T(2) start_path_ok [OF start] by auto
  show ?thesis
    unfolding replaceSymlink_def Let_def
  proof (rule tri_prelude [OF start sane pre T(1) go])
    fix source target and intent :: mutation_record
    assume a: "allocated ?p False t0 (source, target)" and r: "intends Symlink ?p source target ?f ?g intent"
      and s: "started q t0 Symlink ?p ?f ?g intent"
    have site: "site_ok q t0 intent" and p: "mr_path intent = ?p" "mr_targetFingerprint intent = ?g" "mr_targetArtifact intent = None"
      using s r a by (auto simp: started_def intends_def allocated_def)
    let ?s = "mr_sourceArtifact intent"
    let ?L = "listed ?H intent {INTENT}"
    let ?B = "\<lambda>w. begun q t0 intent w \<and> ?L w \<and> leaf_at w ?p = None \<and> leaf_at w ?s = tr_leaves t0 ?p"
    let ?C = "\<lambda>w. begun q t0 intent w \<and> ?L w \<and> leaf_fp ?H ?p ?p (qw_tree w) = Some ?g \<and> leaf_at w ?s = tr_leaves t0 ?p"
    let ?K = "\<lambda>w. midway ?H t0 intent (qw_tree w) \<and> qw_identity w = qe_root q \<and> leaf_fp ?H ?p ?p (qw_tree w) = Some ?g \<and>
      leaf_at w ?s = tr_leaves t0 ?p"
    assume c: "\<exists>w. only_if (path_ok q (qw_tree w) ?p \<and> is_checksum ?f \<and> is_checksum ?g \<and> (fingerprintSymlink ?H ?p ?t = ?g)) \<noteq> None"
    then have g: "fingerprintSymlink ?H ?p ?t = ?g" by simp
    have e: "begun q t0 intent w \<Longrightarrow> troubled q \<Longrightarrow> ?E w" for w using s T(1) by (auto simp: stopped_def)
    note ok = begun_identity begun_paths [OF site] begun_parent [OF site]
    have sp: "?s \<noteq> ?p" using site_okD(5) [OF site] p by simp
    have link: "tri ?E ?B (symlink_leaf q ?t ?p) (\<lambda>_. ?C)"
    proof (rule tri_symlink)
      show "?C (put ?p (Some (Symlink_to ?t)) w)" if "?B w" for w
        using that g real sp by (auto simp: begun_def midway_def Let_def installed_def p leaf_fp_def)
    qed (use e ok in \<open>auto simp: p\<close>)
    have 1: "tri ?E (\<lambda>w. begun q t0 intent w \<and> ?L w \<and> qw_tree w = t0) (in_order [quarantineSource q intent, hook (rs_beforeInstall d),
        assertMutationPaths q [?p], no_clobber (symlink_leaf q ?t ?p), sync_directory q ?p, assertFingerprint q ?p ?p ?g]) (\<lambda>_. ?C)"
    proof (rule tri_do [OF _ tri_pre [OF tri_moved [OF s sane hooks(1), where K = ?L and T = T]]])
      show "tri ?E ?B (in_order [hook (rs_beforeInstall d), assertMutationPaths q [?p], no_clobber (symlink_leaf q ?t ?p),
          sync_directory q ?p, assertFingerprint q ?p ?p ?g]) (\<lambda>_. ?C)"
        unfolding hooks(2) hook_def option.case
        by (rule tri_go [OF _ checks_ret(1)], rule tri_go [OF _ checks_assertMutationPaths], rule tri_do [OF _ tri_no_clobber [OF link]],
            rule tri_go [OF _ checks_sync], rule tri_go [OF _ checks_assertFingerprint [OF sane]], rule tri_Nil)
          (use e ok in \<open>auto simp: p\<close>)
    qed (use T site_okD(6) [OF site] in auto)
    have 2: "tri ?E (\<lambda>w. ?K w \<and> ?L w) (advance_mutation q (mr_ordinal intent) to_verified)
      (\<lambda>x w. same_mutation intent x \<and> mr_state x = TARGET_VERIFIED \<and> ?K w \<and> listed ?H intent {TARGET_VERIFIED} w)"
      by (rule tri_verified [OF s]) (use T in auto)
    show "tri ?E (\<lambda>w. begun q t0 intent w \<and> ?L w \<and> qw_tree w = t0)
      (seq (in_order [quarantineSource q intent, hook (rs_beforeInstall d), assertMutationPaths q [?p],
         no_clobber (symlink_leaf q ?t ?p), sync_directory q ?p, assertFingerprint q ?p ?p ?g])
         (\<lambda>_. advance_mutation q (mr_ordinal intent) to_verified))
      (\<lambda>x w. \<exists>r. started q t0 Symlink ?p ?f ?g r \<and> same_mutation r x \<and> mr_state x = TARGET_VERIFIED \<and> replaced q t0 r w)"
    proof (rule tri_seq [OF 1], rule tri_post [OF tri_pre [OF 2]])
      show "\<exists>r. started q t0 Symlink ?p ?f ?g r \<and> same_mutation r x \<and> mr_state x = TARGET_VERIFIED \<and> replaced q t0 r w"
        if "same_mutation intent x \<and> mr_state x = TARGET_VERIFIED \<and> ?K w \<and> listed ?H intent {TARGET_VERIFIED} w" for x w
        using that s p listed_mono [of ?H intent "{TARGET_VERIFIED}" w open_states]
        by (intro exI [of _ intent]) (auto simp: replaced_def begun_def)
    qed (auto simp: begun_def)
  qed
qed

text \<open>\<open>replaceFile\<close>.\<close>

lemma tri_replaceFile:
  assumes start: "start_ok q (rf_path d) (rf_sourceFingerprint d) (rf_targetFingerprint d) t0"
    and real: "rf_targetFingerprint d \<noteq> fingerprintAbsent (qe_hash q) (rf_path d)"
    and sane: "sane q" and hooks: "no_hooks q" "rf_beforeInstall d = None"
    and T: "troubled q \<Longrightarrow> T" "T \<or> digest (qe_hash q) \<and> names_free q (rf_path d) t0 \<and>
      is_checksum (rf_sourceFingerprint d) \<and> is_checksum (rf_targetFingerprint d) \<and> (rf_targetMode d = 420 \<or> rf_targetMode d = 493) \<and>
      fingerprintBytes (qe_hash q) (rf_path d) (rf_targetBytes d) (rf_targetMode d) = rf_targetFingerprint d"
  shows "tri (\<lambda>w. T \<and> stopped q t0 latest Write (rf_path d) (rf_sourceFingerprint d) (rf_targetFingerprint d) w)
    (\<lambda>w. untouched q t0 latest w \<and> (T \<or> ready q w))
    (replaceFile q d)
    (\<lambda>x w. \<exists>r. started q t0 Write (rf_path d) (rf_sourceFingerprint d) (rf_targetFingerprint d) r \<and> same_mutation r x \<and>
       mr_state x = TARGET_VERIFIED \<and> replaced q t0 r w)"
proof -
  let ?p = "rf_path d" and ?f = "rf_sourceFingerprint d" and ?g = "rf_targetFingerprint d" and ?H = "qe_hash q"
  let ?m = "rf_targetMode d" and ?b = "rf_targetBytes d" and ?i = "tr_next t0"
  let ?E = "\<lambda>w. T \<and> stopped q t0 latest Write ?p ?f ?g w"
  have pre: "checks q (\<lambda>w. only_if (path_ok q (qw_tree w) ?p \<and> is_checksum ?f \<and> is_checksum ?g \<and> (?m = 420 \<or> ?m = 493)))
     (in_order [assertPath q ?p, assertFingerprintValue ?f, assertFingerprintValue ?g, assertMode ?m])"
    by (rule checks_request [OF checks_mode])
  have go: "T \<or> digest ?H \<and> names_free q ?p t0 \<and> is_checksum ?f \<and> is_checksum ?g \<and> (Write = Write \<longrightarrow> True) \<and>
      (\<forall>w. qw_tree w = t0 \<longrightarrow> only_if (path_ok q (qw_tree w) ?p \<and> is_checksum ?f \<and> is_checksum ?g \<and> (?m = 420 \<or> ?m = 493)) \<noteq> None)"
    using T(2) start_path_ok [OF start] by auto
  show ?thesis
    unfolding replaceFile_def Let_def
  proof (rule tri_prelude [OF start sane pre T(1) go])
    fix source target and intent :: mutation_record
    assume a: "allocated ?p True t0 (source, target)" and r: "intends Write ?p source target ?f ?g intent"
      and s: "started q t0 Write ?p ?f ?g intent"
    obtain a where at: "target = Some a" "mr_targetArtifact intent = Some a"
      using a r by (auto simp: allocated_def intends_def)
    have site: "site_ok q t0 intent" and p: "mr_path intent = ?p" "mr_targetFingerprint intent = ?g"
      using s by (simp_all add: started_def)
    let ?s = "mr_sourceArtifact intent"
    have ne: "?s \<noteq> ?p" "a \<noteq> ?p" "a \<noteq> ?s" "tr_leaves t0 a = None" "tr_leaves t0 ?s = None"
      using site_okD(5,6) [OF site] site_okD(7) [OF site at(2)] p by auto
    let ?T = "\<lambda>w. leaf_at w a = Some (Regular ?i) \<and> tr_inodes (qw_tree w) ?i = Some \<lparr>in_mode = ?m, in_bytes = ?b\<rparr>"
    let ?L = "listed ?H intent {INTENT}" and ?G = "fingerprintBytes ?H ?p ?b ?m = ?g"
    let ?S = "\<lambda>w. begun q t0 intent w \<and> ?L w \<and> qw_tree w = t0"
    let ?A = "\<lambda>w. begun q t0 intent w \<and> (?L w \<and> ?T w) \<and> leaf_at w ?p = tr_leaves t0 ?p \<and> leaf_at w ?s = None"
    let ?B = "\<lambda>w. begun q t0 intent w \<and> (?L w \<and> ?T w) \<and> leaf_at w ?p = None \<and> leaf_at w ?s = tr_leaves t0 ?p"
    let ?C = "\<lambda>w. begun q t0 intent w \<and> (?L w \<and> ?T w) \<and> leaf_at w ?p = Some (Regular ?i) \<and> leaf_at w ?s = tr_leaves t0 ?p"
    have e: "begun q t0 intent w \<Longrightarrow> T \<Longrightarrow> ?E w" for w using s by (auto simp: stopped_def)
    note ok = begun_identity begun_paths [OF site] begun_parent [OF site]
    have put: "begun q t0 intent (put_file a n w) \<and> ?L (put_file a n w)" if "?S w" for n w
      using that ne p at by (auto simp: begun_def midway_def Let_def put_file_def new_file_def listed_def sound_def)
    have 1: "tri ?E ?S (write_exclusive q a ?b ?m syn) (\<lambda>_. ?A)" for syn
    proof (rule tri_write_exclusive)
      show "?E (put_file a n w)" if "?S w" "troubled q" for w n using put [OF that(1)] e T(1) that(2) by blast
      show "?A (put_file a \<lparr>in_mode = ?m, in_bytes = ?b\<rparr> w)" if "?S w" for w
        using put [OF that] that ne by (auto simp: put_file_def new_file_def)
      show "?E w" if "?S w" "leaf_at w a \<noteq> None \<or> \<not> parent_exists (qw_tree w) a" for w
        using that ok at(2) ne(4) by auto
      show "?E w" if "?S w" "troubled q" for w using e T(1) that by blast
    qed
    have K: "(?L (put (mr_path intent) x w) \<and> ?T (put (mr_path intent) x w)) = (?L w \<and> ?T w)"
      "(?L (put ?s x w) \<and> ?T (put ?s x w)) = (?L w \<and> ?T w)" for x w using ne p by auto
    note 2 = tri_moved [OF s sane hooks(1), where K = "\<lambda>w. ?L w \<and> ?T w", OF K T(1), where latest = latest]
    have fp: "leaf_fp ?H x ?p (qw_tree w) = Some (fingerprintBytes ?H ?p ?b ?m)" if "leaf_at w x = Some (Regular ?i)" "?T w" for x w
      using that by (simp add: leaf_fp_def)
    have link: "tri ?E ?B (link_leaf q a ?p) (\<lambda>_. ?C)" if g: ?G
    proof (rule tri_link)
      show "?C (put ?p (Some l) w)" if "?B w" "leaf_at w a = Some l" for w l
        using that g real ne by (auto simp: begun_def midway_def Let_def installed_def p at(2) leaf_fp_def)
    qed (use e T(1) ok p in auto)
    have 3: "tri ?E ?A (in_order
        [assertFingerprint q a ?p ?g, quarantineSource q intent, hook None, assertMutationPaths q [?p, a],
         assertFingerprint q a ?p ?g, no_clobber (link_leaf q a ?p), sync_directory q ?p,
         assertFingerprint q ?p ?p ?g, assertArtifactPath q ?p a]) (\<lambda>_ w. ?G \<and> ?C w)"
    proof (rule tri_Cons [OF tri_checks [OF checks_assertFingerprint [OF sane], where Q = "\<lambda>_ w. ?G \<and> ?A w"]])
      show "tri ?E (\<lambda>w. ?G \<and> ?A w) (in_order
          [quarantineSource q intent, hook None, assertMutationPaths q [?p, a],
           assertFingerprint q a ?p ?g, no_clobber (link_leaf q a ?p), sync_directory q ?p,
           assertFingerprint q ?p ?p ?g, assertArtifactPath q ?p a]) (\<lambda>_ w. ?G \<and> ?C w)"
      proof (rule tri_fact, rule tri_do [OF _ 2])
        assume g: ?G
        show "tri ?E ?B (in_order [hook None, assertMutationPaths q [?p, a],
           assertFingerprint q a ?p ?g, no_clobber (link_leaf q a ?p), sync_directory q ?p,
           assertFingerprint q ?p ?p ?g, assertArtifactPath q ?p a]) (\<lambda>_ w. ?G \<and> ?C w)"
          unfolding hook_def option.case
          by (rule tri_go [OF _ checks_ret(1)], rule tri_go [OF _ checks_assertMutationPaths],
              rule tri_go [OF _ checks_assertFingerprint [OF sane]], rule tri_do [OF _ tri_no_clobber [OF link [OF g]]],
              rule tri_go [OF _ checks_sync], rule tri_go [OF _ checks_assertFingerprint [OF sane]],
              rule tri_go [OF _ checks_assertArtifactPath], rule tri_Nil)
            (use e T(1) ok fp g p at(2) in auto)
      qed
    qed (use e T fp in auto)
    let ?K = "\<lambda>w. (midway ?H t0 intent (qw_tree w) \<and> qw_identity w = qe_root q) \<and>
      (?T w \<and> leaf_at w ?p = Some (Regular ?i) \<and> leaf_at w ?s = tr_leaves t0 ?p)"
    have 4: "tri ?E (\<lambda>w. ?K w \<and> ?L w) (advance_mutation q (mr_ordinal intent) to_verified)
      (\<lambda>x w. same_mutation intent x \<and> mr_state x = TARGET_VERIFIED \<and> ?K w \<and> listed ?H intent {TARGET_VERIFIED} w)"
      by (rule tri_verified [OF s]) (use T in auto)
    have 5: "tri ?E (\<lambda>w. ?G \<and> same_mutation intent x \<and> mr_state x = TARGET_VERIFIED \<and> ?K w \<and> listed ?H intent {TARGET_VERIFIED} w)
      (seq (unlink_leaf q a) (\<lambda>_. ret x))
      (\<lambda>x w. \<exists>r. started q t0 Write ?p ?f ?g r \<and> same_mutation r x \<and> mr_state x = TARGET_VERIFIED \<and> replaced q t0 r w)" for x
    proof (rule tri_fact, rule tri_fact, rule tri_fact)
      assume x: ?G "same_mutation intent x" "mr_state x = TARGET_VERIFIED"
      let ?V = "\<lambda>w. ?K w \<and> listed ?H intent {TARGET_VERIFIED} w"
      have v: "begun q t0 intent w" if "?V w" for w
        using that listed_mono [of ?H intent "{TARGET_VERIFIED}" w open_states] by (auto simp: begun_def)
      have "tri ?E ?V (unlink_leaf q a) (\<lambda>_. replaced q t0 intent)"
      proof (rule tri_unlink)
        show "replaced q t0 intent (put a None w)" if "?V w" for w
          using that v [OF that] x(1) real ne
          by (auto simp: replaced_def begun_def midway_def Let_def installed_def p at(2) leaf_fp_def)
      qed (use v e T(1) in auto)
      then show "tri ?E ?V (seq (unlink_leaf q a) (\<lambda>_. ret x))
        (\<lambda>x w. \<exists>r. started q t0 Write ?p ?f ?g r \<and> same_mutation r x \<and> mr_state x = TARGET_VERIFIED \<and> replaced q t0 r w)"
        by (rule tri_seq) (rule tri_ret, use s x in blast)
    qed
    show "tri ?E ?S
      (seq (in_order
        [hook (qe_beforeTargetCreate q), assertMutationPaths q [?p, the target],
         write_exclusive q (the target) ?b ?m (qe_syncTargetArtifacts q), assertFingerprint q (the target) ?p ?g,
         quarantineSource q intent, hook (rf_beforeInstall d), assertMutationPaths q [?p, the target],
         assertFingerprint q (the target) ?p ?g, no_clobber (link_leaf q (the target) ?p), sync_directory q ?p,
         assertFingerprint q ?p ?p ?g, assertArtifactPath q ?p (the target)]) (\<lambda>_.
      seq (advance_mutation q (mr_ordinal intent) to_verified) (\<lambda>verified.
      seq (unlink_leaf q (the target)) (\<lambda>_. ret verified))))
      (\<lambda>x w. \<exists>r. started q t0 Write ?p ?f ?g r \<and> same_mutation r x \<and> mr_state x = TARGET_VERIFIED \<and> replaced q t0 r w)"
      unfolding at(1) option.sel hooks(2)
    proof (rule tri_seq [where R = "\<lambda>_ w. ?G \<and> ?C w"])
      show "tri ?E ?S (in_order
        [hook (qe_beforeTargetCreate q), assertMutationPaths q [?p, a],
         write_exclusive q a ?b ?m (qe_syncTargetArtifacts q), assertFingerprint q a ?p ?g,
         quarantineSource q intent, hook None, assertMutationPaths q [?p, a],
         assertFingerprint q a ?p ?g, no_clobber (link_leaf q a ?p), sync_directory q ?p,
         assertFingerprint q ?p ?p ?g, assertArtifactPath q ?p a]) (\<lambda>_ w. ?G \<and> ?C w)"
        using hooks(1) unfolding no_hooks_def
        by (simp only: hook_def option.case)
          (rule tri_go [OF _ checks_ret(1)], rule tri_go [OF _ checks_assertMutationPaths],
            rule tri_do [OF _ 1], rule 3 [unfolded hook_def option.case], use e T(1) ok p at(2) in auto)
      show "tri ?E (\<lambda>w. ?G \<and> ?C w)
        (seq (advance_mutation q (mr_ordinal intent) to_verified) (\<lambda>verified. seq (unlink_leaf q a) (\<lambda>_. ret verified)))
        (\<lambda>x w. \<exists>r. started q t0 Write ?p ?f ?g r \<and> same_mutation r x \<and> mr_state x = TARGET_VERIFIED \<and> replaced q t0 r w)" for u :: unit
      proof (rule tri_fact, rule tri_seq [OF tri_pre [OF 4]], goal_cases)
        case (2 x)
        then show ?case by (intro tri_pre [OF 5]) simp
      qed (auto simp: begun_def)
    qed
  qed
qed


end
