(* ===== verification/QuarantineClaims.thy ===== *)
theory QuarantineClaims
  imports QuarantineDo
begin

text \<open>
  What \<open>src/src/quarantine.ts\<close> guarantees of one mutation: it returns when nothing fails, it can be
  undone wherever it stopped, and \<open>restoreMutation\<close> does not touch what is not its own. And what it
  does not guarantee: a torn target artifact blocks every rollback.
\<close>

section \<open>One mutation, stopped anywhere, is undone\<close>

datatype mutation = Replace_file replace_file | Replace_symlink replace_symlink | Delete_leaf delete_leaf

definition mutate :: "quarantine_env \<Rightarrow> mutation \<Rightarrow> mutation_record q_eff" where
  "mutate q m = (case m of
     Replace_file d \<Rightarrow> replaceFile q d | Replace_symlink d \<Rightarrow> replaceSymlink q d | Delete_leaf d \<Rightarrow> deleteLeaf q d)"

definition mu_kind :: "mutation \<Rightarrow> mutation_kind" where
  "mu_kind m = (case m of Replace_file _ \<Rightarrow> Write | Replace_symlink _ \<Rightarrow> Symlink | Delete_leaf _ \<Rightarrow> Delete)"

definition mu_path :: "mutation \<Rightarrow> string" where
  "mu_path m = (case m of Replace_file d \<Rightarrow> rf_path d | Replace_symlink d \<Rightarrow> rs_path d | Delete_leaf d \<Rightarrow> dl_path d)"

definition mu_source :: "mutation \<Rightarrow> string" where
  "mu_source m = (case m of
     Replace_file d \<Rightarrow> rf_sourceFingerprint d | Replace_symlink d \<Rightarrow> rs_sourceFingerprint d | Delete_leaf d \<Rightarrow> dl_sourceFingerprint d)"

definition mu_target :: "mutation \<Rightarrow> string" where
  "mu_target m = (case m of
     Replace_file d \<Rightarrow> rf_targetFingerprint d | Replace_symlink d \<Rightarrow> rs_targetFingerprint d | Delete_leaf d \<Rightarrow> dl_targetFingerprint d)"

text \<open>No hook is set, and the fingerprint of something is not the fingerprint of nothing.\<close>

definition mu_plain :: "quarantine_env \<Rightarrow> mutation \<Rightarrow> bool" where
  "mu_plain q m \<longleftrightarrow> no_hooks q \<and> (case m of
     Replace_file d \<Rightarrow> rf_beforeInstall d = None \<and> rf_targetFingerprint d \<noteq> fingerprintAbsent (qe_hash q) (rf_path d)
   | Replace_symlink d \<Rightarrow> rs_beforeInstall d = None \<and> rs_targetFingerprint d \<noteq> fingerprintAbsent (qe_hash q) (rs_path d)
   | Delete_leaf d \<Rightarrow> True)"

text \<open>The target fingerprint is that of what is to be written.\<close>

definition mu_honest :: "quarantine_env \<Rightarrow> mutation \<Rightarrow> bool" where
  "mu_honest q m \<longleftrightarrow> is_checksum (mu_source m) \<and> is_checksum (mu_target m) \<and> (case m of
     Replace_file d \<Rightarrow> (rf_targetMode d = 420 \<or> rf_targetMode d = 493) \<and>
       fingerprintBytes (qe_hash q) (rf_path d) (rf_targetBytes d) (rf_targetMode d) = rf_targetFingerprint d
   | Replace_symlink d \<Rightarrow> fingerprintSymlink (qe_hash q) (rs_path d) (rs_targetLinkText d) = rs_targetFingerprint d
   | Delete_leaf d \<Rightarrow> fingerprintAbsent (qe_hash q) (dl_path d) = dl_targetFingerprint d)"

lemma tri_mutate:
  assumes "start_ok q (mu_path m) (mu_source m) (mu_target m) t0" "sane q" "mu_plain q m"
    and T: "troubled q \<Longrightarrow> T" "T \<or> digest (qe_hash q) \<and> names_free q (mu_path m) t0 \<and> mu_honest q m"
  shows "tri (\<lambda>w. T \<and> stopped q t0 latest (mu_kind m) (mu_path m) (mu_source m) (mu_target m) w)
    (\<lambda>w. untouched q t0 latest w \<and> (T \<or> ready q w)) (mutate q m)
    (\<lambda>x w. \<exists>r. started q t0 (mu_kind m) (mu_path m) (mu_source m) (mu_target m) r \<and> same_mutation r x \<and>
       mr_state x = TARGET_VERIFIED \<and> replaced q t0 r w)"
proof (cases m)
  case (Replace_file d)
  show ?thesis
    unfolding Replace_file mutate_def mu_kind_def mu_path_def mu_source_def mu_target_def mutation.case
    by (rule tri_replaceFile) (use assms in \<open>auto simp: Replace_file mu_path_def mu_source_def mu_target_def mu_plain_def mu_honest_def\<close>)
next
  case (Replace_symlink d)
  show ?thesis
    unfolding Replace_symlink mutate_def mu_kind_def mu_path_def mu_source_def mu_target_def mutation.case
    by (rule tri_replaceSymlink) (use assms in \<open>auto simp: Replace_symlink mu_path_def mu_source_def mu_target_def mu_plain_def mu_honest_def\<close>)
next
  case (Delete_leaf d)
  show ?thesis
    unfolding Delete_leaf mutate_def mu_kind_def mu_path_def mu_source_def mu_target_def mutation.case
    by (rule tri_deleteLeaf) (use assms in \<open>auto simp: Delete_leaf mu_path_def mu_source_def mu_target_def mu_plain_def mu_honest_def\<close>)
qed

text \<open>Managers of the same workspace. Each of them restores the mutation once.\<close>

definition same_place :: "quarantine_env \<Rightarrow> quarantine_env \<Rightarrow> bool" where
  "same_place q q' \<longleftrightarrow> qe_hash q' = qe_hash q \<and> qe_cwd q' = qe_cwd q \<and> qe_root q' = qe_root q"

definition attempts :: "mutation_record \<Rightarrow> quarantine_env list \<Rightarrow> quarantine_world \<Rightarrow> quarantine_world" where
  "attempts r qs w = fold (\<lambda>q w. snd (restoreMutation q r w)) qs w"

lemma site_ok_same: "same_place q q' \<Longrightarrow> site_ok q t0 r = site_ok q' t0 r"
  by (simp add: site_ok_def same_place_def proper_path_def)

lemma pending_same: "same_place q q' \<Longrightarrow> pending q t0 r w = pending q' t0 r w" "same_place q q' \<Longrightarrow> settled q t0 r w = settled q' t0 r w"
  by (simp_all add: pending_def settled_def amid_def same_place_def)

lemma restore_step:
  assumes "site_ok q t0 r" "sane q" "digest (qe_hash q)" "quiet_hooks q" "pending q t0 r (calm_view w)"
  shows "case restoreMutation q r w of
    (Inl e, w') \<Rightarrow> troubled q \<and> pending q t0 r (calm_view w') | (Inr _, w') \<Rightarrow> settled q t0 r (calm_view w')"
  using holds_at [OF restore_pending [OF assms(1-4), unfolded tri_def], of w] assms(5) by (simp add: outcome_def)

lemma attempts_pending:
  assumes "site_ok q t0 r" "digest (qe_hash q)" "pending q t0 r (calm_view w)"
    "\<forall>q' \<in> set qs. same_place q q' \<and> sane q' \<and> quiet_hooks q'"
  shows "pending q t0 r (calm_view (attempts r qs w))"
  using assms(3,4)
proof (induction qs arbitrary: w)
  case Nil
  then show ?case by (simp add: attempts_def)
next
  case (Cons q' qs)
  have s: "same_place q q'" "sane q'" "quiet_hooks q'" using Cons.prems(2) by simp_all
  have "case restoreMutation q' r w of
    (Inl e, w') \<Rightarrow> troubled q' \<and> pending q' t0 r (calm_view w') | (Inr _, w') \<Rightarrow> settled q' t0 r (calm_view w')"
    by (rule restore_step) (use assms(1,2) s site_ok_same [OF s(1)] pending_same [OF s(1)] Cons.prems(1) in \<open>auto simp: same_place_def\<close>)
  then have "pending q' t0 r (calm_view (snd (restoreMutation q' r w)))"
    by (auto simp: pending_def settled_def split: prod.splits sum.splits)
  then show ?case
    using Cons.IH [of "snd (restoreMutation q' r w)"] Cons.prems(2) pending_same [OF s(1)] by (simp add: attempts_def)
qed

lemma calm_listed [simp]: "listed H r S (calm_view w) = listed H r S w" "sound H l (calm_view w) = sound H l w"
  by (simp_all add: listed_def sound_def)

lemma calm_identity [simp]: "qw_identity (calm_view w) = qw_identity w"
  by (simp add: calm_view_def)

lemma begun_undone:
  assumes "site_ok q t0 r" "digest (qe_hash q)" "begun q t0 r (calm_view w)" "whole (qe_hash q) r (qw_tree w)"
    "\<forall>q' \<in> set (q'' # qs). same_place q q' \<and> sane q' \<and> quiet_hooks q'" "\<not> troubled q''"
  shows "\<exists>w'. restoreMutation q'' r (attempts r qs w) = (Inr (), w') \<and> tr_leaves (qw_tree w') = tr_leaves t0 \<and>
    listed (qe_hash q) r {CLEANED} w'"
proof -
  have "pending q t0 r (calm_view w)" using assms(3,4) by (simp add: begun_def pending_def amid_def)
  then have p: "pending q t0 r (calm_view (attempts r qs w))"
    using attempts_pending [OF assms(1,2)] assms(5) by simp
  have s: "same_place q q''" "sane q''" "quiet_hooks q''" using assms(5) by simp_all
  have site: "site_ok q'' t0 r" using site_ok_same [OF s(1)] assms(1) by simp
  have "case restoreMutation q'' r (attempts r qs w) of
    (Inl e, w') \<Rightarrow> troubled q'' \<and> pending q'' t0 r (calm_view w') | (Inr _, w') \<Rightarrow> settled q'' t0 r (calm_view w')"
    by (rule restore_step [OF site s(2) _ s(3)]) (use assms(2) s(1) p pending_same [OF s(1)] in \<open>auto simp: same_place_def\<close>)
  then obtain w' where w': "restoreMutation q'' r (attempts r qs w) = (Inr (), w')" "settled q'' t0 r (calm_view w')"
    using assms(6) by (auto split: prod.splits sum.splits)
  then show ?thesis
    using settled_tree [OF site w'(2)] s(1) by (auto simp: settled_def same_place_def)
qed

text \<open>C1 (mutation_undone): Wherever \<open>replaceFile\<close>, \<open>replaceSymlink\<close> or \<open>deleteLeaf\<close> stops, at any failing call or crash, or when it returned,
  either it did nothing, or the journal has the mutation, and if its target artifact is whole, any number of attempts to restore it
  that are themselves stopped anywhere, followed by one on a system without failures, bring every path of the workspace back to what it was
  and record the mutation as cleaned.\<close>

theorem mutation_undone:
  assumes "start_ok q (mu_path m) (mu_source m) (mu_target m) (qw_tree w)" "sane q" "mu_plain q m" "digest (qe_hash q)"
    and "sound (qe_hash q) latest w" "mutate q m w = (res, w1)"
  shows "qw_tree w1 = qw_tree w \<and> sound (qe_hash q) latest w1 \<or>
    (\<exists>r. started q (qw_tree w) (mu_kind m) (mu_path m) (mu_source m) (mu_target m) r \<and> listed (qe_hash q) r (- {CLEANED}) w1 \<and>
       (whole (qe_hash q) r (qw_tree w1) \<longrightarrow>
        (\<forall>qs q'. (\<forall>x \<in> set (q' # qs). same_place q x \<and> sane x \<and> quiet_hooks x) \<longrightarrow> \<not> troubled q' \<longrightarrow>
           (\<exists>w2. restoreMutation q' r (attempts r qs w1) = (Inr (), w2) \<and> tr_leaves (qw_tree w2) = tr_leaves (qw_tree w) \<and>
              listed (qe_hash q) r {CLEANED} w2))))"
proof -
  let ?t0 = "qw_tree w"
  have u: "untouched q ?t0 latest (calm_view w)" using assms(5) by (simp add: untouched_def)
  have "stopped q ?t0 latest (mu_kind m) (mu_path m) (mu_source m) (mu_target m) (calm_view w1)"
    using holds_at [OF tri_mutate [where latest = latest and T = True, OF assms(1-3), unfolded tri_def], of w] u assms(6)
    by (cases res) (auto simp: stopped_def replaced_def)
  then consider "untouched q ?t0 latest (calm_view w1)"
    | r where "started q ?t0 (mu_kind m) (mu_path m) (mu_source m) (mu_target m) r" "begun q ?t0 r (calm_view w1)"
    unfolding stopped_def by blast
  then show ?thesis
  proof cases
    case 1
    then show ?thesis by (simp add: untouched_def)
  next
    case (2 r)
    have "site_ok q ?t0 r" "listed (qe_hash q) r (- {CLEANED}) w1" using 2 by (simp_all add: started_def begun_def)
    then show ?thesis using begun_undone [OF _ assms(4) 2(2)] 2(1) by (intro disjI2 exI [of _ r]) simp
  qed
qed

lemma mutate_returns:
  assumes "start_ok q (mu_path m) (mu_source m) (mu_target m) (qw_tree w)" "mu_plain q m" "digest (qe_hash q)"
    and "sound (qe_hash q) latest w" "ready q w" "names_free q (mu_path m) (qw_tree w)" "mu_honest q m" "\<not> troubled q"
  obtains x w1 where "mutate q m w = (Inr x, w1)"
proof -
  have u: "untouched q (qw_tree w) latest (calm_view w)" "ready q (calm_view w)"
    using assms(4,5) by (simp_all add: untouched_def ready_def)
  have "outcome (\<lambda>x w1. True) (\<lambda>_ _. False) (mutate q m w)"
    using holds_at [OF tri_mutate [where latest = latest and T = False, OF assms(1) sane_healthy [OF assms(8)] assms(2), unfolded tri_def], of w]
      u assms by (auto simp: outcome_def split: prod.splits sum.splits)
  then show thesis using that by (cases "mutate q m w"; cases "fst (mutate q m w)") (auto simp: outcome_def)
qed

text \<open>C6 (mutation_done): A mutation whose request is honest, on a system that does not fail and with free names for its artifacts, returns.
  Then the path has the target, the old leaf is in its source artifact, the target artifact is gone, nothing else changed, and the
  journal says \<open>TARGET_VERIFIED\<close>.\<close>

theorem mutation_done:
  assumes "start_ok q (mu_path m) (mu_source m) (mu_target m) (qw_tree w)" "mu_plain q m" "digest (qe_hash q)"
    and "sound (qe_hash q) latest w" "ready q w" "names_free q (mu_path m) (qw_tree w)" "mu_honest q m" "\<not> troubled q"
  shows "\<exists>x w1 r. mutate q m w = (Inr x, w1) \<and>
    started q (qw_tree w) (mu_kind m) (mu_path m) (mu_source m) (mu_target m) r \<and> same_mutation r x \<and> mr_state x = TARGET_VERIFIED \<and>
    listed (qe_hash q) r {TARGET_VERIFIED} w1 \<and>
    leaf_fp (qe_hash q) (mu_path m) (mu_path m) (qw_tree w1) = Some (mu_target m) \<and>
    leaf_at w1 (mr_sourceArtifact r) = leaf_at w (mu_path m) \<and>
    (\<forall>p. p \<noteq> mu_path m \<longrightarrow> p \<noteq> mr_sourceArtifact r \<longrightarrow> leaf_at w1 p = leaf_at w p)"
proof -
  obtain x w1 where m: "mutate q m w = (Inr x, w1)" by (rule mutate_returns [OF assms])
  have u: "untouched q (qw_tree w) latest (calm_view w)" using assms(4) by (simp add: untouched_def)
  obtain r where r: "started q (qw_tree w) (mu_kind m) (mu_path m) (mu_source m) (mu_target m) r" "same_mutation r x"
    "mr_state x = TARGET_VERIFIED" "replaced q (qw_tree w) r (calm_view w1)"
    using holds_at [OF tri_mutate [where latest = latest and T = True, OF assms(1) sane_healthy [OF assms(8)] assms(2), unfolded tri_def], of w]
      u m by auto
  have site: "site_ok q (qw_tree w) r" using r(1) by (simp add: started_def)
  have "leaf_at w1 p = leaf_at w p" if "p \<noteq> mr_path r" "p \<noteq> mr_sourceArtifact r" for p
    using r(4) that site_okD(7) [OF site, of p]
    by (cases "mr_targetArtifact r = Some p") (auto simp: replaced_def begun_def midway_def Let_def)
  then show ?thesis using m r by (intro exI [of _ x] exI [of _ w1] exI [of _ r]) (auto simp: replaced_def started_def)
qed


section \<open>What is not undone\<close>

lemma tri_nothing: "(\<And>w. P w \<Longrightarrow> E w) \<Longrightarrow> tri E P (throw e) (\<lambda>_ _. False)"
  by (rule tri_throw)

lemma tri_refused: "\<not> b \<Longrightarrow> (\<And>w. P w \<Longrightarrow> E w) \<Longrightarrow> tri E P (in_order (require b e # ms)) (\<lambda>_ _. False)"
  unfolding in_order.simps by (rule tri_seq [where R = "\<lambda>_ _. False"]) (auto simp: require_def intro: tri_throw tri_never)

lemma tri_Cons_refused:
  "tri E P m (\<lambda>_. R) \<Longrightarrow> tri E R (in_order ms) (\<lambda>_ _. False) \<Longrightarrow> tri E P (in_order (m # ms)) (\<lambda>_ _. False)"
  unfolding in_order.simps by (erule tri_seq)

lemma tri_require_refused:
  "(\<And>w. P w \<Longrightarrow> E w) \<Longrightarrow> tri E P (in_order ms) (\<lambda>_ _. False) \<Longrightarrow> tri E P (in_order (require b e # ms)) (\<lambda>_ _. False)"
  by (rule tri_Cons_refused [where R = P]) (auto intro: tri_require)

text \<open>The checks of \<open>restoreMutation\<close> before anything is changed.\<close>

lemma tri_restore_checks:
  assumes sane: "sane q"
    and rest: "\<And>owned fp there. same_mutation r owned \<Longrightarrow> mr_state owned \<in> S \<Longrightarrow>
      leaf_fp (qe_hash q) (mr_path r) (mr_path r) t = Some fp \<Longrightarrow> there = (tr_leaves t (mr_sourceArtifact r) \<noteq> None) \<Longrightarrow>
      tri (\<lambda>w. qw_tree w = t) (\<lambda>w. qw_tree w = t) (restore_owned q owned fp there) (\<lambda>_ _. False)"
  shows "tri (\<lambda>w. qw_tree w = t) (\<lambda>w. qw_tree w = t \<and> listed (qe_hash q) r S w) (restoreMutation q r) (\<lambda>_ _. False)"
proof -
  have own: "tri (\<lambda>w. qw_tree w = t) (\<lambda>w. qw_tree w = t \<and> listed (qe_hash q) r S w) (assertOwnedRecord q r)
      (\<lambda>x w. (same_mutation r x \<and> mr_state x \<in> S) \<and> qw_tree w = t)"
    by (rule tri_assertOwnedRecord) simp_all
  show ?thesis
    unfolding restoreMutation_def
  proof (rule tri_seq [OF own], rule tri_fact, goal_cases)
    case (1 owned)
    then have o: "same_mutation r owned" "mr_state owned \<in> S" by simp_all
    show ?case
      unfolding same_mutationD [OF o(1)]
    proof (rule tri_learn [OF checks_assertMutationPaths], goal_cases)
      case (3 u)
      show ?case
      proof (rule tri_learn [OF checks_fingerprint [OF sane]], goal_cases)
        case (3 fp)
        show ?case
        proof (rule tri_learn [OF checks_exists [OF sane]], goal_cases)
          case (3 there)
          show ?case
            by (rule tri_pre [where P = "\<lambda>w. (leaf_fp (qe_hash q) (mr_path r) (mr_path r) t = Some fp \<and>
                there = (tr_leaves t (mr_sourceArtifact r) \<noteq> None)) \<and> qw_tree w = t"], rule tri_fact, rule rest [OF o])
              auto
        qed auto
      qed auto
    qed auto
  qed
qed

lemma tri_stuck:
  assumes "tri (\<lambda>w. qw_tree w = t) P m (\<lambda>_ _. False)" "P (calm_view w)" "qw_tree w = t"
  shows "\<exists>e w'. m w = (Inl e, w') \<and> qw_tree w' = t"
  using holds_at [OF assms(1) [unfolded tri_def], of w] assms(2,3) by (cases "m w"; cases "fst (m w)") auto

text \<open>C10 (foreign_kept): If the path holds something that is neither the source, nor the target, nor nothing, \<open>restoreMutation\<close> does not
  return, whatever the hooks do and whatever fails, and every leaf and inode is what it was.\<close>

theorem foreign_kept:
  assumes "sane q" "listed (qe_hash q) r S w"
    and "leaf_fp (qe_hash q) (mr_path r) (mr_path r) (qw_tree w) = Some x"
    and "x \<notin> {mr_sourceFingerprint r, mr_targetFingerprint r, fingerprintAbsent (qe_hash q) (mr_path r)}"
  shows "\<exists>e w'. restoreMutation q r w = (Inl e, w') \<and> qw_tree w' = qw_tree w"
proof -
  let ?t = "qw_tree w"
  let ?E = "\<lambda>w. qw_tree w = ?t"
  have rest: "tri ?E ?E (restore_owned q owned fp there) (\<lambda>_ _. False)"
    if "same_mutation r owned" "leaf_fp (qe_hash q) (mr_path r) (mr_path r) ?t = Some fp" for owned fp there
  proof -
    note o = same_mutationD [OF that(1)]
    have n: "fp \<noteq> mr_sourceFingerprint r" "fp \<noteq> mr_targetFingerprint r" "fp \<noteq> fingerprintAbsent (qe_hash q) (mr_path r)"
      using assms(3,4) that(2) by auto
    have absent: "tri ?E ?E (restore_absent q owned fp there) (\<lambda>_ _. False)"
      unfolding restore_absent_def o using n
      by (intro tri_require_refused) (auto intro: tri_refused)
    have moved: "tri ?E ?E (restore_moved q owned fp there) (\<lambda>_ _. False)"
      unfolding restore_moved_def o Let_def
      by (rule tri_require_refused, assumption, rule tri_pass [OF checks_assertFingerprint [OF assms(1)]])
        (use n in \<open>auto intro: tri_refused\<close>)
    show ?thesis
      unfolding restore_owned_def Let_def o using n absent moved by (auto intro: tri_refused)
  qed
  show ?thesis
    by (rule tri_stuck [OF tri_restore_checks [OF assms(1) rest]]) (use assms in auto)
qed

text \<open>C9 (torn_target_blocks): If the target artifact holds anything but the whole target, as after a failed or interrupted write
  of it, \<open>restoreMutation\<close> does not return, although nothing was moved yet and the path still has its source: every rollback fails.\<close>

theorem torn_target_blocks:
  assumes "sane q" "listed (qe_hash q) r S w" "mr_sourceFingerprint r \<noteq> mr_targetFingerprint r"
    and "leaf_fp (qe_hash q) (mr_path r) (mr_path r) (qw_tree w) = Some (mr_sourceFingerprint r)"
    and "leaf_at w (mr_sourceArtifact r) = None"
    and "mr_targetArtifact r = Some a" "leaf_at w a \<noteq> None"
    and "leaf_fp (qe_hash q) a (mr_path r) (qw_tree w) \<noteq> Some (mr_targetFingerprint r)"
  shows "\<exists>e w'. restoreMutation q r w = (Inl e, w') \<and> qw_tree w' = qw_tree w"
proof -
  let ?t = "qw_tree w"
  let ?E = "\<lambda>w. qw_tree w = ?t"
  have cleanup: "tri ?E ?E (in_order (cleanupRollbackTarget q owned # ms)) (\<lambda>_ _. False)" if "same_mutation r owned" for owned ms
  proof (rule tri_Cons_refused [where R = "\<lambda>_. False"])
    show "tri ?E ?E (cleanupRollbackTarget q owned) (\<lambda>_ _. False)"
      unfolding cleanupRollbackTarget_def remove_checked_def same_mutationD [OF that] assms(6) option.case
    proof (rule tri_learn [OF checks_exists [OF assms(1)]], goal_cases)
      case (3 there)
      show ?case
      proof (cases there)
        case False
        then show ?thesis using assms(7) by (auto intro!: tri_never)
      next
        case True
        have fp: "tri ?E (\<lambda>w. ?E w \<and> Some (leaf_at w a \<noteq> None) = Some there) (assertFingerprint q a (mr_path r) (mr_targetFingerprint r)) (\<lambda>_ _. False)"
          by (rule tri_checks [OF checks_assertFingerprint [OF assms(1)]]) (use assms(8) in \<open>auto simp: only_if_def split: if_splits\<close>)
        show ?thesis
          unfolding if_not_P [of "\<not> there", OF True [THEN not_not [THEN iffD2]]]
          by (rule tri_pass [OF checks_assertArtifactPath], simp, simp, rule tri_Cons_refused [OF fp]) (auto intro: tri_never)
      qed
    qed auto
  qed (auto intro: tri_never)
  have absent: "tri ?E ?E (in_order [assertTargetArtifactAbsent q owned]) (\<lambda>_ _. False)" if "same_mutation r owned" for owned
  proof (rule tri_Cons_refused [where R = "\<lambda>_. False"])
    show "tri ?E ?E (assertTargetArtifactAbsent q owned) (\<lambda>_ _. False)"
      unfolding assertTargetArtifactAbsent_def same_mutationD [OF that] assms(6) option.case
      by (rule tri_learn [OF checks_exists [OF assms(1)]]) (use assms(7) in \<open>auto intro: tri_require\<close>)
  qed (auto intro: tri_never)
  have rest: "tri ?E ?E (restore_owned q owned fp there) (\<lambda>_ _. False)"
    if "same_mutation r owned" "leaf_fp (qe_hash q) (mr_path r) (mr_path r) ?t = Some fp" "there = (leaf_at w (mr_sourceArtifact r) \<noteq> None)" for owned fp there
  proof -
    have n: "fp = mr_sourceFingerprint r" "there = False" using assms(4,5) that(2,3) by auto
    note a = absent [OF that(1)] and c = cleanup [OF that(1)]
    have skip: "tri ?E ?E (in_order (require True e # cleanupRollbackTarget q owned # ms)) (\<lambda>_ _. False)"
      "tri ?E ?E (in_order (ret () # cleanupRollbackTarget q owned # ms)) (\<lambda>_ _. False)" for e ms
      using c by (auto intro: tri_require_refused tri_Cons_refused [where R = ?E, OF tri_ret])
    show ?thesis
      unfolding restore_owned_def Let_def restore_absent_def restore_in_place_def same_mutationD [OF that(1)] n
      using assms(3) a skip c by (auto intro: tri_require_refused)
  qed
  show ?thesis
    by (rule tri_stuck [OF tri_restore_checks [OF assms(1) rest]]) (use assms in auto)
qed

section \<open>A workspace with one file\<close>

definition demo_digit :: "nat \<Rightarrow> char" where
  "demo_digit n = ''0123456789'' ! (n mod 10)"

definition demo_digest :: hash where
  "demo_digest s = replicate 62 (CHR ''0'') @ [demo_digit (length s), demo_digit (length (filter ((=) (CHR ''1'')) s))]"

definition demo_tree :: tree where
  "demo_tree = \<lparr>tr_leaves = [''f'' \<mapsto> Regular 0], tr_inodes = [0 \<mapsto> \<lparr>in_mode = 420, in_bytes = []\<rparr>], tr_next = 1\<rparr>"

definition demo_place :: quarantine_world where
  "demo_place = \<lparr>qw_tree = demo_tree, qw_identity = ''/w'', qw_journal = new_journal ''op'', qw_disk = empty_disk, qw_calls = 0\<rparr>"

definition demo_quarantine :: "(nat \<Rightarrow> errno option) \<Rightarrow> quarantine_env" where
  "demo_quarantine fault = \<lparr>qe_hash = demo_digest, qe_cwd = ''/'', qe_root = ''/w'', qe_win32 = False,
     qe_context = (\<lambda>_. (False, None, 0)), qe_fault = fault, qe_torn = (\<lambda>_. 0), qe_nonce = (\<lambda>_. replicate 32 (CHR ''a'')),
     qe_beforeSourceCapture = None, qe_beforeSourceRemove = None, qe_beforeRestoreInstall = None,
     qe_beforeRestoreSourceCleanup = None, qe_afterRestoreSourceCleanup = None, qe_beforeTargetCreate = None,
     qe_syncTargetArtifacts = True\<rparr>"

definition demo_replacement :: mutation where
  "demo_replacement = Replace_file \<lparr>rf_path = ''f'', rf_targetBytes = ''1'', rf_targetMode = 420,
     rf_sourceFingerprint = fingerprintBytes demo_digest ''f'' [] 420,
     rf_targetFingerprint = fingerprintBytes demo_digest ''f'' ''1'' 420, rf_beforeInstall = None\<rparr>"

lemma demo_fingerprints:
  "fingerprintBytes demo_digest ''f'' [] 420 = replicate 62 (CHR ''0'') @ ''40''"
  "fingerprintBytes demo_digest ''f'' ''1'' 420 = replicate 62 (CHR ''0'') @ ''42''"
  "fingerprintAbsent demo_digest ''f'' = replicate 62 (CHR ''0'') @ ''80''"
  "fingerprintSymlink demo_digest ''f'' ''xy'' = replicate 62 (CHR ''0'') @ ''50''"
  by code_simp+

lemma demo_digest_ok: "digest demo_digest"
proof
  have "is_hex_digit (demo_digit n)" for n
  proof -
    have "demo_digit n \<in> set ''0123456789''" unfolding demo_digit_def by (rule nth_mem) simp
    moreover have "list_all is_hex_digit ''0123456789''" by code_simp
    ultimately show ?thesis unfolding list_all_iff by blast
  qed
  then show "is_checksum (demo_digest s)" for s
    by (simp add: demo_digest_def is_checksum_def list_all_iff is_hex_digit_def)
qed

lemma demo_fields [simp]:
  "mu_path demo_replacement = ''f''" "mu_kind demo_replacement = Write"
  "mu_source demo_replacement = fingerprintBytes demo_digest ''f'' [] 420"
  "mu_target demo_replacement = fingerprintBytes demo_digest ''f'' ''1'' 420"
  "qe_hash (demo_quarantine fault) = demo_digest" "qe_fault (demo_quarantine fault) = fault"
  "qe_root (demo_quarantine fault) = ''/w''" "qw_tree demo_place = demo_tree" "qw_calls demo_place = 0"
  by (simp_all add: demo_replacement_def mu_path_def mu_kind_def mu_source_def mu_target_def demo_quarantine_def demo_place_def)

lemma demo_proper: "proper_path (demo_quarantine fault) ''f''"
  by (simp add: proper_path_def) code_simp

lemma demo_start: "start_ok (demo_quarantine fault) ''f'' (fingerprintBytes demo_digest ''f'' [] 420) (fingerprintBytes demo_digest ''f'' ''1'' 420) demo_tree"
proof -
  have "\<not> is_artifact_name (last (split_on (CHR ''/'') ''f''))" by code_simp
  then show ?thesis
    using demo_proper [of fault]
    by (simp add: start_ok_def numbered_def demo_tree_def leaf_fp_def grounded_def parent_exists_def has_char_def demo_fingerprints)
qed

lemma demo_sound: "sound demo_digest [] demo_place"
  by (simp add: sound_def demo_place_def journal_view_def empty_disk_def new_journal_def emptyJournalRecords_def)

lemma demo_plain: "mu_plain (demo_quarantine fault) demo_replacement"
  by (simp add: mu_plain_def demo_replacement_def demo_fingerprints no_hooks_def demo_quarantine_def)

lemma demo_healthy: "\<not> troubled (demo_quarantine (\<lambda>_. None))"
  by (simp add: troubled_def demo_quarantine_def checkOperation_def)

lemma demo_ready: "ready (demo_quarantine fault) demo_place"
  by (simp add: ready_def demo_place_def op_id_ok_def has_char_def new_journal_def)

lemma demo_honest: "mu_honest (demo_quarantine fault) demo_replacement"
  by (simp add: mu_honest_def demo_fingerprints is_checksum_def list_all_iff is_hex_digit_def is_digit_def) (simp add: demo_replacement_def demo_fingerprints)

lemma demo_free: "names_free (demo_quarantine fault) ''f'' demo_tree"
  by (simp add: names_free_def demo_quarantine_def demo_tree_def is_nonce_def list_all_iff is_hex_digit_def is_digit_def in_parent_def artifact_name_def workspaceParent_def has_char_def)

lemma demo_given:
  "digest (qe_hash (demo_quarantine fault))" "sound (qe_hash (demo_quarantine fault)) [] demo_place"
  "names_free (demo_quarantine fault) (mu_path demo_replacement) (qw_tree demo_place)"
  using demo_digest_ok demo_sound demo_free [of fault] by simp_all

theorem mutation_done_witness:
  "\<exists>x w1 (r :: mutation_record). mutate (demo_quarantine (\<lambda>_. None)) demo_replacement demo_place = (Inr x, w1) \<and> mr_state x = TARGET_VERIFIED \<and>
     leaf_fp demo_digest ''f'' ''f'' (qw_tree w1) = Some (fingerprintBytes demo_digest ''f'' ''1'' 420) \<and>
     leaf_at w1 (mr_sourceArtifact r) = tr_leaves demo_tree ''f''"
proof -
  have "start_ok (demo_quarantine (\<lambda>_. None)) (mu_path demo_replacement) (mu_source demo_replacement) (mu_target demo_replacement) (qw_tree demo_place)"
    using demo_start by simp
  note d = mutation_done [OF this demo_plain demo_given(1,2) demo_ready demo_given(3) demo_honest demo_healthy, unfolded demo_fields]
  from d show ?thesis
    by (elim exE conjE) (intro exI conjI, assumption+)
qed

theorem mutation_undone_witness:
  "\<exists>w1. w1 = snd (mutate (demo_quarantine (\<lambda>n. if n = 15 then Some ''EIO'' else None)) demo_replacement demo_place) \<and>
   (qw_tree w1 = demo_tree \<or> (\<exists>r. mr_path r = ''f'' \<and> listed demo_digest r (- {CLEANED}) w1 \<and>
      (whole demo_digest r (qw_tree w1) \<longrightarrow>
       (\<exists>w2. restoreMutation (demo_quarantine (\<lambda>_. None)) r w1 = (Inr (), w2) \<and> tr_leaves (qw_tree w2) = tr_leaves demo_tree))))"
proof -
  let ?q = "demo_quarantine (\<lambda>n. if n = 15 then Some ''EIO'' else None)" and ?q' = "demo_quarantine (\<lambda>_. None)"
  let ?w1 = "snd (mutate ?q demo_replacement demo_place)"
  have m: "mutate ?q demo_replacement demo_place = (fst (mutate ?q demo_replacement demo_place), ?w1)" by simp
  have same: "same_place ?q ?q'" "sane ?q" "sane ?q'" "quiet_hooks ?q'"
    by (simp_all add: same_place_def sane_def quiet_hooks_def demo_quarantine_def)
  have "start_ok ?q (mu_path demo_replacement) (mu_source demo_replacement) (mu_target demo_replacement) (qw_tree demo_place)"
    using demo_start by simp
  from mutation_undone [OF this same(2) demo_plain demo_given(1,2) m]
  have "qw_tree ?w1 = demo_tree \<or> (\<exists>r. started ?q demo_tree Write ''f'' (mu_source demo_replacement) (mu_target demo_replacement) r \<and>
      listed demo_digest r (- {CLEANED}) ?w1 \<and> (whole demo_digest r (qw_tree ?w1) \<longrightarrow>
       (\<forall>qs q'. (\<forall>x \<in> set (q' # qs). same_place ?q x \<and> sane x \<and> quiet_hooks x) \<longrightarrow> \<not> troubled q' \<longrightarrow>
         (\<exists>w2. restoreMutation q' r (attempts r qs ?w1) = (Inr (), w2) \<and> tr_leaves (qw_tree w2) = tr_leaves demo_tree \<and>
           listed demo_digest r {CLEANED} w2))))"
    unfolding demo_fields by blast
  then show ?thesis
  proof
    assume "\<exists>r. started ?q demo_tree Write ''f'' (mu_source demo_replacement) (mu_target demo_replacement) r \<and>
      listed demo_digest r (- {CLEANED}) ?w1 \<and> (whole demo_digest r (qw_tree ?w1) \<longrightarrow>
       (\<forall>qs q'. (\<forall>x \<in> set (q' # qs). same_place ?q x \<and> sane x \<and> quiet_hooks x) \<longrightarrow> \<not> troubled q' \<longrightarrow>
         (\<exists>w2. restoreMutation q' r (attempts r qs ?w1) = (Inr (), w2) \<and> tr_leaves (qw_tree w2) = tr_leaves demo_tree \<and>
           listed demo_digest r {CLEANED} w2)))"
    then obtain r where r: "started ?q demo_tree Write ''f'' (mu_source demo_replacement) (mu_target demo_replacement) r"
      "listed demo_digest r (- {CLEANED}) ?w1"
      "whole demo_digest r (qw_tree ?w1) \<Longrightarrow> \<exists>w2. restoreMutation ?q' r (attempts r [] ?w1) = (Inr (), w2) \<and> tr_leaves (qw_tree w2) = tr_leaves demo_tree"
      using same demo_healthy by (metis empty_iff list.set(1) set_ConsD)
    then show ?thesis by (auto simp: attempts_def started_def)
  qed blast
qed

text \<open>The log after \<open>journal.begin\<close> of that replacement.\<close>

lemma demo_begun:
  obtains r w1 where "begin_mutation (demo_quarantine (\<lambda>_. None)) Write ''f'' (in_parent ''f'' (artifact_name (replicate 32 (CHR ''a'')) ''source''))
      (Some (in_parent ''f'' (artifact_name (replicate 32 (CHR ''a'')) ''target''))) (fingerprintBytes demo_digest ''f'' [] 420)
      (fingerprintBytes demo_digest ''f'' ''1'' 420) demo_place = (Inr r, w1)"
    "listed demo_digest r {INTENT} w1" "intends Write ''f'' (in_parent ''f'' (artifact_name (replicate 32 (CHR ''a'')) ''source''))
      (Some (in_parent ''f'' (artifact_name (replicate 32 (CHR ''a'')) ''target''))) (fingerprintBytes demo_digest ''f'' [] 420)
      (fingerprintBytes demo_digest ''f'' ''1'' 420) r" "qw_tree w1 = demo_tree" "qw_calls w1 = 1"
proof -
  let ?q = "demo_quarantine (\<lambda>_. None)" and ?f = "fingerprintBytes demo_digest ''f'' [] 420" and ?g = "fingerprintBytes demo_digest ''f'' ''1'' 420"
  let ?s = "in_parent ''f'' (artifact_name (replicate 32 (CHR ''a'')) ''source'')"
  let ?t = "in_parent ''f'' (artifact_name (replicate 32 (CHR ''a'')) ''target'')"
  let ?m = "begin_mutation ?q Write ''f'' ?s (Some ?t) ?f ?g"
  have shape: "mutation_shape_ok Write ''f'' ?s (Some ?t) ?f ?g"
  proof (rule shape_start [OF demo_start [of "\<lambda>_. None"], where b = True])
    show "allocated ''f'' True demo_tree (?s, Some ?t)"
      unfolding allocated_def using demo_free [of "\<lambda>_. None"]
      by (intro exI [of _ "replicate 32 (CHR ''a'')"]) (simp add: names_free_def demo_quarantine_def)
  qed (use demo_honest [of "\<lambda>_. None"] in \<open>auto simp: mu_honest_def\<close>)
  have "tri (\<lambda>_. False) (\<lambda>w. qw_tree w = demo_tree \<and> sound (qe_hash ?q) [] w \<and> (False \<or> op_id_ok (mj_opId (qw_journal w)))) ?m
    (\<lambda>r w. listed (qe_hash ?q) r {INTENT} w \<and> intends Write ''f'' ?s (Some ?t) ?f ?g r \<and> qw_tree w = demo_tree)"
    by (rule tri_begin) (use shape demo_digest_ok demo_healthy in auto)
  from holds_at [OF this [unfolded tri_def], of demo_place]
  have o: "outcome (\<lambda>r w. listed demo_digest r {INTENT} (calm_view w) \<and> intends Write ''f'' ?s (Some ?t) ?f ?g r \<and> qw_tree (calm_view w) = demo_tree)
      (\<lambda>_ _. False) (?m demo_place)"
    using demo_sound demo_ready [of "\<lambda>_. None"] by (auto simp: ready_def outcome_def split: prod.splits sum.splits)
  have "qw_calls (snd (?m demo_place)) = 1"
    by (auto simp: begin_mutation_def journal_write_def journal_state_def seq_def ret_def split: prod.splits sum.splits option.splits)
  then show thesis
    using o that by (cases "?m demo_place"; cases "fst (?m demo_place)") (auto simp: outcome_def)
qed

text \<open>After the log says that the replacement has begun, the disk is full.\<close>

theorem torn_target_blocks_witness:
  "\<exists>(r :: mutation_record) a w1 w2. mr_targetArtifact r = Some a \<and>
     begin_mutation (demo_quarantine (\<lambda>_. None)) Write ''f'' (mr_sourceArtifact r) (Some a)
       (fingerprintBytes demo_digest ''f'' [] 420) (fingerprintBytes demo_digest ''f'' ''1'' 420) demo_place = (Inr r, w1) \<and>
     write_exclusive (demo_quarantine (\<lambda>n. if n = 2 then Some ''ENOSPC'' else None)) a ''1'' 420 True w1 = (Inl (Errno ''ENOSPC''), w2) \<and>
     (\<exists>e w3. restoreMutation (demo_quarantine (\<lambda>_. None)) r w2 = (Inl e, w3) \<and> qw_tree w3 = qw_tree w2)"
proof -
  let ?a = "in_parent ''f'' (artifact_name (replicate 32 (CHR ''a'')) ''target'')"
  obtain r w1 where r: "begin_mutation (demo_quarantine (\<lambda>_. None)) Write ''f'' (mr_sourceArtifact r) (Some ?a)
       (fingerprintBytes demo_digest ''f'' [] 420) (fingerprintBytes demo_digest ''f'' ''1'' 420) demo_place = (Inr r, w1)"
    "listed demo_digest r {INTENT} w1" "mr_path r = ''f''" "mr_targetArtifact r = Some ?a" "mr_sourceArtifact r = in_parent ''f'' (artifact_name (replicate 32 (CHR ''a'')) ''source'')"
    "mr_sourceFingerprint r = fingerprintBytes demo_digest ''f'' [] 420" "mr_targetFingerprint r = fingerprintBytes demo_digest ''f'' ''1'' 420"
    "qw_tree w1 = demo_tree" "qw_calls w1 = 1"
  proof (rule demo_begun)
    fix r :: mutation_record and w1
    assume b: "begin_mutation (demo_quarantine (\<lambda>_. None)) Write ''f'' (in_parent ''f'' (artifact_name (replicate 32 (CHR ''a'')) ''source''))
      (Some ?a) (fingerprintBytes demo_digest ''f'' [] 420) (fingerprintBytes demo_digest ''f'' ''1'' 420) demo_place = (Inr r, w1)"
      "listed demo_digest r {INTENT} w1" "qw_tree w1 = demo_tree" "qw_calls w1 = 1"
    assume "intends Write ''f'' (in_parent ''f'' (artifact_name (replicate 32 (CHR ''a'')) ''source'')) (Some ?a)
      (fingerprintBytes demo_digest ''f'' [] 420) (fingerprintBytes demo_digest ''f'' ''1'' 420) r"
    then have i: "mr_path r = ''f''" "mr_targetArtifact r = Some ?a" "mr_sourceArtifact r = in_parent ''f'' (artifact_name (replicate 32 (CHR ''a'')) ''source'')"
      "mr_sourceFingerprint r = fingerprintBytes demo_digest ''f'' [] 420" "mr_targetFingerprint r = fingerprintBytes demo_digest ''f'' ''1'' 420"
      by (simp_all only: intends_def)
    show thesis by (rule that [OF b(1) [folded i(3)] b(2) i b(3,4)])
  qed
  let ?w = "write_exclusive (demo_quarantine (\<lambda>n. if n = 2 then Some ''ENOSPC'' else None)) ?a ''1'' 420 True w1"
  have a: "?a = ''.pi-undo-q1-'' @ replicate 32 (CHR ''a'') @ ''-target''" "mr_sourceArtifact r = ''.pi-undo-q1-'' @ replicate 32 (CHR ''a'') @ ''-source''"
    by (simp_all add: r(5) in_parent_def artifact_name_def workspaceParent_def has_char_def)
  have full: "?w = (Inl (Errno ''ENOSPC''), snd ?w)" "qw_tree (snd ?w) = new_file ?a \<lparr>in_mode = 420, in_bytes = []\<rparr> demo_tree"
    "qw_journal (snd ?w) = qw_journal w1" "qw_disk (snd ?w) = qw_disk w1"
    unfolding a
    by (simp_all add: write_exclusive_def create_file_def write_file_def fill_file_def syscall_def Let_def r(8,9) new_name_def guard_def rbind_def
        seq_def in_order.simps demo_tree_def parent_exists_def has_char_def demo_quarantine_def new_file_def set_leaf_def)
  have l: "listed demo_digest r {INTENT} (snd ?w)" using r(2) unfolding listed_def sound_def full(3,4) .
  define a and w2 where "a = ?a" and "w2 = snd ?w"
  have w2: "write_exclusive (demo_quarantine (\<lambda>n. if n = 2 then Some ''ENOSPC'' else None)) a ''1'' 420 True w1 = (Inl (Errno ''ENOSPC''), w2)"
    "qw_tree w2 = new_file a \<lparr>in_mode = 420, in_bytes = []\<rparr> demo_tree" "listed demo_digest r {INTENT} w2"
    "mr_targetArtifact r = Some a" "a \<noteq> ''f''" "mr_sourceArtifact r \<noteq> ''f''" "mr_sourceArtifact r \<noteq> a"
    using full(1,2) l r(4) a by (simp_all add: a_def w2_def)
  have "\<exists>e w3. restoreMutation (demo_quarantine (\<lambda>_. None)) r w2 = (Inl e, w3) \<and> qw_tree w3 = qw_tree w2"
    by (rule torn_target_blocks [where S = "{INTENT}" and a = a])
      (use w2 in \<open>simp_all add: r(3,6,7) new_file_def sane_def leaf_fp_def demo_tree_def demo_fingerprints\<close>)
  then show ?thesis using r(1) w2(1,4) unfolding a_def [symmetric] by blast
qed

text \<open>Somebody puts a link at the path.\<close>

theorem foreign_kept_witness:
  "\<exists>(r :: mutation_record) w1. mr_path r = ''f'' \<and> qw_tree w1 = demo_tree \<and>
     (\<exists>e w3. restoreMutation (demo_quarantine (\<lambda>_. None)) r (put ''f'' (Some (Symlink_to ''xy'')) w1) = (Inl e, w3) \<and>
        leaf_at w3 ''f'' = Some (Symlink_to ''xy''))"
proof -
  obtain r w1 where r: "listed demo_digest r {INTENT} w1" "mr_path r = ''f''" 
    "mr_sourceFingerprint r = fingerprintBytes demo_digest ''f'' [] 420" "mr_targetFingerprint r = fingerprintBytes demo_digest ''f'' ''1'' 420"
    "qw_tree w1 = demo_tree"
    by (rule demo_begun) (simp add: intends_def)
  have "\<exists>e w3. restoreMutation (demo_quarantine (\<lambda>_. None)) r (put ''f'' (Some (Symlink_to ''xy'')) w1) = (Inl e, w3) \<and>
      qw_tree w3 = qw_tree (put ''f'' (Some (Symlink_to ''xy'')) w1)"
    by (rule foreign_kept [where S = "{INTENT}" and x = "fingerprintSymlink demo_digest ''f'' ''xy''"])
      (simp_all add: r sane_def leaf_fp_def demo_fingerprints)
  then show ?thesis using r(2,5) by force
qed

end
