(* ===== verification/WorkspaceLock.thy ===== *)
theory WorkspaceLock
  imports Json
begin

text \<open>
  \<open>src/src/workspace-lock.ts\<close>: the lock of a workspace between processes. The lock is a directory that
  holds one file, which says who owns it; it is taken by renaming a prepared directory onto its name,
  renewed by a heartbeat, given back by removing both, and taken away from an owner whose lease has
  run out and whose process is dead.

  A method is a program of system calls (\<open>lprog\<close>). Programs of many actors run interleaved, a call
  at a time, on one world: the lock root, the clock, the processes, and who drew which random name.
  A call may fail with any error code that says nothing of the file system, and a process may die
  between any two calls.
\<close>

section \<open>Programs of system calls\<close>

datatype lock_code = Lock_timeout | Lock_compromised

datatype lock_error = Lock_error lock_code | Sys_error string

datatype lcall =
    Mkdir_root | Mkdir string | Write_new string string string | Rename_dir string string
  | Rename_file string string string | Readdir string | Read_file string string | Stat string
  | Unlink string string | Rmdir string | Rm_tree string | Rm_force string string
  | Clock | Uptime | Random_bytes nat | Kill int | Check_operation | Delay int

datatype lreply =
    Replied | Failed string | Entries "(string \<times> bool) list" | Read_text string | Replied_num int

definition reply_num :: "lreply \<Rightarrow> int" where
  "reply_num r = (case r of Replied_num i \<Rightarrow> i | _ \<Rightarrow> 0)"

definition reply_text :: "lreply \<Rightarrow> string" where
  "reply_text r = (case r of Read_text t \<Rightarrow> t | _ \<Rightarrow> [])"

definition reply_entries :: "lreply \<Rightarrow> (string \<times> bool) list" where
  "reply_entries r = (case r of Entries es \<Rightarrow> es | _ \<Rightarrow> [])"

datatype 'a lprog = Done 'a | Throw lock_error | Call lcall "lreply \<Rightarrow> 'a lprog"

primrec pcase :: "'a lprog \<Rightarrow> ('a \<Rightarrow> 'b lprog) \<Rightarrow> (lock_error \<Rightarrow> 'b lprog) \<Rightarrow> 'b lprog" where
  "pcase (Done x) f g = f x"
| "pcase (Throw e) f g = g e"
| "pcase (Call c k) f g = Call c (\<lambda>r. pcase (k r) f g)"

definition pbind :: "'a lprog \<Rightarrow> ('a \<Rightarrow> 'b lprog) \<Rightarrow> 'b lprog" where
  "pbind p f = pcase p f Throw"

text \<open>\<open>finally\<close> with a clean-up whose own errors are caught.\<close>

definition pfinally :: "'a lprog \<Rightarrow> unit lprog \<Rightarrow> 'a lprog" where
  "pfinally p q = pcase p (\<lambda>x. pcase q (\<lambda>_. Done x) (\<lambda>_. Done x)) (\<lambda>e. pcase q (\<lambda>_. Throw e) (\<lambda>_. Throw e))"

definition sys :: "lcall \<Rightarrow> lreply lprog" where
  "sys c = Call c (\<lambda>r. case r of Failed e \<Rightarrow> Throw (Sys_error e) | _ \<Rightarrow> Done r)"

definition hasErrorCode :: "lock_error \<Rightarrow> string \<Rightarrow> bool" where
  "hasErrorCode e code = (e = Sys_error code)"

section \<open>The owner file\<close>

record lock_owner =
  lo_pid :: int
  lo_started :: jnum
  lo_identity :: string
  lo_nonce :: string
  lo_expires :: jnum

datatype owner_state = Owner_valid string lock_owner | Owner_missing | Owner_invalid

definition LEGACY_OWNER_FILE :: string where
  "LEGACY_OWNER_FILE = ''owner.json''"

definition OWNER_PREFIX :: string where
  "OWNER_PREFIX = ''owner.''"

definition OWNER_SUFFIX :: string where
  "OWNER_SUFFIX = ''.json''"

definition ownerFileName :: "string \<Rightarrow> string" where
  "ownerFileName nonce = OWNER_PREFIX @ nonce @ OWNER_SUFFIX"

definition hex_text :: "nat \<Rightarrow> string \<Rightarrow> bool" where
  "hex_text n s \<longleftrightarrow> length s = n \<and> list_all (\<lambda>c. c \<in> set ''0123456789abcdef'') s"

definition isOwnerFileName :: "string \<Rightarrow> bool" where
  "isOwnerFileName f \<longleftrightarrow> f = LEGACY_OWNER_FILE \<or>
     starts_with OWNER_PREFIX f \<and> ends_with OWNER_SUFFIX f \<and>
     hex_text 32 (take (length f - length OWNER_SUFFIX - length OWNER_PREFIX) (drop (length OWNER_PREFIX) f))"

definition json_of_owner :: "lock_owner \<Rightarrow> jsval" where
  "json_of_owner owner = JObj
     [(''pid'', JNum (JInt (lo_pid owner))), (''processStartedAt'', JNum (lo_started owner)),
      (''workspaceIdentity'', JStr (lo_identity owner)), (''nonce'', JStr (lo_nonce owner)),
      (''leaseExpiresAt'', JNum (lo_expires owner))]"

definition serializeOwner :: "lock_owner \<Rightarrow> string" where
  "serializeOwner owner = plain_text (json_of_owner owner) @ [CHR 0x0A]"

definition finite_num :: "jsval \<Rightarrow> bool" where
  "finite_num v = (case v of JNum JNonFinite \<Rightarrow> False | JNum _ \<Rightarrow> True | _ \<Rightarrow> False)"

definition isLockOwner :: "jsval \<Rightarrow> bool" where
  "isLockOwner v = (case v of JObj _ \<Rightarrow>
       (case fld v ''pid'' of JNum (JInt _) \<Rightarrow> True | _ \<Rightarrow> False) \<and>
       finite_num (fld v ''processStartedAt'') \<and>
       is_string (fld v ''workspaceIdentity'') \<and> str_of (fld v ''workspaceIdentity'') \<noteq> [] \<and>
       is_string (fld v ''nonce'') \<and> str_of (fld v ''nonce'') \<noteq> [] \<and>
       finite_num (fld v ''leaseExpiresAt'')
     | _ \<Rightarrow> False)"

definition num_of :: "jsval \<Rightarrow> jnum" where
  "num_of v = (case v of JNum n \<Rightarrow> n | _ \<Rightarrow> JNonFinite)"

definition lock_owner_of :: "jsval \<Rightarrow> lock_owner" where
  "lock_owner_of v =
     \<lparr>lo_pid = int_of (fld v ''pid''), lo_started = num_of (fld v ''processStartedAt''),
      lo_identity = str_of (fld v ''workspaceIdentity''), lo_nonce = str_of (fld v ''nonce''),
      lo_expires = num_of (fld v ''leaseExpiresAt'')\<rparr>"

text \<open>What \<open>readOwnerState\<close> makes of the text of the one visible file.\<close>

definition owner_of_text :: "string \<Rightarrow> string \<Rightarrow> owner_state" where
  "owner_of_text fileName t =
     (case json_parse t of None \<Rightarrow> Owner_invalid
      | Some v \<Rightarrow>
          if \<not> isLockOwner v \<or>
             (fileName \<noteq> LEGACY_OWNER_FILE \<and> fileName \<noteq> ownerFileName (str_of (fld v ''nonce'')))
          then Owner_invalid else Owner_valid fileName (lock_owner_of v))"

definition sameOwner :: "owner_state \<Rightarrow> string \<Rightarrow> string \<Rightarrow> bool" where
  "sameOwner s fileName nonce =
     (case s of Owner_valid f o1 \<Rightarrow> f = fileName \<and> lo_nonce o1 = nonce | _ \<Rightarrow> False)"

text \<open>The largest integer not above a number that is not an integer, from its decimal text, and the
  comparison of a lease with the clock.\<close>

definition frac_floor :: "string \<Rightarrow> int" where
  "frac_floor t =
     (let neg = (take 1 t = ''-''); u = (if neg then tl t else t);
          n = (if CHR ''e'' \<in> set u \<or> CHR ''E'' \<in> set u then 0 else int (read_nat (takeWhile is_digit u)))
      in if neg then - n - 1 else n)"

definition later_than :: "jnum \<Rightarrow> int \<Rightarrow> bool" where
  "later_than n now = (case n of JInt i \<Rightarrow> i > now | JFrac t \<Rightarrow> frac_floor t \<ge> now | JNonFinite \<Rightarrow> False)"

section \<open>The methods\<close>

record lock_config =
  lc_hash :: "string \<Rightarrow> string"
  lc_root :: string
  lc_identity :: string
  lc_leaseMs :: int
  lc_retryMs :: int
  lc_timeoutMs :: int

definition workspaceLockPath :: "(string \<Rightarrow> string) \<Rightarrow> string \<Rightarrow> string \<Rightarrow> string" where
  "workspaceLockPath H lockRoot workspaceIdentity = lockRoot @ ''/'' @ H workspaceIdentity @ ''.lock''"

definition lockDirectory :: "lock_config \<Rightarrow> string" where
  "lockDirectory L = workspaceLockPath (lc_hash L) (lc_root L) (lc_identity L)"

definition candidateDirectory :: "lock_config \<Rightarrow> int \<Rightarrow> string \<Rightarrow> string" where
  "candidateDirectory L pid nonce = lockDirectory L @ ''.candidate.'' @ show_int pid @ ''.'' @ nonce"

definition clock :: "int lprog" where
  "clock = pbind (sys Clock) (\<lambda>r. Done (reply_num r))"

definition random_hex :: "nat \<Rightarrow> string lprog" where
  "random_hex n = pbind (sys (Random_bytes n)) (\<lambda>r. Done (reply_text r))"

definition readOwnerState :: "string \<Rightarrow> string list \<Rightarrow> owner_state lprog" where
  "readOwnerState dir ignoredFiles =
     Call (Readdir dir) (\<lambda>r. case r of
       Failed e \<Rightarrow> Done (if e = ''ENOENT'' then Owner_missing else Owner_invalid)
     | _ \<Rightarrow>
        (case filter (\<lambda>(name, is_file). name \<notin> set ignoredFiles) (reply_entries r) of
           [] \<Rightarrow> Done Owner_missing
         | [(fileName, is_file)] \<Rightarrow>
             if \<not> is_file \<or> \<not> isOwnerFileName fileName then Done Owner_invalid
             else Call (Read_file dir fileName) (\<lambda>r. case r of
                    Failed e \<Rightarrow> Done Owner_invalid
                  | _ \<Rightarrow> Done (owner_of_text fileName (reply_text r)))
         | _ \<Rightarrow> Done Owner_invalid))"

definition removeEmptyDirectory :: "string \<Rightarrow> bool lprog" where
  "removeEmptyDirectory dir =
     pcase (sys (Rmdir dir)) (\<lambda>_. Done True)
       (\<lambda>e. if hasErrorCode e ''ENOENT'' then Done True
            else if hasErrorCode e ''ENOTEMPTY'' \<or> hasErrorCode e ''EEXIST'' then Done False
            else Throw e)"

definition pathExists :: "string \<Rightarrow> bool lprog" where
  "pathExists p = pcase (sys (Stat p)) (\<lambda>_. Done True)
     (\<lambda>e. if hasErrorCode e ''ENOENT'' then Done False else Throw e)"

definition isPublishCollision :: "lock_error \<Rightarrow> bool" where
  "isPublishCollision e \<longleftrightarrow> hasErrorCode e ''EEXIST'' \<or> hasErrorCode e ''ENOTEMPTY''"

definition ownerProcessIsConfirmedDead :: "lock_owner \<Rightarrow> bool lprog" where
  "ownerProcessIsConfirmedDead owner =
     (if lo_pid owner \<le> 0 \<or> lo_started owner = JNonFinite then Done False
      else pcase (sys (Kill (lo_pid owner))) (\<lambda>_. Done False) (\<lambda>e. Done (hasErrorCode e ''ESRCH'')))"

definition reclaimStaleLease :: "lock_config \<Rightarrow> bool lprog" where
  "reclaimStaleLease L =
     pbind (readOwnerState (lockDirectory L) []) (\<lambda>s. case s of
       Owner_invalid \<Rightarrow> Done False
     | Owner_missing \<Rightarrow>
         pcase (sys (Stat (lockDirectory L)))
           (\<lambda>mtime. pbind clock (\<lambda>now.
              if now - reply_num mtime \<le> lc_leaseMs L then Done False
              else removeEmptyDirectory (lockDirectory L)))
           (\<lambda>_. Done True)
     | Owner_valid fileName owner \<Rightarrow>
         if lo_identity owner \<noteq> lc_identity L then Done False
         else pbind clock (\<lambda>now.
           if later_than (lo_expires owner) now then Done False
           else pbind (ownerProcessIsConfirmedDead owner) (\<lambda>dead.
             if \<not> dead then Done False
             else pbind (readOwnerState (lockDirectory L) []) (\<lambda>verified.
               if \<not> sameOwner verified fileName (lo_nonce owner) then Done False
               else pcase (sys (Unlink (lockDirectory L) fileName))
                      (\<lambda>_. removeEmptyDirectory (lockDirectory L))
                      (\<lambda>e. if hasErrorCode e ''ENOENT'' then Done False else Throw e)))))"

text \<open>A lease: the name of its owner file and the owner.\<close>

type_synonym lease = "string \<times> lock_owner"

definition publish :: "lock_config \<Rightarrow> int \<Rightarrow> string \<Rightarrow> lock_owner \<Rightarrow> bool lprog" where
  "publish L pid ownerFile owner =
     (let candidate = candidateDirectory L pid (lo_nonce owner);
          clean = pbind (sys (Rm_tree candidate)) (\<lambda>_. Done ())
      in pcase
           (pcase
              (pbind (sys (Mkdir candidate)) (\<lambda>_.
               pbind (sys (Write_new candidate ownerFile (serializeOwner owner))) (\<lambda>_.
               pbind (sys (Rename_dir candidate (lockDirectory L))) (\<lambda>_. Done True))))
              Done
              (\<lambda>e. if isPublishCollision e then Done False
                   else pbind (pathExists (lockDirectory L)) (\<lambda>there.
                          if there then Done False else Throw e)))
           (\<lambda>published. if published then Done True else pfinally (Done False) clean)
           (\<lambda>e. pfinally (Throw e) clean))"

text \<open>\<open>acquire\<close>: the part before the loop gives the deadline; a round of the loop gives a lease, or
  \<open>None\<close> for another round.\<close>

definition acquire_begin :: "lock_config \<Rightarrow> int lprog" where
  "acquire_begin L =
     (if lc_identity L = [] then Throw (Lock_error Lock_compromised)
      else pbind (sys Mkdir_root) (\<lambda>_. pbind clock (\<lambda>now. Done (now + lc_timeoutMs L))))"

definition acquire_round :: "lock_config \<Rightarrow> int \<Rightarrow> int \<Rightarrow> lease option lprog" where
  "acquire_round L pid deadline =
     pbind (sys Check_operation) (\<lambda>_.
     pbind clock (\<lambda>now. pbind (sys Uptime) (\<lambda>uptime.
     pbind (random_hex 16) (\<lambda>nonce. pbind clock (\<lambda>now'.
       let owner = \<lparr>lo_pid = pid, lo_started = JInt (now - reply_num uptime),
                    lo_identity = lc_identity L, lo_nonce = nonce, lo_expires = JInt (now' + lc_leaseMs L)\<rparr>;
           ownerFile = ownerFileName nonce
       in pbind (publish L pid ownerFile owner) (\<lambda>published.
            if published then Done (Some (ownerFile, owner))
            else pbind (reclaimStaleLease L) (\<lambda>reclaimed.
              if reclaimed then Done None
              else pbind clock (\<lambda>now.
                if now \<ge> deadline then Throw (Lock_error Lock_timeout)
                else pbind (sys (Delay (lc_retryMs L))) (\<lambda>_. Done None)))))))))"

definition renew :: "lock_config \<Rightarrow> lease \<Rightarrow> unit lprog" where
  "renew L l =
     pbind (readOwnerState (lockDirectory L) []) (\<lambda>current.
       if \<not> sameOwner current (fst l) (lo_nonce (snd l)) then Throw (Lock_error Lock_compromised)
       else pbind (random_hex 8) (\<lambda>rnd.
         let temporaryFile = ''.renew.'' @ lo_nonce (snd l) @ ''.'' @ rnd
         in pfinally
              (pbind clock (\<lambda>now.
               pbind (sys (Write_new (lockDirectory L) temporaryFile
                         (serializeOwner ((snd l)\<lparr>lo_expires := JInt (now + lc_leaseMs L)\<rparr>)))) (\<lambda>_.
               pbind (readOwnerState (lockDirectory L) [temporaryFile]) (\<lambda>verified.
                 if \<not> sameOwner verified (fst l) (lo_nonce (snd l)) then Throw (Lock_error Lock_compromised)
                 else pbind (sys (Rename_file (lockDirectory L) temporaryFile (fst l))) (\<lambda>_. Done ())))))
              (pbind (sys (Rm_force (lockDirectory L) temporaryFile)) (\<lambda>_. Done ()))))"

definition releaseOwner :: "lock_config \<Rightarrow> lease \<Rightarrow> unit lprog" where
  "releaseOwner L l =
     pbind (readOwnerState (lockDirectory L) []) (\<lambda>current.
       if \<not> sameOwner current (fst l) (lo_nonce (snd l)) then Throw (Lock_error Lock_compromised)
       else pbind (sys (Unlink (lockDirectory L) (fst l))) (\<lambda>_.
            pbind (removeEmptyDirectory (lockDirectory L)) (\<lambda>removed.
              if removed then Done ()
              else pbind (readOwnerState (lockDirectory L) []) (\<lambda>replacement.
                case replacement of
                  Owner_valid _ o1 \<Rightarrow> if lo_nonce o1 \<noteq> lo_nonce (snd l) then Done ()
                                      else Throw (Lock_error Lock_compromised)
                | _ \<Rightarrow> Throw (Lock_error Lock_compromised)))))"

definition asCompromised :: "lock_error \<Rightarrow> lock_error" where
  "asCompromised e = (case e of Lock_error _ \<Rightarrow> e | _ \<Rightarrow> Lock_error Lock_compromised)"

section \<open>The world\<close>

datatype lock_file = Lock_file string | Lock_other

record lock_dir =
  ld_entries :: "(string \<times> lock_file) list"
  ld_mtime :: int

text \<open>An actor is one call of \<open>acquire\<close> in a process, with the lease it gives.\<close>

datatype actor = Actor (act_process: nat) nat

record lock_world =
  lw_fs :: "string \<Rightarrow> lock_dir option"
  lw_now :: int
  lw_live :: "nat list"
  lw_ever :: "nat list"
  lw_pid :: "nat \<Rightarrow> int"
  lw_born :: "nat \<Rightarrow> int"
  lw_drawn :: "string \<Rightarrow> actor option"
  lw_faulty :: bool

text \<open>What the environment chooses for a call: it works, with the random text it would draw and
  whether a process outside the model has the process number asked for; or it fails, and a failing
  write may have written a part.\<close>

datatype choice = Works string bool | Fails string "nat option"

definition put_entry :: "string \<Rightarrow> lock_file \<Rightarrow> (string \<times> lock_file) list \<Rightarrow> (string \<times> lock_file) list" where
  "put_entry n x es = filter (\<lambda>e. fst e \<noteq> n) es @ [(n, x)]"

definition del_entry :: "string \<Rightarrow> (string \<times> lock_file) list \<Rightarrow> (string \<times> lock_file) list" where
  "del_entry n es = filter (\<lambda>e. fst e \<noteq> n) es"

definition set_entries :: "string \<Rightarrow> (string \<times> lock_file) list \<Rightarrow> lock_world \<Rightarrow> lock_world" where
  "set_entries d es w = w\<lparr>lw_fs := (lw_fs w)(d \<mapsto> \<lparr>ld_entries = es, ld_mtime = lw_now w\<rparr>)\<rparr>"

definition set_dir :: "string \<Rightarrow> lock_dir option \<Rightarrow> lock_world \<Rightarrow> lock_world" where
  "set_dir d x w = w\<lparr>lw_fs := (lw_fs w)(d := x)\<rparr>"

definition plain_file :: "lock_file \<Rightarrow> bool" where
  "plain_file x = (case x of Lock_file _ \<Rightarrow> True | Lock_other \<Rightarrow> False)"

fun works :: "actor \<Rightarrow> lcall \<Rightarrow> string \<Rightarrow> bool \<Rightarrow> lock_world \<Rightarrow> lreply \<times> lock_world" where
  "works a Mkdir_root x o1 w = (Replied, w)"
| "works a Check_operation x o1 w = (Replied, w)"
| "works a (Delay ms) x o1 w = (Replied, w)"
| "works a Clock x o1 w = (Replied_num (lw_now w), w)"
| "works a Uptime x o1 w = (Replied_num (lw_now w - lw_born w (act_process a)), w)"
| "works a (Random_bytes n) x o1 w =
     (Read_text x, if n = 16 then w\<lparr>lw_drawn := (lw_drawn w)(x \<mapsto> a)\<rparr> else w)"
| "works a (Kill p) x o1 w =
     (if o1 \<or> (\<exists>q \<in> set (lw_live w). lw_pid w q = p) then Replied else Failed ''ESRCH'', w)"
| "works a (Mkdir d) x o1 w =
     (case lw_fs w d of Some _ \<Rightarrow> (Failed ''EEXIST'', w) | None \<Rightarrow> (Replied, set_entries d [] w))"
| "works a (Write_new d n s) x o1 w =
     (case lw_fs w d of None \<Rightarrow> (Failed ''ENOENT'', w)
      | Some D \<Rightarrow> if n \<in> fst ` set (ld_entries D) then (Failed ''EEXIST'', w)
                  else (Replied, set_entries d (put_entry n (Lock_file s) (ld_entries D)) w))"
| "works a (Rename_dir d1 d2) x o1 w =
     (case lw_fs w d1 of None \<Rightarrow> (Failed ''ENOENT'', w)
      | Some D1 \<Rightarrow>
         (case lw_fs w d2 of
            None \<Rightarrow> (Replied, set_dir d1 None (set_dir d2 (Some D1) w))
          | Some D2 \<Rightarrow> if ld_entries D2 \<noteq> [] then (Failed ''ENOTEMPTY'', w)
                       else (Replied, set_dir d1 None (set_dir d2 (Some D1) w))))"
| "works a (Rename_file d n m) x o1 w =
     (case lw_fs w d of None \<Rightarrow> (Failed ''ENOENT'', w)
      | Some D \<Rightarrow> (case map_of (ld_entries D) n of None \<Rightarrow> (Failed ''ENOENT'', w)
                   | Some f \<Rightarrow> (Replied, set_entries d (put_entry m f (del_entry n (ld_entries D))) w)))"
| "works a (Readdir d) x o1 w =
     (case lw_fs w d of None \<Rightarrow> (Failed ''ENOENT'', w)
      | Some D \<Rightarrow> (Entries (map (\<lambda>e. (fst e, plain_file (snd e))) (ld_entries D)), w))"
| "works a (Read_file d n) x o1 w =
     (case lw_fs w d of None \<Rightarrow> (Failed ''ENOENT'', w)
      | Some D \<Rightarrow> (case map_of (ld_entries D) n of None \<Rightarrow> (Failed ''ENOENT'', w)
                   | Some Lock_other \<Rightarrow> (Failed ''EISDIR'', w)
                   | Some (Lock_file s) \<Rightarrow> (Read_text s, w)))"
| "works a (Stat d) x o1 w =
     (case lw_fs w d of None \<Rightarrow> (Failed ''ENOENT'', w) | Some D \<Rightarrow> (Replied_num (ld_mtime D), w))"
| "works a (Unlink d n) x o1 w =
     (case lw_fs w d of None \<Rightarrow> (Failed ''ENOENT'', w)
      | Some D \<Rightarrow> (case map_of (ld_entries D) n of None \<Rightarrow> (Failed ''ENOENT'', w)
                   | Some Lock_other \<Rightarrow> (Failed ''EPERM'', w)
                   | Some (Lock_file _) \<Rightarrow> (Replied, set_entries d (del_entry n (ld_entries D)) w)))"
| "works a (Rmdir d) x o1 w =
     (case lw_fs w d of None \<Rightarrow> (Failed ''ENOENT'', w)
      | Some D \<Rightarrow> if ld_entries D \<noteq> [] then (Failed ''ENOTEMPTY'', w) else (Replied, set_dir d None w))"
| "works a (Rm_tree d) x o1 w = (Replied, set_dir d None w)"
| "works a (Rm_force d n) x o1 w =
     (case lw_fs w d of None \<Rightarrow> (Replied, w)
      | Some D \<Rightarrow> if n \<in> fst ` set (ld_entries D)
                  then (Replied, set_entries d (del_entry n (ld_entries D)) w) else (Replied, w))"

text \<open>A failing call leaves a torn file if it was to write one, and nothing else.\<close>

definition torn_write :: "lcall \<Rightarrow> nat option \<Rightarrow> lock_world \<Rightarrow> lock_world" where
  "torn_write c k w =
     (case (c, k) of
        (Write_new d n s, Some i) \<Rightarrow>
          (case lw_fs w d of
             Some D \<Rightarrow> if n \<in> fst ` set (ld_entries D) then w
                       else set_entries d (put_entry n (Lock_file (take i s)) (ld_entries D)) w
           | None \<Rightarrow> w)
      | _ \<Rightarrow> w)"

definition exec :: "actor \<Rightarrow> lcall \<Rightarrow> choice \<Rightarrow> lock_world \<Rightarrow> lreply \<times> lock_world" where
  "exec a c ch w =
     (case ch of Works x o1 \<Rightarrow> works a c x o1 w
      | Fails e k \<Rightarrow> (Failed e, (torn_write c k w)\<lparr>lw_faulty := True\<rparr>))"

text \<open>The choices that can be: a failure does not claim what only the file system or the process
  table can say, and random text has its length and, if it is a nonce, was never drawn before.\<close>

definition choice_ok :: "lcall \<Rightarrow> choice \<Rightarrow> lock_world \<Rightarrow> bool" where
  "choice_ok c ch w =
     (case ch of
        Works x _ \<Rightarrow> (case c of
            Random_bytes n \<Rightarrow> hex_text (2 * n) x \<and> (n = 16 \<longrightarrow> lw_drawn w x = None)
          | _ \<Rightarrow> True)
      | Fails e _ \<Rightarrow> e \<notin> {''ENOENT'', ''EEXIST'', ''ENOTEMPTY'', ''ESRCH''})"

section \<open>Many actors\<close>

text \<open>\<open>startLease\<close> and \<open>release\<close>: a lease is held, with the error of a failed renewal if there was one;
  the heartbeat starts a renewal unless one failed; a release waits for the renewal and fails if a
  renewal failed.\<close>

datatype actor_state =
    Idle
  | Starting "int lprog"
  | Acquiring int "lease option lprog"
  | Holding lease "lock_error option"
  | Renewing lease "unit lprog"
  | Releasing lease "unit lprog"
  | Ended "lock_error option"

record lock_system =
  ls_world :: lock_world
  ls_actor :: "actor \<Rightarrow> actor_state"

definition is_idle :: "actor_state \<Rightarrow> bool" where
  "is_idle st = (case st of Idle \<Rightarrow> True | _ \<Rightarrow> False)"

text \<open>The next call of an actor, and what becomes of it with the reply.\<close>

definition pending_call :: "actor_state \<Rightarrow> lcall option" where
  "pending_call st =
     (case st of
        Starting (Call c k) \<Rightarrow> Some c | Acquiring _ (Call c k) \<Rightarrow> Some c
      | Renewing _ (Call c k) \<Rightarrow> Some c | Releasing _ (Call c k) \<Rightarrow> Some c
      | _ \<Rightarrow> None)"

definition resume :: "lreply \<Rightarrow> actor_state \<Rightarrow> actor_state" where
  "resume r st =
     (case st of
        Starting (Call c k) \<Rightarrow> Starting (k r) | Acquiring dl (Call c k) \<Rightarrow> Acquiring dl (k r)
      | Renewing l (Call c k) \<Rightarrow> Renewing l (k r) | Releasing l (Call c k) \<Rightarrow> Releasing l (k r)
      | _ \<Rightarrow> st)"

text \<open>The steps of an actor that are not calls.\<close>

definition turn :: "lock_config \<Rightarrow> int \<Rightarrow> actor_state \<Rightarrow> actor_state" where
  "turn L pid st =
     (case st of
        Starting (Done dl) \<Rightarrow> Acquiring dl (acquire_round L pid dl)
      | Starting (Throw e) \<Rightarrow> Ended (Some e)
      | Acquiring dl (Done None) \<Rightarrow> Acquiring dl (acquire_round L pid dl)
      | Acquiring dl (Done (Some l)) \<Rightarrow> Holding l None
      | Acquiring dl (Throw e) \<Rightarrow> Ended (Some e)
      | Renewing l (Done _) \<Rightarrow> Holding l None
      | Renewing l (Throw e) \<Rightarrow> Holding l (Some (asCompromised e))
      | Releasing l (Done _) \<Rightarrow> Ended None
      | Releasing l (Throw e) \<Rightarrow> Ended (Some e)
      | _ \<Rightarrow> st)"

definition heartbeat :: "lock_config \<Rightarrow> actor_state \<Rightarrow> actor_state" where
  "heartbeat L st = (case st of Holding l None \<Rightarrow> Renewing l (renew L l) | _ \<Rightarrow> st)"

definition release :: "lock_config \<Rightarrow> actor_state \<Rightarrow> actor_state" where
  "release L st =
     (case st of Holding l None \<Rightarrow> Releasing l (releaseOwner L l)
      | Holding l (Some e) \<Rightarrow> Ended (Some e) | _ \<Rightarrow> st)"

datatype lock_event =
    Start_acquire actor | Do_call actor choice | Do_turn actor | Heartbeat actor | Release actor
  | Die nat | Spawn nat int | Tick int

definition set_actor :: "actor \<Rightarrow> actor_state \<Rightarrow> lock_system \<Rightarrow> lock_system" where
  "set_actor a st s = s\<lparr>ls_actor := (ls_actor s)(a := st)\<rparr>"

definition alive :: "actor \<Rightarrow> lock_world \<Rightarrow> bool" where
  "alive a w \<longleftrightarrow> act_process a \<in> set (lw_live w)"

fun lock_step :: "lock_config \<Rightarrow> lock_event \<Rightarrow> lock_system \<Rightarrow> lock_system option" where
  "lock_step L (Start_acquire a) s =
     (if alive a (ls_world s) \<and> is_idle (ls_actor s a) then Some (set_actor a (Starting (acquire_begin L)) s) else None)"
| "lock_step L (Do_call a ch) s =
     (case pending_call (ls_actor s a) of None \<Rightarrow> None
      | Some c \<Rightarrow>
          if alive a (ls_world s) \<and> choice_ok c ch (ls_world s)
          then (case exec a c ch (ls_world s) of
                  (r, w) \<Rightarrow> Some (set_actor a (resume r (ls_actor s a)) (s\<lparr>ls_world := w\<rparr>)))
          else None)"
| "lock_step L (Do_turn a) s =
     (if alive a (ls_world s)
      then Some (set_actor a (turn L (lw_pid (ls_world s) (act_process a)) (ls_actor s a)) s) else None)"
| "lock_step L (Heartbeat a) s =
     (if alive a (ls_world s) then Some (set_actor a (heartbeat L (ls_actor s a)) s) else None)"
| "lock_step L (Release a) s =
     (if alive a (ls_world s) then Some (set_actor a (release L (ls_actor s a)) s) else None)"
| "lock_step L (Die q) s = Some (s\<lparr>ls_world := (ls_world s)\<lparr>lw_live := removeAll q (lw_live (ls_world s))\<rparr>\<rparr>)"
| "lock_step L (Spawn q p) s =
     (if q \<in> set (lw_ever (ls_world s)) then None
      else Some (s\<lparr>ls_world := (ls_world s)\<lparr>lw_live := q # lw_live (ls_world s), lw_ever := q # lw_ever (ls_world s),
              lw_pid := (lw_pid (ls_world s))(q := p), lw_born := (lw_born (ls_world s))(q := lw_now (ls_world s))\<rparr>\<rparr>))"
| "lock_step L (Tick t) s = Some (s\<lparr>ls_world := (ls_world s)\<lparr>lw_now := t\<rparr>\<rparr>)"

definition empty_system :: lock_system where
  "empty_system =
     \<lparr>ls_world = \<lparr>lw_fs = (\<lambda>_. None), lw_now = 0, lw_live = [], lw_ever = [], lw_pid = (\<lambda>_. 0), lw_born = (\<lambda>_. 0),
                 lw_drawn = (\<lambda>_. None), lw_faulty = False\<rparr>,
      ls_actor = (\<lambda>_. Idle)\<rparr>"

inductive lock_reach :: "lock_config \<Rightarrow> lock_system \<Rightarrow> bool" for L where
  lock_init: "lock_reach L empty_system"
| lock_next: "lock_reach L s \<Longrightarrow> lock_step L ev s = Some s' \<Longrightarrow> lock_reach L s'"

text \<open>A run of events, for concrete histories.\<close>

fun lock_run :: "lock_config \<Rightarrow> lock_event list \<Rightarrow> lock_system \<Rightarrow> lock_system option" where
  "lock_run L [] s = Some s"
| "lock_run L (ev # evs) s = (case lock_step L ev s of None \<Rightarrow> None | Some s' \<Rightarrow> lock_run L evs s')"

lemma lock_run_reach: "lock_reach L s \<Longrightarrow> lock_run L evs s = Some s' \<Longrightarrow> lock_reach L s'"
  by (induction evs arbitrary: s) (auto split: option.splits intro: lock_next)

end
