(* ===== verification/LockExclusion.thy ===== *)
theory LockExclusion
  imports WorkspaceLock
begin

text \<open>
  The lock of \<open>src/src/workspace-lock.ts\<close> excludes: rely-guarantee reasoning about its programs. An
  actor relies on nobody else touching a lock directory that is its own or its candidate directories,
  and guarantees the same to all others; so what one actor knows, no step of another can make false.
\<close>

section \<open>Names\<close>

definition own_names :: "string \<Rightarrow> string set" where
  "own_names \<nu> = {n. n = ownerFileName \<nu> \<or> starts_with (''.renew.'' @ \<nu> @ ''.'') n}"

definition renew_names :: "string \<Rightarrow> string set" where
  "renew_names \<nu> = {n. starts_with (''.renew.'' @ \<nu> @ ''.'') n}"

lemma hex_text_length: "hex_text n s \<Longrightarrow> length s = n"
  by (simp add: hex_text_def)

lemma ownerFileName_inject [simp]: "ownerFileName \<nu> = ownerFileName \<nu>' \<longleftrightarrow> \<nu> = \<nu>'"
  by (simp add: ownerFileName_def)

lemma ownerFileName_no_renew [simp]: "ownerFileName \<nu> \<notin> renew_names \<nu>'"
  by (auto simp: renew_names_def ownerFileName_def OWNER_PREFIX_def starts_with_prefix)

lemma own_names_simps [simp]: "ownerFileName \<nu> \<in> own_names \<nu>" "renew_names \<nu> \<subseteq> own_names \<nu>"
  by (auto simp: own_names_def renew_names_def)

lemma own_names_owner: "ownerFileName \<nu>' \<in> own_names \<nu> \<longleftrightarrow> \<nu>' = \<nu>"
  using ownerFileName_no_renew [of \<nu>' \<nu>] by (auto simp: own_names_def renew_names_def)

lemma legacy_no_own: "\<nu> \<noteq> [] \<Longrightarrow> LEGACY_OWNER_FILE \<notin> own_names \<nu>"
  by (auto simp: own_names_def LEGACY_OWNER_FILE_def ownerFileName_def OWNER_PREFIX_def OWNER_SUFFIX_def
      starts_with_prefix neq_Nil_conv dest!: arg_cong [where f = length])

lemma legacy_no_renew: "LEGACY_OWNER_FILE \<notin> renew_names \<nu>"
  by (auto simp: renew_names_def LEGACY_OWNER_FILE_def starts_with_prefix)

lemma renew_names_own:
  assumes "n \<in> renew_names \<nu>'" "n \<in> own_names \<nu>" "length \<nu> = length \<nu>'"
  shows "\<nu>' = \<nu>"
proof -
  have "n \<noteq> ownerFileName \<nu>" using assms(1) ownerFileName_no_renew by metis
  then have "prefix (''.renew.'' @ \<nu> @ ''.'') n" "prefix (''.renew.'' @ \<nu>' @ ''.'') n"
    using assms by (auto simp: own_names_def renew_names_def starts_with_prefix)
  then show ?thesis using assms(3) by (auto simp: prefix_def)
qed

lemma isOwnerFileName_cases:
  assumes "isOwnerFileName f"
  shows "f = LEGACY_OWNER_FILE \<or> (\<exists>\<nu>. f = ownerFileName \<nu> \<and> hex_text 32 \<nu>)"
proof (rule disjCI)
  assume "\<not> (\<exists>\<nu>. f = ownerFileName \<nu> \<and> hex_text 32 \<nu>)"
  moreover have "f = ownerFileName (take (length f - length OWNER_SUFFIX - length OWNER_PREFIX) (drop (length OWNER_PREFIX) f))"
    if h: "starts_with OWNER_PREFIX f" "ends_with OWNER_SUFFIX f"
       "hex_text 32 (take (length f - length OWNER_SUFFIX - length OWNER_PREFIX) (drop (length OWNER_PREFIX) f))"
  proof -
    obtain z where z: "f = OWNER_PREFIX @ z" using h(1) unfolding starts_with_prefix by (rule prefixE)
    obtain y where y: "f = y @ OWNER_SUFFIX" using h(2) unfolding ends_with_suffix by (rule suffixE)
    have "length z \<ge> length OWNER_SUFFIX"
      using hex_text_length [OF h(3)] z by (simp add: OWNER_SUFFIX_def OWNER_PREFIX_def)
    moreover have "suffix OWNER_SUFFIX f" using y by (rule suffixI)
    moreover have "suffix z f" using z by (rule suffixI)
    ultimately obtain x where "z = x @ OWNER_SUFFIX" by (metis suffix_length_suffix suffixE)
    then show ?thesis using z by (simp add: ownerFileName_def)
  qed
  ultimately show "f = LEGACY_OWNER_FILE" using assms by (metis isOwnerFileName_def)
qed

lemma candidate_inject:
  assumes "candidateDirectory L p \<nu> = candidateDirectory L p' \<nu>'" "length \<nu> = length \<nu>'"
  shows "\<nu> = \<nu>'"
proof -
  have "rev (candidateDirectory L p \<nu>) = rev (candidateDirectory L p' \<nu>')" using assms(1) by simp
  then show ?thesis using assms(2) by (simp add: candidateDirectory_def append_eq_append_conv)
qed

lemma candidate_not_lock [simp]: "candidateDirectory L p \<nu> \<noteq> lockDirectory L" "lockDirectory L \<noteq> candidateDirectory L p \<nu>"
  by (auto simp: candidateDirectory_def)

section \<open>What an actor may rely on\<close>

definition entries_of :: "lock_config \<Rightarrow> lock_world \<Rightarrow> (string \<times> lock_file) list" where
  "entries_of L w = (case lw_fs w (lockDirectory L) of None \<Rightarrow> [] | Some D \<Rightarrow> ld_entries D)"

definition lock_names :: "lock_config \<Rightarrow> lock_world \<Rightarrow> string set" where
  "lock_names L w = fst ` set (entries_of L w)"

text \<open>The lock directory belongs to the nonce.\<close>

definition held :: "lock_config \<Rightarrow> string \<Rightarrow> lock_world \<Rightarrow> bool" where
  "held L \<nu> w \<longleftrightarrow> ownerFileName \<nu> \<in> lock_names L w \<and> lock_names L w \<subseteq> own_names \<nu>"

definition candidate_of :: "lock_config \<Rightarrow> string \<Rightarrow> actor \<Rightarrow> lock_world \<Rightarrow> lock_dir option" where
  "candidate_of L \<nu> a w = lw_fs w (candidateDirectory L (lw_pid w (act_process a)) \<nu>)"

definition owner_entry :: "lock_world \<Rightarrow> string \<times> lock_file \<Rightarrow> bool" where
  "owner_entry w e \<longleftrightarrow> (\<forall>\<nu>. fst e = ownerFileName \<nu> \<and> hex_text 32 \<nu> \<longrightarrow>
     (\<exists>a owner. lw_drawn w \<nu> = Some a \<and> snd e = Lock_file (serializeOwner owner) \<and>
        lo_nonce owner = \<nu> \<and> lo_pid owner = lw_pid w (act_process a) \<and>
        lo_started owner \<noteq> JNonFinite \<and> isLockOwner (json_of_owner owner) \<and> json_ok (json_of_owner owner)))"

definition lock_inv :: "lock_config \<Rightarrow> lock_world \<Rightarrow> bool" where
  "lock_inv L w \<longleftrightarrow> set (lw_live w) \<subseteq> set (lw_ever w) \<and>
     (\<forall>\<nu> a. lw_drawn w \<nu> = Some a \<longrightarrow> act_process a \<in> set (lw_ever w) \<and> hex_text 32 \<nu>) \<and>
     (\<forall>e \<in> set (entries_of L w). owner_entry w e)"

text \<open>Nothing is forgotten and nobody rises from the dead.\<close>

definition grows :: "lock_world \<Rightarrow> lock_world \<Rightarrow> bool" where
  "grows w w' \<longleftrightarrow> lw_drawn w \<subseteq>\<^sub>m lw_drawn w' \<and> set (lw_ever w) \<subseteq> set (lw_ever w') \<and>
     set (lw_live w') \<inter> set (lw_ever w) \<subseteq> set (lw_live w) \<and>
     (\<forall>q \<in> set (lw_ever w). lw_pid w' q = lw_pid w q) \<and> (lw_faulty w \<longrightarrow> lw_faulty w')"

definition rely :: "lock_config \<Rightarrow> actor \<Rightarrow> lock_world \<Rightarrow> lock_world \<Rightarrow> bool" where
  "rely L a w w' \<longleftrightarrow> lock_inv L w \<and> lock_inv L w' \<and> alive a w \<and> alive a w' \<and> grows w w' \<and>
     (\<forall>\<nu>. lw_drawn w \<nu> = Some a \<longrightarrow>
        (held L \<nu> w \<longrightarrow> entries_of L w' = entries_of L w) \<and> candidate_of L \<nu> a w' = candidate_of L \<nu> a w)"

definition guar :: "lock_config \<Rightarrow> actor \<Rightarrow> lock_world \<Rightarrow> lock_world \<Rightarrow> bool" where
  "guar L b w w' \<longleftrightarrow> lock_inv L w' \<and> grows w w' \<and> lw_live w' = lw_live w \<and>
     (\<forall>\<nu> a. lw_drawn w \<nu> = Some a \<and> a \<noteq> b \<longrightarrow>
        (alive a w \<and> held L \<nu> w \<longrightarrow> entries_of L w' = entries_of L w) \<and>
        candidate_of L \<nu> a w' = candidate_of L \<nu> a w \<and>
        lock_names L w \<inter> renew_names \<nu> \<subseteq> lock_names L w')"

lemma grows_refl [simp]: "grows w w"
  by (simp add: grows_def)

lemma grows_trans: "grows w w' \<Longrightarrow> grows w' w'' \<Longrightarrow> grows w w''"
  by (auto simp: grows_def subset_iff intro: map_le_trans)

lemma rely_refl: "lock_inv L w \<Longrightarrow> alive a w \<Longrightarrow> rely L a w w"
  by (simp add: rely_def)

lemma held_entries: "held L \<nu> w \<Longrightarrow> entries_of L w' = entries_of L w \<Longrightarrow> held L \<nu> w'"
  by (simp add: held_def lock_names_def)

lemma rely_trans: "rely L a w w' \<Longrightarrow> rely L a w' w'' \<Longrightarrow> rely L a w w''"
proof -
  assume r: "rely L a w w'" "rely L a w' w''"
  have "lw_drawn w' \<nu> = Some a" if "lw_drawn w \<nu> = Some a" for \<nu>
    using r(1) that by (auto simp: rely_def grows_def map_le_def dom_def)
  then show "rely L a w w''"
    using r held_entries [of L _ w w'] grows_trans [of w w' w''] unfolding rely_def by metis
qed

text \<open>The guarantee of one actor is what every other one relies on.\<close>

lemma guar_rely:
  "guar L b w w' \<Longrightarrow> lock_inv L w \<Longrightarrow> alive a w \<Longrightarrow> a \<noteq> b \<Longrightarrow> rely L a w w'"
  by (auto simp: guar_def rely_def alive_def)

definition stable :: "lock_config \<Rightarrow> actor \<Rightarrow> (lock_world \<Rightarrow> bool) \<Rightarrow> bool" where
  "stable L a P \<longleftrightarrow> (\<forall>w w'. P w \<and> rely L a w w' \<longrightarrow> P w')"

section \<open>Triples of programs\<close>

primrec wlp :: "lock_config \<Rightarrow> actor \<Rightarrow> (lock_world \<Rightarrow> bool) \<Rightarrow> 'a lprog \<Rightarrow> ('a \<Rightarrow> lock_world \<Rightarrow> bool) \<Rightarrow>
    (lock_error \<Rightarrow> lock_world \<Rightarrow> bool) \<Rightarrow> lock_world \<Rightarrow> bool" where
  "wlp L a J (Done x) Q E w \<longleftrightarrow> (\<forall>w'. rely L a w w' \<longrightarrow> Q x w')"
| "wlp L a J (Throw e) Q E w \<longleftrightarrow> (\<forall>w'. rely L a w w' \<longrightarrow> E e w')"
| "wlp L a J (Call c k) Q E w \<longleftrightarrow>
     (\<forall>w' ch r w''. rely L a w w' \<longrightarrow> choice_ok c ch w' \<longrightarrow> exec a c ch w' = (r, w'') \<longrightarrow>
        guar L a w' w'' \<and> J w'' \<and> wlp L a J (k r) Q E w'')"

lemma wlp_rely: "wlp L a J p Q E w \<Longrightarrow> rely L a w w' \<Longrightarrow> wlp L a J p Q E w'"
  by (cases p) (auto, (metis rely_trans)+)

lemma guar_alive: "guar L a w w' \<Longrightarrow> alive a w' \<longleftrightarrow> alive a w"
  by (simp add: guar_def alive_def)

definition triple :: "lock_config \<Rightarrow> actor \<Rightarrow> (lock_world \<Rightarrow> bool) \<Rightarrow> (lock_world \<Rightarrow> bool) \<Rightarrow> 'a lprog \<Rightarrow>
    ('a \<Rightarrow> lock_world \<Rightarrow> bool) \<Rightarrow> (lock_error \<Rightarrow> lock_world \<Rightarrow> bool) \<Rightarrow> bool" where
  "triple L a J P p Q E \<longleftrightarrow> (\<forall>w. lock_inv L w \<and> alive a w \<and> P w \<longrightarrow> wlp L a J p Q E w)"

lemma triple_done: "stable L a P \<Longrightarrow> (\<And>w. P w \<Longrightarrow> lock_inv L w \<Longrightarrow> alive a w \<Longrightarrow> Q x w) \<Longrightarrow> triple L a J P (Done x) Q E"
  by (auto simp: triple_def stable_def rely_def)

lemma triple_throw: "stable L a P \<Longrightarrow> (\<And>w. P w \<Longrightarrow> lock_inv L w \<Longrightarrow> alive a w \<Longrightarrow> E e w) \<Longrightarrow> triple L a J P (Throw e) Q E"
  by (auto simp: triple_def stable_def rely_def)

lemma triple_call:
  assumes "stable L a P"
    and "\<And>w ch r w'. lock_inv L w \<Longrightarrow> alive a w \<Longrightarrow> P w \<Longrightarrow> choice_ok c ch w \<Longrightarrow> exec a c ch w = (r, w') \<Longrightarrow>
           guar L a w w' \<and> J w' \<and> M r w'"
    and "\<And>r. triple L a J (M r) (k r) Q E"
  shows "triple L a J P (Call c k) Q E"
  unfolding triple_def
proof (intro allI impI, elim conjE)
  fix w assume w: "lock_inv L w" "alive a w" "P w"
  show "wlp L a J (Call c k) Q E w"
    unfolding wlp.simps
  proof (intro allI impI)
    fix w' ch r w'' assume r: "rely L a w w'" and c: "choice_ok c ch w'" "exec a c ch w' = (r, w'')"
    have p: "lock_inv L w'" "alive a w'" "P w'" using r w assms(1) by (auto simp: rely_def stable_def)
    have g: "guar L a w' w''" "J w''" "M r w''" using assms(2) [OF p c] by auto
    then show "guar L a w' w'' \<and> J w'' \<and> wlp L a J (k r) Q E w''"
      using assms(3) [of r] guar_alive [OF g(1)] p(2) unfolding triple_def guar_def by metis
  qed
qed

lemma wlp_mono:
  "wlp L a J p Q E w \<Longrightarrow> (\<And>x w. lock_inv L w \<Longrightarrow> alive a w \<Longrightarrow> Q x w \<Longrightarrow> Q' x w) \<Longrightarrow>
   (\<And>e w. lock_inv L w \<Longrightarrow> alive a w \<Longrightarrow> E e w \<Longrightarrow> E' e w) \<Longrightarrow> wlp L a J p Q' E' w"
  by (induction p arbitrary: w) (auto simp: rely_def)

lemma triple_conseq:
  "triple L a J P p Q E \<Longrightarrow> (\<And>w. P' w \<Longrightarrow> lock_inv L w \<Longrightarrow> alive a w \<Longrightarrow> P w) \<Longrightarrow>
   (\<And>x w. Q x w \<Longrightarrow> lock_inv L w \<Longrightarrow> alive a w \<Longrightarrow> Q' x w) \<Longrightarrow>
   (\<And>e w. E e w \<Longrightarrow> lock_inv L w \<Longrightarrow> alive a w \<Longrightarrow> E' e w) \<Longrightarrow> triple L a J P' p Q' E'"
  unfolding triple_def by (blast intro: wlp_mono)

lemma triple_case:
  assumes "triple L a J P p Q E" "\<And>x. triple L a J (Q x) (f x) Q' E'" "\<And>e. triple L a J (E e) (g e) Q' E'"
  shows "triple L a J P (pcase p f g) Q' E'"
proof -
  have "wlp L a J (pcase p f g) Q' E' w" if "wlp L a J p Q E w" "lock_inv L w" "alive a w" for w
    using that
  proof (induction p arbitrary: w)
    case (Done x)
    then show ?case using assms(2) [of x] rely_refl [of L w a] by (auto simp: triple_def)
  next
    case (Throw e)
    then show ?case using assms(3) [of e] rely_refl [of L w a] by (auto simp: triple_def)
  next
    case (Call c k)
    have g: "lock_inv L w''" "alive a w''" if "rely L a w w'" "guar L a w' w''" for w' w''
      using that guar_alive [OF that(2)] by (auto simp: rely_def guar_def)
    show ?case
      unfolding pcase.simps wlp.simps
    proof (intro allI impI)
      fix w' ch r w''
      assume r: "rely L a w w'" "choice_ok c ch w'" "exec a c ch w' = (r, w'')"
      then have h: "guar L a w' w''" "J w''" "wlp L a J (k r) Q E w''" using Call.prems(1) by auto
      then show "guar L a w' w'' \<and> J w'' \<and> wlp L a J (pcase (k r) f g) Q' E' w''"
        using Call.IH [OF rangeI h(3) g [OF r(1) h(1)]] by blast
    qed
  qed
  then show ?thesis using assms(1) by (auto simp: triple_def)
qed

lemma triple_bind:
  assumes "triple L a J P p Q E'" "\<And>x. triple L a J (Q x) (f x) Q' E'" "\<And>e. stable L a (E' e)"
  shows "triple L a J P (pbind p f) Q' E'"
  unfolding pbind_def by (rule triple_case [OF assms(1,2)]) (rule triple_throw [OF assms(3)])

lemma triple_assume:
  "(\<And>w. P w \<Longrightarrow> lock_inv L w \<Longrightarrow> alive a w \<Longrightarrow> triple L a J P p Q E) \<Longrightarrow> triple L a J P p Q E"
  by (auto simp: triple_def)

section \<open>Calls\<close>

text \<open>A call that changes nothing but, when it fails, the mark that something failed.\<close>

definition reads :: "lcall \<Rightarrow> bool" where
  "reads c = (case c of Mkdir _ \<Rightarrow> False | Write_new _ _ _ \<Rightarrow> False | Rename_dir _ _ \<Rightarrow> False
     | Rename_file _ _ _ \<Rightarrow> False | Unlink _ _ \<Rightarrow> False | Rmdir _ \<Rightarrow> False | Rm_tree _ \<Rightarrow> False
     | Rm_force _ _ \<Rightarrow> False | Random_bytes n \<Rightarrow> n \<noteq> 16 | _ \<Rightarrow> True)"

lemma exec_reads: "reads c \<Longrightarrow> exec a c ch w = (r, w') \<Longrightarrow> w' = w \<or> w' = w\<lparr>lw_faulty := True\<rparr>"
  by (cases c; cases ch) (auto simp: reads_def exec_def torn_write_def split: option.splits lock_file.splits if_splits)

lemma inv_faulty [simp]: "lock_inv L (w\<lparr>lw_faulty := True\<rparr>) \<longleftrightarrow> lock_inv L w"
  by (simp add: lock_inv_def entries_of_def owner_entry_def)

lemma same_facts [simp]:
  "entries_of L (w\<lparr>lw_faulty := b\<rparr>) = entries_of L w" "candidate_of L \<nu> a (w\<lparr>lw_faulty := b\<rparr>) = candidate_of L \<nu> a w"
  "lock_names L (w\<lparr>lw_faulty := b\<rparr>) = lock_names L w" "held L \<nu> (w\<lparr>lw_faulty := b\<rparr>) = held L \<nu> w"
  "alive a (w\<lparr>lw_faulty := b\<rparr>) = alive a w" "grows w (w\<lparr>lw_faulty := True\<rparr>)"
  by (simp_all add: entries_of_def candidate_of_def lock_names_def held_def alive_def grows_def)

lemma exec_reads_guar:
  assumes "reads c" "exec a c ch w = (r, w')" "lock_inv L w" "alive a w"
  shows "guar L a w w' \<and> rely L a w w'"
  using exec_reads [OF assms(1,2)] assms(3,4) by (auto simp: guar_def rely_def)

text \<open>The rule for a call that reads: what is known stays known.\<close>

lemma triple_read:
  assumes st: "stable L a P" and rd: "reads c" and J: "\<And>w. P w \<Longrightarrow> J w"
    and M: "\<And>w x o1 r. P w \<Longrightarrow> lock_inv L w \<Longrightarrow> works a c x o1 w = (r, w) \<Longrightarrow> M r w"
    and F: "\<And>w e. P w \<Longrightarrow> lock_inv L w \<Longrightarrow> lw_faulty w \<Longrightarrow> e \<notin> {''ENOENT'', ''EEXIST'', ''ENOTEMPTY'', ''ESRCH''} \<Longrightarrow> M (Failed e) w"
    and k: "\<And>r. triple L a J (M r) (k r) Q E"
  shows "triple L a J P (Call c k) Q E"
proof (rule triple_call [OF st _ k])
  fix w ch r w' assume w: "lock_inv L w" "alive a w" "P w" "choice_ok c ch w" "exec a c ch w = (r, w')"
  have g: "guar L a w w'" "rely L a w w'" using exec_reads_guar [OF rd w(5,1,2)] by auto
  then have p: "P w'" "lock_inv L w'" using st w(3) by (auto simp: stable_def rely_def)
  have "M r w'"
  proof (cases ch)
    case (Works x o1)
    then have "works a c x o1 w = (r, w')" using w(5) by (simp add: exec_def)
    moreover have "w' = w"
      using Works rd w(5) by (cases c) (auto simp: reads_def exec_def split: option.splits lock_file.splits if_splits)
    ultimately show ?thesis using M [OF w(3,1)] by simp
  next
    case (Fails e n)
    then show ?thesis using w(4,5) F [OF p] by (auto simp: exec_def choice_ok_def)
  qed
  then show "guar L a w w' \<and> J w' \<and> M r w'" using g(1) J [OF p(1)] by blast
qed

lemma stable_conj: "stable L a P \<Longrightarrow> stable L a P' \<Longrightarrow> stable L a (\<lambda>w. P w \<and> P' w)"
  by (auto simp: stable_def)

lemma stable_disj: "stable L a P \<Longrightarrow> stable L a P' \<Longrightarrow> stable L a (\<lambda>w. P w \<or> P' w)"
  by (auto simp: stable_def)

lemma stable_const: "stable L a (\<lambda>w. b)"
  by (auto simp: stable_def)

lemma stable_True: "stable L a (\<lambda>w. True)" "stable L a (\<lambda>w. False)"
  by (auto simp: stable_def)

definition mine :: "string \<Rightarrow> actor \<Rightarrow> lock_world \<Rightarrow> bool" where
  "mine \<nu> a w \<longleftrightarrow> lw_drawn w \<nu> = Some a"

lemma grows_drawn: "grows w w' \<Longrightarrow> lw_drawn w \<nu> = Some a \<Longrightarrow> lw_drawn w' \<nu> = Some a"
  by (auto simp: grows_def map_le_def dom_def)

lemma grows_pid: "grows w w' \<Longrightarrow> lock_inv L w \<Longrightarrow> lw_drawn w \<nu> = Some a \<Longrightarrow> lw_pid w' (act_process a) = lw_pid w (act_process a)"
  by (auto simp: grows_def lock_inv_def)

lemma rely_facts:
  assumes "rely L a w w'"
  shows "lock_inv L w" "lock_inv L w'" "alive a w" "alive a w'" "grows w w'"
    "lw_drawn w \<nu> = Some b \<Longrightarrow> lw_drawn w' \<nu> = Some b"
    "mine \<nu> a w \<Longrightarrow> held L \<nu> w \<Longrightarrow> entries_of L w' = entries_of L w"
    "mine \<nu> a w \<Longrightarrow> candidate_of L \<nu> a w' = candidate_of L \<nu> a w"
    "lw_faulty w \<Longrightarrow> lw_faulty w'"
    "lw_pid w' (act_process a) = lw_pid w (act_process a)"
  using assms grows_drawn by (auto simp: rely_def mine_def grows_def lock_inv_def alive_def)

text \<open>A dead owner: his process has died, and will not come back.\<close>

definition dead_nonce :: "string \<Rightarrow> lock_world \<Rightarrow> bool" where
  "dead_nonce \<nu> w \<longleftrightarrow> (\<exists>b. lw_drawn w \<nu> = Some b \<and> \<not> alive b w)"

lemma grows_dead: "grows w w' \<Longrightarrow> lock_inv L w \<Longrightarrow> dead_nonce \<nu> w \<Longrightarrow> dead_nonce \<nu> w'"
  unfolding dead_nonce_def using grows_drawn by (fastforce simp: grows_def alive_def lock_inv_def)

lemma stable_facts:
  "stable L a (\<lambda>w. mine \<nu> a w)"
  "stable L a (\<lambda>w. mine \<nu> a w \<and> held L \<nu> w)"
  "stable L a (\<lambda>w. mine \<nu> a w \<and> candidate_of L \<nu> a w = D)"
  "stable L a (\<lambda>w. lw_pid w (act_process a) = p)"
  "stable L a (\<lambda>w. lw_faulty w)"
  "stable L a (\<lambda>w. mine \<nu> a w \<and> held L \<nu> w \<and> C (entries_of L w))"
  unfolding stable_def using rely_facts held_entries by (auto simp: mine_def)

lemma stable_dead: "stable L a (\<lambda>w. dead_nonce \<nu> w)"
  unfolding stable_def using grows_dead rely_facts(1,5) by blast

lemma drawn_length: "lock_inv L w \<Longrightarrow> lw_drawn w \<nu> = Some b \<Longrightarrow> length \<nu> = 32"
  using hex_text_length by (auto simp: lock_inv_def)

text \<open>What a call that changes directories must respect.\<close>

lemma guar_fs:
  assumes w: "lock_inv L w" and w': "w' = w\<lparr>lw_fs := F\<rparr>"
    and loc: "\<And>d. d \<noteq> lockDirectory L \<Longrightarrow> (\<And>\<nu>. mine \<nu> a w \<Longrightarrow> d \<noteq> candidateDirectory L (lw_pid w (act_process a)) \<nu>) \<Longrightarrow> F d = lw_fs w d"
    and ent: "\<And>e. e \<in> set (entries_of L w') \<Longrightarrow> owner_entry w e"
    and held: "\<And>\<nu> b. lw_drawn w \<nu> = Some b \<Longrightarrow> b \<noteq> a \<Longrightarrow> alive b w \<Longrightarrow> held L \<nu> w \<Longrightarrow> entries_of L w' = entries_of L w"
    and temps: "\<And>\<nu> b. lw_drawn w \<nu> = Some b \<Longrightarrow> b \<noteq> a \<Longrightarrow> lock_names L w \<inter> renew_names \<nu> \<subseteq> lock_names L w'"
  shows "guar L a w w'"
proof -
  have same: "lw_drawn w' = lw_drawn w" "lw_ever w' = lw_ever w" "lw_live w' = lw_live w" "lw_pid w' = lw_pid w"
    "lw_faulty w' = lw_faulty w"
    using w' by simp_all
  have "candidate_of L \<nu> b w' = candidate_of L \<nu> b w" if "lw_drawn w \<nu> = Some b" "b \<noteq> a" for \<nu> b
  proof -
    have "candidateDirectory L (lw_pid w (act_process b)) \<nu> \<noteq> candidateDirectory L (lw_pid w (act_process a)) \<nu>'"
      if m: "mine \<nu>' a w" for \<nu>'
    proof
      assume "candidateDirectory L (lw_pid w (act_process b)) \<nu> = candidateDirectory L (lw_pid w (act_process a)) \<nu>'"
      moreover have "length \<nu> = length \<nu>'"
        using drawn_length [OF w] m \<open>lw_drawn w \<nu> = Some b\<close> by (simp add: mine_def)
      ultimately have "\<nu> = \<nu>'" by (rule candidate_inject)
      then show False using m that \<open>lw_drawn w \<nu> = Some b\<close> \<open>b \<noteq> a\<close> by (simp add: mine_def)
    qed
    then have "F (candidateDirectory L (lw_pid w (act_process b)) \<nu>) = lw_fs w (candidateDirectory L (lw_pid w (act_process b)) \<nu>)"
      by (intro loc) auto
    then show ?thesis using w' by (simp add: candidate_of_def)
  qed
  moreover have "lock_inv L w'" using w ent same by (auto simp: lock_inv_def owner_entry_def)
  moreover have "grows w w'" using same by (simp add: grows_def)
  ultimately show ?thesis using held temps same unfolding guar_def by blast
qed

lemma guar_faulty: "guar L a w w' \<Longrightarrow> guar L a w (w'\<lparr>lw_faulty := True\<rparr>)"
  unfolding guar_def by (simp add: grows_def, blast)

lemma guar_refl: "lock_inv L w \<Longrightarrow> guar L a w w"
  by (simp add: guar_def)

text \<open>A change of an own candidate directory.\<close>

lemma guar_candidate:
  assumes "lock_inv L w" "mine \<nu> a w" "p = lw_pid w (act_process a)"
  shows "guar L a w (w\<lparr>lw_fs := (lw_fs w)(candidateDirectory L p \<nu> := D)\<rparr>)"
proof (rule guar_fs [OF assms(1) refl])
  let ?w = "w\<lparr>lw_fs := (lw_fs w)(candidateDirectory L p \<nu> := D)\<rparr>"
  have e: "entries_of L ?w = entries_of L w" by (simp add: entries_of_def)
  then show "e \<in> set (entries_of L ?w) \<Longrightarrow> owner_entry w e" for e using assms(1) by (simp add: lock_inv_def)
  show "entries_of L ?w = entries_of L w" by (rule e)
  show "lock_names L w \<inter> renew_names \<nu>' \<subseteq> lock_names L ?w" for \<nu>' using e by (simp add: lock_names_def)
qed (use assms in auto)

text \<open>A change of a lock directory that is the actor's own, that is empty, or missing.\<close>

lemma held_unique: "held L \<nu> w \<Longrightarrow> held L \<nu>' w \<Longrightarrow> \<nu> = \<nu>'"
  using own_names_owner by (auto simp: held_def)

lemma guar_own:
  assumes w: "lock_inv L w" "w' = w\<lparr>lw_fs := F\<rparr>" and h: "mine \<nu> a w" "held L \<nu> w \<or> entries_of L w = []"
    and loc: "\<And>d. d \<noteq> lockDirectory L \<Longrightarrow> d \<noteq> candidateDirectory L (lw_pid w (act_process a)) \<nu> \<Longrightarrow> F d = lw_fs w d"
    and ent: "\<And>e. e \<in> set (entries_of L w') \<Longrightarrow> owner_entry w e"
  shows "guar L a w w'"
proof (rule guar_fs [OF w(1,2) _ ent])
  fix \<nu>' b assume b: "lw_drawn w \<nu>' = Some b" "b \<noteq> a"
  then have ne: "\<nu>' \<noteq> \<nu>" using h(1) by (auto simp: mine_def)
  show "lock_names L w \<inter> renew_names \<nu>' \<subseteq> lock_names L w'"
  proof (cases "entries_of L w = []")
    case False
    have "length \<nu> = length \<nu>'"
      using drawn_length [OF w(1)] h(1) b(1) by (simp add: mine_def)
    then have "x \<notin> renew_names \<nu>'" if "x \<in> lock_names L w" for x
      using that h(2) False renew_names_own [of x \<nu>' \<nu>] ne by (auto simp: held_def)
    then show ?thesis by blast
  qed (simp add: lock_names_def)
  show "entries_of L w' = entries_of L w" if "held L \<nu>' w"
    using h(2)
  proof
    assume "held L \<nu> w"
    then show ?thesis using that held_unique ne by blast
  next
    assume "entries_of L w = []"
    then show ?thesis using that by (simp add: held_def lock_names_def)
  qed
qed (use loc h in \<open>auto simp: mine_def\<close>)

section \<open>Publishing\<close>

text \<open>Knowing that the nonce is the actor's, under its process number.\<close>

definition knows :: "string \<Rightarrow> int \<Rightarrow> actor \<Rightarrow> lock_world \<Rightarrow> bool" where
  "knows \<nu> p a w \<longleftrightarrow> mine \<nu> a w \<and> lw_pid w (act_process a) = p"

lemma stable_knows: "stable L a (knows \<nu> p a)"
  unfolding stable_def knows_def using rely_facts by (auto simp: mine_def)

lemma stable_knows_and: "stable L a (\<lambda>w. mine \<nu> a w \<and> P w) \<Longrightarrow> stable L a (\<lambda>w. knows \<nu> p a w \<and> P w)"
  unfolding stable_def knows_def using rely_facts(10) by metis

lemma knows_upd [simp]:
  "knows \<nu> p a (w\<lparr>lw_fs := F\<rparr>) = knows \<nu> p a w" "knows \<nu> p a (w\<lparr>lw_faulty := b\<rparr>) = knows \<nu> p a w"
  by (simp_all add: knows_def mine_def)

definition good_owner :: "string \<Rightarrow> int \<Rightarrow> lock_owner \<Rightarrow> bool" where
  "good_owner \<nu> p owner \<longleftrightarrow> lo_nonce owner = \<nu> \<and> lo_pid owner = p \<and> lo_started owner \<noteq> JNonFinite \<and>
     isLockOwner (json_of_owner owner) \<and> json_ok (json_of_owner owner)"

lemma good_owner_entry:
  "knows \<nu> p a w \<Longrightarrow> good_owner \<nu> p owner \<Longrightarrow> owner_entry w (ownerFileName \<nu>, Lock_file (serializeOwner owner))"
  by (auto simp: owner_entry_def knows_def mine_def good_owner_def)

lemma renew_entry: "n \<in> renew_names \<nu> \<Longrightarrow> owner_entry w (n, x)"
  using ownerFileName_no_renew by (auto simp: owner_entry_def)

text \<open>The directory is the nonce's, and holds nothing but the owner file unless something failed.\<close>

definition tidy :: "lock_config \<Rightarrow> string \<Rightarrow> lock_world \<Rightarrow> bool" where
  "tidy L \<nu> w \<longleftrightarrow> held L \<nu> w \<and> (lw_faulty w \<or> map fst (entries_of L w) = [ownerFileName \<nu>])"

lemma stable_tidy: "stable L a (\<lambda>w. knows \<nu> p a w \<and> tidy L \<nu> w)"
  unfolding stable_def knows_def tidy_def using rely_facts held_entries by (auto simp: mine_def)

lemma stable_tidy_if: "stable L a (\<lambda>w. knows \<nu> p a w \<and> (b \<longrightarrow> tidy L \<nu> w))"
  using stable_tidy [of L a \<nu> p] stable_knows [of L a \<nu> p] unfolding stable_def by metis

lemma stable_candidate: "stable L a (\<lambda>w. knows \<nu> p a w \<and> lw_fs w (candidateDirectory L p \<nu>) = D)"
  unfolding stable_def
proof (intro allI impI, elim conjE)
  fix w w' assume "knows \<nu> p a w" "lw_fs w (candidateDirectory L p \<nu>) = D" "rely L a w w'"
  then show "knows \<nu> p a w' \<and> lw_fs w' (candidateDirectory L p \<nu>) = D"
    using rely_facts(6,8,10) [of L a w w'] by (auto simp: knows_def mine_def candidate_of_def)
qed

lemma stable_candidate_entries:
  "stable L a (\<lambda>w. knows \<nu> p a w \<and> (\<exists>t. lw_fs w (candidateDirectory L p \<nu>) = Some \<lparr>ld_entries = es, ld_mtime = t\<rparr>))"
  using stable_candidate [of L a \<nu> p] unfolding stable_def by metis

lemma triple_sys:
  assumes "stable L a P"
    and "\<And>w ch r w'. lock_inv L w \<Longrightarrow> alive a w \<Longrightarrow> P w \<Longrightarrow> choice_ok c ch w \<Longrightarrow> exec a c ch w = (r, w') \<Longrightarrow>
           guar L a w w' \<and> J w' \<and> (case r of Failed e \<Rightarrow> E (Sys_error e) w' | _ \<Rightarrow> Q r w')"
    and "\<And>r. stable L a (Q r)" "\<And>e. stable L a (E e)"
  shows "triple L a J P (sys c) Q E"
  unfolding sys_def
proof (rule triple_call [OF assms(1), where M = "\<lambda>r w. case r of Failed e \<Rightarrow> E (Sys_error e) w | _ \<Rightarrow> Q r w"])
  fix r show "triple L a J (\<lambda>w. case r of Failed e \<Rightarrow> E (Sys_error e) w | _ \<Rightarrow> Q r w) (case r of Failed e \<Rightarrow> Throw (Sys_error e) | _ \<Rightarrow> Done r) Q E"
    by (cases r) (auto intro!: triple_done triple_throw assms(3,4))
qed (use assms(2) in \<open>auto split: lreply.splits\<close>)

text \<open>A reading system call whose answer is not used as knowledge.\<close>

lemma triple_sys_read:
  assumes "stable L a P" "reads c" "\<And>w. P w \<Longrightarrow> J w"
  shows "triple L a J P (sys c) (\<lambda>_. P) (\<lambda>_. P)"
proof (rule triple_sys [OF assms(1) _ assms(1) assms(1)])
  fix w ch r w' assume h: "lock_inv L w" "alive a w" "P w" "choice_ok c ch w" "exec a c ch w = (r, w')"
  then have g: "guar L a w w'" "rely L a w w'" using exec_reads_guar [OF assms(2)] by auto
  then have "P w'" using assms(1) h(3) by (auto simp: stable_def)
  then show "guar L a w w' \<and> J w' \<and> (case r of Failed e \<Rightarrow> P w' | _ \<Rightarrow> P w')"
    using g assms(3) by (auto split: lreply.splits)
qed

lemma triple_clock: "stable L a P \<Longrightarrow> (\<And>w. P w \<Longrightarrow> J w) \<Longrightarrow> triple L a J P clock (\<lambda>_. P) (\<lambda>_. P)"
  unfolding clock_def pbind_def
  by (rule triple_case [OF triple_sys_read]) (auto intro: triple_done triple_throw simp: reads_def)

lemma triple_finally:
  assumes "triple L a J P p Q E" "\<And>x. triple L a J (Q x) q (\<lambda>_. Q' x) (\<lambda>_. Q' x)"
    "\<And>e. triple L a J (E e) q (\<lambda>_. E' e) (\<lambda>_. E' e)" "\<And>x. stable L a (Q' x)" "\<And>e. stable L a (E' e)"
  shows "triple L a J P (pfinally p q) Q' E'"
  unfolding pfinally_def
proof (rule triple_case [OF assms(1)])
  show "triple L a J (Q x) (pcase q (\<lambda>_. Done x) (\<lambda>_. Done x)) Q' E'" for x
    by (rule triple_case [OF assms(2)]) (auto intro: triple_done assms(4))
  show "triple L a J (E e) (pcase q (\<lambda>_. Throw e) (\<lambda>_. Throw e)) Q' E'" for e
    by (rule triple_case [OF assms(3)]) (auto intro: triple_throw assms(5))
qed

lemma exec_write_new_torn:
  assumes "lw_fs w d = Some D" "n \<notin> fst ` set (ld_entries D)"
  shows "torn_write (Write_new d n s) k w = w \<or>
    (\<exists>t. torn_write (Write_new d n s) k w =
       w\<lparr>lw_fs := (lw_fs w)(d \<mapsto> \<lparr>ld_entries = ld_entries D @ [(n, Lock_file t)], ld_mtime = lw_now w\<rparr>)\<rparr>)"
proof (cases k)
  case (Some i)
  have "filter (\<lambda>e. fst e \<noteq> n) (ld_entries D) = ld_entries D"
    using assms(2) by (auto intro!: filter_True)
  then show ?thesis using assms Some by (auto simp: torn_write_def set_entries_def put_entry_def)
qed (simp add: torn_write_def)

lemma torn_write_other: "(\<And>d n s. c \<noteq> Write_new d n s) \<Longrightarrow> torn_write c k w = w"
  by (cases c) (auto simp: torn_write_def)

lemma triple_publish:
  assumes "good_owner \<nu> p owner"
  shows "triple L a (\<lambda>_. True) (knows \<nu> p a) (publish L p (ownerFileName \<nu>) owner)
    (\<lambda>published w. published \<longrightarrow> knows \<nu> p a w \<and> tidy L \<nu> w) (\<lambda>_ _. True)"
proof -
  let ?c = "candidateDirectory L p \<nu>"
  let ?J = "\<lambda>_ :: lock_world. True"
  have \<nu>: "lo_nonce owner = \<nu>" using assms by (simp add: good_owner_def)
  have kp: "knows \<nu> p a w \<Longrightarrow> mine \<nu> a w \<and> lw_pid w (act_process a) = p" for w by (simp add: knows_def)
  have mk: "triple L a ?J (knows \<nu> p a) (sys (Mkdir ?c))
     (\<lambda>_ w. knows \<nu> p a w \<and> (\<exists>t. lw_fs w ?c = Some \<lparr>ld_entries = [], ld_mtime = t\<rparr>)) (\<lambda>_. knows \<nu> p a)"
  proof (rule triple_sys [OF stable_knows])
    fix w ch r w' assume w: "lock_inv L w" "alive a w" "knows \<nu> p a w" "exec a (Mkdir ?c) ch w = (r, w')"
    show "guar L a w w' \<and> True \<and> (case r of Failed e \<Rightarrow> knows \<nu> p a w'
        | _ \<Rightarrow> knows \<nu> p a w' \<and> (\<exists>t. lw_fs w' ?c = Some \<lparr>ld_entries = [], ld_mtime = t\<rparr>))"
      using w guar_candidate [OF w(1), of \<nu> a p] kp [OF w(3)] guar_refl [OF w(1), of a]
      by (cases ch) (auto simp: exec_def torn_write_other set_entries_def guar_faulty split: option.splits)
  qed (rule stable_knows stable_candidate_entries stable_tidy)+
  have wr: "triple L a ?J (\<lambda>w. knows \<nu> p a w \<and> (\<exists>t. lw_fs w ?c = Some \<lparr>ld_entries = [], ld_mtime = t\<rparr>))
     (sys (Write_new ?c (ownerFileName \<nu>) (serializeOwner owner)))
     (\<lambda>_ w. knows \<nu> p a w \<and> (\<exists>t. lw_fs w ?c = Some \<lparr>ld_entries = [(ownerFileName \<nu>, Lock_file (serializeOwner owner))], ld_mtime = t\<rparr>))
     (\<lambda>_. knows \<nu> p a)"
  proof (rule triple_sys)
    fix w ch r w' assume w: "lock_inv L w" "alive a w"
      "knows \<nu> p a w \<and> (\<exists>t. lw_fs w ?c = Some \<lparr>ld_entries = [], ld_mtime = t\<rparr>)"
      "exec a (Write_new ?c (ownerFileName \<nu>) (serializeOwner owner)) ch w = (r, w')"
    then obtain t where t: "knows \<nu> p a w" "lw_fs w ?c = Some \<lparr>ld_entries = [], ld_mtime = t\<rparr>" by blast
    note g = guar_candidate [OF w(1), of \<nu> a p] kp [OF t(1)] guar_refl [OF w(1), of a]
    show "guar L a w w' \<and> True \<and> (case r of Failed e \<Rightarrow> knows \<nu> p a w'
        | _ \<Rightarrow> knows \<nu> p a w' \<and> (\<exists>t. lw_fs w' ?c = Some \<lparr>ld_entries = [(ownerFileName \<nu>, Lock_file (serializeOwner owner))], ld_mtime = t\<rparr>))"
    proof (cases ch)
      case (Works x o1)
      then show ?thesis using w(4) t g by (auto simp: exec_def set_entries_def put_entry_def)
    next
      case (Fails e k)
      then show ?thesis
        using w(4) t g exec_write_new_torn [OF t(2), of "ownerFileName \<nu>" "serializeOwner owner" k]
        by (auto simp: exec_def guar_faulty)
    qed
  qed (rule stable_knows stable_candidate_entries stable_tidy)+
  have rn: "triple L a ?J (\<lambda>w. knows \<nu> p a w \<and> (\<exists>t. lw_fs w ?c = Some \<lparr>ld_entries = [(ownerFileName \<nu>, Lock_file (serializeOwner owner))], ld_mtime = t\<rparr>))
     (sys (Rename_dir ?c (lockDirectory L))) (\<lambda>_ w. knows \<nu> p a w \<and> tidy L \<nu> w) (\<lambda>_. knows \<nu> p a)"
  proof (rule triple_sys)
    fix w ch r w' assume w: "lock_inv L w" "alive a w"
      "knows \<nu> p a w \<and> (\<exists>t. lw_fs w ?c = Some \<lparr>ld_entries = [(ownerFileName \<nu>, Lock_file (serializeOwner owner))], ld_mtime = t\<rparr>)"
      "exec a (Rename_dir ?c (lockDirectory L)) ch w = (r, w')"
    then obtain t where t: "knows \<nu> p a w"
      "lw_fs w ?c = Some \<lparr>ld_entries = [(ownerFileName \<nu>, Lock_file (serializeOwner owner))], ld_mtime = t\<rparr>" by blast
    let ?w = "set_dir ?c None (set_dir (lockDirectory L)
        (Some \<lparr>ld_entries = [(ownerFileName \<nu>, Lock_file (serializeOwner owner))], ld_mtime = t\<rparr>) w)"
    have e: "entries_of L ?w = [(ownerFileName \<nu>, Lock_file (serializeOwner owner))]"
      by (simp add: entries_of_def set_dir_def)
    have g: "guar L a w ?w" if "entries_of L w = []"
      by (rule guar_own [OF w(1), of _ "(lw_fs w)(lockDirectory L := Some \<lparr>ld_entries = [(ownerFileName \<nu>, Lock_file (serializeOwner owner))], ld_mtime = t\<rparr>, ?c := None)" \<nu>])
        (use that kp [OF t(1)] e good_owner_entry [OF t(1) assms] in \<open>auto simp: set_dir_def\<close>)
    have "tidy L \<nu> ?w" using e by (simp add: tidy_def held_def lock_names_def)
    then show "guar L a w w' \<and> True \<and> (case r of Failed e \<Rightarrow> knows \<nu> p a w' | _ \<Rightarrow> knows \<nu> p a w' \<and> tidy L \<nu> w')"
      using w(4) t g guar_refl [OF w(1), of a]
      by (cases ch) (auto simp: exec_def torn_write_other guar_faulty entries_of_def set_dir_def split: option.splits if_splits)
  qed (rule stable_knows stable_candidate_entries stable_tidy)+
  have rm: "triple L a ?J (knows \<nu> p a) (pbind (sys (Rm_tree ?c)) (\<lambda>_. Done ())) (\<lambda>_. knows \<nu> p a) (\<lambda>_. knows \<nu> p a)"
  proof (rule triple_bind [OF triple_sys [OF stable_knows _ stable_knows stable_knows]])
    fix w ch r w' assume w: "lock_inv L w" "alive a w" "knows \<nu> p a w" "exec a (Rm_tree ?c) ch w = (r, w')"
    show "guar L a w w' \<and> True \<and> (case r of Failed e \<Rightarrow> knows \<nu> p a w' | _ \<Rightarrow> knows \<nu> p a w')"
      using w guar_candidate [OF w(1), of \<nu> a p] kp [OF w(3)] guar_refl [OF w(1), of a]
      by (cases ch) (auto simp: exec_def torn_write_other set_dir_def guar_faulty)
  qed (auto intro: triple_done stable_knows)
  have ex: "triple L a ?J (knows \<nu> p a) (pathExists (lockDirectory L)) (\<lambda>_. knows \<nu> p a) (\<lambda>_. knows \<nu> p a)"
    unfolding pathExists_def
    by (rule triple_case [OF triple_sys_read [OF stable_knows]])
      (auto intro: triple_done triple_throw stable_knows simp: reads_def)
  have body: "triple L a ?J (knows \<nu> p a)
     (pcase (pbind (sys (Mkdir ?c)) (\<lambda>_. pbind (sys (Write_new ?c (ownerFileName \<nu>) (serializeOwner owner)))
        (\<lambda>_. pbind (sys (Rename_dir ?c (lockDirectory L))) (\<lambda>_. Done True)))) Done
       (\<lambda>e. if isPublishCollision e then Done False
            else pbind (pathExists (lockDirectory L)) (\<lambda>there. if there then Done False else Throw e)))
     (\<lambda>pub w. knows \<nu> p a w \<and> (pub \<longrightarrow> tidy L \<nu> w)) (\<lambda>_. knows \<nu> p a)"
    apply (rule triple_case [where Q = "\<lambda>pub w. knows \<nu> p a w \<and> (pub \<longrightarrow> tidy L \<nu> w)" and E = "\<lambda>_. knows \<nu> p a"])
      apply (rule triple_bind [OF mk], rule triple_bind [OF wr], rule triple_bind [OF rn])
          apply (auto intro!: triple_done triple_bind [OF ex] triple_throw stable_knows stable_tidy stable_tidy_if)
    done
  show ?thesis
    unfolding publish_def Let_def \<nu>
    apply (rule triple_case [OF body])
     apply (auto simp: pfinally_def intro!: triple_done stable_tidy triple_case [OF rm] triple_throw stable_knows stable_True)
    done
qed

section \<open>Reading the owner\<close>

lemma json_parse_line:
  assumes "json_ok v" "ends_value [CHR 0x0A]"
  shows "json_parse (plain_text v @ [CHR 0x0A]) = Some v"
  using parsesD [OF json_ok_parses [OF assms(1)] assms(2), of "2 * length (plain_text v @ [CHR 0x0A]) + 2"]
  by (simp add: json_parse_def is_ws_def)

lemma newline_ends [simp]: "ends_value [CHR 0x0A]"
  by (simp add: ends_value_def is_num_char_def is_digit_def)

lemma lock_owner_round [simp]: "lock_owner_of (json_of_owner owner) = owner"
  by (simp add: lock_owner_of_def json_of_owner_def num_of_def)

lemma owner_of_serialized:
  assumes "isLockOwner (json_of_owner owner)" "json_ok (json_of_owner owner)" "f = ownerFileName (lo_nonce owner)"
  shows "owner_of_text f (serializeOwner owner) = Owner_valid f owner"
proof -
  have "str_of (fld (json_of_owner owner) ''nonce'') = lo_nonce owner" by (simp add: json_of_owner_def)
  then show ?thesis
    using assms json_parse_line [OF assms(2)] by (simp add: owner_of_text_def serializeOwner_def)
qed

lemma good_owner_read: "good_owner \<nu> p owner \<Longrightarrow> owner_of_text (ownerFileName \<nu>) (serializeOwner owner) = Owner_valid (ownerFileName \<nu>) owner"
  by (rule owner_of_serialized) (auto simp: good_owner_def)

text \<open>What an owner that was read says of the one who wrote it.\<close>

definition truthful :: "owner_state \<Rightarrow> lock_world \<Rightarrow> bool" where
  "truthful s w \<longleftrightarrow> (\<forall>f owner. s = Owner_valid f owner \<longrightarrow>
     f = LEGACY_OWNER_FILE \<or>
     (\<exists>b. f = ownerFileName (lo_nonce owner) \<and> lw_drawn w (lo_nonce owner) = Some b \<and> lo_pid owner = lw_pid w (act_process b)))"

lemma truthful_other [simp]: "truthful Owner_missing w" "truthful Owner_invalid w"
  by (simp_all add: truthful_def)

lemma stable_truthful: "stable L a (truthful s)"
  unfolding stable_def truthful_def using rely_facts(1,5,6) grows_pid by metis

lemma stable_and_truthful: "stable L a P \<Longrightarrow> stable L a (\<lambda>w. P w \<and> truthful s w)"
  by (rule stable_conj [OF _ stable_truthful])

lemma read_truthful:
  assumes "lock_inv L w" "(f, Lock_file t) \<in> set (entries_of L w)" "isOwnerFileName f"
  shows "truthful (owner_of_text f t) w"
proof -
  consider "f = LEGACY_OWNER_FILE" | \<nu> where "f = ownerFileName \<nu>" "hex_text 32 \<nu>"
    using isOwnerFileName_cases [OF assms(3)] by blast
  then show ?thesis
  proof cases
    case 1
    then show ?thesis by (auto simp: truthful_def owner_of_text_def split: option.splits if_splits)
  next
    case 2
    then obtain b owner where b: "lw_drawn w \<nu> = Some b" "t = serializeOwner owner" "lo_nonce owner = \<nu>"
      "lo_pid owner = lw_pid w (act_process b)" "isLockOwner (json_of_owner owner)" "json_ok (json_of_owner owner)"
      using assms(1,2) by (fastforce simp: lock_inv_def owner_entry_def)
    then have "owner_of_text f t = Owner_valid f owner" using 2 by (intro owner_of_serialized [of owner f, folded b(2)]) auto
    then show ?thesis using b 2 by (simp add: truthful_def)
  qed
qed

text \<open>The shape of \<open>readOwnerState\<close>: either the names decide, or one file is read.\<close>

definition visible :: "string list \<Rightarrow> lreply \<Rightarrow> (string \<times> bool) list" where
  "visible ig r = filter (\<lambda>(name, is_file). name \<notin> set ig) (reply_entries r)"

lemma triple_readOwnerState:
  assumes st: "stable L a P" and J: "\<And>w. P w \<Longrightarrow> J w"
  shows "triple L a J P (readOwnerState (lockDirectory L) ig) (\<lambda>s w. P w \<and> truthful s w) (\<lambda>_ _. False)"
  unfolding readOwnerState_def
proof (rule triple_read [OF st, where M = "\<lambda>_. P"])
  fix r
  have fin: "triple L a J P (Done s) (\<lambda>s w. P w \<and> truthful s w) (\<lambda>_ _. False)" if "s = Owner_missing \<or> s = Owner_invalid" for s
    using that by (auto intro!: triple_done st)
  have rd: "triple L a J P (Call (Read_file (lockDirectory L) f) (\<lambda>r. case r of Failed e \<Rightarrow> Done Owner_invalid
      | _ \<Rightarrow> Done (owner_of_text f (reply_text r)))) (\<lambda>s w. P w \<and> truthful s w) (\<lambda>_ _. False)" if f: "isOwnerFileName f" for f
  proof (rule triple_read [OF st, where M = "\<lambda>r w. P w \<and> truthful (case r of Failed e \<Rightarrow> Owner_invalid | _ \<Rightarrow> owner_of_text f (reply_text r)) w"])
    fix w x o1 r assume w: "P w" "lock_inv L w" "works a (Read_file (lockDirectory L) f) x o1 w = (r, w)"
    show "P w \<and> truthful (case r of Failed e \<Rightarrow> Owner_invalid | _ \<Rightarrow> owner_of_text f (reply_text r)) w"
    proof (cases r)
      case (Read_text t)
      then have "(f, Lock_file t) \<in> set (entries_of L w)"
        using w(3) by (auto simp: entries_of_def split: option.splits lock_file.splits dest: map_of_SomeD)
      then show ?thesis using w read_truthful [OF w(2) _ f] Read_text by (simp add: reply_text_def)
    qed (use w in \<open>auto split: option.splits lock_file.splits\<close>)
  next
    fix r
    show "triple L a J (\<lambda>w. P w \<and> truthful (case r of Failed e \<Rightarrow> Owner_invalid | _ \<Rightarrow> owner_of_text f (reply_text r)) w)
      (case r of Failed e \<Rightarrow> Done Owner_invalid | _ \<Rightarrow> Done (owner_of_text f (reply_text r))) (\<lambda>s w. P w \<and> truthful s w) (\<lambda>_ _. False)"
      by (cases r) (auto intro!: triple_done stable_and_truthful st)
  qed (auto simp: reads_def J)
  show "triple L a J P (case r of Failed e \<Rightarrow> Done (if e = ''ENOENT'' then Owner_missing else Owner_invalid)
     | _ \<Rightarrow> (case filter (\<lambda>(name, is_file). name \<notin> set ig) (reply_entries r) of
           [] \<Rightarrow> Done Owner_missing
         | [(fileName, is_file)] \<Rightarrow>
             if \<not> is_file \<or> \<not> isOwnerFileName fileName then Done Owner_invalid
             else Call (Read_file (lockDirectory L) fileName) (\<lambda>r. case r of
                    Failed e \<Rightarrow> Done Owner_invalid
                  | _ \<Rightarrow> Done (owner_of_text fileName (reply_text r)))
         | _ \<Rightarrow> Done Owner_invalid)) (\<lambda>s w. P w \<and> truthful s w) (\<lambda>_ _. False)"
    by (auto split: lreply.split list.split prod.split if_split intro!: fin rd)
qed (auto simp: reads_def J)

section \<open>Taking the lock away from a dead owner\<close>

definition unlinkable :: "string \<Rightarrow> lock_world \<Rightarrow> bool" where
  "unlinkable f w \<longleftrightarrow> f = LEGACY_OWNER_FILE \<or> (\<exists>\<nu>. f = ownerFileName \<nu> \<and> dead_nonce \<nu> w)"

lemma stable_unlinkable: "stable L a (unlinkable f)"
  unfolding stable_def unlinkable_def using grows_dead rely_facts(1,5) by metis

lemma guar_unlinkable:
  assumes w: "lock_inv L w" "unlinkable f w" and D: "lw_fs w (lockDirectory L) = Some D"
  shows "guar L a w (set_entries (lockDirectory L) (del_entry f (ld_entries D)) w)"
proof (rule guar_fs [OF w(1), of _ "(lw_fs w)(lockDirectory L \<mapsto> \<lparr>ld_entries = del_entry f (ld_entries D), ld_mtime = lw_now w\<rparr>)"])
  let ?w = "set_entries (lockDirectory L) (del_entry f (ld_entries D)) w"
  have e: "entries_of L ?w = del_entry f (entries_of L w)" using D by (simp add: entries_of_def set_entries_def)
  show "e \<in> set (entries_of L ?w) \<Longrightarrow> owner_entry w e" for e using w(1) e by (auto simp: lock_inv_def del_entry_def)
  fix \<nu> b assume b: "lw_drawn w \<nu> = Some b" "b \<noteq> a"
  have "f \<notin> renew_names \<nu>" using w(2) legacy_no_renew ownerFileName_no_renew by (auto simp: unlinkable_def)
  then show "lock_names L w \<inter> renew_names \<nu> \<subseteq> lock_names L ?w"
    using e by (auto simp: lock_names_def del_entry_def)
  assume h: "alive b w" "held L \<nu> w"
  have "f \<notin> own_names \<nu>"
    using w(2) b h(1) drawn_length [OF w(1) b(1)] legacy_no_own [of \<nu>] own_names_owner
    by (cases "\<nu> = []") (auto simp: unlinkable_def dead_nonce_def)
  then have "f \<notin> fst ` set (entries_of L w)" using h(2) by (auto simp: held_def lock_names_def)
  then show "entries_of L ?w = entries_of L w" using e by (auto simp: del_entry_def intro!: filter_True)
qed (auto simp: set_entries_def)

lemma triple_unlink:
  "triple L a (\<lambda>_. True) (unlinkable f) (sys (Unlink (lockDirectory L) f)) (\<lambda>_ _. True) (\<lambda>_ _. True)"
proof (rule triple_sys [OF stable_unlinkable])
  fix w ch r w' assume w: "lock_inv L w" "alive a w" "unlinkable f w" "exec a (Unlink (lockDirectory L) f) ch w = (r, w')"
  show "guar L a w w' \<and> True \<and> (case r of Failed e \<Rightarrow> True | _ \<Rightarrow> True)"
    using w(4) guar_unlinkable [OF w(1,3), of _ a] guar_refl [OF w(1), of a]
    by (cases ch) (auto simp: exec_def torn_write_other guar_faulty split: option.splits lock_file.splits lreply.splits)
qed (rule stable_True)+

lemma triple_rmdir:
  "triple L a (\<lambda>_. True) (\<lambda>_. True) (removeEmptyDirectory (lockDirectory L)) (\<lambda>_ _. True) (\<lambda>_ _. True)"
  unfolding removeEmptyDirectory_def
proof (rule triple_case [OF triple_sys [where Q = "\<lambda>_ _. True" and E = "\<lambda>_ _. True"]])
  fix w ch r w' assume w: "lock_inv L w" "alive a w" "exec a (Rmdir (lockDirectory L)) ch w = (r, w')"
  have "guar L a w (set_dir (lockDirectory L) None w)" if "entries_of L w = []"
    by (rule guar_fs [OF w(1), of _ "(lw_fs w)(lockDirectory L := None)"])
      (use that in \<open>auto simp: set_dir_def entries_of_def lock_names_def held_def\<close>)
  then show "guar L a w w' \<and> True \<and> (case r of Failed e \<Rightarrow> True | _ \<Rightarrow> True)"
    using w(3) guar_refl [OF w(1), of a]
    by (cases ch) (auto simp: exec_def torn_write_other guar_faulty entries_of_def split: option.splits if_splits lreply.splits)
qed (auto intro!: triple_done triple_throw stable_True)

lemma triple_if:
  "(b \<Longrightarrow> triple L a J P p Q E) \<Longrightarrow> (\<not> b \<Longrightarrow> triple L a J P q Q E) \<Longrightarrow> triple L a J P (if b then p else q) Q E"
  by simp

lemma triple_confirmed_dead:
  "triple L a (\<lambda>_. True) (truthful (Owner_valid f owner)) (ownerProcessIsConfirmedDead owner)
     (\<lambda>dead w. dead \<longrightarrow> unlinkable f w) (\<lambda>_ _. False)"
proof -
  let ?P = "truthful (Owner_valid f owner)"
  have kill: "triple L a (\<lambda>_. True) ?P (sys (Kill (lo_pid owner))) (\<lambda>_ _. True)
    (\<lambda>e w. hasErrorCode e ''ESRCH'' \<longrightarrow> unlinkable f w)"
  proof (rule triple_sys [OF stable_truthful _ stable_True(1)])
    fix w ch r w' assume w: "lock_inv L w" "alive a w" "?P w" "choice_ok (Kill (lo_pid owner)) ch w"
      "exec a (Kill (lo_pid owner)) ch w = (r, w')"
    have "unlinkable f w" if "\<And>q. q \<in> set (lw_live w) \<Longrightarrow> lw_pid w q \<noteq> lo_pid owner"
    proof (cases "f = LEGACY_OWNER_FILE")
      case False
      then obtain b where b: "f = ownerFileName (lo_nonce owner)" "lw_drawn w (lo_nonce owner) = Some b"
        "lo_pid owner = lw_pid w (act_process b)" using w(3) by (auto simp: truthful_def)
      then have "\<not> alive b w" using that by (auto simp: alive_def)
      then show ?thesis using b by (auto simp: unlinkable_def dead_nonce_def)
    qed (simp add: unlinkable_def)
    then show "guar L a w w' \<and> True \<and> (case r of Failed e \<Rightarrow> hasErrorCode (Sys_error e) ''ESRCH'' \<longrightarrow> unlinkable f w' | _ \<Rightarrow> True)"
      using w guar_refl [OF w(1), of a] guar_faulty [OF guar_refl [OF w(1), of a]]
      by (cases ch) (auto simp: exec_def torn_write_other choice_ok_def hasErrorCode_def split: if_splits)
  next
    show "stable L a (\<lambda>w. hasErrorCode e ''ESRCH'' \<longrightarrow> unlinkable f w)" for e
      using stable_unlinkable [of L a f] by (auto simp: stable_def)
  qed
  show ?thesis
    unfolding ownerProcessIsConfirmedDead_def
    by (auto intro!: triple_done stable_truthful triple_case [OF kill] stable_True)
      (use stable_unlinkable [of L a f] in \<open>auto simp: stable_def\<close>)
qed

lemma triple_reclaim:
  "triple L a (\<lambda>_. True) (\<lambda>_. True) (reclaimStaleLease L) (\<lambda>_ _. True) (\<lambda>_ _. True)"
proof -
  let ?J = "\<lambda>_ :: lock_world. True"
  have clk: "stable L a P \<Longrightarrow> triple L a ?J P clock (\<lambda>_. P) (\<lambda>_ _. True)" for P
    by (rule triple_conseq [OF triple_clock]) auto
  have read: "stable L a P \<Longrightarrow> triple L a ?J P (readOwnerState (lockDirectory L) []) (\<lambda>s w. P w \<and> truthful s w) (\<lambda>_ _. True)" for P
    by (rule triple_conseq [OF triple_readOwnerState]) auto
  have valid: "triple L a ?J (truthful (Owner_valid f owner))
     (if lo_identity owner \<noteq> lc_identity L then Done False
         else pbind clock (\<lambda>now.
           if later_than (lo_expires owner) now then Done False
           else pbind (ownerProcessIsConfirmedDead owner) (\<lambda>dead.
             if \<not> dead then Done False
             else pbind (readOwnerState (lockDirectory L) []) (\<lambda>verified.
               if \<not> sameOwner verified f (lo_nonce owner) then Done False
               else pcase (sys (Unlink (lockDirectory L) f))
                      (\<lambda>_. removeEmptyDirectory (lockDirectory L))
                      (\<lambda>e. if hasErrorCode e ''ENOENT'' then Done False else Throw e))))) (\<lambda>_ _. True) (\<lambda>_ _. True)" for f owner
  proof -
    have un: "triple L a ?J (unlinkable f) (pbind (readOwnerState (lockDirectory L) []) (\<lambda>verified.
               if \<not> sameOwner verified f (lo_nonce owner) then Done False
               else pcase (sys (Unlink (lockDirectory L) f))
                      (\<lambda>_. removeEmptyDirectory (lockDirectory L))
                      (\<lambda>e. if hasErrorCode e ''ENOENT'' then Done False else Throw e))) (\<lambda>_ _. True) (\<lambda>_ _. True)"
      by (rule triple_bind [OF read [OF stable_unlinkable]])
        (auto intro!: triple_done stable_and_truthful stable_unlinkable stable_True triple_throw
          triple_case [OF triple_conseq [OF triple_unlink [of L a f]] triple_rmdir])
    have dd: "triple L a ?J (\<lambda>w. dead \<longrightarrow> unlinkable f w) (if \<not> dead then Done False else p) (\<lambda>_ _. True) (\<lambda>_ _. True)"
      if "triple L a ?J (unlinkable f) p (\<lambda>_ _. True) (\<lambda>_ _. True)" for dead p
      using that by (auto intro!: triple_done stable_True)
    have cd: "triple L a ?J (truthful (Owner_valid f owner)) (ownerProcessIsConfirmedDead owner)
       (\<lambda>dead w. dead \<longrightarrow> unlinkable f w) (\<lambda>_ _. True)"
      by (rule triple_conseq [OF triple_confirmed_dead]) auto
    have no: "triple L a ?J (truthful (Owner_valid f owner)) (Done False) (\<lambda>_ _. True) (\<lambda>_ _. True)"
      by (rule triple_done [OF stable_truthful]) simp
    show ?thesis
      by (rule triple_if [OF no triple_bind [OF clk [OF stable_truthful] triple_if [OF no triple_bind [OF cd dd [OF un]]]]])
        (rule stable_True)+
  qed
  have missing: "triple L a ?J (\<lambda>_. True)
     (pcase (sys (Stat (lockDirectory L)))
        (\<lambda>mtime. pbind clock (\<lambda>now. if now - reply_num mtime \<le> lc_leaseMs L then Done False
              else removeEmptyDirectory (lockDirectory L))) (\<lambda>_. Done True)) (\<lambda>_ _. True) (\<lambda>_ _. True)"
  proof (rule triple_case [OF triple_sys_read [OF stable_True(1)]])
    show "triple L a ?J (\<lambda>_. True)
       (pbind clock (\<lambda>now. if now - reply_num mtime \<le> lc_leaseMs L then Done False
              else removeEmptyDirectory (lockDirectory L))) (\<lambda>_ _. True) (\<lambda>_ _. True)" for mtime
      by (rule triple_bind [OF clk [OF stable_True(1)] _ stable_True(1)])
        (simp add: triple_done stable_True(1) triple_conseq [OF triple_rmdir])
  qed (auto simp: reads_def intro: triple_done stable_True(1))
  show ?thesis
    unfolding reclaimStaleLease_def
  proof (rule triple_bind [OF read [OF stable_True(1)] _ stable_True(1)])
    fix s
    show "triple L a ?J (\<lambda>w. True \<and> truthful s w)
      (case s of Owner_valid f owner \<Rightarrow>
           if lo_identity owner \<noteq> lc_identity L then Done False
           else pbind clock (\<lambda>now.
             if later_than (lo_expires owner) now then Done False
             else pbind (ownerProcessIsConfirmedDead owner) (\<lambda>dead.
               if \<not> dead then Done False
               else pbind (readOwnerState (lockDirectory L) []) (\<lambda>verified.
                 if \<not> sameOwner verified f (lo_nonce owner) then Done False
                 else pcase (sys (Unlink (lockDirectory L) f))
                        (\<lambda>_. removeEmptyDirectory (lockDirectory L))
                        (\<lambda>e. if hasErrorCode e ''ENOENT'' then Done False else Throw e))))
       | Owner_missing \<Rightarrow>
           pcase (sys (Stat (lockDirectory L)))
             (\<lambda>mtime. pbind clock (\<lambda>now.
                if now - reply_num mtime \<le> lc_leaseMs L then Done False
                else removeEmptyDirectory (lockDirectory L)))
             (\<lambda>_. Done True)
       | Owner_invalid \<Rightarrow> Done False) (\<lambda>_ _. True) (\<lambda>_ _. True)"
      using valid missing by (cases s) (simp_all add: triple_done stable_True)
  qed
qed

section \<open>A round of acquiring\<close>

definition lease_ok :: "int \<Rightarrow> lease \<Rightarrow> bool" where
  "lease_ok p l \<longleftrightarrow> fst l = ownerFileName (lo_nonce (snd l)) \<and> good_owner (lo_nonce (snd l)) p (snd l)"

definition owns :: "lock_config \<Rightarrow> actor \<Rightarrow> lease \<Rightarrow> lock_world \<Rightarrow> bool" where
  "owns L a l w \<longleftrightarrow> lease_ok (lw_pid w (act_process a)) l \<and> mine (lo_nonce (snd l)) a w \<and> tidy L (lo_nonce (snd l)) w"

lemma stable_owns: "stable L a (owns L a l)"
  unfolding stable_def
proof (intro allI impI, elim conjE)
  fix w w' assume o: "owns L a l w" and r: "rely L a w w'"
  then have "knows (lo_nonce (snd l)) (lw_pid w (act_process a)) a w \<and> tidy L (lo_nonce (snd l)) w"
    by (simp add: owns_def knows_def)
  then have "knows (lo_nonce (snd l)) (lw_pid w (act_process a)) a w' \<and> tidy L (lo_nonce (snd l)) w'"
    using stable_tidy [of L a "lo_nonce (snd l)" "lw_pid w (act_process a)"] r unfolding stable_def by blast
  then show "owns L a l w'" using o by (simp add: owns_def knows_def)
qed

lemma guar_draw:
  assumes "lock_inv L w" "alive a w" "hex_text 32 x" "lw_drawn w x = None"
  shows "guar L a w (w\<lparr>lw_drawn := (lw_drawn w)(x \<mapsto> a)\<rparr>)"
proof -
  let ?w = "w\<lparr>lw_drawn := (lw_drawn w)(x \<mapsto> a)\<rparr>"
  have e: "entries_of L ?w = entries_of L w" "candidate_of L \<nu> b ?w = candidate_of L \<nu> b w" for \<nu> b
    by (simp_all add: entries_of_def candidate_of_def)
  have "owner_entry ?w en" if "en \<in> set (entries_of L w)" for en
  proof -
    have "owner_entry w en" using that assms(1) by (simp add: lock_inv_def)
    then show ?thesis
      unfolding owner_entry_def
    proof (intro allI impI, elim conjE)
      fix \<nu> assume o: "fst en = ownerFileName \<nu>" "hex_text 32 \<nu>"
        and all: "\<forall>\<nu>. fst en = ownerFileName \<nu> \<and> hex_text 32 \<nu> \<longrightarrow>
          (\<exists>a owner. lw_drawn w \<nu> = Some a \<and> snd en = Lock_file (serializeOwner owner) \<and>
           lo_nonce owner = \<nu> \<and> lo_pid owner = lw_pid w (act_process a) \<and>
           lo_started owner \<noteq> JNonFinite \<and> isLockOwner (json_of_owner owner) \<and> json_ok (json_of_owner owner))"
      from all o obtain b owner where b: "lw_drawn w \<nu> = Some b" "snd en = Lock_file (serializeOwner owner)"
        "lo_nonce owner = \<nu>" "lo_pid owner = lw_pid w (act_process b)" "lo_started owner \<noteq> JNonFinite"
        "isLockOwner (json_of_owner owner)" "json_ok (json_of_owner owner)" by blast
      then have "\<nu> \<noteq> x" using assms(4) by auto
      then show "\<exists>c owner. lw_drawn ?w \<nu> = Some c \<and> snd en = Lock_file (serializeOwner owner) \<and>
           lo_nonce owner = \<nu> \<and> lo_pid owner = lw_pid ?w (act_process c) \<and>
           lo_started owner \<noteq> JNonFinite \<and> isLockOwner (json_of_owner owner) \<and> json_ok (json_of_owner owner)"
        using b by (intro exI [of _ b] exI [of _ owner]) simp
    qed
  qed
  moreover have "grows w ?w" using assms(4) by (auto simp: grows_def map_le_def dom_def)
  moreover have "act_process a \<in> set (lw_ever w)" using assms(1,2) by (auto simp: lock_inv_def alive_def)
  ultimately have "lock_inv L ?w" "grows w ?w" using assms(1,3) e by (auto simp: lock_inv_def)
  then show ?thesis using e by (simp add: guar_def lock_names_def)
qed

lemma triple_draw:
  "triple L a (\<lambda>_. True) (\<lambda>w. lw_pid w (act_process a) = p) (random_hex 16)
     (\<lambda>nonce w. hex_text 32 nonce \<and> knows nonce p a w) (\<lambda>_ _. True)"
proof -
  have "triple L a (\<lambda>_. True) (\<lambda>w. lw_pid w (act_process a) = p) (sys (Random_bytes 16))
     (\<lambda>r w. hex_text 32 (reply_text r) \<and> knows (reply_text r) p a w) (\<lambda>_ _. True)"
  proof (rule triple_sys [OF stable_facts(4)])
    fix w ch r w' assume w: "lock_inv L w" "alive a w" "lw_pid w (act_process a) = p"
      "choice_ok (Random_bytes 16) ch w" "exec a (Random_bytes 16) ch w = (r, w')"
    show "guar L a w w' \<and> True \<and> (case r of Failed e \<Rightarrow> True | _ \<Rightarrow> hex_text 32 (reply_text r) \<and> knows (reply_text r) p a w')"
      using w guar_draw [OF w(1,2)] guar_faulty [OF guar_refl [OF w(1), of a]]
      by (cases ch) (auto simp: exec_def torn_write_other choice_ok_def reply_text_def knows_def mine_def)
  qed (auto intro!: stable_True stable_conj stable_const stable_knows)
  then show ?thesis
    unfolding random_hex_def
    by (rule triple_bind) (auto intro!: triple_done stable_True stable_conj stable_const stable_knows)
qed

lemma hex32_not_Nil: "hex_text 32 \<nu> \<Longrightarrow> \<nu> \<noteq> []"
  using hex_text_length by fastforce

lemma triple_acquire_round:
  assumes "lc_identity L \<noteq> []"
  shows "triple L a (\<lambda>_. True) (\<lambda>w. lw_pid w (act_process a) = p) (acquire_round L p deadline)
     (\<lambda>res w. \<forall>l. res = Some l \<longrightarrow> owns L a l w) (\<lambda>_ _. True)"
proof -
  let ?J = "\<lambda>_ :: lock_world. True"
  let ?P = "\<lambda>w. lw_pid w (act_process a) = p"
  have rd: "stable L a P \<Longrightarrow> reads c \<Longrightarrow> triple L a ?J P (sys c) (\<lambda>_. P) (\<lambda>_ _. True)" for P c
    by (rule triple_conseq [OF triple_sys_read]) auto
  have clk: "stable L a P \<Longrightarrow> triple L a ?J P clock (\<lambda>_. P) (\<lambda>_ _. True)" for P
    by (rule triple_conseq [OF triple_clock]) auto
  have sk: "stable L a (\<lambda>w. hex_text 32 \<nu> \<and> knows \<nu> p a w)" for \<nu>
    by (intro stable_conj stable_const stable_knows)
  have own: "owns L a (ownerFileName \<nu>, owner) w" if "good_owner \<nu> p owner" "knows \<nu> p a w" "tidy L \<nu> w" for \<nu> owner w
    using that by (auto simp: owns_def lease_ok_def knows_def good_owner_def)
  have last: "triple L a ?J (\<lambda>w. published \<longrightarrow> knows \<nu> p a w \<and> tidy L \<nu> w)
      (if published then Done (Some (ownerFileName \<nu>, owner))
       else pbind (reclaimStaleLease L) (\<lambda>reclaimed.
              if reclaimed then Done None
              else pbind clock (\<lambda>now.
                if now \<ge> deadline then Throw (Lock_error Lock_timeout)
                else pbind (sys (Delay (lc_retryMs L))) (\<lambda>_. Done None))))
      (\<lambda>res w. \<forall>l. res = Some l \<longrightarrow> owns L a l w) (\<lambda>_ _. True)" if "good_owner \<nu> p owner" for published \<nu> owner
    using that
    by (auto intro!: triple_done triple_throw stable_tidy stable_True own triple_bind [OF triple_conseq [OF triple_reclaim]]
        triple_bind [OF clk] triple_bind [OF rd] simp: reads_def)
  have pub: "triple L a ?J (\<lambda>w. hex_text 32 \<nu> \<and> knows \<nu> p a w)
     (pbind (publish L p (ownerFileName \<nu>) \<lparr>lo_pid = p, lo_started = JInt i, lo_identity = lc_identity L, lo_nonce = \<nu>, lo_expires = JInt j\<rparr>) q)
     Q (\<lambda>_ _. True)"
    if "\<And>b. hex_text 32 \<nu> \<Longrightarrow> triple L a ?J (\<lambda>w. b \<longrightarrow> knows \<nu> p a w \<and> tidy L \<nu> w) (q b) Q (\<lambda>_ _. True)" for \<nu> i j q and Q :: "lease option \<Rightarrow> lock_world \<Rightarrow> bool"
  proof (rule triple_assume)
    fix w assume h: "hex_text 32 \<nu> \<and> knows \<nu> p a w"
    let ?o = "\<lparr>lo_pid = p, lo_started = JInt i, lo_identity = lc_identity L, lo_nonce = \<nu>, lo_expires = JInt j\<rparr>"
    have "good_owner \<nu> p ?o"
      using assms h hex32_not_Nil [of \<nu>]
      by (auto simp: good_owner_def json_of_owner_def isLockOwner_def finite_num_def)
    then show "triple L a ?J (\<lambda>w. hex_text 32 \<nu> \<and> knows \<nu> p a w) (pbind (publish L p (ownerFileName \<nu>) ?o) q) Q (\<lambda>_ _. True)"
      using h by (intro triple_bind [OF triple_conseq [OF triple_publish], where Q = "\<lambda>b w. b \<longrightarrow> knows \<nu> p a w \<and> tidy L \<nu> w"] that stable_True) auto
  qed
  have good: "good_owner \<nu> p \<lparr>lo_pid = p, lo_started = JInt i, lo_identity = lc_identity L, lo_nonce = \<nu>, lo_expires = JInt j\<rparr>"
    if "hex_text 32 \<nu>" for \<nu> i j
    using assms that hex32_not_Nil [of \<nu>]
    by (auto simp: good_owner_def json_of_owner_def isLockOwner_def finite_num_def)
  show ?thesis
    unfolding acquire_round_def Let_def
    apply (rule triple_bind [OF rd [OF stable_facts(4)]], simp add: reads_def)
     apply (rule triple_bind [OF clk [OF stable_facts(4)]])
      apply (rule triple_bind [OF rd [OF stable_facts(4)]], simp add: reads_def)
       apply (rule triple_bind [OF triple_draw])
        apply (rule triple_bind [OF clk [OF sk]])
         apply (rule pub)
         apply (rule last, erule good)
    apply (rule stable_True)+
    done
qed

section \<open>Renewing and releasing\<close>

definition own_lock :: "lock_config \<Rightarrow> actor \<Rightarrow> lease \<Rightarrow> lock_world \<Rightarrow> bool" where
  "own_lock L a l w \<longleftrightarrow> lease_ok (lw_pid w (act_process a)) l \<and> mine (lo_nonce (snd l)) a w \<and> held L (lo_nonce (snd l)) w"

lemma owns_own_lock:
  "owns L a l w \<longleftrightarrow> own_lock L a l w \<and> (lw_faulty w \<or> map fst (entries_of L w) = [ownerFileName (lo_nonce (snd l))])"
  by (auto simp: owns_def own_lock_def tidy_def)

lemma stable_own_lock:
  assumes "\<And>w w'. P w \<Longrightarrow> entries_of L w' = entries_of L w \<Longrightarrow> (lw_faulty w \<Longrightarrow> lw_faulty w') \<Longrightarrow> P w'"
  shows "stable L a (\<lambda>w. own_lock L a l w \<and> P w)"
  unfolding stable_def
proof (intro allI impI, elim conjE)
  fix w w' assume o: "own_lock L a l w" "P w" and r: "rely L a w w'"
  have "entries_of L w' = entries_of L w" using o(1) rely_facts(7) [OF r] unfolding own_lock_def by blast
  moreover have "mine (lo_nonce (snd l)) a w'" using o(1) rely_facts(6) [OF r] by (simp add: own_lock_def mine_def)
  ultimately show "own_lock L a l w' \<and> P w'"
    using o held_entries rely_facts(9,10) [OF r] assms by (auto simp: own_lock_def)
qed

lemma isOwnerFileName_owner: "hex_text 32 \<nu> \<Longrightarrow> isOwnerFileName (ownerFileName \<nu>)"
  by (auto simp: isOwnerFileName_def ownerFileName_def OWNER_PREFIX_def OWNER_SUFFIX_def starts_with_prefix
      ends_with_suffix suffix_def hex_text_def)

lemma own_lock_dir: "own_lock L a l w \<Longrightarrow> \<exists>D. lw_fs w (lockDirectory L) = Some D \<and> entries_of L w = ld_entries D"
  by (cases "lw_fs w (lockDirectory L)") (auto simp: own_lock_def held_def lock_names_def entries_of_def)

lemma own_lock_faulty [simp]: "own_lock L a l (w\<lparr>lw_faulty := b\<rparr>) = own_lock L a l w"
  by (simp add: own_lock_def mine_def)

text \<open>A change by the owner that keeps the owner file.\<close>

lemma own_change:
  assumes w: "lock_inv L w" "own_lock L a l w"
    and es: "ownerFileName (lo_nonce (snd l)) \<in> fst ` set es" "fst ` set es \<subseteq> own_names (lo_nonce (snd l))"
      "\<And>e. e \<in> set es \<Longrightarrow> owner_entry w e"
  shows "guar L a w (set_entries (lockDirectory L) es w)" "own_lock L a l (set_entries (lockDirectory L) es w)"
    "entries_of L (set_entries (lockDirectory L) es w) = es"
proof -
  show e: "entries_of L (set_entries (lockDirectory L) es w) = es" by (simp add: entries_of_def set_entries_def)
  then show "own_lock L a l (set_entries (lockDirectory L) es w)"
    using w(2) es(1,2) by (simp add: own_lock_def held_def lock_names_def mine_def set_entries_def)
  show "guar L a w (set_entries (lockDirectory L) es w)"
    by (rule guar_own [OF w(1), of _ "(lw_fs w)(lockDirectory L \<mapsto> \<lparr>ld_entries = es, ld_mtime = lw_now w\<rparr>)"
          "lo_nonce (snd l)"]) (use w(2) es e in \<open>auto simp: own_lock_def set_entries_def\<close>)
qed

text \<open>The owner reads himself, unless something failed.\<close>

lemma triple_after_readdir:
  assumes "stable L a P" "\<And>w. P w \<Longrightarrow> J w"
  shows "triple L a J P (case r of Failed e \<Rightarrow> Done (if e = ''ENOENT'' then Owner_missing else Owner_invalid)
     | _ \<Rightarrow> (case filter (\<lambda>(name, is_file). name \<notin> set ig) (reply_entries r) of
           [] \<Rightarrow> Done Owner_missing
         | [(fileName, is_file)] \<Rightarrow>
             if \<not> is_file \<or> \<not> isOwnerFileName fileName then Done Owner_invalid
             else Call (Read_file d fileName) (\<lambda>r. case r of
                    Failed e \<Rightarrow> Done Owner_invalid
                  | _ \<Rightarrow> Done (owner_of_text fileName (reply_text r)))
         | _ \<Rightarrow> Done Owner_invalid)) (\<lambda>_. P) (\<lambda>_ _. False)"
proof -
  have fin: "triple L a J P (Done s) (\<lambda>_. P) (\<lambda>_ _. False)" for s by (auto intro!: triple_done assms)
  have "triple L a J P (Call (Read_file d f) (\<lambda>r. case r of Failed e \<Rightarrow> Done Owner_invalid
      | _ \<Rightarrow> Done (owner_of_text f (reply_text r)))) (\<lambda>_. P) (\<lambda>_ _. False)" for f
    by (rule triple_read [OF assms(1), where M = "\<lambda>_. P"]) (auto simp: reads_def assms fin split: lreply.split)
  then show ?thesis by (auto split: lreply.split list.split prod.split if_split intro!: fin)
qed

lemma own_entry:
  assumes "own_lock L a l w" "lock_inv L w" "(ownerFileName (lo_nonce (snd l)), x) \<in> set (entries_of L w)"
  shows "fst l = ownerFileName (lo_nonce (snd l))" "isOwnerFileName (fst l)"
    "\<exists>owner. x = Lock_file (serializeOwner owner) \<and>
       owner_of_text (fst l) (serializeOwner owner) = Owner_valid (fst l) owner \<and> lo_nonce owner = lo_nonce (snd l)"
proof -
  let ?f = "ownerFileName (lo_nonce (snd l))"
  have e: "owner_entry w (?f, x)" "hex_text 32 (lo_nonce (snd l))" "fst l = ?f"
    using assms by (auto simp: lock_inv_def own_lock_def mine_def lease_ok_def)
  show "fst l = ?f" by (rule e)
  show "isOwnerFileName (fst l)" using e isOwnerFileName_owner by simp
  have "\<exists>b owner. x = Lock_file (serializeOwner owner) \<and> lo_nonce owner = lo_nonce (snd l) \<and> isLockOwner (json_of_owner owner) \<and> json_ok (json_of_owner owner)"
    using e by (auto simp: owner_entry_def)
  then show "\<exists>owner. x = Lock_file (serializeOwner owner) \<and>
       owner_of_text (fst l) (serializeOwner owner) = Owner_valid (fst l) owner \<and> lo_nonce owner = lo_nonce (snd l)"
    using owner_of_serialized e(3) by metis
qed

lemma triple_read_own:
  assumes st: "stable L a P" and J: "\<And>w. P w \<Longrightarrow> J w"
    and own: "\<And>w. P w \<Longrightarrow> own_lock L a l w"
    and vis: "\<And>w. P w \<Longrightarrow> lw_faulty w \<or> filter (\<lambda>n. n \<notin> set ig) (map fst (entries_of L w)) = [ownerFileName (lo_nonce (snd l))]"
  shows "triple L a J P (readOwnerState (lockDirectory L) ig)
    (\<lambda>s w. P w \<and> (lw_faulty w \<or> sameOwner s (fst l) (lo_nonce (snd l)))) (\<lambda>_ _. False)"
  unfolding readOwnerState_def
proof (rule triple_read [OF st, where M = "\<lambda>r w. P w \<and> (lw_faulty w \<or> visible ig r = [(ownerFileName (lo_nonce (snd l)), True)] \<and> (\<forall>e. r \<noteq> Failed e) \<and> isOwnerFileName (fst l))"])
  let ?f = "ownerFileName (lo_nonce (snd l))"
  fix w x o1 r assume w: "P w" "lock_inv L w" "works a (Readdir (lockDirectory L)) x o1 w = (r, w)"
  obtain D where D: "lw_fs w (lockDirectory L) = Some D" "entries_of L w = ld_entries D"
    using own_lock_dir [OF own [OF w(1)]] by blast
  have "visible ig r = [(?f, True)] \<and> (\<forall>e. r \<noteq> Failed e) \<and> isOwnerFileName (fst l)" if nf: "\<not> lw_faulty w"
  proof -
    have v: "filter (\<lambda>n. n \<notin> set ig) (map fst (entries_of L w)) = [?f]" using vis [OF w(1)] nf by simp
    have m: "filter (\<lambda>(name, is_file). name \<notin> set ig) (map (\<lambda>e. (fst e, plain_file (snd e))) es) = [(?f, True)]"
      if "filter (\<lambda>n. n \<notin> set ig) (map fst es) = [?f]" "set es \<subseteq> set (entries_of L w)" for es
      using that
    proof (induction es)
      case (Cons e es)
      have none: "filter (\<lambda>n. n \<notin> set ig) (map fst es) = [] \<Longrightarrow>
        filter (\<lambda>(name, is_file). name \<notin> set ig) (map (\<lambda>e. (fst e, plain_file (snd e))) es) = []" for es :: "(string \<times> lock_file) list"
        by (induction es) (auto split: if_splits)
      show ?case
      proof (cases "fst e \<in> set ig")
        case False
        then have f: "fst e = ?f" "filter (\<lambda>n. n \<notin> set ig) (map fst es) = []" using Cons.prems(1) by auto
        then have "(?f, snd e) \<in> set (entries_of L w)" using Cons.prems(2) by (metis list.set_intros(1) prod.collapse subsetD)
        then have "plain_file (snd e)" using own_entry(3) [OF own [OF w(1)] w(2)] by (fastforce simp: plain_file_def)
        then show ?thesis using f none [OF f(2)] False by simp
      qed (use Cons in auto)
    qed simp
    have "?f \<in> set (map fst (entries_of L w))" using arg_cong [OF v, of set] by auto
    then obtain x where "(?f, x) \<in> set (entries_of L w)" by auto
    then have "isOwnerFileName (fst l)" using own_entry(2) [OF own [OF w(1)] w(2)] by blast
    then show ?thesis using w(3) [symmetric] D m [OF v] by (auto simp: visible_def reply_entries_def)
  qed
  then show "P w \<and> (lw_faulty w \<or> visible ig r = [(?f, True)] \<and> (\<forall>e. r \<noteq> Failed e) \<and> isOwnerFileName (fst l))" using w(1) by blast
next
  fix r
  let ?f = "ownerFileName (lo_nonce (snd l))"
  let ?k = "case r of Failed e \<Rightarrow> Done (if e = ''ENOENT'' then Owner_missing else Owner_invalid)
     | _ \<Rightarrow> (case filter (\<lambda>(name, is_file). name \<notin> set ig) (reply_entries r) of
           [] \<Rightarrow> Done Owner_missing
         | [(fileName, is_file)] \<Rightarrow>
             if \<not> is_file \<or> \<not> isOwnerFileName fileName then Done Owner_invalid
             else Call (Read_file (lockDirectory L) fileName) (\<lambda>r. case r of
                    Failed e \<Rightarrow> Done Owner_invalid
                  | _ \<Rightarrow> Done (owner_of_text fileName (reply_text r)))
         | _ \<Rightarrow> Done Owner_invalid)"
  let ?Q = "\<lambda>s w. P w \<and> (lw_faulty w \<or> sameOwner s (fst l) (lo_nonce (snd l)))"
  show "triple L a J (\<lambda>w. P w \<and> (lw_faulty w \<or> visible ig r = [(?f, True)] \<and> (\<forall>e. r \<noteq> Failed e) \<and> isOwnerFileName (fst l))) ?k ?Q (\<lambda>_ _. False)"
  proof (cases "visible ig r = [(?f, True)] \<and> (\<forall>e. r \<noteq> Failed e) \<and> isOwnerFileName (fst l)")
    case False
    have "triple L a J (\<lambda>w. P w \<and> lw_faulty w) ?k (\<lambda>_ w. P w \<and> lw_faulty w) (\<lambda>_ _. False)"
      by (rule triple_after_readdir [OF stable_conj [OF st stable_facts(5)]]) (auto intro: J)
    then show ?thesis by (rule triple_conseq) (use False in auto)
  next
    case True
    let ?M = "\<lambda>r w. P w \<and> (lw_faulty w \<or> (\<exists>t. r = Read_text t \<and> sameOwner (owner_of_text (fst l) t) (fst l) (lo_nonce (snd l))))"
    show ?thesis
    proof (rule triple_assume)
      fix w assume "P w \<and> (lw_faulty w \<or> visible ig r = [(?f, True)] \<and> (\<forall>e. r \<noteq> Failed e) \<and> isOwnerFileName (fst l))"
      then have f: "fst l = ?f" using own by (auto simp: own_lock_def lease_ok_def)
      have k: "?k = Call (Read_file (lockDirectory L) (fst l)) (\<lambda>r. case r of
                    Failed e \<Rightarrow> Done Owner_invalid
                  | _ \<Rightarrow> Done (owner_of_text (fst l) (reply_text r)))"
        using True by (cases r) (auto simp: visible_def f [symmetric])
      have sm: "stable L a (?M r)" for r using st stable_facts(5) [of L a] unfolding stable_def by blast
      have "triple L a J P (Call (Read_file (lockDirectory L) (fst l)) (\<lambda>r. case r of
                    Failed e \<Rightarrow> Done Owner_invalid
                  | _ \<Rightarrow> Done (owner_of_text (fst l) (reply_text r)))) ?Q (\<lambda>_ _. False)"
      proof (rule triple_read [OF st, where M = ?M])
        fix w x o1 r assume w: "P w" "lock_inv L w" "works a (Read_file (lockDirectory L) (fst l)) x o1 w = (r, w)"
        obtain D where D: "lw_fs w (lockDirectory L) = Some D" "entries_of L w = ld_entries D"
          using own_lock_dir [OF own [OF w(1)]] by blast
        have "fst l \<in> fst ` set (ld_entries D)"
          using own [OF w(1)] D f by (simp add: own_lock_def held_def lock_names_def)
        then obtain y where y: "map_of (ld_entries D) (fst l) = Some y"
          by (metis map_of_eq_None_iff option.exhaust)
        then have "(?f, y) \<in> set (entries_of L w)" using D f by (simp add: map_of_SomeD)
        then obtain owner where "y = Lock_file (serializeOwner owner)"
          "owner_of_text (fst l) (serializeOwner owner) = Owner_valid (fst l) owner" "lo_nonce owner = lo_nonce (snd l)"
          using own_entry(3) [OF own [OF w(1)] w(2)] by blast
        then show "?M r w" using w D y by (auto simp: sameOwner_def)
      next
        fix r show "triple L a J (?M r) (case r of Failed e \<Rightarrow> Done Owner_invalid | _ \<Rightarrow> Done (owner_of_text (fst l) (reply_text r))) ?Q (\<lambda>_ _. False)"
        proof -
          obtain s where s: "(case r of Failed e \<Rightarrow> Done Owner_invalid | _ \<Rightarrow> Done (owner_of_text (fst l) (reply_text r))) = Done s"
              "\<And>t. r = Read_text t \<Longrightarrow> s = owner_of_text (fst l) t"
            by (cases r) (simp_all add: reply_text_def)
          show ?thesis unfolding s(1) by (rule triple_done [OF sm]) (use s(2) in auto)
        qed
      qed (auto simp: reads_def J)
      then show "triple L a J (\<lambda>w. P w \<and> (lw_faulty w \<or> visible ig r = [(?f, True)] \<and> (\<forall>e. r \<noteq> Failed e) \<and> isOwnerFileName (fst l))) ?k ?Q (\<lambda>_ _. False)"
        unfolding k by (rule triple_conseq) auto
    qed
  qed
qed (auto simp: reads_def J)

section \<open>Renewing and releasing\<close>

text \<open>A call that does not fail by itself.\<close>

lemma triple_sys_total:
  assumes st: "stable L a P" and "reads c" "\<And>w. P w \<Longrightarrow> J w" "\<And>x o1 w e. fst (works a c x o1 w) \<noteq> Failed e"
  shows "triple L a J P (sys c) (\<lambda>_. P) (\<lambda>_ w. P w \<and> lw_faulty w)"
proof (rule triple_sys [OF st _ st stable_conj [OF st stable_facts(5)]])
  fix w ch r w' assume h: "lock_inv L w" "alive a w" "P w" "choice_ok c ch w" "exec a c ch w = (r, w')"
  then have g: "guar L a w w'" "rely L a w w'" using exec_reads_guar [OF assms(2)] by auto
  then have p: "P w'" using st h(3) by (auto simp: stable_def)
  have "lw_faulty w'" if "r = Failed e" for e
    using that h(5) assms(4) by (cases ch) (auto simp: exec_def, metis fst_conv)
  then show "guar L a w w' \<and> J w' \<and> (case r of Failed e \<Rightarrow> P w' \<and> lw_faulty w' | _ \<Rightarrow> P w')"
    using g assms(3) p by (auto split: lreply.splits)
qed

definition temporary :: "lease \<Rightarrow> string \<Rightarrow> string" where
  "temporary l rnd = ''.renew.'' @ lo_nonce (snd l) @ ''.'' @ rnd"

lemma temporary_names: "temporary l rnd \<in> renew_names (lo_nonce (snd l))" "temporary l rnd \<noteq> ownerFileName \<nu>"
  "temporary l rnd \<in> own_names (lo_nonce (snd l))"
proof -
  show r: "temporary l rnd \<in> renew_names (lo_nonce (snd l))" by (simp add: temporary_def renew_names_def starts_with_prefix)
  then show "temporary l rnd \<noteq> ownerFileName \<nu>" "temporary l rnd \<in> own_names (lo_nonce (snd l))"
    using ownerFileName_no_renew subsetD [OF own_names_simps(2) r] by auto
qed

text \<open>The temporary file of a renewal is written.\<close>

definition renewing :: "lock_config \<Rightarrow> actor \<Rightarrow> lease \<Rightarrow> string \<Rightarrow> lock_world \<Rightarrow> bool" where
  "renewing L a l n w \<longleftrightarrow> own_lock L a l w \<and>
     (\<exists>owner. map_of (entries_of L w) n = Some (Lock_file (serializeOwner owner)) \<and>
        lo_nonce owner = lo_nonce (snd l) \<and> good_owner (lo_nonce owner) (lo_pid (snd l)) owner) \<and>
     (lw_faulty w \<or> map fst (entries_of L w) = [ownerFileName (lo_nonce (snd l)), n])"

lemma stable_renewing: "stable L a (renewing L a l n)"
  unfolding renewing_def by (rule stable_own_lock) auto

lemma owner_entries: "lock_inv L w \<Longrightarrow> e \<in> set (entries_of L w) \<Longrightarrow> owner_entry w e"
  by (simp add: lock_inv_def)

lemma own_names_of: "own_lock L a l w \<Longrightarrow> ownerFileName (lo_nonce (snd l)) \<in> fst ` set (entries_of L w) \<and>
    fst ` set (entries_of L w) \<subseteq> own_names (lo_nonce (snd l))"
  by (simp add: own_lock_def held_def lock_names_def)

lemma own_append:
  assumes "lock_inv L w" "own_lock L a l w" "entries_of L w = es"
  shows "guar L a w (set_entries (lockDirectory L) (es @ [(temporary l rnd, x)]) w)"
    "own_lock L a l (set_entries (lockDirectory L) (es @ [(temporary l rnd, x)]) w)"
proof -
  let ?es = "es @ [(temporary l rnd, x)]"
  have es: "ownerFileName (lo_nonce (snd l)) \<in> fst ` set ?es" "fst ` set ?es \<subseteq> own_names (lo_nonce (snd l))"
    using own_names_of [OF assms(2)] temporary_names(3) [of l rnd] by (auto simp: assms(3))
  have "owner_entry w e" if "e \<in> set ?es" for e
    using that renew_entry [OF temporary_names(1) [of l rnd]] owner_entries [OF assms(1), of e] assms(3) by (cases "e \<in> set es") auto
  then show "guar L a w (set_entries (lockDirectory L) ?es w)" "own_lock L a l (set_entries (lockDirectory L) ?es w)"
    using own_change(1,2) [OF assms(1,2) es] by blast+
qed

lemma triple_write_temporary:
  assumes good: "good_owner (lo_nonce (snd l)) (lo_pid (snd l)) owner"
  shows "triple L a (own_lock L a l) (owns L a l)
    (sys (Write_new (lockDirectory L) (temporary l rnd) (serializeOwner owner)))
    (\<lambda>_. renewing L a l (temporary l rnd)) (\<lambda>_ w. owns L a l w \<and> lw_faulty w)"
proof (rule triple_sys [OF stable_owns _ stable_renewing stable_conj [OF stable_owns stable_facts(5)]])
  let ?n = "temporary l rnd" and ?s = "serializeOwner owner"
  fix w ch r w' assume w: "lock_inv L w" "alive a w" "owns L a l w"
    "exec a (Write_new (lockDirectory L) ?n ?s) ch w = (r, w')"
  then have o: "own_lock L a l w" by (simp add: owns_own_lock)
  obtain D where D: "lw_fs w (lockDirectory L) = Some D" "entries_of L w = ld_entries D"
    using own_lock_dir [OF o] by blast
  let ?w = "\<lambda>t. set_entries (lockDirectory L) (ld_entries D @ [(?n, Lock_file t)]) w"
  have g: "guar L a w (?w t)" "own_lock L a l (?w t)" "entries_of L (?w t) = ld_entries D @ [(?n, Lock_file t)]"
    "lw_faulty (?w t) = lw_faulty w" for t
    using own_append [OF w(1) o D(2)] by (auto simp: entries_of_def set_entries_def)
  note r = guar_refl [OF w(1), of a]
  show "guar L a w w' \<and> own_lock L a l w' \<and> (case r of Failed e \<Rightarrow> owns L a l w' \<and> lw_faulty w' | _ \<Rightarrow> renewing L a l ?n w')"
  proof (cases "?n \<in> fst ` set (ld_entries D)")
    case True
    then have "map fst (entries_of L w) \<noteq> [ownerFileName (lo_nonce (snd l))]"
      using D(2) temporary_names(2) by (metis empty_iff image_set list.set(1) list.set(2) insert_iff)
    then have "lw_faulty w" using w(3) by (simp add: owns_own_lock)
    then show ?thesis using w(4) D True r o w(3)
      by (cases ch) (auto simp: exec_def torn_write_def owns_own_lock guar_faulty split: option.splits)
  next
    case False
    then have put: "put_entry ?n x (ld_entries D) = ld_entries D @ [(?n, x)]" for x
      by (force simp: put_entry_def intro!: filter_True)
    have "map_of (entries_of L (?w ?s)) ?n = Some (Lock_file ?s)"
      using g(3) [of ?s] False map_of_eq_None_iff [of "ld_entries D" ?n] by (simp add: map_add_def)
    moreover have "lw_faulty (?w ?s) \<or> map fst (entries_of L (?w ?s)) = [ownerFileName (lo_nonce (snd l)), ?n]"
      using g(3,4) [of ?s] w(3) D(2) by (auto simp: owns_own_lock)
    moreover have "lo_nonce owner = lo_nonce (snd l)" using good by (simp add: good_owner_def)
    ultimately have "renewing L a l ?n (?w ?s)" using g(2) [of ?s] good unfolding renewing_def by metis
    then show ?thesis
      using w(4) D False g o w(3) put r
      by (cases ch) (auto simp: exec_def torn_write_def owns_own_lock guar_faulty split: option.splits)
  qed
qed

lemma temporary_ne [simp]: "temporary l rnd \<noteq> ownerFileName \<nu>" "ownerFileName \<nu> \<noteq> temporary l rnd"
  using temporary_names(2) by metis+

lemma triple_rename_temporary:
  "triple L a (own_lock L a l) (renewing L a l (temporary l rnd))
    (sys (Rename_file (lockDirectory L) (temporary l rnd) (fst l)))
    (\<lambda>_. owns L a l) (\<lambda>_ w. owns L a l w \<and> lw_faulty w)"
proof (rule triple_sys [OF stable_renewing _ stable_owns stable_conj [OF stable_owns stable_facts(5)]])
  let ?n = "temporary l rnd" and ?f = "ownerFileName (lo_nonce (snd l))"
  fix w ch r w' assume w: "lock_inv L w" "alive a w" "renewing L a l ?n w"
    "exec a (Rename_file (lockDirectory L) ?n (fst l)) ch w = (r, w')"
  then have o: "own_lock L a l w" by (simp add: renewing_def)
  then have f: "fst l = ?f" by (simp add: own_lock_def lease_ok_def)
  obtain D where D: "lw_fs w (lockDirectory L) = Some D" "entries_of L w = ld_entries D"
    using own_lock_dir [OF o] by blast
  obtain owner where ow: "map_of (ld_entries D) ?n = Some (Lock_file (serializeOwner owner))"
    "lo_nonce owner = lo_nonce (snd l)" "good_owner (lo_nonce owner) (lo_pid (snd l)) owner"
    using w(3) D(2) by (auto simp: renewing_def)
  let ?es = "put_entry ?f (Lock_file (serializeOwner owner)) (del_entry ?n (ld_entries D))"
  have "owner_entry w (?f, Lock_file (serializeOwner owner))"
    using good_owner_entry [of "lo_nonce (snd l)" "lo_pid (snd l)" a w owner] ow o
    by (auto simp: own_lock_def knows_def lease_ok_def good_owner_def)
  then have "owner_entry w e" if "e \<in> set ?es" for e
    using that owner_entries [OF w(1), of e] D(2) by (auto simp: put_entry_def del_entry_def)
  moreover have "?f \<in> fst ` set ?es" "fst ` set ?es \<subseteq> own_names (lo_nonce (snd l))"
    using own_names_of [OF o] D(2) by (auto simp: put_entry_def del_entry_def)
  ultimately have g: "guar L a w (set_entries (lockDirectory L) ?es w)" "own_lock L a l (set_entries (lockDirectory L) ?es w)"
    "entries_of L (set_entries (lockDirectory L) ?es w) = ?es"
    using own_change [OF w(1) o, of ?es] by blast+
  have "lw_faulty w \<or> map fst ?es = [?f]"
  proof (cases "lw_faulty w")
    case False
    then have m: "map fst (ld_entries D) = [?f, ?n]" using w(3) D(2) by (simp add: renewing_def)
    then obtain x y where "ld_entries D = [(?f, x), (?n, y)]"
      by (cases "ld_entries D"; cases "tl (ld_entries D)") auto
    then show ?thesis by (simp add: put_entry_def del_entry_def)
  qed simp
  then have "owns L a l (set_entries (lockDirectory L) ?es w)"
    using g(2,3) by (auto simp: owns_own_lock set_entries_def)
  then show "guar L a w w' \<and> own_lock L a l w' \<and> (case r of Failed e \<Rightarrow> owns L a l w' \<and> lw_faulty w' | _ \<Rightarrow> owns L a l w')"
    using w(4) D ow(1) g f o guar_refl [OF w(1), of a]
    by (cases ch) (auto simp: exec_def torn_write_other guar_faulty owns_own_lock)
qed

lemma stable_owns_and: "stable L a P \<Longrightarrow> stable L a (\<lambda>w. owns L a l w \<and> P w)"
  by (rule stable_conj [OF stable_owns])

lemma triple_rm_temporary:
  assumes P: "stable L a P" "\<And>w w'. P w \<Longrightarrow> (lw_faulty w \<Longrightarrow> lw_faulty w') \<Longrightarrow> P w'"
  shows "triple L a (own_lock L a l) (\<lambda>w. owns L a l w \<and> P w)
    (pbind (sys (Rm_force (lockDirectory L) (temporary l rnd))) (\<lambda>_. Done ()))
    (\<lambda>_ w. owns L a l w \<and> P w) (\<lambda>_ w. owns L a l w \<and> P w)"
proof (rule triple_bind [OF triple_sys])
  let ?n = "temporary l rnd" and ?f = "ownerFileName (lo_nonce (snd l))"
  fix w ch r w' assume w: "lock_inv L w" "alive a w" "owns L a l w \<and> P w"
    "exec a (Rm_force (lockDirectory L) ?n) ch w = (r, w')"
  then have o: "own_lock L a l w" by (simp add: owns_own_lock)
  obtain D where D: "lw_fs w (lockDirectory L) = Some D" "entries_of L w = ld_entries D"
    using own_lock_dir [OF o] by blast
  let ?es = "del_entry ?n (ld_entries D)"
  have "owner_entry w e" if "e \<in> set ?es" for e
    using that owner_entries [OF w(1)] D(2) by (auto simp: del_entry_def)
  moreover have "?f \<in> fst ` set ?es" "fst ` set ?es \<subseteq> own_names (lo_nonce (snd l))"
    using own_names_of [OF o] D(2) by (auto simp: del_entry_def image_iff)
  ultimately have g: "guar L a w (set_entries (lockDirectory L) ?es w)" "own_lock L a l (set_entries (lockDirectory L) ?es w)"
    "entries_of L (set_entries (lockDirectory L) ?es w) = ?es"
    using own_change [OF w(1) o, of ?es] by blast+
  have "lw_faulty w \<or> map fst ?es = [?f]"
  proof (cases "lw_faulty w")
    case False
    then have m: "map fst (ld_entries D) = [?f]" using w(3) D(2) by (simp add: owns_own_lock)
    then obtain x where "ld_entries D = [(?f, x)]" by (cases "ld_entries D") auto
    then show ?thesis by (simp add: del_entry_def)
  qed simp
  then have "owns L a l (set_entries (lockDirectory L) ?es w)" "P (set_entries (lockDirectory L) ?es w)"
    using g(2,3) w(3) P(2) by (auto simp: owns_own_lock set_entries_def)
  moreover have "P (w\<lparr>lw_faulty := True\<rparr>)" using w(3) P(2) [of w "w\<lparr>lw_faulty := True\<rparr>"] by simp
  ultimately show "guar L a w w' \<and> own_lock L a l w' \<and> (case r of Failed e \<Rightarrow> owns L a l w' \<and> P w' | _ \<Rightarrow> owns L a l w' \<and> P w')"
    using w(3,4) D g o guar_refl [OF w(1), of a]
    by (cases ch) (auto simp: exec_def torn_write_other guar_faulty owns_own_lock split: if_splits)
qed (auto intro!: triple_done stable_owns_and P)

lemma triple_renew:
  "triple L a (own_lock L a l) (owns L a l) (renew L l) (\<lambda>_. owns L a l) (\<lambda>_ w. owns L a l w \<and> lw_faulty w)"
proof -
  let ?J = "own_lock L a l"
  let ?E = "\<lambda>_ w. owns L a l w \<and> lw_faulty w"
  let ?n = "\<lambda>rnd. temporary l rnd"
  let ?same = "\<lambda>s. sameOwner s (fst l) (lo_nonce (snd l))"
  have se: "stable L a (\<lambda>w. owns L a l w \<and> lw_faulty w)" by (rule stable_owns_and [OF stable_facts(5)])
  have J: "owns L a l w \<Longrightarrow> ?J w" "renewing L a l n w \<Longrightarrow> ?J w" for w n by (simp_all add: owns_own_lock renewing_def)
  have vis: "owns L a l w \<Longrightarrow> lw_faulty w \<or> filter (\<lambda>n. n \<notin> set []) (map fst (entries_of L w)) = [ownerFileName (lo_nonce (snd l))]"
    "renewing L a l (?n rnd) w \<Longrightarrow> lw_faulty w \<or> filter (\<lambda>n. n \<notin> set [?n rnd]) (map fst (entries_of L w)) = [ownerFileName (lo_nonce (snd l))]" for w rnd
    by (auto simp: owns_own_lock renewing_def)
  have sd: "stable L a (\<lambda>w. P w \<and> (lw_faulty w \<or> b))" if "stable L a P" for P b
    using that stable_facts(5) [of L a] unfolding stable_def by blast
  have good: "good_owner (lo_nonce (snd l)) (lo_pid (snd l)) ((snd l)\<lparr>lo_expires := JInt i\<rparr>)"
    if "own_lock L a l w" for w i
    using that by (auto simp: own_lock_def lease_ok_def good_owner_def json_of_owner_def isLockOwner_def finite_num_def)
  have throw: "triple L a ?J (\<lambda>w. P w \<and> (lw_faulty w \<or> ?same s)) (if \<not> ?same s then Throw e else p) Q ?E"
    if "stable L a P" "\<And>w. P w \<Longrightarrow> lw_faulty w \<Longrightarrow> owns L a l w" "triple L a ?J P p Q ?E" for P s e p and Q :: "unit \<Rightarrow> lock_world \<Rightarrow> bool"
  proof (rule triple_if)
    show "\<not> ?same s \<Longrightarrow> triple L a ?J (\<lambda>w. P w \<and> (lw_faulty w \<or> ?same s)) (Throw e) Q ?E"
      by (rule triple_throw [OF sd [OF that(1)]]) (use that(2) in auto)
    show "triple L a ?J (\<lambda>w. P w \<and> (lw_faulty w \<or> ?same s)) p Q ?E"
      by (rule triple_conseq [OF that(3)]) auto
  qed
  have rd: "triple L a ?J P (readOwnerState (lockDirectory L) ig) (\<lambda>s w. P w \<and> (lw_faulty w \<or> ?same s)) ?E"
    if "stable L a P" "\<And>w. P w \<Longrightarrow> ?J w"
       "\<And>w. P w \<Longrightarrow> lw_faulty w \<or> filter (\<lambda>n. n \<notin> set ig) (map fst (entries_of L w)) = [ownerFileName (lo_nonce (snd l))]" for P ig
    by (rule triple_conseq [OF triple_read_own [OF that(1,2) _ that(3)]]) (auto intro: that(2))
  have total: "triple L a ?J (owns L a l) (sys c) (\<lambda>_. owns L a l) ?E" if "c = Clock \<or> c = Random_bytes 8" for c
    by (rule triple_sys_total [OF stable_owns]) (use that J in \<open>auto simp: reads_def\<close>)
  have clk: "triple L a ?J (owns L a l) clock (\<lambda>_. owns L a l) ?E"
    unfolding clock_def by (rule triple_bind [OF total]) (auto intro: triple_done stable_owns se)
  have rnd: "triple L a ?J (owns L a l) (random_hex 8) (\<lambda>_. owns L a l) ?E"
    unfolding random_hex_def by (rule triple_bind [OF total]) (auto intro: triple_done stable_owns se)
  have after: "triple L a ?J (renewing L a l (?n rnd))
     (pbind (readOwnerState (lockDirectory L) [?n rnd]) (\<lambda>verified.
        if \<not> ?same verified then Throw (Lock_error Lock_compromised)
        else pbind (sys (Rename_file (lockDirectory L) (?n rnd) (fst l))) (\<lambda>_. Done ()))) (\<lambda>_. owns L a l) ?E" for rnd
  proof (rule triple_bind [OF rd [OF stable_renewing J(2) vis(2)] throw [OF stable_renewing] se])
    show "triple L a ?J (renewing L a l (?n rnd)) (pbind (sys (Rename_file (lockDirectory L) (?n rnd) (fst l))) (\<lambda>_. Done ())) (\<lambda>_. owns L a l) ?E"
      by (rule triple_bind [OF triple_rename_temporary _ se]) (rule triple_done [OF stable_owns])
  qed (auto simp: renewing_def owns_own_lock)
  have body: "triple L a ?J (owns L a l)
     (pbind clock (\<lambda>now. pbind (sys (Write_new (lockDirectory L) (?n rnd)
         (serializeOwner ((snd l)\<lparr>lo_expires := JInt (now + lc_leaseMs L)\<rparr>)))) (\<lambda>_.
       pbind (readOwnerState (lockDirectory L) [?n rnd]) (\<lambda>verified.
        if \<not> ?same verified then Throw (Lock_error Lock_compromised)
        else pbind (sys (Rename_file (lockDirectory L) (?n rnd) (fst l))) (\<lambda>_. Done ()))))) (\<lambda>_. owns L a l) ?E" for rnd
  proof (rule triple_assume)
    fix w assume "owns L a l w"
    then have g: "good_owner (lo_nonce (snd l)) (lo_pid (snd l)) ((snd l)\<lparr>lo_expires := JInt i\<rparr>)" for i
      using good [OF J(1)] by blast
    show "triple L a ?J (owns L a l)
     (pbind clock (\<lambda>now. pbind (sys (Write_new (lockDirectory L) (?n rnd)
         (serializeOwner ((snd l)\<lparr>lo_expires := JInt (now + lc_leaseMs L)\<rparr>)))) (\<lambda>_.
       pbind (readOwnerState (lockDirectory L) [?n rnd]) (\<lambda>verified.
        if \<not> ?same verified then Throw (Lock_error Lock_compromised)
        else pbind (sys (Rename_file (lockDirectory L) (?n rnd) (fst l))) (\<lambda>_. Done ()))))) (\<lambda>_. owns L a l) ?E"
      by (rule triple_bind [OF clk triple_bind [OF triple_write_temporary [OF g] after se] se])
  qed
  have fin: "triple L a ?J (owns L a l) (pfinally p (pbind (sys (Rm_force (lockDirectory L) (?n rnd))) (\<lambda>_. Done ())))
      (\<lambda>_. owns L a l) ?E" if "triple L a ?J (owns L a l) p (\<lambda>_. owns L a l) ?E" for p :: "unit lprog" and rnd
  proof (rule triple_finally [OF that _ _ stable_owns se])
    show "triple L a ?J (owns L a l) (pbind (sys (Rm_force (lockDirectory L) (?n rnd))) (\<lambda>_. Done ())) (\<lambda>_. owns L a l) (\<lambda>_. owns L a l)"
      by (rule triple_conseq [OF triple_rm_temporary [where P = "\<lambda>_. True"]]) (auto intro: stable_True)
    show "triple L a ?J (\<lambda>w. owns L a l w \<and> lw_faulty w) (pbind (sys (Rm_force (lockDirectory L) (?n rnd))) (\<lambda>_. Done ()))
       (\<lambda>_ w. owns L a l w \<and> lw_faulty w) (\<lambda>_ w. owns L a l w \<and> lw_faulty w)"
      by (rule triple_rm_temporary) (auto intro: stable_facts(5))
  qed
  show ?thesis
    unfolding renew_def Let_def temporary_def [symmetric]
    by (rule triple_bind [OF rd [OF stable_owns J(1) vis(1)] throw [OF stable_owns] se], (assumption | rule triple_bind [OF rnd fin [OF body] se])+)
qed

lemma triple_release:
  "triple L a (\<lambda>_. True) (owns L a l) (releaseOwner L l) (\<lambda>_ _. True) (\<lambda>_ _. True)"
proof -
  let ?J = "\<lambda>_ :: lock_world. True"
  have unlink: "triple L a ?J (owns L a l) (sys (Unlink (lockDirectory L) (fst l))) (\<lambda>_ _. True) (\<lambda>_ _. True)"
  proof (rule triple_sys [OF stable_owns _ stable_True(1) stable_True(1)])
    fix w ch r w' assume w: "lock_inv L w" "alive a w" "owns L a l w"
      "exec a (Unlink (lockDirectory L) (fst l)) ch w = (r, w')"
    then have o: "own_lock L a l w" by (simp add: owns_own_lock)
    obtain D where D: "lw_fs w (lockDirectory L) = Some D" "entries_of L w = ld_entries D"
      using own_lock_dir [OF o] by blast
    let ?es = "del_entry (fst l) (ld_entries D)"
    have g: "guar L a w (set_entries (lockDirectory L) ?es w)"
    proof (rule guar_own [OF w(1), of _ "(lw_fs w)(lockDirectory L \<mapsto> \<lparr>ld_entries = ?es, ld_mtime = lw_now w\<rparr>)" "lo_nonce (snd l)"])
      fix e assume "e \<in> set (entries_of L (set_entries (lockDirectory L) ?es w))"
      then have "e \<in> set (ld_entries D)" by (auto simp: entries_of_def set_entries_def del_entry_def)
      then show "owner_entry w e" using owner_entries [OF w(1), of e] D(2) by simp
    qed (use o in \<open>auto simp: own_lock_def set_entries_def\<close>)
    show "guar L a w w' \<and> True \<and> (case r of Failed e \<Rightarrow> True | _ \<Rightarrow> True)"
      using w(4) D g guar_refl [OF w(1), of a]
      by (cases ch) (auto simp: exec_def torn_write_other guar_faulty split: option.splits lock_file.splits lreply.splits)
  qed
  have read: "stable L a P \<Longrightarrow> triple L a ?J P (readOwnerState (lockDirectory L) []) (\<lambda>_. P) (\<lambda>_ _. True)" for P
    by (rule triple_conseq [OF triple_readOwnerState [of L a P]]) auto
  have throw: "stable L a P \<Longrightarrow> triple L a ?J P (Throw e) (\<lambda>_ _. True) (\<lambda>_ _. True)" for P e
    by (rule triple_throw) auto
  have last: "triple L a ?J ?J (case s of
                  Owner_valid _ o1 \<Rightarrow> if lo_nonce o1 \<noteq> lo_nonce (snd l) then Done ()
                                      else Throw (Lock_error Lock_compromised)
                | _ \<Rightarrow> Throw (Lock_error Lock_compromised)) (\<lambda>_ _. True) (\<lambda>_ _. True)" for s
    by (cases s) (simp_all add: throw triple_done stable_True)
  have rest: "triple L a ?J ?J (pbind (removeEmptyDirectory (lockDirectory L)) (\<lambda>removed.
              if removed then Done ()
              else pbind (readOwnerState (lockDirectory L) []) (\<lambda>replacement.
                case replacement of
                  Owner_valid _ o1 \<Rightarrow> if lo_nonce o1 \<noteq> lo_nonce (snd l) then Done ()
                                      else Throw (Lock_error Lock_compromised)
                | _ \<Rightarrow> Throw (Lock_error Lock_compromised)))) (\<lambda>_ _. True) (\<lambda>_ _. True)"
    by (rule triple_bind [OF triple_rmdir triple_if [OF triple_done [OF stable_True(1)]
          triple_bind [OF read [OF stable_True(1)] last stable_True(1)]] stable_True(1)]) simp
  show ?thesis
    unfolding releaseOwner_def
    by (rule triple_bind [OF read [OF stable_owns] triple_if [OF throw [OF stable_owns]
          triple_bind [OF unlink rest stable_True(1)]] stable_True(1)])
qed

section \<open>All actors together\<close>

text \<open>What is known of an actor that lives.\<close>

definition actor_ok :: "lock_config \<Rightarrow> actor \<Rightarrow> actor_state \<Rightarrow> lock_world \<Rightarrow> bool" where
  "actor_ok L a st w =
     (case st of
        Idle \<Rightarrow> True
      | Starting p \<Rightarrow> wlp L a (\<lambda>_. True) p (\<lambda>_ _. lc_identity L \<noteq> []) (\<lambda>_ _. True) w
      | Acquiring dl p \<Rightarrow> lc_identity L \<noteq> [] \<and>
          wlp L a (\<lambda>_. True) p (\<lambda>res w. \<forall>l. res = Some l \<longrightarrow> owns L a l w) (\<lambda>_ _. True) w
      | Holding l e \<Rightarrow> owns L a l w \<and> (e \<noteq> None \<longrightarrow> lw_faulty w)
      | Renewing l p \<Rightarrow> own_lock L a l w \<and>
          wlp L a (own_lock L a l) p (\<lambda>_. owns L a l) (\<lambda>_ w. owns L a l w \<and> lw_faulty w) w
      | Releasing l p \<Rightarrow> wlp L a (\<lambda>_. True) p (\<lambda>_ _. True) (\<lambda>_ _. True) w
      | Ended _ \<Rightarrow> True)"

definition system_inv :: "lock_config \<Rightarrow> lock_system \<Rightarrow> bool" where
  "system_inv L s \<longleftrightarrow> lock_inv L (ls_world s) \<and>
     (\<forall>a. act_process a \<notin> set (lw_ever (ls_world s)) \<longrightarrow> ls_actor s a = Idle) \<and>
     (\<forall>a. alive a (ls_world s) \<longrightarrow> actor_ok L a (ls_actor s a) (ls_world s))"

lemma actor_ok_rely: "actor_ok L a st w \<Longrightarrow> rely L a w w' \<Longrightarrow> actor_ok L a st w'"
proof -
  assume r: "rely L a w w'" and o: "actor_ok L a st w"
  have ow: "owns L a l w \<Longrightarrow> owns L a l w'" for l using stable_owns r unfolding stable_def by blast
  have ol: "own_lock L a l w \<Longrightarrow> own_lock L a l w'" for l
    using stable_own_lock [of "\<lambda>_. True" L a l] r unfolding stable_def by blast
  show "actor_ok L a st w'"
    using o ow ol rely_facts(9) [OF r] by (cases st) (auto simp: actor_ok_def intro: wlp_rely [OF _ r])
qed

lemma triple_acquire_begin:
  "triple L a (\<lambda>_. True) (\<lambda>_. True) (acquire_begin L) (\<lambda>_ _. lc_identity L \<noteq> []) (\<lambda>_ _. True)"
proof (cases "lc_identity L = []")
  case True
  then show ?thesis by (simp add: acquire_begin_def triple_throw stable_True)
next
  case False
  have c: "triple L a (\<lambda>_. True) (\<lambda>_. True) clock (\<lambda>_ _. True) (\<lambda>_ _. True)"
    by (rule triple_conseq [OF triple_clock [OF stable_True(1)]]) auto
  have m: "triple L a (\<lambda>_. True) (\<lambda>_. True) (sys Mkdir_root) (\<lambda>_ _. True) (\<lambda>_ _. True)"
    by (rule triple_conseq [OF triple_sys_read [OF stable_True(1)]]) (auto simp: reads_def)
  show ?thesis
    using False unfolding acquire_begin_def
    by (simp, intro triple_bind [OF m triple_bind [OF c]]) (auto intro: triple_done stable_True stable_const)
qed

lemma wlp_start: "triple L a J P p Q E \<Longrightarrow> lock_inv L w \<Longrightarrow> alive a w \<Longrightarrow> P w \<Longrightarrow> wlp L a J p Q E w"
  by (simp add: triple_def)

text \<open>The other actors keep what they know.\<close>

lemma system_others:
  assumes "system_inv L s" "guar L b (ls_world s) w'" "actor_ok L b st w'" "alive b (ls_world s)"
  shows "system_inv L (set_actor b st (s\<lparr>ls_world := w'\<rparr>))"
proof -
  have "actor_ok L a (ls_actor s a) w'" if "alive a w'" "a \<noteq> b" for a
    using that assms(1,2) actor_ok_rely [OF _ guar_rely [OF assms(2), of a]]
    by (auto simp: system_inv_def guar_def alive_def)
  moreover have "ls_actor s a = Idle" if "act_process a \<notin> set (lw_ever w')" for a
    using that assms(1,2) by (auto simp: system_inv_def guar_def grows_def)
  moreover have "act_process b \<in> set (lw_ever w')"
    using assms by (auto simp: system_inv_def lock_inv_def guar_def grows_def alive_def)
  ultimately show ?thesis using assms by (auto simp: system_inv_def set_actor_def guar_def)
qed

lemma inv_env:
  assumes "lock_inv L w" "lw_fs w' = lw_fs w" "lw_drawn w' = lw_drawn w" "set (lw_live w') \<subseteq> set (lw_ever w')"
    "set (lw_ever w) \<subseteq> set (lw_ever w')" "\<And>q. q \<in> set (lw_ever w) \<Longrightarrow> lw_pid w' q = lw_pid w q"
  shows "lock_inv L w'"
proof -
  have "owner_entry w' e" if e: "e \<in> set (entries_of L w)" for e
    unfolding owner_entry_def
  proof (intro allI impI, elim conjE)
    fix \<nu> assume n: "fst e = ownerFileName \<nu>" "hex_text 32 \<nu>"
    then obtain b owner where b: "lw_drawn w \<nu> = Some b" "snd e = Lock_file (serializeOwner owner)"
        "lo_nonce owner = \<nu>" "lo_pid owner = lw_pid w (act_process b)" "lo_started owner \<noteq> JNonFinite"
        "isLockOwner (json_of_owner owner)" "json_ok (json_of_owner owner)"
      using owner_entries [OF assms(1) e] unfolding owner_entry_def by blast
    moreover have "act_process b \<in> set (lw_ever w)" using b(1) assms(1) by (simp add: lock_inv_def)
    ultimately show "\<exists>a owner. lw_drawn w' \<nu> = Some a \<and> snd e = Lock_file (serializeOwner owner) \<and>
        lo_nonce owner = \<nu> \<and> lo_pid owner = lw_pid w' (act_process a) \<and> lo_started owner \<noteq> JNonFinite \<and>
        isLockOwner (json_of_owner owner) \<and> json_ok (json_of_owner owner)"
      using assms(3,6) by (intro exI [of _ b] exI [of _ owner]) simp
  qed
  moreover have "entries_of L w' = entries_of L w" using assms(2) by (simp add: entries_of_def)
  ultimately show ?thesis using assms by (auto simp: lock_inv_def)
qed

text \<open>Steps of the environment: time, births and deaths.\<close>

lemma system_env:
  assumes s: "system_inv L s" and w: "lw_fs w' = lw_fs (ls_world s)" "lw_drawn w' = lw_drawn (ls_world s)"
    "lw_faulty w' = lw_faulty (ls_world s)"
    "set (lw_live w') \<subseteq> set (lw_ever w')" "set (lw_ever (ls_world s)) \<subseteq> set (lw_ever w')"
    "set (lw_live w') \<inter> set (lw_ever (ls_world s)) \<subseteq> set (lw_live (ls_world s))"
    "\<And>q. q \<in> set (lw_ever (ls_world s)) \<Longrightarrow> lw_pid w' q = lw_pid (ls_world s) q"
  shows "system_inv L (s\<lparr>ls_world := w'\<rparr>)"
proof -
  let ?w = "ls_world s"
  have i: "lock_inv L ?w" "lock_inv L w'" using s inv_env [of L ?w w'] w by (auto simp: system_inv_def)
  have g: "grows ?w w'" using w by (auto simp: grows_def)
  have "actor_ok L a (ls_actor s a) w'" if a: "alive a w'" for a
  proof (cases "act_process a \<in> set (lw_ever ?w)")
    case True
    then have "alive a ?w" using a w(6) by (auto simp: alive_def)
    moreover have "rely L a ?w w'"
      using i g a \<open>alive a ?w\<close> w(1) w(7) [OF True] by (simp add: rely_def entries_of_def candidate_of_def)
    ultimately show ?thesis using s actor_ok_rely unfolding system_inv_def by blast
  next
    case False
    then have "ls_actor s a = Idle" using s by (simp add: system_inv_def)
    then show ?thesis by (simp add: actor_ok_def)
  qed
  then show ?thesis using s i w(5) by (auto simp: system_inv_def)
qed

lemma wlp_step:
  assumes "wlp L a J (Call c k) Q E w" "lock_inv L w" "alive a w" "choice_ok c ch w" "exec a c ch w = (r, w')"
  shows "guar L a w w'" "J w'" "wlp L a J (k r) Q E w'"
  using assms rely_refl [OF assms(2,3)] by auto

lemma system_call:
  assumes "system_inv L s" "lock_step L (Do_call a ch) s = Some s'"
  shows "system_inv L s'"
proof -
  let ?w = "ls_world s"
  obtain c where c: "pending_call (ls_actor s a) = Some c" "alive a ?w" "choice_ok c ch ?w"
    using assms(2) by (auto split: option.splits if_splits)
  obtain r w' where e: "exec a c ch ?w = (r, w')" by (cases "exec a c ch ?w")
  then have s': "s' = set_actor a (resume r (ls_actor s a)) (s\<lparr>ls_world := w'\<rparr>)" using assms(2) c by simp
  have i: "lock_inv L ?w" "actor_ok L a (ls_actor s a) ?w" using assms(1) c(2) by (auto simp: system_inv_def)
  have "guar L a ?w w' \<and> actor_ok L a (resume r (ls_actor s a)) w'"
  proof (cases "ls_actor s a")
    case (Starting p)
    then obtain k where "p = Call c k" using c(1) by (cases p) (auto simp: pending_call_def)
    then show ?thesis using i(2) Starting wlp_step [OF _ i(1) c(2,3) e, where k = k] by (simp add: actor_ok_def resume_def del: wlp.simps)
  next
    case (Acquiring dl p)
    then obtain k where "p = Call c k" using c(1) by (cases p) (auto simp: pending_call_def)
    then have "lc_identity L \<noteq> []" "wlp L a (\<lambda>_. True) (Call c k) (\<lambda>res w. \<forall>l. res = Some l \<longrightarrow> owns L a l w) (\<lambda>_ _. True) ?w"
      "resume r (ls_actor s a) = Acquiring dl (k r)"
      using i(2) Acquiring unfolding actor_ok_def resume_def by simp_all
    then show ?thesis
      using wlp_step [OF \<open>wlp L a (\<lambda>_. True) (Call c k) _ _ ?w\<close> i(1) c(2,3) e] unfolding actor_ok_def by simp
  next
    case (Renewing l p)
    then obtain k where "p = Call c k" using c(1) by (cases p) (auto simp: pending_call_def)
    then have w: "wlp L a (own_lock L a l) (Call c k) (\<lambda>_. owns L a l) (\<lambda>_ w. owns L a l w \<and> lw_faulty w) ?w"
      "resume r (ls_actor s a) = Renewing l (k r)"
      using i(2) Renewing unfolding actor_ok_def resume_def by simp_all
    then show ?thesis using wlp_step [OF w(1) i(1) c(2,3) e] unfolding actor_ok_def by simp
  next
    case (Releasing l p)
    then obtain k where "p = Call c k" using c(1) by (cases p) (auto simp: pending_call_def)
    then show ?thesis using i(2) Releasing wlp_step [OF _ i(1) c(2,3) e, where k = k] by (simp add: actor_ok_def resume_def del: wlp.simps)
  qed (use c(1) in \<open>auto simp: pending_call_def\<close>)
  then show ?thesis using system_others [OF assms(1) _ _ c(2)] s' by blast
qed

lemma system_turn:
  assumes "system_inv L s" "alive a (ls_world s)"
  shows "actor_ok L a (turn L (lw_pid (ls_world s) (act_process a)) (ls_actor s a)) (ls_world s)"
    "actor_ok L a (heartbeat L (ls_actor s a)) (ls_world s)"
    "actor_ok L a (release L (ls_actor s a)) (ls_world s)"
proof -
  let ?w = "ls_world s"
  have i: "lock_inv L ?w" "actor_ok L a (ls_actor s a) ?w" using assms by (auto simp: system_inv_def)
  note rr = rely_refl [OF i(1) assms(2)]
  have round: "lc_identity L \<noteq> [] \<Longrightarrow> actor_ok L a (Acquiring dl (acquire_round L (lw_pid ?w (act_process a)) dl)) ?w" for dl
    using wlp_start [OF triple_acquire_round i(1) assms(2)] by (simp add: actor_ok_def)
  have nl: "own_lock L a l ?w" if "owns L a l ?w" for l using that by (simp add: owns_own_lock)
  show "actor_ok L a (turn L (lw_pid ?w (act_process a)) (ls_actor s a)) ?w"
    using i(2) rr round
    by (cases "ls_actor s a") (auto simp: turn_def actor_ok_def split: lprog.splits option.splits)
  show "actor_ok L a (heartbeat L (ls_actor s a)) ?w"
    using i(2) nl wlp_start [OF triple_renew i(1) assms(2)]
    by (cases "ls_actor s a") (auto simp: heartbeat_def actor_ok_def split: option.splits)
  show "actor_ok L a (release L (ls_actor s a)) ?w"
    using i(2) wlp_start [OF triple_release i(1) assms(2)]
    by (cases "ls_actor s a") (auto simp: release_def actor_ok_def split: option.splits)
qed

lemma system_local:
  assumes "system_inv L s" "alive a (ls_world s)" "actor_ok L a st (ls_world s)"
  shows "system_inv L (set_actor a st s)"
  using system_others [OF assms(1) _ assms(3,2)] guar_refl assms(1) by (auto simp: system_inv_def)

lemma system_step:
  assumes s: "system_inv L s" and st: "lock_step L ev s = Some s'"
  shows "system_inv L s'"
proof -
  have live: "set (lw_live (ls_world s)) \<subseteq> set (lw_ever (ls_world s))" using s by (simp add: system_inv_def lock_inv_def)
  show ?thesis
proof (cases ev)
  case (Start_acquire a)
  have "actor_ok L a (Starting (acquire_begin L)) (ls_world s)" if "alive a (ls_world s)"
    using wlp_start [OF triple_acquire_begin _ that] s by (simp add: actor_ok_def system_inv_def)
  then show ?thesis using Start_acquire st system_local [OF s] by (auto split: if_splits)
next
  case (Do_call a ch)
  then show ?thesis using system_call [OF s] st by blast
next
  case (Die q)
  then have "s' = s\<lparr>ls_world := (ls_world s)\<lparr>lw_live := removeAll q (lw_live (ls_world s))\<rparr>\<rparr>" using st by simp
  then show ?thesis using system_env [OF s, of "(ls_world s)\<lparr>lw_live := removeAll q (lw_live (ls_world s))\<rparr>"] live by auto
next
  case (Spawn q p)
  let ?w = "(ls_world s)\<lparr>lw_live := q # lw_live (ls_world s), lw_ever := q # lw_ever (ls_world s),
              lw_pid := (lw_pid (ls_world s))(q := p), lw_born := (lw_born (ls_world s))(q := lw_now (ls_world s))\<rparr>"
  have "s' = s\<lparr>ls_world := ?w\<rparr>" "q \<notin> set (lw_ever (ls_world s))" using st Spawn by (auto split: if_splits)
  moreover have "system_inv L (s\<lparr>ls_world := ?w\<rparr>)"
    by (rule system_env [OF s]) (use live \<open>q \<notin> set (lw_ever (ls_world s))\<close> in auto)
  ultimately show ?thesis by simp
next
  case (Tick t)
  then have "s' = s\<lparr>ls_world := (ls_world s)\<lparr>lw_now := t\<rparr>\<rparr>" using st by simp
  then show ?thesis using system_env [OF s, of "(ls_world s)\<lparr>lw_now := t\<rparr>"] live by auto
next
  case (Do_turn a)
  then show ?thesis using st system_turn(1) [OF s] system_local [OF s] by (auto split: if_splits)
next
  case (Heartbeat a)
  then show ?thesis using st system_turn(2) [OF s] system_local [OF s] by (auto split: if_splits)
next
  case (Release a)
  then show ?thesis using st system_turn(3) [OF s] system_local [OF s] by (auto split: if_splits)
qed
qed

lemma system_reach: "lock_reach L s \<Longrightarrow> system_inv L s"
proof (induction rule: lock_reach.induct)
  case lock_init
  show ?case by (simp add: system_inv_def empty_system_def lock_inv_def entries_of_def alive_def)
qed (rule system_step)

end
