(* ===== verification/LockClaims.thy ===== *)
theory LockClaims
  imports LockExclusion
begin

text \<open>
  What the lock of \<open>src/src/workspace-lock.ts\<close> guarantees between processes: one owner at a time, and
  that a free or stale lock can be taken. And what it does not: an owner that dies while it renews its
  lease leaves the lock unusable for ever, and a release can fail although nothing went wrong.
\<close>



section \<open>One owner at a time\<close>

definition lease_of :: "actor_state \<Rightarrow> lease option" where
  "lease_of st = (case st of Holding l _ \<Rightarrow> Some l | Renewing l _ \<Rightarrow> Some l | _ \<Rightarrow> None)"

definition compromised :: "actor_state \<Rightarrow> bool" where
  "compromised st = (case st of Holding _ (Some _) \<Rightarrow> True | _ \<Rightarrow> False)"

lemma lease_of_own:
  assumes "lock_reach L s" "alive a (ls_world s)" "lease_of (ls_actor s a) = Some l"
  shows "own_lock L a l (ls_world s)"
proof -
  have "actor_ok L a (ls_actor s a) (ls_world s)" using system_reach [OF assms(1)] assms(2) by (simp add: system_inv_def)
  then show ?thesis using assms(3) by (cases "ls_actor s a") (auto simp: actor_ok_def lease_of_def owns_own_lock)
qed

text \<open>C3 (lock_excludes): Whatever processes start, die and call in whatever order, and whatever calls fail, at most one
  living actor holds a lease of the workspace; while he does, his owner file is in the lock directory, also when his
  lease has run out; and his lease counts as compromised only if a system call has failed.\<close>

theorem lock_excludes:
  assumes "lock_reach L s" "alive a (ls_world s)" "lease_of (ls_actor s a) = Some l"
  shows "(\<forall>b l'. alive b (ls_world s) \<and> lease_of (ls_actor s b) = Some l' \<longrightarrow> b = a) \<and>
    fst l \<in> lock_names L (ls_world s) \<and>
    (compromised (ls_actor s a) \<longrightarrow> lw_faulty (ls_world s))"
proof (intro conjI allI impI)
  have o: "own_lock L a l (ls_world s)" by (rule lease_of_own [OF assms])
  then show "fst l \<in> lock_names L (ls_world s)" by (simp add: own_lock_def held_def lease_ok_def)
  show "b = a" if "alive b (ls_world s) \<and> lease_of (ls_actor s b) = Some l'" for b l'
  proof -
    have o': "own_lock L b l' (ls_world s)" using that lease_of_own [OF assms(1)] by blast
    then have "lo_nonce (snd l') = lo_nonce (snd l)" using o held_unique unfolding own_lock_def by blast
    then show ?thesis using o o' by (simp add: own_lock_def mine_def)
  qed
  have "actor_ok L a (ls_actor s a) (ls_world s)" using system_reach [OF assms(1)] assms(2) by (simp add: system_inv_def)
  then show "compromised (ls_actor s a) \<Longrightarrow> lw_faulty (ls_world s)"
    by (cases "ls_actor s a") (auto simp: actor_ok_def compromised_def split: option.splits)
qed

section \<open>A crash during a renewal\<close>

lemma call_guar:
  assumes "system_inv L s" "lock_step L (Do_call a ch) s = Some s'"
  shows "guar L a (ls_world s) (ls_world s')"
proof -
  let ?w = "ls_world s"
  obtain c where c: "pending_call (ls_actor s a) = Some c" "alive a ?w" "choice_ok c ch ?w"
    using assms(2) by (auto split: option.splits if_splits)
  obtain r w' where e: "exec a c ch ?w = (r, w')" by (cases "exec a c ch ?w")
  then have s': "ls_world s' = w'" using assms(2) c by (auto simp: set_actor_def)
  have i: "lock_inv L ?w" "actor_ok L a (ls_actor s a) ?w" using assms(1) c(2) by (auto simp: system_inv_def)
  note g = wlp_step(1) [OF _ i(1) c(2,3) e]
  show ?thesis
  proof (cases "ls_actor s a")
    case (Starting p)
    then obtain k where "p = Call c k" using c(1) by (cases p) (auto simp: pending_call_def)
    then show ?thesis using i(2) Starting s' wlp_step(1) [OF _ i(1) c(2,3) e, where k = k] by (simp add: actor_ok_def del: wlp.simps)
  next
    case (Acquiring dl p)
    then obtain k where "p = Call c k" using c(1) by (cases p) (auto simp: pending_call_def)
    then have "wlp L a (\<lambda>_. True) (Call c k) (\<lambda>res w. \<forall>l. res = Some l \<longrightarrow> owns L a l w) (\<lambda>_ _. True) ?w"
      using i(2) Acquiring unfolding actor_ok_def by simp
    then show ?thesis using wlp_step(1) [OF _ i(1) c(2,3) e] s' by blast
  next
    case (Renewing l p)
    then obtain k where "p = Call c k" using c(1) by (cases p) (auto simp: pending_call_def)
    then have "wlp L a (own_lock L a l) (Call c k) (\<lambda>_. owns L a l) (\<lambda>_ w. owns L a l w \<and> lw_faulty w) ?w"
      using i(2) Renewing unfolding actor_ok_def by simp
    then show ?thesis using wlp_step(1) [OF _ i(1) c(2,3) e] s' by blast
  next
    case (Releasing l p)
    then obtain k where "p = Call c k" using c(1) by (cases p) (auto simp: pending_call_def)
    then show ?thesis using i(2) Releasing s' wlp_step(1) [OF _ i(1) c(2,3) e, where k = k] by (simp add: actor_ok_def del: wlp.simps)
  qed (use c(1) in \<open>auto simp: pending_call_def\<close>)
qed

text \<open>A temporary file that a dead actor left behind.\<close>

definition left_behind :: "lock_config \<Rightarrow> string \<Rightarrow> string \<Rightarrow> lock_world \<Rightarrow> bool" where
  "left_behind L \<nu> n w \<longleftrightarrow> dead_nonce \<nu> w \<and> n \<in> lock_names L w \<and> n \<in> renew_names \<nu>"

lemma left_behind_step:
  assumes "system_inv L s" "lock_step L ev s = Some s'" "left_behind L \<nu> n (ls_world s)"
  shows "left_behind L \<nu> n (ls_world s')"
proof -
  have env: "left_behind L \<nu> n w'" if "lw_fs w' = lw_fs (ls_world s)" "lw_drawn w' = lw_drawn (ls_world s)"
    "\<And>b. lw_drawn (ls_world s) \<nu> = Some b \<Longrightarrow> \<not> alive b (ls_world s) \<Longrightarrow> \<not> alive b w'" for w'
    using assms(3) that by (auto simp: left_behind_def dead_nonce_def lock_names_def entries_of_def)
  have ever: "act_process b \<in> set (lw_ever (ls_world s))" if "lw_drawn (ls_world s) \<nu> = Some b" for b
    using assms(1) that by (simp add: system_inv_def lock_inv_def)
  show ?thesis
  proof (cases ev)
    case (Do_call a ch)
    obtain b where b: "lw_drawn (ls_world s) \<nu> = Some b" "\<not> alive b (ls_world s)"
      using assms(3) by (auto simp: left_behind_def dead_nonce_def)
    have a: "alive a (ls_world s)" using assms(2) Do_call by (auto split: option.splits if_splits)
    then have g: "guar L a (ls_world s) (ls_world s')" using call_guar [OF assms(1)] assms(2) Do_call by blast
    then have "dead_nonce \<nu> (ls_world s')"
      using grows_dead [of "ls_world s" "ls_world s'" L \<nu>] assms(1,3) by (auto simp: guar_def system_inv_def left_behind_def)
    moreover have "lock_names L (ls_world s) \<inter> renew_names \<nu> \<subseteq> lock_names L (ls_world s')"
      using g b a unfolding guar_def by blast
    ultimately show ?thesis using assms(3) by (auto simp: left_behind_def)
  next
    case (Spawn q p)
    then show ?thesis using assms(2) ever by (auto intro!: env simp: alive_def split: if_splits)
  qed (use assms(2) in \<open>auto intro!: env simp: alive_def set_actor_def split: if_splits\<close>)
qed

lemma left_behind_run:
  "lock_reach L s \<Longrightarrow> lock_run L evs s = Some s' \<Longrightarrow> left_behind L \<nu> n (ls_world s) \<Longrightarrow> left_behind L \<nu> n (ls_world s')"
proof (induction evs arbitrary: s)
  case (Cons ev evs)
  then obtain t where t: "lock_step L ev s = Some t" "lock_run L evs t = Some s'" by (auto split: option.splits)
  then show ?case
    using Cons.IH [OF lock_next [OF Cons.prems(1) t(1)] t(2)] left_behind_step [OF system_reach [OF Cons.prems(1)] t(1) Cons.prems(3)]
    by blast
qed simp

text \<open>C11 (lock_stuck): If an owner dies between writing the temporary file of a renewal and renaming it, that file stays in
  the lock directory, whatever anybody does afterwards, and nobody ever gets the lock again: \<open>readOwnerState\<close> finds two
  files and calls the owner invalid, so the stale lock is never reclaimed.\<close>

theorem lock_stuck:
  assumes "lock_reach L s" "left_behind L \<nu> n (ls_world s)" "lock_run L evs s = Some s'" "alive a (ls_world s')"
  shows "lease_of (ls_actor s' a) = None"
proof (rule ccontr)
  assume "lease_of (ls_actor s' a) \<noteq> None"
  then obtain l where l: "lease_of (ls_actor s' a) = Some l" by blast
  have r: "lock_reach L s'" using lock_run_reach [OF assms(1,3)] .
  have o: "own_lock L a l (ls_world s')" by (rule lease_of_own [OF r assms(4) l])
  have b: "left_behind L \<nu> n (ls_world s')" by (rule left_behind_run [OF assms(1,3,2)])
  have "length (lo_nonce (snd l)) = length \<nu>"
    using o b system_reach [OF r] drawn_length by (auto simp: own_lock_def mine_def left_behind_def dead_nonce_def system_inv_def)
  moreover have "n \<in> own_names (lo_nonce (snd l))" using o b by (auto simp: own_lock_def held_def left_behind_def)
  ultimately have "lo_nonce (snd l) = \<nu>" using renew_names_own b by (metis left_behind_def)
  then show False using o b assms(4) by (auto simp: own_lock_def mine_def left_behind_def dead_nonce_def)
qed

section \<open>Runs of one actor\<close>

definition works_calls :: "actor \<Rightarrow> string \<Rightarrow> nat \<Rightarrow> lock_event list" where
  "works_calls a x n = replicate n (Do_call a (Works x False))"

lemma works_calls_simps:
  "works_calls a x 0 = []" "works_calls a x (Suc n) = Do_call a (Works x False) # works_calls a x n"
  "works_calls a x (numeral k) = Do_call a (Works x False) # works_calls a x (pred_numeral k)"
  by (simp_all add: works_calls_def numeral_eq_Suc)

lemma run_append: "lock_run L (evs @ evs') s = (case lock_run L evs s of None \<Rightarrow> None | Some s' \<Rightarrow> lock_run L evs' s')"
  by (induction evs arbitrary: s) (auto split: option.splits)

text \<open>One call of one actor that works.\<close>

lemma run_call:
  assumes "ls_actor s a = st" "pending_call st = Some c" "alive a (ls_world s)" "choice_ok c (Works x False) (ls_world s)"
    "works a c x False (ls_world s) = (r, w')"
  shows "lock_run L (Do_call a (Works x False) # evs) s = lock_run L evs (set_actor a (resume r st) (s\<lparr>ls_world := w'\<rparr>))"
  using assms by (simp add: exec_def)

definition acquire_events :: "actor \<Rightarrow> string \<Rightarrow> lock_event list" where
  "acquire_events a \<nu> = Start_acquire a # works_calls a [] 2 @ [Do_turn a] @ works_calls a \<nu> 8 @ [Do_turn a]"

definition new_owner :: "lock_config \<Rightarrow> actor \<Rightarrow> string \<Rightarrow> lock_world \<Rightarrow> lock_owner" where
  "new_owner L a \<nu> w = \<lparr>lo_pid = lw_pid w (act_process a), lo_started = JInt (lw_born w (act_process a)),
     lo_identity = lc_identity L, lo_nonce = \<nu>, lo_expires = JInt (lw_now w + lc_leaseMs L)\<rparr>"

definition acquired :: "lock_config \<Rightarrow> actor \<Rightarrow> string \<Rightarrow> lock_world \<Rightarrow> lock_world" where
  "acquired L a \<nu> w = w\<lparr>lw_drawn := (lw_drawn w)(\<nu> \<mapsto> a),
     lw_fs := (lw_fs w)(lockDirectory L \<mapsto> \<lparr>ld_entries = [(ownerFileName \<nu>, Lock_file (serializeOwner (new_owner L a \<nu> w)))], ld_mtime = lw_now w\<rparr>)\<rparr>"

lemmas run_defs = pending_call_def resume_def exec_def set_actor_def alive_def choice_ok_def pbind_def sys_def
  reply_num_def reply_text_def reply_entries_def clock_def random_hex_def Let_def set_entries_def put_entry_def set_dir_def is_idle_def

lemma acquire_run:
  assumes "ls_actor s a = Idle" "alive a (ls_world s)" "lc_identity L \<noteq> []" "hex_text 32 \<nu>" "lw_drawn (ls_world s) \<nu> = None"
    "entries_of L (ls_world s) = []"
    "lw_fs (ls_world s) (candidateDirectory L (lw_pid (ls_world s) (act_process a)) \<nu>) = None"
  shows "lock_run L (acquire_events a \<nu>) s =
    Some (s\<lparr>ls_world := acquired L a \<nu> (ls_world s),
       ls_actor := (ls_actor s)(a := Holding (ownerFileName \<nu>, new_owner L a \<nu> (ls_world s)) None)\<rparr>)"
proof -
  have idem: "(lw_fs (ls_world s))(lockDirectory L \<mapsto> D, candidateDirectory L (lw_pid (ls_world s) (act_process a)) \<nu> := None) =
     (lw_fs (ls_world s))(lockDirectory L \<mapsto> D)" for D
    using assms(7) by (auto simp: fun_eq_iff)
  have "lw_fs (ls_world s) (lockDirectory L) = None \<or> (\<exists>t. lw_fs (ls_world s) (lockDirectory L) = Some \<lparr>ld_entries = [], ld_mtime = t\<rparr>)"
  proof (cases "lw_fs (ls_world s) (lockDirectory L)")
    case (Some D)
    then show ?thesis using assms(6) by (cases D) (simp add: entries_of_def)
  qed simp
  then show ?thesis
    using assms(1-5,7) unfolding acquire_events_def acquired_def new_owner_def
    by (elim disjE exE) (simp_all add: works_calls_simps run_defs acquire_begin_def turn_def acquire_round_def publish_def idem)
qed

text \<open>A lock whose owner's process is dead and whose lease has run out.\<close>

definition stale :: "lock_config \<Rightarrow> string \<Rightarrow> lock_owner \<Rightarrow> lock_world \<Rightarrow> bool" where
  "stale L \<nu> owner w \<longleftrightarrow> entries_of L w = [(ownerFileName \<nu>, Lock_file (serializeOwner owner))] \<and> hex_text 32 \<nu> \<and>
     good_owner \<nu> (lo_pid owner) owner \<and> lo_identity owner = lc_identity L \<and> 0 < lo_pid owner \<and>
     \<not> later_than (lo_expires owner) (lw_now w) \<and> (\<forall>q \<in> set (lw_live w). lw_pid w q \<noteq> lo_pid owner)"

definition reclaim_events :: "actor \<Rightarrow> string \<Rightarrow> string \<Rightarrow> lock_event list" where
  "reclaim_events a \<nu>1 \<nu>2 = Start_acquire a # works_calls a [] 2 @ [Do_turn a] @ works_calls a \<nu>1 17 @ [Do_turn a] @
     works_calls a \<nu>2 8 @ [Do_turn a]"

lemmas read_defs = readOwnerState_def isOwnerFileName_owner good_owner_read sameOwner_def plain_file_def

lemma reclaim_run:
  assumes "ls_actor s a = Idle" "alive a (ls_world s)" "lc_identity L \<noteq> []"
    "hex_text 32 \<nu>1" "lw_drawn (ls_world s) \<nu>1 = None" "hex_text 32 \<nu>2" "lw_drawn (ls_world s) \<nu>2 = None" "\<nu>1 \<noteq> \<nu>2"
    "stale L \<nu> owner (ls_world s)"
    "lw_fs (ls_world s) (candidateDirectory L (lw_pid (ls_world s) (act_process a)) \<nu>1) = None"
    "lw_fs (ls_world s) (candidateDirectory L (lw_pid (ls_world s) (act_process a)) \<nu>2) = None"
  shows "\<exists>s'. lock_run L (reclaim_events a \<nu>1 \<nu>2) s = Some s' \<and>
    ls_actor s' a = Holding (ownerFileName \<nu>2, new_owner L a \<nu>2 (ls_world s)) None"
proof -
  obtain t where d: "lw_fs (ls_world s) (lockDirectory L) = Some \<lparr>ld_entries = [(ownerFileName \<nu>, Lock_file (serializeOwner owner))], ld_mtime = t\<rparr>"
    using assms(9) by (cases "lw_fs (ls_world s) (lockDirectory L)"; cases "the (lw_fs (ls_world s) (lockDirectory L))") (auto simp: stale_def entries_of_def)
  have o: "owner_of_text (ownerFileName \<nu>) (serializeOwner owner) = Owner_valid (ownerFileName \<nu>) owner" "lo_nonce owner = \<nu>"
    "lo_identity owner = lc_identity L" "\<not> lo_pid owner \<le> 0" "lo_started owner \<noteq> JNonFinite" "hex_text 32 \<nu>"
    "\<not> later_than (lo_expires owner) (lw_now (ls_world s))" "\<forall>q \<in> set (lw_live (ls_world s)). lw_pid (ls_world s) q \<noteq> lo_pid owner"
    using assms(9) good_owner_read [of \<nu> "lo_pid owner" owner] by (auto simp: stale_def good_owner_def)
  have ne: "candidateDirectory L p \<nu>2 \<noteq> candidateDirectory L p \<nu>1" for p
    using candidate_inject [of L p \<nu>2 p \<nu>1] assms(4,6,8) hex_text_length by metis
  show ?thesis
    using assms(1-8,10,11) d o ne unfolding reclaim_events_def new_owner_def
    apply (simp add: works_calls_simps run_defs acquire_begin_def turn_def acquire_round_def publish_def isPublishCollision_def hasErrorCode_def pfinally_def
      reclaimStaleLease_def read_defs ownerProcessIsConfirmedDead_def removeEmptyDirectory_def del_entry_def)
    done
qed

lemma good_new_owner:
  assumes "lc_identity L \<noteq> []" "hex_text 32 \<nu>"
  shows "good_owner \<nu> (lw_pid w (act_process a)) (new_owner L a \<nu> w)"
  using assms hex32_not_Nil [OF assms(2)]
  by (auto simp: good_owner_def new_owner_def json_of_owner_def isLockOwner_def finite_num_def)

lemma owned_dir:
  assumes "entries_of L w = [(n, x)]"
  obtains t where "lw_fs w (lockDirectory L) = Some \<lparr>ld_entries = [(n, x)], ld_mtime = t\<rparr>"
proof (cases "lw_fs w (lockDirectory L)")
  case (Some D)
  then show ?thesis using assms that by (cases D) (simp add: entries_of_def)
qed (use assms in \<open>simp add: entries_of_def\<close>)

lemma heartbeat_run:
  assumes "ls_actor s a = Holding l None" "alive a (ls_world s)" "hex_text 32 (lo_nonce (snd l))"
    "fst l = ownerFileName (lo_nonce (snd l))"
    "entries_of L (ls_world s) = [(fst l, Lock_file (serializeOwner owner))]" "good_owner (lo_nonce (snd l)) p owner"
    "hex_text 16 rnd"
  shows "\<exists>s'. lock_run L (Heartbeat a # works_calls a rnd 5) s = Some s' \<and> temporary l rnd \<in> lock_names L (ls_world s') \<and>
    lw_drawn (ls_world s') = lw_drawn (ls_world s) \<and> lw_live (ls_world s') = lw_live (ls_world s)"
proof -
  obtain t where d: "lw_fs (ls_world s) (lockDirectory L) = Some \<lparr>ld_entries = [(fst l, Lock_file (serializeOwner owner))], ld_mtime = t\<rparr>"
    by (rule owned_dir [OF assms(5)])
  have o: "owner_of_text (fst l) (serializeOwner owner) = Owner_valid (fst l) owner" "lo_nonce owner = lo_nonce (snd l)"
    "isOwnerFileName (fst l)" "fst l \<noteq> temporary l rnd"
    using assms(3,4) good_owner_read [OF assms(6)] isOwnerFileName_owner assms(6) by (auto simp: good_owner_def)
  have s: "filter (\<lambda>e. fst e \<noteq> temporary l rnd) [(fst l, Lock_file (serializeOwner owner))] = [(fst l, Lock_file (serializeOwner owner))]"
    using o(4) by simp
  show ?thesis
    using assms(1,2,7) d o s unfolding temporary_def
    by (simp add: works_calls_simps run_defs heartbeat_def renew_def readOwnerState_def sameOwner_def plain_file_def
        pfinally_def lock_names_def entries_of_def image_iff)
qed

definition race_events :: "actor \<Rightarrow> actor \<Rightarrow> string \<Rightarrow> lock_event list" where
  "race_events a b \<nu> = Release a # works_calls a [] 3 @ acquire_events b \<nu> @ works_calls a [] 1 @
     Release b # works_calls b [] 4 @ [Do_turn b] @ works_calls a [] 1 @ [Do_turn a]"

lemma release_first:
  assumes "ls_actor s a = Holding l None" "alive a (ls_world s)" "hex_text 32 (lo_nonce (snd l))"
    "fst l = ownerFileName (lo_nonce (snd l))"
    "entries_of L (ls_world s) = [(fst l, Lock_file (serializeOwner owner))]" "good_owner (lo_nonce (snd l)) p owner"
  shows "\<exists>w k. (\<forall>evs. lock_run L (Release a # works_calls a [] 3 @ evs) s =
       lock_run L evs (s\<lparr>ls_world := w, ls_actor := (ls_actor s)(a := Releasing l (Call (Rmdir (lockDirectory L)) k))\<rparr>)) \<and>
     lw_drawn w = lw_drawn (ls_world s) \<and> lw_live w = lw_live (ls_world s) \<and> lw_pid w = lw_pid (ls_world s) \<and>
     lw_faulty w = lw_faulty (ls_world s) \<and> entries_of L w = [] \<and> (\<forall>d. d \<noteq> lockDirectory L \<longrightarrow> lw_fs w d = lw_fs (ls_world s) d) \<and>
     lw_fs w (lockDirectory L) \<noteq> None \<and>
     k Replied = Done () \<and>
     (\<exists>k'. k (Failed ''ENOTEMPTY'') = Call (Readdir (lockDirectory L)) k' \<and> k' (Failed ''ENOENT'') = Throw (Lock_error Lock_compromised))"
proof -
  obtain t where d: "lw_fs (ls_world s) (lockDirectory L) = Some \<lparr>ld_entries = [(fst l, Lock_file (serializeOwner owner))], ld_mtime = t\<rparr>"
    by (rule owned_dir [OF assms(5)])
  have o: "owner_of_text (fst l) (serializeOwner owner) = Owner_valid (fst l) owner" "lo_nonce owner = lo_nonce (snd l)"
    "isOwnerFileName (fst l)"
    using assms(3,4) good_owner_read [OF assms(6)] isOwnerFileName_owner assms(6) by (auto simp: good_owner_def)
  show ?thesis
    apply (intro exI [of _ "set_entries (lockDirectory L) [] (ls_world s)"] exI)
    apply (rule conjI, rule allI)
    using assms(1,2) d o
     apply (simp add: works_calls_simps run_defs release_def releaseOwner_def readOwnerState_def sameOwner_def plain_file_def
        removeEmptyDirectory_def del_entry_def)
    using assms(1,2) d o
     apply (simp add: works_calls_simps run_defs release_def releaseOwner_def readOwnerState_def sameOwner_def plain_file_def
        removeEmptyDirectory_def del_entry_def entries_of_def hasErrorCode_def)
    done
qed

text \<open>After that, another actor takes the lock and gives it back before the first one looks again.\<close>

lemma release_race_run:
  assumes "ls_actor s a = Holding l None" "alive a (ls_world s)" "hex_text 32 (lo_nonce (snd l))"
    "fst l = ownerFileName (lo_nonce (snd l))"
    "entries_of L (ls_world s) = [(fst l, Lock_file (serializeOwner owner))]" "good_owner (lo_nonce (snd l)) p owner"
    "a \<noteq> b" "ls_actor s b = Idle" "alive b (ls_world s)" "lc_identity L \<noteq> []" "hex_text 32 \<nu>" "lw_drawn (ls_world s) \<nu> = None"
    "lw_fs (ls_world s) (candidateDirectory L (lw_pid (ls_world s) (act_process b)) \<nu>) = None"
  shows "\<exists>s'. lock_run L (race_events a b \<nu>) s = Some s' \<and> lw_faulty (ls_world s') = lw_faulty (ls_world s) \<and>
    ls_actor s' a = Ended (Some (Lock_error Lock_compromised)) \<and> ls_actor s' b = Ended None"
proof -
  obtain w k k' where r: "\<And>evs. lock_run L (Release a # works_calls a [] 3 @ evs) s =
       lock_run L evs (s\<lparr>ls_world := w, ls_actor := (ls_actor s)(a := Releasing l (Call (Rmdir (lockDirectory L)) k))\<rparr>)"
     "lw_drawn w = lw_drawn (ls_world s)" "lw_live w = lw_live (ls_world s)" "lw_pid w = lw_pid (ls_world s)"
     "lw_faulty w = lw_faulty (ls_world s)" "entries_of L w = []" "\<And>d. d \<noteq> lockDirectory L \<Longrightarrow> lw_fs w d = lw_fs (ls_world s) d"
     "k (Failed ''ENOTEMPTY'') = Call (Readdir (lockDirectory L)) k'" "k' (Failed ''ENOENT'') = Throw (Lock_error Lock_compromised)"
    using release_first [OF assms(1-6)] by metis
  let ?s = "s\<lparr>ls_world := w, ls_actor := (ls_actor s)(a := Releasing l (Call (Rmdir (lockDirectory L)) k))\<rparr>"
  let ?o = "new_owner L b \<nu> w"
  let ?t = "?s\<lparr>ls_world := acquired L b \<nu> w, ls_actor := (ls_actor ?s)(b := Holding (ownerFileName \<nu>, ?o) None)\<rparr>"
  have acq: "lock_run L (acquire_events b \<nu>) ?s = Some ?t"
    using acquire_run [of ?s b L \<nu>] assms r(2-7) by (simp add: alive_def)
  have o: "owner_of_text (ownerFileName \<nu>) (serializeOwner ?o) = Owner_valid (ownerFileName \<nu>) ?o" "lo_nonce ?o = \<nu>"
    "isOwnerFileName (ownerFileName \<nu>)"
    using good_owner_read [OF good_new_owner [OF assms(10,11)]] isOwnerFileName_owner [OF assms(11)] by (auto simp: new_owner_def)
  have "lock_run L (race_events a b \<nu>) s = lock_run L (works_calls a [] 1 @ Release b # works_calls b [] 4 @ [Do_turn b] @ works_calls a [] 1 @ [Do_turn a]) ?t"
    by (simp only: race_events_def append_Cons r(1) run_append [of L "acquire_events b \<nu>"] acq option.case append_Nil)
  also have "\<exists>s'. \<dots> = Some s' \<and> lw_faulty (ls_world s') = lw_faulty (ls_world s) \<and>
    ls_actor s' a = Ended (Some (Lock_error Lock_compromised)) \<and> ls_actor s' b = Ended None"
    using assms(2,7,9) r(3,5,8,9) o
    by (simp add: works_calls_simps run_defs release_def releaseOwner_def readOwnerState_def sameOwner_def plain_file_def
        removeEmptyDirectory_def del_entry_def acquired_def turn_def)
  finally show ?thesis .
qed

section \<open>Taking a lock, and losing it\<close>

text \<open>What an actor does by itself, when all its calls work.\<close>

definition own_event :: "actor \<Rightarrow> lock_event \<Rightarrow> bool" where
  "own_event a ev \<longleftrightarrow> ev = Start_acquire a \<or> ev = Do_turn a \<or> (\<exists>x. ev = Do_call a (Works x False))"

lemma own_events: "list_all (own_event a) (acquire_events a \<nu>)" "list_all (own_event a) (reclaim_events a \<nu>1 \<nu>2)"
  by (auto simp: own_event_def acquire_events_def reclaim_events_def works_calls_def list_all_iff)


text \<open>C25 (release_race): A release can fail with \<open>lock_compromised\<close> although no call failed and the lock was never lost:
  between its \<open>rmdir\<close>, which finds the lock of another actor, and its last look, that actor gives the lock back.\<close>

theorem release_race:
  assumes "ls_actor s a = Holding l None" "alive a (ls_world s)" "hex_text 32 (lo_nonce (snd l))"
    "fst l = ownerFileName (lo_nonce (snd l))"
    "entries_of L (ls_world s) = [(fst l, Lock_file (serializeOwner owner))]" "good_owner (lo_nonce (snd l)) p owner"
    "a \<noteq> b" "ls_actor s b = Idle" "alive b (ls_world s)" "lc_identity L \<noteq> []" "hex_text 32 \<nu>" "lw_drawn (ls_world s) \<nu> = None"
    "lw_fs (ls_world s) (candidateDirectory L (lw_pid (ls_world s) (act_process b)) \<nu>) = None"
  shows "\<exists>evs s'. lock_run L evs s = Some s' \<and> lw_faulty (ls_world s') = lw_faulty (ls_world s) \<and>
    ls_actor s' a = Ended (Some (Lock_error Lock_compromised)) \<and> ls_actor s' b = Ended None"
  using release_race_run [OF assms] by blast

section \<open>Concrete histories\<close>

definition demo_lock :: lock_config where
  "demo_lock = \<lparr>lc_hash = (\<lambda>_. ''h''), lc_root = ''/t'', lc_identity = ''w'', lc_leaseMs = 30000, lc_retryMs = 50, lc_timeoutMs = 100\<rparr>"

definition demo_nonce :: "char \<Rightarrow> string" where
  "demo_nonce c = replicate 31 (CHR ''0'') @ [c]"

lemma demo_nonce_facts [simp]:
  "c \<in> set ''0123456789abcdef'' \<Longrightarrow> hex_text 32 (demo_nonce c)" "demo_nonce c = demo_nonce c' \<longleftrightarrow> c = c'"
  by (simp_all add: hex_text_def demo_nonce_def list_all_iff)

text \<open>Two processes, of which the first takes the lock.\<close>

definition demo_start :: lock_system where
  "demo_start = the (lock_run demo_lock [Spawn 2 100, Spawn 3 200] empty_system)"

definition demo_held :: lock_system where
  "demo_held = the (lock_run demo_lock (acquire_events (Actor 2 0) (demo_nonce (CHR ''1''))) demo_start)"

lemmas demo_simps = demo_start_def empty_system_def demo_lock_def alive_def entries_of_def

lemma demo_start_run: "lock_run demo_lock [Spawn 2 100, Spawn 3 200] empty_system = Some demo_start"
  by (simp add: demo_simps)

lemma demo_start_facts:
  "ls_actor demo_start a = Idle" "alive (Actor 2 0) (ls_world demo_start)" "alive (Actor 3 0) (ls_world demo_start)"
  "lw_drawn (ls_world demo_start) \<nu> = None" "lw_fs (ls_world demo_start) d = None" "lw_faulty (ls_world demo_start) = False"
  "entries_of demo_lock (ls_world demo_start) = []" "lw_pid (ls_world demo_start) 2 = 100" "lw_pid (ls_world demo_start) 3 = 200"
  "set (lw_live (ls_world demo_start)) = {2, 3}" "lc_identity demo_lock \<noteq> []" "lw_now (ls_world demo_start) = 0"
  by (auto simp: demo_simps)

abbreviation demo_owner :: lock_owner where
  "demo_owner \<equiv> new_owner demo_lock (Actor 2 0) (demo_nonce (CHR ''1'')) (ls_world demo_start)"

lemma demo_held_run:
  "lock_run demo_lock (acquire_events (Actor 2 0) (demo_nonce (CHR ''1''))) demo_start = Some demo_held"
  "demo_held = demo_start\<lparr>ls_world := acquired demo_lock (Actor 2 0) (demo_nonce (CHR ''1'')) (ls_world demo_start),
     ls_actor := (ls_actor demo_start)(Actor 2 0 := Holding (ownerFileName (demo_nonce (CHR ''1'')), demo_owner) None)\<rparr>"
  using acquire_run [of demo_start "Actor 2 0" demo_lock "demo_nonce (CHR ''1'')"] demo_start_facts
  by (simp_all add: demo_held_def)

lemma demo_held_reach: "lock_reach demo_lock demo_held"
  using lock_run_reach [OF lock_run_reach [OF lock_init demo_start_run] demo_held_run(1)] .

lemma demo_held_facts:
  "ls_actor demo_held (Actor 2 0) = Holding (ownerFileName (demo_nonce (CHR ''1'')), demo_owner) None"
  "ls_actor demo_held (Actor 3 0) = Idle" "alive (Actor 2 0) (ls_world demo_held)" "alive (Actor 3 0) (ls_world demo_held)"
  "entries_of demo_lock (ls_world demo_held) = [(ownerFileName (demo_nonce (CHR ''1'')), Lock_file (serializeOwner demo_owner))]"
  "lw_drawn (ls_world demo_held) \<nu> = (if \<nu> = demo_nonce (CHR ''1'') then Some (Actor 2 0) else None)"
  "lw_fs (ls_world demo_held) (candidateDirectory demo_lock q \<nu>) = None"
  "lo_nonce demo_owner = demo_nonce (CHR ''1'')" "lo_pid demo_owner = 100" "lo_identity demo_owner = lc_identity demo_lock"
  "lo_expires demo_owner = JInt 30000"
  "good_owner (demo_nonce (CHR ''1'')) 100 demo_owner" "lw_live (ls_world demo_held) = lw_live (ls_world demo_start)"
  "lw_pid (ls_world demo_held) = lw_pid (ls_world demo_start)"
  using demo_start_facts good_new_owner [of demo_lock "demo_nonce (CHR ''1'')" "ls_world demo_start" "Actor 2 0"]
  by (auto simp: demo_held_run(2) acquired_def alive_def entries_of_def new_owner_def demo_lock_def)

theorem lock_excludes_witness:
  "lease_of (ls_actor demo_held (Actor 2 0)) = Some (ownerFileName (demo_nonce (CHR ''1'')), demo_owner) \<and>
    ownerFileName (demo_nonce (CHR ''1'')) \<in> lock_names demo_lock (ls_world demo_held) \<and>
    lease_of (ls_actor demo_held (Actor 3 0)) = None"
proof -
  have l: "lease_of (ls_actor demo_held (Actor 2 0)) = Some (ownerFileName (demo_nonce (CHR ''1'')), demo_owner)"
    using demo_held_facts(1) by (simp add: lease_of_def)
  show ?thesis
    using lock_excludes [OF demo_held_reach demo_held_facts(3) l] l demo_held_facts(4)
    by (cases "lease_of (ls_actor demo_held (Actor 3 0))") auto
qed

theorem release_race_witness:
  "\<exists>evs s'. lock_run demo_lock evs demo_held = Some s' \<and> lw_faulty (ls_world s') = lw_faulty (ls_world demo_held) \<and>
    ls_actor s' (Actor 2 0) = Ended (Some (Lock_error Lock_compromised)) \<and> ls_actor s' (Actor 3 0) = Ended None"
  by (rule release_race [where l = "(ownerFileName (demo_nonce (CHR ''1'')), demo_owner)" and owner = demo_owner and p = 100
        and \<nu> = "demo_nonce (CHR ''2'')"])
    (use demo_held_facts demo_start_facts(11) in \<open>simp_all\<close>)

text \<open>The first process dies, and its lease runs out.\<close>

definition demo_stale :: lock_system where
  "demo_stale = the (lock_run demo_lock [Die 2, Tick 40000] demo_held)"


text \<open>The first process dies during a renewal.\<close>

theorem lock_stuck_witness:
  "\<exists>s. lock_reach demo_lock s \<and> alive (Actor 3 0) (ls_world s) \<and> lease_of (ls_actor s (Actor 3 0)) = None \<and>
     left_behind demo_lock (demo_nonce (CHR ''1'')) (''.renew.'' @ demo_nonce (CHR ''1'') @ ''.'' @ replicate 16 (CHR ''0'')) (ls_world s)"
proof -
  have hex16: "hex_text 16 (replicate 16 (CHR ''0''))" by (simp add: hex_text_def list_all_iff)
  let ?l = "(ownerFileName (demo_nonce (CHR ''1'')), demo_owner)" and ?r = "replicate 16 (CHR ''0'')"
  obtain s1 where s1: "lock_run demo_lock (Heartbeat (Actor 2 0) # works_calls (Actor 2 0) ?r 5) demo_held = Some s1"
    "temporary ?l ?r \<in> lock_names demo_lock (ls_world s1)"
    "lw_drawn (ls_world s1) = lw_drawn (ls_world demo_held)" "lw_live (ls_world s1) = lw_live (ls_world demo_held)"
    using heartbeat_run [OF demo_held_facts(1,3), of demo_lock demo_owner 100 ?r] demo_held_facts(5,8,12) hex16
    by (auto simp del: lock_run.simps)
  let ?s = "the (lock_run demo_lock [Die 2] s1)"
  have r1: "lock_reach demo_lock s1" using lock_run_reach [OF demo_held_reach s1(1)] .
  have r: "lock_reach demo_lock ?s" using lock_run_reach [OF r1, of "[Die 2]" ?s] by simp
  have "left_behind demo_lock (demo_nonce (CHR ''1'')) (temporary ?l ?r) (ls_world ?s)"
    using s1 demo_held_facts(6,8) temporary_names(1) [of ?l ?r]
    by (auto simp: left_behind_def dead_nonce_def alive_def lock_names_def entries_of_def)
  moreover have "alive (Actor 3 0) (ls_world ?s)" using s1(4) demo_held_facts(4) by (simp add: alive_def)
  moreover note lock_stuck [OF r, of "demo_nonce (CHR ''1'')" "temporary ?l ?r" "[]" ?s "Actor 3 0"]
  ultimately show ?thesis using r demo_held_facts(8) unfolding temporary_def by fastforce
qed

end
