(* ===== verification/LockQueue.thy ===== *)
theory LockQueue
  imports WorkspaceLock
begin

text \<open>
  The queue of \<open>src/src/workspace-lock.ts\<close> in front of the lock: the calls of one process for one workspace
  run one after the other.
\<close>

section \<open>The calls of one process\<close>

text \<open>\<open>withLock\<close> lets the calls of one process for the same workspace run one after the other
  (\<open>enqueue\<close>): each waits for the promise of the one before it, and resolves its own at the end. A promise is
  the number of its call; the map has the last one of every workspace.\<close>

datatype queue_phase = Waiting | Running | Finished

record queued_call =
  qc_identity :: string
  qc_previous :: "nat option"
  qc_phase :: queue_phase

record process_queues =
  pq_last :: "string \<Rightarrow> nat option"
  pq_calls :: "queued_call list"

definition resolved :: "process_queues \<Rightarrow> nat \<Rightarrow> bool" where
  "resolved Q i \<longleftrightarrow> i < length (pq_calls Q) \<and> qc_phase (pq_calls Q ! i) = Finished"

definition enqueue_enter :: "string \<Rightarrow> process_queues \<Rightarrow> process_queues" where
  "enqueue_enter workspaceIdentity Q =
     (let previous = pq_last Q workspaceIdentity; current = length (pq_calls Q)
      in Q\<lparr>pq_last := (pq_last Q)(workspaceIdentity \<mapsto> current),
           pq_calls := pq_calls Q @ [\<lparr>qc_identity = workspaceIdentity, qc_previous = previous, qc_phase = Waiting\<rparr>]\<rparr>)"

definition enqueue_run :: "nat \<Rightarrow> process_queues \<Rightarrow> process_queues option" where
  "enqueue_run i Q =
     (if i < length (pq_calls Q) \<and> qc_phase (pq_calls Q ! i) = Waiting \<and>
         (case qc_previous (pq_calls Q ! i) of None \<Rightarrow> True | Some p \<Rightarrow> resolved Q p)
      then Some (Q\<lparr>pq_calls := (pq_calls Q)[i := (pq_calls Q ! i)\<lparr>qc_phase := Running\<rparr>]\<rparr>) else None)"

definition enqueue_finish :: "nat \<Rightarrow> process_queues \<Rightarrow> process_queues option" where
  "enqueue_finish i Q =
     (if i < length (pq_calls Q) \<and> qc_phase (pq_calls Q ! i) = Running
      then (let identity = qc_identity (pq_calls Q ! i)
            in Some (Q\<lparr>pq_calls := (pq_calls Q)[i := (pq_calls Q ! i)\<lparr>qc_phase := Finished\<rparr>],
                       pq_last := (if pq_last Q identity = Some i then (pq_last Q)(identity := None) else pq_last Q)\<rparr>))
      else None)"

text \<open>What \<open>withLock\<close> does with the lease when its function has returned or thrown.\<close>

definition withLock_finally :: "lock_config \<Rightarrow> bool \<Rightarrow> actor_state \<Rightarrow> actor_state" where
  "withLock_finally L unconfirmedExit st = (if unconfirmedExit then st else release L st)"

definition phase_of :: "process_queues \<Rightarrow> nat \<Rightarrow> queue_phase" where
  "phase_of Q i = qc_phase (pq_calls Q ! i)"

inductive queue_reach :: "process_queues \<Rightarrow> bool" where
  queue_init: "queue_reach \<lparr>pq_last = (\<lambda>_. None), pq_calls = []\<rparr>"
| queue_enter: "queue_reach Q \<Longrightarrow> queue_reach (enqueue_enter w Q)"
| queue_run: "queue_reach Q \<Longrightarrow> enqueue_run i Q = Some Q' \<Longrightarrow> queue_reach Q'"
| queue_finish: "queue_reach Q \<Longrightarrow> enqueue_finish i Q = Some Q' \<Longrightarrow> queue_reach Q'"

text \<open>Every call waits for the latest earlier one of its workspace, and the calls that started have all
  earlier ones behind them.\<close>

definition before_in :: "process_queues \<Rightarrow> nat \<Rightarrow> nat \<Rightarrow> bool" where
  "before_in Q j i \<longleftrightarrow> j < i \<and> i < length (pq_calls Q) \<and> qc_identity (pq_calls Q ! j) = qc_identity (pq_calls Q ! i)"

definition queue_ordered :: "process_queues \<Rightarrow> bool" where
  "queue_ordered Q \<longleftrightarrow> (\<forall>i j. before_in Q j i \<and> phase_of Q i \<noteq> Waiting \<longrightarrow> phase_of Q j = Finished)"

definition queue_linked :: "process_queues \<Rightarrow> bool" where
  "queue_linked Q \<longleftrightarrow> (\<forall>i j. before_in Q j i \<longrightarrow>
     (case qc_previous (pq_calls Q ! i) of None \<Rightarrow> phase_of Q j = Finished | Some p \<Rightarrow> j = p \<or> before_in Q j p))"

definition queue_last :: "process_queues \<Rightarrow> bool" where
  "queue_last Q \<longleftrightarrow> (\<forall>i < length (pq_calls Q).
     (case pq_last Q (qc_identity (pq_calls Q ! i)) of None \<Rightarrow> phase_of Q i = Finished | Some l \<Rightarrow> i = l \<or> before_in Q i l))"

definition queue_ranges :: "process_queues \<Rightarrow> bool" where
  "queue_ranges Q \<longleftrightarrow>
     (\<forall>i < length (pq_calls Q). \<forall>p. qc_previous (pq_calls Q ! i) = Some p \<longrightarrow> before_in Q p i) \<and>
     (\<forall>w l. pq_last Q w = Some l \<longrightarrow> l < length (pq_calls Q) \<and> qc_identity (pq_calls Q ! l) = w)"

lemma set_phase:
  assumes "i < length (pq_calls Q)" "Q' = Q\<lparr>pq_calls := (pq_calls Q)[i := (pq_calls Q ! i)\<lparr>qc_phase := ph\<rparr>], pq_last := lst\<rparr>"
  shows "before_in Q' = before_in Q" "phase_of Q' j = (if j = i then ph else phase_of Q j)"
    "qc_previous (pq_calls Q' ! j) = qc_previous (pq_calls Q ! j)" "qc_identity (pq_calls Q' ! j) = qc_identity (pq_calls Q ! j)"
    "length (pq_calls Q') = length (pq_calls Q)" "pq_last Q' = lst"
  using assms by (auto simp: before_in_def phase_of_def nth_list_update fun_eq_iff)

lemma queue_inv_enter:
  assumes "queue_ordered Q" "queue_linked Q" "queue_last Q"
  shows "queue_ordered (enqueue_enter w Q) \<and> queue_linked (enqueue_enter w Q) \<and> queue_last (enqueue_enter w Q)"
proof -
  let ?Q = "enqueue_enter w Q" and ?n = "length (pq_calls Q)"
  have n: "pq_calls ?Q ! ?n = \<lparr>qc_identity = w, qc_previous = pq_last Q w, qc_phase = Waiting\<rparr>" "length (pq_calls ?Q) = Suc ?n"
    "\<And>i. i < ?n \<Longrightarrow> pq_calls ?Q ! i = pq_calls Q ! i" "pq_last ?Q = (pq_last Q)(w \<mapsto> ?n)"
    by (simp_all add: enqueue_enter_def Let_def nth_append)
  have b: "before_in ?Q j i \<longleftrightarrow> before_in Q j i \<or> (i = ?n \<and> j < ?n \<and> qc_identity (pq_calls Q ! j) = w)" for i j
    using n by (auto simp: before_in_def less_Suc_eq)
  have ph: "phase_of ?Q i = (if i = ?n then Waiting else phase_of Q i)" if "i < Suc ?n" for i
    using n that by (auto simp: phase_of_def less_Suc_eq)
  have lt: "before_in Q j i \<Longrightarrow> i < ?n \<and> j < ?n" for i j by (simp add: before_in_def)
  have "queue_ordered ?Q"
    unfolding queue_ordered_def
  proof (intro allI impI, elim conjE)
    fix i j assume h: "before_in ?Q j i" "phase_of ?Q i \<noteq> Waiting"
    then have q: "before_in Q j i" using b ph by (metis lessI)
    then show "phase_of ?Q j = Finished"
      using h(2) ph [of i] ph [of j] lt [OF q] assms(1) unfolding queue_ordered_def by auto
  qed
  moreover have "queue_linked ?Q"
    unfolding queue_linked_def
  proof (intro allI impI)
    fix i j assume ij: "before_in ?Q j i"
    show "case qc_previous (pq_calls ?Q ! i) of None \<Rightarrow> phase_of ?Q j = Finished | Some p \<Rightarrow> j = p \<or> before_in ?Q j p"
    proof (cases "i = ?n")
      case True
      then have j: "j < ?n" "qc_identity (pq_calls Q ! j) = w" using ij b lt by auto
      then have "case pq_last Q w of None \<Rightarrow> phase_of Q j = Finished | Some l \<Rightarrow> j = l \<or> before_in Q j l"
        using assms(3) by (auto simp: queue_last_def)
      then show ?thesis using True n(1) j ph b by (auto split: option.splits)
    next
      case False
      then have q: "before_in Q j i" using ij b by blast
      then have "case qc_previous (pq_calls Q ! i) of None \<Rightarrow> phase_of Q j = Finished | Some p \<Rightarrow> j = p \<or> before_in Q j p"
        using assms(2) by (simp add: queue_linked_def)
      then show ?thesis using n(3) lt [OF q] ph b by (auto split: option.splits)
    qed
  qed
  moreover have "queue_last ?Q"
    unfolding queue_last_def
  proof (intro allI impI)
    fix i assume i: "i < length (pq_calls ?Q)"
    show "case pq_last ?Q (qc_identity (pq_calls ?Q ! i)) of None \<Rightarrow> phase_of ?Q i = Finished | Some l \<Rightarrow> i = l \<or> before_in ?Q i l"
    proof (cases "i = ?n")
      case True
      then show ?thesis using n by simp
    next
      case False
      then have "i < ?n" using i n(2) by simp
      then have "case pq_last Q (qc_identity (pq_calls Q ! i)) of None \<Rightarrow> phase_of Q i = Finished | Some l \<Rightarrow> i = l \<or> before_in Q i l"
        using assms(3) by (simp add: queue_last_def)
      then show ?thesis using n(3,4) \<open>i < ?n\<close> ph b by (auto split: option.splits)
    qed
  qed
  ultimately show ?thesis by blast
qed

lemma linked_keep:
  assumes "queue_linked Q" "before_in Q' = before_in Q" "\<And>j. qc_previous (pq_calls Q' ! j) = qc_previous (pq_calls Q ! j)"
    "\<And>j. phase_of Q j = Finished \<Longrightarrow> phase_of Q' j = Finished"
  shows "queue_linked Q'"
  unfolding queue_linked_def assms(2,3)
proof (intro allI impI)
  fix i j assume "before_in Q j i"
  then have "case qc_previous (pq_calls Q ! i) of None \<Rightarrow> phase_of Q j = Finished | Some p \<Rightarrow> j = p \<or> before_in Q j p"
    using assms(1) unfolding queue_linked_def by blast
  then show "case qc_previous (pq_calls Q ! i) of None \<Rightarrow> phase_of Q' j = Finished | Some p \<Rightarrow> j = p \<or> before_in Q j p"
    using assms(4) by (simp split: option.splits)
qed

lemma queue_inv_run:
  assumes "queue_ordered Q" "queue_linked Q" "queue_last Q" "enqueue_run i Q = Some Q'"
  shows "queue_ordered Q' \<and> queue_linked Q' \<and> queue_last Q'"
proof -
  have i: "i < length (pq_calls Q)" "phase_of Q i = Waiting"
    "case qc_previous (pq_calls Q ! i) of None \<Rightarrow> True | Some p \<Rightarrow> phase_of Q p = Finished"
    and Q': "Q' = Q\<lparr>pq_calls := (pq_calls Q)[i := (pq_calls Q ! i)\<lparr>qc_phase := Running\<rparr>], pq_last := pq_last Q\<rparr>"
    using assms(4) by (auto simp: enqueue_run_def phase_of_def resolved_def split: if_splits option.splits)
  note s = set_phase [OF i(1) Q']
  have fin: "phase_of Q j = Finished" if "before_in Q j i" for j
  proof -
    have l: "case qc_previous (pq_calls Q ! i) of None \<Rightarrow> phase_of Q j = Finished | Some p \<Rightarrow> j = p \<or> before_in Q j p"
      using assms(2) that unfolding queue_linked_def by blast
    show ?thesis
    proof (cases "qc_previous (pq_calls Q ! i)")
      case (Some p)
      then have "j = p \<or> before_in Q j p" "phase_of Q p = Finished" using l i(3) by auto
      moreover have "phase_of Q p \<noteq> Waiting" using \<open>phase_of Q p = Finished\<close> by simp
      ultimately show ?thesis using assms(1) unfolding queue_ordered_def by blast
    qed (use l in simp)
  qed
  have keep: "phase_of Q' j = Finished" if "phase_of Q j = Finished" for j using that i(2) s(2) by auto
  have "queue_ordered Q'" using assms(1) fin keep s(1,2) by (auto simp: queue_ordered_def)
  moreover have "queue_linked Q'" by (rule linked_keep [OF assms(2) s(1,3)]) (simp add: keep)
  moreover have "queue_last Q'" using assms(3) keep s(1,4-6) by (fastforce simp: queue_last_def split: option.splits)
  ultimately show ?thesis by blast
qed

lemma queue_inv_finish:
  assumes "queue_ordered Q" "queue_linked Q" "queue_last Q" "enqueue_finish i Q = Some Q'"
  shows "queue_ordered Q' \<and> queue_linked Q' \<and> queue_last Q'"
proof -
  let ?w = "qc_identity (pq_calls Q ! i)"
  let ?last = "if pq_last Q ?w = Some i then (pq_last Q)(?w := None) else pq_last Q"
  have i: "i < length (pq_calls Q)" "phase_of Q i = Running"
    and Q': "Q' = Q\<lparr>pq_calls := (pq_calls Q)[i := (pq_calls Q ! i)\<lparr>qc_phase := Finished\<rparr>], pq_last := ?last\<rparr>"
    using assms(4) by (auto simp: enqueue_finish_def phase_of_def Let_def split: if_splits)
  note s = set_phase [OF i(1) Q']
  have keep: "phase_of Q' j = Finished" if "phase_of Q j = Finished \<or> j = i" for j using that s(2) by auto
  have w: "phase_of Q i \<noteq> Waiting" using i(2) by simp
  have "queue_ordered Q'"
    unfolding queue_ordered_def s(1)
  proof (intro allI impI, elim conjE)
    fix j k assume "before_in Q j k" "phase_of Q' k \<noteq> Waiting"
    then show "phase_of Q' j = Finished" using assms(1) w keep s(2) unfolding queue_ordered_def by metis
  qed
  moreover have "queue_linked Q'" by (rule linked_keep [OF assms(2) s(1,3)]) (simp add: keep)
  moreover have "queue_last Q'"
    unfolding queue_last_def s(1,4,5,6)
  proof (intro allI impI)
    fix j assume "j < length (pq_calls Q)"
    then have l: "case pq_last Q (qc_identity (pq_calls Q ! j)) of None \<Rightarrow> phase_of Q j = Finished | Some l \<Rightarrow> j = l \<or> before_in Q j l"
      using assms(3) by (simp add: queue_last_def)
    show "case ?last (qc_identity (pq_calls Q ! j)) of None \<Rightarrow> phase_of Q' j = Finished | Some l \<Rightarrow> j = l \<or> before_in Q j l"
    proof (cases "pq_last Q ?w = Some i \<and> qc_identity (pq_calls Q ! j) = ?w")
      case True
      then have "j = i \<or> before_in Q j i" using l by simp
      then have "phase_of Q' j = Finished" using keep assms(1) w unfolding queue_ordered_def by blast
      then show ?thesis using True by simp
    next
      case False
      then show ?thesis using l keep by (auto split: option.splits if_splits)
    qed
  qed
  ultimately show ?thesis by blast
qed

lemma queue_ranges_step:
  "queue_ranges Q \<Longrightarrow> queue_ranges (enqueue_enter w Q)"
  "queue_ranges Q \<Longrightarrow> enqueue_run i Q = Some Q' \<Longrightarrow> queue_ranges Q'"
  "queue_ranges Q \<Longrightarrow> enqueue_finish i Q = Some Q' \<Longrightarrow> queue_ranges Q'"
proof -
  assume q: "queue_ranges Q"
  have "qc_previous (pq_calls (enqueue_enter w Q) ! k) = Some p \<Longrightarrow> before_in (enqueue_enter w Q) p k"
    if "k < length (pq_calls (enqueue_enter w Q))" for k p
    using that q unfolding queue_ranges_def by (auto simp: enqueue_enter_def before_in_def nth_append Let_def less_Suc_eq)
  moreover have "pq_last (enqueue_enter w Q) v = Some l \<Longrightarrow> l < length (pq_calls (enqueue_enter w Q)) \<and> qc_identity (pq_calls (enqueue_enter w Q) ! l) = v" for v l
    using q unfolding queue_ranges_def by (auto simp: enqueue_enter_def nth_append Let_def less_Suc_eq split: if_splits)
  ultimately show "queue_ranges (enqueue_enter w Q)" unfolding queue_ranges_def by blast
next
  assume q: "queue_ranges Q" "enqueue_run i Q = Some Q'"
  then have i: "i < length (pq_calls Q)"
    and Q': "Q' = Q\<lparr>pq_calls := (pq_calls Q)[i := (pq_calls Q ! i)\<lparr>qc_phase := Running\<rparr>], pq_last := pq_last Q\<rparr>"
    by (auto simp: enqueue_run_def split: if_splits)
  show "queue_ranges Q'" using q(1) unfolding queue_ranges_def set_phase(1,3-6) [OF i Q'] .
next
  assume q: "queue_ranges Q" "enqueue_finish i Q = Some Q'"
  let ?w = "qc_identity (pq_calls Q ! i)"
  have i: "i < length (pq_calls Q)"
    and Q': "Q' = Q\<lparr>pq_calls := (pq_calls Q)[i := (pq_calls Q ! i)\<lparr>qc_phase := Finished\<rparr>],
       pq_last := if pq_last Q ?w = Some i then (pq_last Q)(?w := None) else pq_last Q\<rparr>"
    using q(2) by (auto simp: enqueue_finish_def Let_def split: if_splits)
  have last: "(if pq_last Q ?w = Some i then (pq_last Q)(?w := None) else pq_last Q) v = Some l \<Longrightarrow> pq_last Q v = Some l" for v l
    by (simp split: if_splits)
  show "queue_ranges Q'" using q(1) last unfolding queue_ranges_def set_phase(1,3-6) [OF i Q'] by blast
qed

lemma queue_inv_reach: "queue_reach Q \<Longrightarrow> queue_ordered Q \<and> queue_linked Q \<and> queue_last Q \<and> queue_ranges Q"
proof (induction rule: queue_reach.induct)
  case queue_init
  show ?case by (simp add: queue_ordered_def queue_linked_def queue_last_def before_in_def queue_ranges_def)
next
  case (queue_enter Q w)
  then show ?case using queue_inv_enter queue_ranges_step(1) by blast
next
  case (queue_run Q i Q')
  then show ?case using queue_inv_run queue_ranges_step(2) by blast
next
  case (queue_finish Q i Q')
  then show ?case using queue_inv_finish queue_ranges_step(3) by blast
qed

text \<open>C24 (queue_exclusive): Of the calls of one process for a workspace, one starts only when all that came before it have
  finished, so at most one runs at a time; and a waiting call before which all have finished can start.\<close>

theorem queue_exclusive:
  assumes "queue_reach Q" "i < length (pq_calls Q)"
  shows "(qc_phase (pq_calls Q ! i) \<noteq> Waiting \<longrightarrow>
      (\<forall>j < i. qc_identity (pq_calls Q ! j) = qc_identity (pq_calls Q ! i) \<longrightarrow> qc_phase (pq_calls Q ! j) = Finished)) \<and>
    (qc_phase (pq_calls Q ! i) = Waiting \<and>
      (\<forall>j < i. qc_identity (pq_calls Q ! j) = qc_identity (pq_calls Q ! i) \<longrightarrow> qc_phase (pq_calls Q ! j) = Finished) \<longrightarrow>
      enqueue_run i Q \<noteq> None)"
proof -
  have q: "queue_ordered Q" "queue_ranges Q" using queue_inv_reach [OF assms(1)] by auto
  have "case qc_previous (pq_calls Q ! i) of None \<Rightarrow> True | Some p \<Rightarrow> resolved Q p"
    if "\<forall>j < i. qc_identity (pq_calls Q ! j) = qc_identity (pq_calls Q ! i) \<longrightarrow> qc_phase (pq_calls Q ! j) = Finished"
    using q(2) assms(2) that by (auto simp: queue_ranges_def resolved_def before_in_def split: option.splits)
  moreover have "qc_phase (pq_calls Q ! j) = Finished"
    if "qc_phase (pq_calls Q ! i) \<noteq> Waiting" "j < i" "qc_identity (pq_calls Q ! j) = qc_identity (pq_calls Q ! i)" for j
    using q(1) that assms(2) unfolding queue_ordered_def before_in_def phase_of_def by blast
  ultimately show ?thesis using assms(2) by (simp add: enqueue_run_def)
qed

text \<open>Two calls for one workspace: the first has finished, the second can run.\<close>

definition demo_queue :: process_queues where
  "demo_queue = the (enqueue_finish 0 (the (enqueue_run 0 (enqueue_enter ''w'' (enqueue_enter ''w''
     \<lparr>pq_last = (\<lambda>_. None), pq_calls = []\<rparr>)))))"

theorem queue_exclusive_witness:
  "queue_reach demo_queue \<and> qc_phase (pq_calls demo_queue ! 1) = Waiting \<and> enqueue_run 1 demo_queue \<noteq> None"
proof -
  let ?Q = "enqueue_enter ''w'' (enqueue_enter ''w'' \<lparr>pq_last = (\<lambda>_. None), pq_calls = []\<rparr>)"
  have d: "enqueue_run 0 ?Q = Some (the (enqueue_run 0 ?Q))" by (simp add: enqueue_run_def enqueue_enter_def)
  have f: "enqueue_finish 0 (the (enqueue_run 0 ?Q)) = Some demo_queue"
    by (simp add: demo_queue_def enqueue_run_def enqueue_enter_def enqueue_finish_def Let_def)
  have r: "queue_reach demo_queue"
    by (rule queue_finish [OF queue_run [OF queue_enter [OF queue_enter [OF queue_init]] d] f])
  have p: "qc_phase (pq_calls demo_queue ! 0) = Finished" "qc_phase (pq_calls demo_queue ! 1) = Waiting"
    "1 < length (pq_calls demo_queue)"
    by (simp_all add: demo_queue_def enqueue_run_def enqueue_enter_def enqueue_finish_def Let_def)
  show ?thesis using r p queue_exclusive [OF r p(3)] by simp
qed

end
